(* ===== verification/Prelude.thy ===== *)
theory Prelude
  imports Main "HOL-Library.Word" "HOL-Library.Char_ord" "HOL-Library.List_Lexorder"
begin

text \<open>
  Shared vocabulary of the development.

  \<^item> The results of fallible Rust code: \<open>Ok\<close>, \<open>Err\<close> and \<open>Panic\<close>. \<open>Panic\<close> also stands
    for an access outside a page buffer through a raw pointer, which Rust leaves undefined: no
    theorem of the development is about the state after a \<open>Panic\<close>.
  \<^item> Two ways to sequence stateful code: \<open>and_then\<close> for operations that always return, and
    \<open>bnd\<close> for actions that may loop (\<open>None\<close> is "does not return").
  \<^item> Byte buffers: little-endian integers, reading and overwriting a range of a buffer.
  \<^item> Slice operations that panic out of range, and the binary search of the standard library.

  Machine integers are words of their width (\<open>u8\<close>, \<open>u16\<close>, \<open>u32\<close>, \<open>u64\<close>) with the
  wrap-around of a release build; \<open>usize\<close> is \<open>nat\<close>; \<open>i32\<close> is \<open>int\<close> with its range and its
  conversions written out. A Rust \<open>String\<close> is the list of its UTF-8 bytes, as a HOL
  \<open>string\<close> (whose characters are bytes).
\<close>

named_theorems buf_simps \<open>reading back what was written to a byte buffer\<close>
named_theorems act_simps \<open>symbolic execution of actions\<close>

type_synonym u8 = "8 word"
type_synonym u16 = "16 word"
type_synonym u32 = "32 word"
type_synonym u64 = "64 word"
type_synonym bytes = "u8 list"

subsection \<open>Results\<close>

datatype ('e, 'a) res = Ok 'a | Err 'e | Panic

fun map_err :: "('e \<Rightarrow> 'f) \<Rightarrow> ('e, 'a) res \<Rightarrow> ('f, 'a) res" where
  "map_err f (Ok x) = Ok x"
| "map_err f (Err e) = Err (f e)"
| "map_err f Panic = Panic"

fun is_ok :: "('e, 'a) res \<Rightarrow> bool" where
  "is_ok (Ok x) = True"
| "is_ok (Err e) = False"
| "is_ok Panic = False"

fun res_bind :: "('e, 'a) res \<Rightarrow> ('a \<Rightarrow> ('e, 'b) res) \<Rightarrow> ('e, 'b) res" where
  "res_bind (Ok x) f = f x"
| "res_bind (Err e) f = Err e"
| "res_bind Panic f = Panic"

text \<open>\<open>ok_or o e\<close> is Rust's \<open>Option::ok_or\<close>.\<close>

fun ok_or :: "'a option \<Rightarrow> 'e \<Rightarrow> ('e, 'a) res" where
  "ok_or (Some x) e = Ok x"
| "ok_or None e = Err e"

lemma map_err_eq_Ok [simp]: "map_err f r = Ok x \<longleftrightarrow> r = Ok x"
  by (cases r) auto

lemma map_err_eq_Panic [simp]: "map_err f r = Panic \<longleftrightarrow> r = Panic"
  by (cases r) auto

lemma res_bind_eq_Ok: "res_bind r f = Ok y \<longleftrightarrow> (\<exists>x. r = Ok x \<and> f x = Ok y)"
  by (cases r) auto

lemma res_bind_eq_Panic: "res_bind r f = Panic \<longleftrightarrow> r = Panic \<or> (\<exists>x. r = Ok x \<and> f x = Panic)"
  by (cases r) auto

lemma is_ok_iff: "is_ok r \<longleftrightarrow> (\<exists>x. r = Ok x)"
  by (cases r) auto

subsection \<open>Sequencing operations that always return\<close>

text \<open>
  A stateful operation returns its result and the new state; the \<open>?\<close> operator stops at
  the first \<open>Err\<close>, keeping the state reached so far.
\<close>

fun and_then :: "('e, 'a) res \<times> 's \<Rightarrow> ('a \<Rightarrow> 's \<Rightarrow> ('e, 'b) res \<times> 's) \<Rightarrow> ('e, 'b) res \<times> 's" where
  "and_then (Ok x, s) k = k x s"
| "and_then (Err e, s) k = (Err e, s)"
| "and_then (Panic, s) k = (Panic, s)"

subsection \<open>Actions that may not return\<close>

type_synonym ('s, 'e, 'a) act = "'s \<Rightarrow> (('e, 'a) res \<times> 's) option"

definition ret :: "'a \<Rightarrow> ('s, 'e, 'a) act" where
  "ret x = (\<lambda>s. Some (Ok x, s))"

definition throw :: "'e \<Rightarrow> ('s, 'e, 'a) act" where
  "throw e = (\<lambda>s. Some (Err e, s))"

definition panic :: "('s, 'e, 'a) act" where
  "panic = (\<lambda>s. Some (Panic, s))"

definition total :: "('s \<Rightarrow> ('e, 'a) res \<times> 's) \<Rightarrow> ('s, 'e, 'a) act" where
  "total f = (\<lambda>s. Some (f s))"

definition of_res :: "('e, 'a) res \<Rightarrow> ('s, 'e, 'a) act" where
  "of_res r = (\<lambda>s. Some (r, s))"

text \<open>\<open>bnd m k\<close> runs \<open>m\<close> and passes its value on, as \<open>let x = m?; k x\<close> does.\<close>

definition bnd :: "('s, 'e, 'a) act \<Rightarrow> ('a \<Rightarrow> ('s, 'e, 'b) act) \<Rightarrow> ('s, 'e, 'b) act" where
  "bnd m k = (\<lambda>s. Option.bind (m s) (\<lambda>(r, s').
     case r of Ok x \<Rightarrow> k x s' | Err e \<Rightarrow> Some (Err e, s') | Panic \<Rightarrow> Some (Panic, s')))"

text \<open>\<open>attempt m k\<close> hands the whole result to \<open>k\<close>, as \<open>match m { \<dots> }\<close> or
  \<open>let _ = m\<close> do; a panic still ends the run.\<close>

definition attempt :: "('s, 'e, 'a) act \<Rightarrow> ('e + 'a \<Rightarrow> ('s, 'f, 'b) act) \<Rightarrow> ('s, 'f, 'b) act" where
  "attempt m k = (\<lambda>s. Option.bind (m s) (\<lambda>(r, s').
     case r of Ok x \<Rightarrow> k (Inr x) s' | Err e \<Rightarrow> k (Inl e) s' | Panic \<Rightarrow> Some (Panic, s')))"

definition map_err_act :: "('e \<Rightarrow> 'f) \<Rightarrow> ('s, 'e, 'a) act \<Rightarrow> ('s, 'f, 'a) act" where
  "map_err_act f m = (\<lambda>s. map_option (\<lambda>(r, s'). (map_err f r, s')) (m s))"

lemma ret_app [act_simps]: "ret x s = Some (Ok x, s)"
  by (simp add: ret_def)

lemma throw_app [act_simps]: "throw e s = Some (Err e, s)"
  by (simp add: throw_def)

lemma panic_app [act_simps]: "panic s = Some (Panic, s)"
  by (simp add: panic_def)

lemma total_app [act_simps]: "total f s = Some (f s)"
  by (simp add: total_def)

lemma of_res_app [act_simps]: "of_res r s = Some (r, s)"
  by (simp add: of_res_def)

lemma bnd_Ok [act_simps]: "m s = Some (Ok x, s') \<Longrightarrow> bnd m k s = k x s'"
  by (simp add: bnd_def)

lemma bnd_Err [act_simps]: "m s = Some (Err e, s') \<Longrightarrow> bnd m k s = Some (Err e, s')"
  by (simp add: bnd_def)

lemma bnd_Panic [act_simps]: "m s = Some (Panic, s') \<Longrightarrow> bnd m k s = Some (Panic, s')"
  by (simp add: bnd_def)

lemma attempt_Ok [act_simps]: "m s = Some (Ok x, s') \<Longrightarrow> attempt m k s = k (Inr x) s'"
  by (simp add: attempt_def)

lemma attempt_Err [act_simps]: "m s = Some (Err e, s') \<Longrightarrow> attempt m k s = k (Inl e) s'"
  by (simp add: attempt_def)

lemma attempt_Panic [act_simps]: "m s = Some (Panic, s') \<Longrightarrow> attempt m k s = Some (Panic, s')"
  by (simp add: attempt_def)

lemma map_err_act_Some [act_simps]:
  "m s = Some (r, s') \<Longrightarrow> map_err_act f m s = Some (map_err f r, s')"
  by (simp add: map_err_act_def)

text \<open>Sequencing is monotone, so \<open>partial_function\<close> accepts loops written with it.\<close>

lemma res_case_mono [partial_function_mono]:
  assumes "\<And>x. mono_option (\<lambda>f. A f x)" and "\<And>e. mono_option (\<lambda>f. B f e)"
    and "mono_option C"
  shows "mono_option (\<lambda>f. case r of Ok x \<Rightarrow> A f x | Err e \<Rightarrow> B f e | Panic \<Rightarrow> C f)"
  by (cases r) (simp_all add: assms)

lemma bnd_mono [partial_function_mono]:
  assumes "\<And>s. mono_option (\<lambda>f. B f s)" and "\<And>x s. mono_option (\<lambda>f. C f x s)"
  shows "mono_option (\<lambda>f. bnd (B f) (C f) s)"
  unfolding bnd_def case_prod_beta by (intro partial_function_mono assms)

lemma attempt_mono [partial_function_mono]:
  assumes "\<And>s. mono_option (\<lambda>f. B f s)" and "\<And>x s. mono_option (\<lambda>f. C f x s)"
  shows "mono_option (\<lambda>f. attempt (B f) (C f) s)"
  unfolding attempt_def case_prod_beta by (intro partial_function_mono assms)

lemma if_app_mono [partial_function_mono]:
  "mono_option (\<lambda>f. A f s) \<Longrightarrow> mono_option (\<lambda>f. B f s) \<Longrightarrow> mono_option (\<lambda>f. (if c then A f else B f) s)"
  by (cases c) simp_all

lemma case_sum_app_mono [partial_function_mono]:
  "(\<And>x. mono_option (\<lambda>f. A f x s)) \<Longrightarrow> (\<And>y. mono_option (\<lambda>f. B f y s)) \<Longrightarrow>
   mono_option (\<lambda>f. (case v of Inl x \<Rightarrow> A f x | Inr y \<Rightarrow> B f y) s)"
  by (cases v) simp_all

lemma case_option_app_mono [partial_function_mono]:
  "mono_option (\<lambda>f. A f s) \<Longrightarrow> (\<And>y. mono_option (\<lambda>f. B f y s)) \<Longrightarrow>
   mono_option (\<lambda>f. (case v of None \<Rightarrow> A f | Some y \<Rightarrow> B f y) s)"
  by (cases v) simp_all

lemma case_prod_app_mono [partial_function_mono]:
  "(\<And>x y. mono_option (\<lambda>f. A f x y s)) \<Longrightarrow> mono_option (\<lambda>f. (case v of (x, y) \<Rightarrow> A f x y) s)"
  by (cases v) simp

lemma Let_app_mono [partial_function_mono]:
  "(\<And>x. mono_option (\<lambda>f. A f x s)) \<Longrightarrow> mono_option (\<lambda>f. (Let v (A f)) s)"
  by (simp add: Let_def)

subsection \<open>Lists\<close>

text \<open>\<open>position p xs\<close> is \<open>xs.iter().position(p)\<close>.\<close>

fun position :: "('a \<Rightarrow> bool) \<Rightarrow> 'a list \<Rightarrow> nat option" where
  "position p [] = None"
| "position p (x # xs) = (if p x then Some 0 else map_option Suc (position p xs))"

lemma position_None: "position p xs = None \<longleftrightarrow> (\<forall>x \<in> set xs. \<not> p x)"
  by (induction xs) auto

lemma position_Some:
  "position p xs = Some i \<longleftrightarrow> i < length xs \<and> p (xs ! i) \<and> (\<forall>j < i. \<not> p (xs ! j))"
proof (induction xs arbitrary: i)
  case (Cons x xs)
  show ?case
    by (cases i) (auto simp: Cons.IH All_less_Suc2)
qed simp

text \<open>\<open>remove_at i xs\<close> is \<open>Vec::remove\<close>, \<open>insert_at i x xs\<close> is \<open>Vec::insert\<close>.\<close>

definition remove_at :: "nat \<Rightarrow> 'a list \<Rightarrow> 'a list" where
  "remove_at i xs = take i xs @ drop (Suc i) xs"

definition insert_at :: "nat \<Rightarrow> 'a \<Rightarrow> 'a list \<Rightarrow> 'a list" where
  "insert_at i x xs = take i xs @ x # drop i xs"

lemma length_remove_at: "i < length xs \<Longrightarrow> length (remove_at i xs) = length xs - 1"
  by (simp add: remove_at_def)

lemma length_insert_at [simp]: "length (insert_at i x xs) = Suc (length xs)"
  by (simp add: insert_at_def)

lemma set_insert_at [simp]: "set (insert_at i x xs) = insert x (set xs)"
  by (metis Un_insert_right append_take_drop_id insert_at_def list.simps(15) set_append)

text \<open>
  \<open>copy_within src_lo src_hi dst xs\<close> is \<open>slice::copy_within(src_lo..src_hi, dst)\<close> for ranges
  inside the slice; \<open>overwrite i ys xs\<close> is \<open>xs[i..i + ys.len()].copy_from_slice(ys)\<close>.
\<close>

definition overwrite :: "nat \<Rightarrow> 'a list \<Rightarrow> 'a list \<Rightarrow> 'a list" where
  "overwrite i ys xs = take i xs @ ys @ drop (i + length ys) xs"

definition copy_within :: "nat \<Rightarrow> nat \<Rightarrow> nat \<Rightarrow> 'a list \<Rightarrow> 'a list" where
  "copy_within lo hi dst xs = overwrite dst (take (hi - lo) (drop lo xs)) xs"

lemma length_overwrite [simp]: "i + length ys \<le> length xs \<Longrightarrow> length (overwrite i ys xs) = length xs"
  by (simp add: overwrite_def)

lemma overwrite_Nil [simp]: "overwrite i [] xs = xs"
  by (simp add: overwrite_def)

lemma length_copy_within [simp]:
  "dst + (hi - lo) \<le> length xs \<Longrightarrow> length (copy_within lo hi dst xs) = length xs"
  by (simp add: copy_within_def overwrite_def)

lemma take_overwrite: "k \<le> i \<Longrightarrow> i \<le> length xs \<Longrightarrow> take k (overwrite i ys xs) = take k xs"
  by (simp add: overwrite_def)

lemma drop_overwrite:
  "i + length ys \<le> k \<Longrightarrow> i \<le> length xs \<Longrightarrow> drop k (overwrite i ys xs) = drop k xs"
  by (simp add: overwrite_def)

lemma nth_overwrite:
  "i + length ys \<le> length xs \<Longrightarrow> k < length xs \<Longrightarrow>
   overwrite i ys xs ! k = (if i \<le> k \<and> k < i + length ys then ys ! (k - i) else xs ! k)"
  by (auto simp: overwrite_def nth_append)

lemma set_overwrite: "set (overwrite i ys xs) \<subseteq> set ys \<union> set xs"
  by (auto simp: overwrite_def dest: in_set_takeD in_set_dropD)

lemma set_copy_within: "set (copy_within lo hi dst xs) \<subseteq> set xs"
  unfolding copy_within_def using set_overwrite by (fastforce dest: in_set_takeD in_set_dropD)

lemma take_overwrite_0: "take (length ys) (overwrite 0 ys xs) = ys"
  by (simp add: overwrite_def)

lemma take_overwrite_append: "i \<le> length xs \<Longrightarrow> take (i + length ys) (overwrite i ys xs) = take i xs @ ys"
  by (simp add: overwrite_def)

lemma map_insert_at: "map f (insert_at i x xs) = insert_at i (f x) (map f xs)"
  by (simp add: insert_at_def take_map drop_map)

lemma map_remove_at: "map f (remove_at i xs) = remove_at i (map f xs)"
  by (simp add: remove_at_def take_map drop_map)

text \<open>Insertion into and removal from the used prefix of an array, the way \<open>copy_within\<close> makes room
  and closes the gap.\<close>

lemma take_array_insert:
  assumes "i \<le> n" and "n < length xs"
  shows "take (Suc n) ((copy_within i n (Suc i) xs)[i := x]) = insert_at i x (take n xs)"
proof (rule nth_equalityI)
  show "length (take (Suc n) ((copy_within i n (Suc i) xs)[i := x])) = length (insert_at i x (take n xs))"
    using assms by simp
  fix k assume "k < length (take (Suc n) ((copy_within i n (Suc i) xs)[i := x]))"
  then have "k < Suc n" by simp
  with assms show "take (Suc n) ((copy_within i n (Suc i) xs)[i := x]) ! k = insert_at i x (take n xs) ! k"
    by (auto simp: copy_within_def insert_at_def nth_list_update nth_overwrite nth_append nth_Cons'
        not_less min_def less_Suc_eq intro!: arg_cong [where f = "(!) xs"])
qed

lemma take_array_remove:
  assumes "i < n" and "n \<le> length xs"
  shows "take (n - 1) (copy_within (Suc i) n i xs) = remove_at i (take n xs)"
proof (rule nth_equalityI)
  show "length (take (n - 1) (copy_within (Suc i) n i xs)) = length (remove_at i (take n xs))"
    using assms by (simp add: length_remove_at)
  fix k assume "k < length (take (n - 1) (copy_within (Suc i) n i xs))"
  then have "k < n - 1" by simp
  moreover have "overwrite i (take (n - Suc i) (drop (Suc i) xs)) xs ! k = (if i \<le> k then xs ! Suc k else xs ! k)"
    if "k < n - 1" using that assms by (simp add: nth_overwrite)
  ultimately show "take (n - 1) (copy_within (Suc i) n i xs) ! k = remove_at i (take n xs) ! k"
    using assms by (auto simp: copy_within_def remove_at_def nth_append)
qed

subsection \<open>Byte buffers\<close>

text \<open>\<open>to_le n x\<close> are the \<open>n\<close> little-endian bytes of \<open>x\<close>, \<open>of_le\<close> reads them.\<close>

fun to_le :: "nat \<Rightarrow> nat \<Rightarrow> bytes" where
  "to_le 0 x = []"
| "to_le (Suc n) x = word_of_nat x # to_le n (x div 256)"

fun of_le :: "bytes \<Rightarrow> nat" where
  "of_le [] = 0"
| "of_le (b # bs) = unat b + 256 * of_le bs"

lemma length_to_le [simp]: "length (to_le n x) = n"
  by (induction n arbitrary: x) auto

lemma of_le_to_le: "of_le (to_le n x) = x mod 256 ^ n"
proof (induction n arbitrary: x)
  case (Suc n)
  have "of_le (to_le (Suc n) x) = x mod 256 + 256 * (x div 256 mod 256 ^ n)"
    by (simp add: Suc.IH unat_of_nat)
  also have "\<dots> = x mod 256 ^ Suc n"
    by (simp add: mod_mult2_eq)
  finally show ?case .
qed simp

lemma of_le_bound: "of_le bs < 256 ^ length bs"
proof (induction bs)
  case (Cons b bs)
  have "unat b < 256" using unsigned_less [of b] by simp
  with Cons.IH show ?case by simp
qed simp

lemma to_le_of_le: "to_le (length bs) (of_le bs) = bs"
proof (induction bs)
  case (Cons b bs)
  have b: "unat b < 256" using unsigned_less [of b] by simp
  have "(word_of_nat (unat b + 256 * of_le bs) :: u8) = b"
  proof (rule unsigned_word_eqI)
    show "unat (word_of_nat (unat b + 256 * of_le bs) :: u8) = unat b"
      using b by (simp only: unat_of_nat) simp
  qed
  with Cons.IH b show ?case by simp
qed simp

text \<open>\<open>peek off n\<close> reads \<open>n\<close> bytes at \<open>off\<close>; \<open>overwrite off\<close> writes them. \<open>rd\<close> and \<open>wr\<close>
  do the same for an integer of the width of the type.\<close>

definition peek :: "nat \<Rightarrow> nat \<Rightarrow> 'a list \<Rightarrow> 'a list" where
  "peek off n bs = take n (drop off bs)"

definition rd :: "nat \<Rightarrow> bytes \<Rightarrow> 'a::len word" where
  "rd off bs = word_of_nat (of_le (peek off (LENGTH('a) div 8) bs))"

definition wr :: "nat \<Rightarrow> 'a::len word \<Rightarrow> bytes \<Rightarrow> bytes" where
  "wr off v bs = overwrite off (to_le (LENGTH('a) div 8) (unat v)) bs"

lemma length_peek: "off + n \<le> length bs \<Longrightarrow> length (peek off n bs) = n"
  by (simp add: peek_def)

lemma peek_overwrite_same [buf_simps]:
  "off + length v \<le> length bs \<Longrightarrow> n = length v \<Longrightarrow> peek off n (overwrite off v bs) = v"
  by (simp add: peek_def overwrite_def)

lemma peek_overwrite_other [buf_simps]:
  assumes "o2 + length v \<le> length bs" and "o1 + n \<le> o2 \<or> o2 + length v \<le> o1"
  shows "peek o1 n (overwrite o2 v bs) = peek o1 n bs"
proof (rule nth_equalityI)
  show "length (peek o1 n (overwrite o2 v bs)) = length (peek o1 n bs)"
    using assms(1) by (simp add: peek_def)
  fix i assume "i < length (peek o1 n (overwrite o2 v bs))"
  with assms show "peek o1 n (overwrite o2 v bs) ! i = peek o1 n bs ! i"
    by (auto simp: peek_def nth_overwrite)
qed

lemma peek_append_iff:
  assumes "off + length xs + length ys \<le> length bs"
  shows "peek off (length xs + length ys) bs = xs @ ys \<longleftrightarrow>
    peek off (length xs) bs = xs \<and> peek (off + length xs) (length ys) bs = ys"
proof -
  have "peek off (length xs + length ys) bs = peek off (length xs) bs @ peek (off + length xs) (length ys) bs"
    by (simp add: peek_def take_add add.commute)
  moreover have "length (peek off (length xs) bs) = length xs"
    using assms by (simp add: peek_def)
  ultimately show ?thesis by simp
qed

lemma peek_middle: "peek (length xs) (length ys) (xs @ ys @ zs) = ys"
  by (simp add: peek_def)

lemma length_wr [simp]:
  "off + LENGTH('a) div 8 \<le> length bs \<Longrightarrow> length (wr off (v :: 'a::len word) bs) = length bs"
  by (simp add: wr_def)

lemma rd_wr_same [buf_simps]:
  assumes "8 dvd LENGTH('a)" and "off + LENGTH('a) div 8 \<le> length bs"
  shows "rd off (wr off (v :: 'a::len word) bs) = v"
proof -
  obtain k where k: "LENGTH('a) = 8 * k" using assms(1) by (rule dvdE)
  have "(256::nat) ^ k = 2 ^ LENGTH('a)" by (simp add: k power_mult)
  then have "unat v mod 256 ^ k = unat v"
    using unsigned_less [of v] by simp
  with assms(2) show ?thesis
    by (simp add: rd_def wr_def buf_simps of_le_to_le k)
qed

lemma rd_overwrite_other [buf_simps]:
  assumes "o2 + length v \<le> length bs" and "o1 + LENGTH('a) div 8 \<le> o2 \<or> o2 + length v \<le> o1"
  shows "(rd o1 (overwrite o2 v bs) :: 'a::len word) = rd o1 bs"
  using assms by (simp add: rd_def buf_simps)

lemma rd_wr_other [buf_simps]:
  assumes "o2 + LENGTH('b) div 8 \<le> length bs"
    and "o1 + LENGTH('a) div 8 \<le> o2 \<or> o2 + LENGTH('b) div 8 \<le> o1"
  shows "(rd o1 (wr o2 (v :: 'b::len word) bs) :: 'a::len word) = rd o1 bs"
  using assms by (simp add: rd_def wr_def buf_simps)

lemma peek_wr_other [buf_simps]:
  assumes "o2 + LENGTH('b) div 8 \<le> length bs"
    and "o1 + n \<le> o2 \<or> o2 + LENGTH('b) div 8 \<le> o1"
  shows "peek o1 n (wr o2 (v :: 'b::len word) bs) = peek o1 n bs"
  using assms by (simp add: wr_def buf_simps)

subsection \<open>Signed 32-bit integers as bytes\<close>

definition i32_range :: "int \<Rightarrow> bool" where
  "i32_range v \<longleftrightarrow> - 2147483648 \<le> v \<and> v \<le> 2147483647"

definition i32_to_le :: "int \<Rightarrow> bytes" where
  "i32_to_le v = to_le 4 (nat (v mod 4294967296))"

definition i32_of_le :: "bytes \<Rightarrow> int" where
  "i32_of_le bs = (let n = int (of_le bs) in if n < 2147483648 then n else n - 4294967296)"

lemma length_i32_to_le [simp]: "length (i32_to_le v) = 4"
  by (simp add: i32_to_le_def)

lemma i32_of_le_to_le: "i32_range v \<Longrightarrow> i32_of_le (i32_to_le v) = v"
proof -
  assume r: "i32_range v"
  have "int (of_le (i32_to_le v)) = v mod 4294967296"
    by (simp add: i32_to_le_def of_le_to_le zmod_int)
  also have "\<dots> = (if v < 0 then v + 4294967296 else v)"
  proof (cases "v < 0")
    case True
    then have "v mod 4294967296 = (v + 4294967296) mod 4294967296" by simp
    also have "\<dots> = v + 4294967296" using r True by (intro mod_pos_pos_trivial) (simp_all add: i32_range_def)
    finally show ?thesis using True by simp
  next
    case False
    with r show ?thesis by (simp add: i32_range_def)
  qed
  finally show ?thesis
    using r by (simp add: i32_of_le_def i32_range_def)
qed

lemma i32_range_of_le: "length bs = 4 \<Longrightarrow> i32_range (i32_of_le bs)"
  using of_le_bound [of bs] by (auto simp: i32_range_def i32_of_le_def Let_def)

subsection \<open>Arrays in a byte buffer\<close>

text \<open>An array of elements of \<open>w\<close> bytes each, as \<open>slice::from_raw_parts\<close> sees it at offset \<open>off\<close>.\<close>

definition enc_array :: "('a \<Rightarrow> bytes) \<Rightarrow> 'a list \<Rightarrow> bytes" where
  "enc_array enc xs = concat (map enc xs)"

definition dec_array :: "nat \<Rightarrow> (bytes \<Rightarrow> 'a) \<Rightarrow> nat \<Rightarrow> nat \<Rightarrow> bytes \<Rightarrow> 'a list" where
  "dec_array w dec n off bs = map (\<lambda>i. dec (peek (off + w * i) w bs)) [0..<n]"

lemma length_dec_array [simp]: "length (dec_array w dec n off bs) = n"
  by (simp add: dec_array_def)

lemma length_enc_array: "(\<And>x. length (enc x) = w) \<Longrightarrow> length (enc_array enc xs) = w * length xs"
  by (induction xs) (simp_all add: enc_array_def)

lemma dec_array_Suc:
  "dec_array w dec (Suc n) off bs = dec (peek off w bs) # dec_array w dec n (off + w) bs"
proof -
  have "[0..<Suc n] = 0 # map Suc [0..<n]" by (simp add: upt_conv_Cons map_Suc_upt del: upt_Suc)
  then show ?thesis by (simp add: dec_array_def comp_def add.assoc del: upt_Suc)
qed

lemma dec_array_enc_array:
  assumes "\<And>x. length (enc x) = w" and "\<forall>x \<in> set xs. dec (enc x) = x"
    and "peek off (w * length xs) bs = enc_array enc xs" and "off + w * length xs \<le> length bs"
  shows "dec_array w dec (length xs) off bs = xs"
  using assms(2-4)
proof (induction xs arbitrary: off)
  case Nil
  then show ?case by (simp add: dec_array_def)
next
  case (Cons x xs)
  have "peek off (length (enc x) + length (enc_array enc xs)) bs = enc x @ enc_array enc xs"
    using Cons.prems(2) by (simp add: enc_array_def assms(1) length_enc_array [OF assms(1), unfolded enc_array_def])
  then have "peek off w bs = enc x" "peek (off + w) (w * length xs) bs = enc_array enc xs"
    using Cons.prems(3) by (subst (asm) peek_append_iff; simp add: assms(1) length_enc_array [OF assms(1)])+
  with Cons show ?case by (simp add: dec_array_Suc)
qed

lemma dec_array_cong:
  "peek off (w * n) bs = peek off (w * n) bs' \<Longrightarrow> dec_array w dec n off bs = dec_array w dec n off bs'"
proof (induction n arbitrary: off)
  case 0
  then show ?case by (simp add: dec_array_def)
next
  case (Suc n)
  have "peek off w bs = take w (peek off (w * Suc n) bs)" for bs :: bytes by (simp add: peek_def)
  moreover have "peek (off + w) (w * n) bs = drop w (peek off (w * Suc n) bs)" for bs :: bytes
    by (simp add: peek_def drop_take add.commute)
  ultimately have "peek off w bs = peek off w bs'" "peek (off + w) (w * n) bs = peek (off + w) (w * n) bs'"
    using Suc.prems by metis+
  with Suc.IH show ?case by (simp add: dec_array_Suc)
qed

lemma dec_array_all: "(\<And>b. length b = w \<Longrightarrow> Q (dec b)) \<Longrightarrow> off + w * n \<le> length bs \<Longrightarrow>
    \<forall>x \<in> set (dec_array w dec n off bs). Q x"
proof (induction n arbitrary: off)
  case (Suc n)
  then show ?case using Suc.IH [of "off + w"] by (simp add: dec_array_Suc length_peek add.assoc)
qed (simp add: dec_array_def)

subsection \<open>System calls\<close>

text \<open>
  A file system or log carries the outcomes of its coming system calls: \<open>None\<close> is success,
  \<open>Some n\<close> a failure, which a write reports after \<open>n\<close> bytes. When the list is used up, calls
  succeed. A file is the list of its bytes; writing past its end fills the gap with zeros.
\<close>

type_synonym faults = "nat option list"

fun next_call :: "faults \<Rightarrow> nat option \<times> faults" where
  "next_call [] = (None, [])"
| "next_call (f # fs) = (f, fs)"

definition file_write :: "nat \<Rightarrow> bytes \<Rightarrow> bytes \<Rightarrow> bytes" where
  "file_write off data bs =
     (if data = [] then bs else overwrite off data (bs @ replicate (off - length bs) 0))"

definition byte_at :: "nat \<Rightarrow> bytes \<Rightarrow> u8" where
  "byte_at i bs = (if i < length bs then bs ! i else 0)"

lemma byte_at_file_write:
  "byte_at i (file_write off data bs) =
     (if off \<le> i \<and> i < off + length data then data ! (i - off) else byte_at i bs)"
proof -
  have "min (length bs) off + (off - length bs) = off" by simp
  then show ?thesis
    by (auto simp: byte_at_def file_write_def overwrite_def nth_append)
qed

lemma file_write_end [simp]: "file_write (length bs) data bs = bs @ data"
  by (simp add: file_write_def overwrite_def)

lemma and_then_eq:
  "and_then m k = (r, s') \<longleftrightarrow>
     (\<exists>x s1. m = (Ok x, s1) \<and> k x s1 = (r, s')) \<or> (\<exists>e. m = (Err e, s') \<and> r = Err e) \<or> (m = (Panic, s') \<and> r = Panic)"
proof (cases m)
  case (Pair a s1)
  then show ?thesis by (cases a) auto
qed

subsection \<open>Slices\<close>

text \<open>\<open>slice_to n xs\<close> is \<open>&xs[..n]\<close>, \<open>index i xs\<close> is \<open>xs[i]\<close>, \<open>set_index i x xs\<close> the
  assignment \<open>xs[i] = x\<close> and \<open>move_within lo hi dst xs\<close> is \<open>xs.copy_within(lo..hi, dst)\<close>, each
  with the panics of Rust.\<close>

definition slice_to :: "nat \<Rightarrow> 'a list \<Rightarrow> ('e, 'a list) res" where
  "slice_to n xs = (if n \<le> length xs then Ok (take n xs) else Panic)"

definition index :: "nat \<Rightarrow> 'a list \<Rightarrow> ('e, 'a) res" where
  "index i xs = (if i < length xs then Ok (xs ! i) else Panic)"

definition set_index :: "nat \<Rightarrow> 'a \<Rightarrow> 'a list \<Rightarrow> ('e, 'a list) res" where
  "set_index i x xs = (if i < length xs then Ok (xs[i := x]) else Panic)"

definition move_within :: "nat \<Rightarrow> nat \<Rightarrow> nat \<Rightarrow> 'a list \<Rightarrow> ('e, 'a list) res" where
  "move_within lo hi dst xs =
     (if lo \<le> hi \<and> hi \<le> length xs \<and> dst + (hi - lo) \<le> length xs then Ok (copy_within lo hi dst xs) else Panic)"

text \<open>\<open>overwrite_from i ys xs\<close> is \<open>xs[i..i + ys.len()].copy_from_slice(ys)\<close>.\<close>

definition overwrite_from :: "nat \<Rightarrow> 'a list \<Rightarrow> 'a list \<Rightarrow> ('e, 'a list) res" where
  "overwrite_from i ys xs = (if i + length ys \<le> length xs then Ok (overwrite i ys xs) else Panic)"

lemma move_within_Ok: "lo \<le> hi \<Longrightarrow> hi \<le> length xs \<Longrightarrow> dst + (hi - lo) \<le> length xs \<Longrightarrow>
    move_within lo hi dst xs = Ok (copy_within lo hi dst xs)"
  by (simp add: move_within_def)

lemma slice_to_Ok [simp]: "n \<le> length xs \<Longrightarrow> slice_to n xs = Ok (take n xs)"
  by (simp add: slice_to_def)

lemma index_Ok [simp]: "i < length xs \<Longrightarrow> index i xs = Ok (xs ! i)"
  by (simp add: index_def)

lemma set_index_Ok [simp]: "i < length xs \<Longrightarrow> set_index i x xs = Ok (xs[i := x])"
  by (simp add: set_index_def)

lemma overwrite_from_Ok [simp]: "i + length ys \<le> length xs \<Longrightarrow> overwrite_from i ys xs = Ok (overwrite i ys xs)"
  by (simp add: overwrite_from_def)

text \<open>\<open>slice::binary_search\<close>: \<open>Inr i\<close> when \<open>xs[i]\<close> is the key, \<open>Inl i\<close> for the position where it
  would have to be inserted.\<close>

function bsearch :: "'a::linorder list \<Rightarrow> 'a \<Rightarrow> nat \<Rightarrow> nat \<Rightarrow> nat + nat" where
  "bsearch xs x left right =
     (if right \<le> left then Inl left
      else let mid = left + (right - left) div 2 in
        if xs ! mid = x then Inr mid
        else if xs ! mid < x then bsearch xs x (mid + 1) right
        else bsearch xs x left mid)"
  by pat_completeness auto
termination
  by (relation "measure (\<lambda>(_, _, l, r). r - l)") auto

declare bsearch.simps [simp del]

definition binary_search :: "'a::linorder list \<Rightarrow> 'a \<Rightarrow> nat + nat" where
  "binary_search xs x = bsearch xs x 0 (length xs)"

lemma bsearch_correct:
  assumes "sorted_wrt (<) xs" and "r \<le> length xs" and "l \<le> r"
    and "\<forall>i < l. xs ! i < x" and "\<forall>i. r \<le> i \<longrightarrow> i < length xs \<longrightarrow> x < xs ! i"
  shows "case bsearch xs x l r of Inr i \<Rightarrow> i < length xs \<and> xs ! i = x
    | Inl i \<Rightarrow> i \<le> length xs \<and> (\<forall>j < i. xs ! j < x) \<and> (\<forall>j. i \<le> j \<longrightarrow> j < length xs \<longrightarrow> x < xs ! j)"
  using assms
proof (induction xs x l r rule: bsearch.induct)
  case (1 xs x l r)
  show ?case
  proof (cases "r \<le> l")
    case True
    with "1.prems" show ?thesis by (simp add: bsearch.simps)
  next
    case False
    define mid where "mid = l + (r - l) div 2"
    have mid: "l \<le> mid" "mid < r" "mid < length xs" using False "1.prems"(2) by (auto simp: mid_def)
    have lt: "xs ! i < xs ! j" if "i < j" "j < length xs" for i j
      using "1.prems"(1) that by (simp add: sorted_wrt_iff_nth_less)
    consider "xs ! mid = x" | "xs ! mid < x" | "x < xs ! mid" by fastforce
    then show ?thesis
    proof cases
      case 1
      then show ?thesis using False mid by (subst bsearch.simps) (simp add: Let_def flip: mid_def)
    next
      case 2
      have "\<forall>i < mid + 1. xs ! i < x"
        using 2 lt mid(3) by (metis less_Suc_eq Suc_eq_plus1 less_trans)
      then have "case bsearch xs x (mid + 1) r of Inr i \<Rightarrow> i < length xs \<and> xs ! i = x
        | Inl i \<Rightarrow> i \<le> length xs \<and> (\<forall>j < i. xs ! j < x) \<and> (\<forall>j. i \<le> j \<longrightarrow> j < length xs \<longrightarrow> x < xs ! j)"
        using "1.IH"(1) [OF False mid_def] 2 mid "1.prems" by auto
      moreover have "xs ! mid \<noteq> x" using 2 by simp
      ultimately show ?thesis using False 2 by (subst bsearch.simps) (simp only: Let_def mid_def [symmetric] if_False if_True)
    next
      case 3
      have "\<forall>i. mid \<le> i \<longrightarrow> i < length xs \<longrightarrow> x < xs ! i"
        using 3 lt by (metis le_neq_implies_less less_trans)
      then have "case bsearch xs x l mid of Inr i \<Rightarrow> i < length xs \<and> xs ! i = x
        | Inl i \<Rightarrow> i \<le> length xs \<and> (\<forall>j < i. xs ! j < x) \<and> (\<forall>j. i \<le> j \<longrightarrow> j < length xs \<longrightarrow> x < xs ! j)"
        using "1.IH"(2) [OF False mid_def] 3 mid "1.prems" by auto
      moreover have "xs ! mid \<noteq> x" "\<not> xs ! mid < x" using 3 by auto
      ultimately show ?thesis using False by (subst bsearch.simps) (simp only: Let_def mid_def [symmetric] if_False)
    qed
  qed
qed

lemma binary_search_Inr: "sorted_wrt (<) xs \<Longrightarrow> binary_search xs x = Inr i \<Longrightarrow> i < length xs \<and> xs ! i = x"
  using bsearch_correct [of xs "length xs" 0 x] by (simp add: binary_search_def)

lemma binary_search_Inl:
  "sorted_wrt (<) xs \<Longrightarrow> binary_search xs x = Inl i \<Longrightarrow>
   i \<le> length xs \<and> (\<forall>y \<in> set (take i xs). y < x) \<and> (\<forall>y \<in> set (drop i xs). x < y)"
  using bsearch_correct [of xs "length xs" 0 x]
  by (auto simp: binary_search_def in_set_conv_nth)

lemma binary_search_member: "sorted_wrt (<) xs \<Longrightarrow> (\<exists>i. binary_search xs x = Inr i) \<longleftrightarrow> x \<in> set xs"
  using binary_search_Inl [of xs x] binary_search_Inr [of xs x]
  by (cases "binary_search xs x") (auto simp: in_set_conv_nth,
      metis append_take_drop_id in_set_conv_nth less_irrefl set_append Un_iff)

end
