(* ===== verification/Page.thy ===== *)
theory Page
  imports Prelude
begin

text \<open>
  The slotted page of \<open>crates/wackdb_page\<close>: \<open>SlottedPageHeader\<close>, \<open>TupleHeader\<close>,
  \<open>PageSlot\<close> and the operations of \<open>SlottedPage\<close>, on the raw bytes of the page. The
  constant \<open>PAGE_SIZE\<close> is the length of the byte list. The \<open>repr(C)\<close> layouts are written out:
  the header takes 16 bytes (\<open>u64\<close> at 0, four \<open>u16\<close> at 8, 10, 12, 14), slot \<open>i\<close> the four
  bytes at \<open>16 + 4 * i\<close>, a tuple header 16 bytes. \<open>page_wf\<close> is the invariant of the page and
  \<open>page_records\<close> its abstraction: the list of stored records, in slot order.
\<close>

type_synonym page = bytes

record slotted_page_header =
  log_sequence_number :: u64
  total_slots :: u16
  free_space_lower :: u16
  free_space_upper :: u16
  page_flags :: u16

record tuple_header =
  xmin :: u64
  xmax :: u64

record page_slot =
  slot_offset :: u16
  slot_length :: u16

definition header :: "page \<Rightarrow> slotted_page_header" where
  "header pg = \<lparr>log_sequence_number = rd 0 pg, total_slots = rd 8 pg,
     free_space_lower = rd 10 pg, free_space_upper = rd 12 pg, page_flags = rd 14 pg\<rparr>"

definition put_header :: "slotted_page_header \<Rightarrow> page \<Rightarrow> page" where
  "put_header h pg = wr 14 (page_flags h) (wr 12 (free_space_upper h)
     (wr 10 (free_space_lower h) (wr 8 (total_slots h) (wr 0 (log_sequence_number h) pg))))"

definition slot_at :: "nat \<Rightarrow> page \<Rightarrow> page_slot" where
  "slot_at i pg = \<lparr>slot_offset = rd (16 + 4 * i) pg, slot_length = rd (18 + 4 * i) pg\<rparr>"

definition put_slot :: "nat \<Rightarrow> page_slot \<Rightarrow> page \<Rightarrow> page" where
  "put_slot i s pg = wr (18 + 4 * i) (slot_length s) (wr (16 + 4 * i) (slot_offset s) pg)"

definition read_tuple_header :: "nat \<Rightarrow> page \<Rightarrow> tuple_header" where
  "read_tuple_header off pg = \<lparr>xmin = rd off pg, xmax = rd (off + 8) pg\<rparr>"

definition write_tuple_header :: "nat \<Rightarrow> tuple_header \<Rightarrow> page \<Rightarrow> page" where
  "write_tuple_header off th pg = wr (off + 8) (xmax th) (wr off (xmin th) pg)"

subsection \<open>Operations\<close>

definition init :: "page \<Rightarrow> page" where
  "init pg = put_header \<lparr>log_sequence_number = 0, total_slots = 0, free_space_lower = 16,
     free_space_upper = word_of_nat (length pg), page_flags = 0\<rparr> pg"

definition new_page_buf :: "nat \<Rightarrow> page" where
  "new_page_buf page_size = init (replicate page_size 0)"

definition get_lsn :: "page \<Rightarrow> u64" where
  "get_lsn pg = log_sequence_number (header pg)"

definition set_lsn :: "u64 \<Rightarrow> page \<Rightarrow> page" where
  "set_lsn lsn pg = put_header ((header pg)\<lparr>log_sequence_number := lsn\<rparr>) pg"

text \<open>The slot directory as a slice; it must lie inside the page.\<close>

definition slots :: "page \<Rightarrow> ('e, page_slot list) res" where
  "slots pg = (let n = unat (total_slots (header pg)) in
     if length pg < 16 + 4 * n then Panic else Ok (map (\<lambda>i. slot_at i pg) [0..<n]))"

definition get_record :: "nat \<Rightarrow> page \<Rightarrow> ('e, (tuple_header \<times> bytes) option) res" where
  "get_record slot_idx pg = res_bind (slots pg) (\<lambda>ss.
     if length ss \<le> slot_idx then Ok None
     else let slot = ss ! slot_idx in
       if slot_length slot = 0 then Ok None
       else let start = unat (slot_offset slot);
                header_end = start + 16;
                stop = start + unat (slot_length slot)
         in if length pg < stop \<or> stop < header_end then Ok None
            else Ok (Some (read_tuple_header start pg, peek header_end (stop - header_end) pg)))"

text \<open>
  An insertion that panics returns the page of before, although the source may have written the
  header of the tuple by then: a panic ends the program.
\<close>

definition insert_record :: "bytes \<Rightarrow> u64 \<Rightarrow> page \<Rightarrow> ('e, nat option) res \<times> page" where
  "insert_record rec xmn pg =
     (let total_len = 16 + length rec;
          required_space = total_len + 4;
          h = header pg;
          free_space = free_space_upper h - free_space_lower h
      in if free_space < word_of_nat required_space then (Ok None, pg)
      else let slot_idx = unat (total_slots h);
               new_offset = free_space_upper h - word_of_nat total_len;
               off = unat new_offset
        in if length pg < off + total_len then (Panic, pg)
        else let pg1 = write_tuple_header off \<lparr>xmin = xmn, xmax = 0\<rparr> pg;
                 pg2 = overwrite (off + 16) rec pg1;
                 h' = h\<lparr>total_slots := total_slots h + 1, free_space_upper := new_offset,
                        free_space_lower := free_space_lower h + 4\<rparr>;
                 pg3 = put_header h' pg2
          in if length pg < 16 + 4 * unat (total_slots h') \<or> unat (total_slots h') \<le> slot_idx
             then (Panic, pg3)
             else (Ok (Some slot_idx),
                   put_slot slot_idx \<lparr>slot_offset = new_offset, slot_length = word_of_nat total_len\<rparr> pg3))"

definition mark_deleted :: "nat \<Rightarrow> u64 \<Rightarrow> page \<Rightarrow> ('e, bool) res \<times> page" where
  "mark_deleted slot_idx xmx pg = (case slots pg of
       Panic \<Rightarrow> (Panic, pg)
     | Err e \<Rightarrow> (Err e, pg)
     | Ok ss \<Rightarrow>
         if length ss \<le> slot_idx then (Ok False, pg)
         else let slot = ss ! slot_idx in
           if slot_length slot = 0 then (Ok False, pg)
           else let start = unat (slot_offset slot) in
             if length pg < start + 16 then (Panic, pg)
             else (Ok True,
                   write_tuple_header start ((read_tuple_header start pg)\<lparr>xmax := xmx\<rparr>) pg))"

text \<open>
  \<open>get_record_from_bytes\<close> and \<open>get_total_slots_from_bytes\<close> of \<open>crates/wackdb_query/src/lib.rs\<close>:
  the readers of the scans. Unlike \<open>get_record\<close> they check no bound and hide deleted records.
\<close>

definition get_record_from_bytes :: "page \<Rightarrow> nat \<Rightarrow> ('e, (tuple_header \<times> bytes) option) res" where
  "get_record_from_bytes data slot_idx =
     (let total = unat (total_slots (header data)) in
      if total \<le> slot_idx then Ok None
      else if length data < 16 + 4 * total then Panic
      else let slot = slot_at slot_idx data in
        if slot_length slot = 0 then Ok None
        else let start = unat (slot_offset slot);
                 header_end = start + 16;
                 stop = start + unat (slot_length slot)
          in if length data < header_end then Panic
             else if xmax (read_tuple_header start data) \<noteq> 0 then Ok None
             else if stop < header_end \<or> length data < stop then Panic
             else Ok (Some (read_tuple_header start data, peek header_end (stop - header_end) data)))"

definition get_total_slots_from_bytes :: "page \<Rightarrow> nat" where
  "get_total_slots_from_bytes data = unat (total_slots (header data))"

subsection \<open>The invariant and the abstraction\<close>

definition page_free :: "page \<Rightarrow> nat" where
  "page_free pg = unat (free_space_upper (header pg)) - unat (free_space_lower (header pg))"

definition slot_count :: "page \<Rightarrow> nat" where
  "slot_count pg = unat (total_slots (header pg))"

definition slot_off :: "nat \<Rightarrow> page \<Rightarrow> nat" where
  "slot_off i pg = unat (slot_offset (slot_at i pg))"

definition slot_len :: "nat \<Rightarrow> page \<Rightarrow> nat" where
  "slot_len i pg = unat (slot_length (slot_at i pg))"

definition page_wf :: "page \<Rightarrow> bool" where
  "page_wf pg \<longleftrightarrow> length pg < 65536 \<and>
     unat (free_space_lower (header pg)) = 16 + 4 * slot_count pg \<and>
     unat (free_space_lower (header pg)) \<le> unat (free_space_upper (header pg)) \<and>
     unat (free_space_upper (header pg)) \<le> length pg \<and>
     (\<forall>i < slot_count pg. 16 \<le> slot_len i pg \<and>
        unat (free_space_upper (header pg)) \<le> slot_off i pg \<and>
        slot_off i pg + slot_len i pg \<le> length pg) \<and>
     (\<forall>j < slot_count pg. \<forall>i < j. slot_off j pg + slot_len j pg \<le> slot_off i pg)"

definition record_at :: "nat \<Rightarrow> page \<Rightarrow> tuple_header \<times> bytes" where
  "record_at i pg = (read_tuple_header (slot_off i pg) pg,
     peek (slot_off i pg + 16) (slot_len i pg - 16) pg)"

definition page_records :: "page \<Rightarrow> (tuple_header \<times> bytes) list" where
  "page_records pg = map (\<lambda>i. record_at i pg) [0..<slot_count pg]"

subsection \<open>Reading back the parts of a page\<close>

lemma length_put_header [simp]: "16 \<le> length pg \<Longrightarrow> length (put_header h pg) = length pg"
  by (simp add: put_header_def)

lemma header_put_header [simp]: "16 \<le> length pg \<Longrightarrow> header (put_header h pg) = h"
  by (simp add: header_def put_header_def buf_simps)

lemma rd_put_header [buf_simps]:
  "16 \<le> length pg \<Longrightarrow> 16 \<le> off \<Longrightarrow> rd off (put_header h pg) = rd off pg"
  by (simp add: put_header_def buf_simps)

lemma peek_put_header [buf_simps]:
  "16 \<le> length pg \<Longrightarrow> 16 \<le> off \<Longrightarrow> peek off n (put_header h pg) = peek off n pg"
  by (simp add: put_header_def buf_simps)

lemma length_put_slot [simp]: "20 + 4 * i \<le> length pg \<Longrightarrow> length (put_slot i s pg) = length pg"
  by (simp add: put_slot_def)

lemma slot_at_put_slot_same [simp]: "20 + 4 * i \<le> length pg \<Longrightarrow> slot_at i (put_slot i s pg) = s"
  by (simp add: slot_at_def put_slot_def buf_simps)

lemma slot_at_put_slot_other [simp]:
  "20 + 4 * i \<le> length pg \<Longrightarrow> j \<noteq> i \<Longrightarrow> slot_at j (put_slot i s pg) = slot_at j pg"
  by (cases i j rule: linorder_cases) (simp_all add: slot_at_def put_slot_def buf_simps)

lemma header_put_slot [simp]: "20 + 4 * i \<le> length pg \<Longrightarrow> header (put_slot i s pg) = header pg"
  by (simp add: header_def put_slot_def buf_simps)

lemma peek_put_slot [buf_simps]:
  "20 + 4 * i \<le> length pg \<Longrightarrow> 20 + 4 * i \<le> off \<Longrightarrow> peek off n (put_slot i s pg) = peek off n pg"
  by (simp add: put_slot_def buf_simps)

lemma rd_put_slot [buf_simps]:
  "20 + 4 * i \<le> length pg \<Longrightarrow> 20 + 4 * i \<le> off \<Longrightarrow> rd off (put_slot i s pg) = rd off pg"
  by (simp add: put_slot_def buf_simps)

lemma slot_at_put_header [simp]:
  "16 \<le> length pg \<Longrightarrow> slot_at i (put_header h pg) = slot_at i pg"
  by (simp add: slot_at_def buf_simps)

lemma length_write_tuple_header [simp]:
  "off + 16 \<le> length pg \<Longrightarrow> length (write_tuple_header off th pg) = length pg"
  by (simp add: write_tuple_header_def)

lemma read_write_tuple_header [simp]:
  "off + 16 \<le> length pg \<Longrightarrow> read_tuple_header off (write_tuple_header off th pg) = th"
  by (simp add: read_tuple_header_def write_tuple_header_def buf_simps)

lemma rd_write_tuple_header [buf_simps]:
  "off + 16 \<le> length pg \<Longrightarrow> o1 + LENGTH('a) div 8 \<le> off \<or> off + 16 \<le> o1 \<Longrightarrow>
   (rd o1 (write_tuple_header off th pg) :: 'a::len word) = rd o1 pg"
  by (auto simp: write_tuple_header_def buf_simps)

lemma peek_write_tuple_header [buf_simps]:
  "off + 16 \<le> length pg \<Longrightarrow> o1 + n \<le> off \<or> off + 16 \<le> o1 \<Longrightarrow>
   peek o1 n (write_tuple_header off th pg) = peek o1 n pg"
  by (auto simp: write_tuple_header_def buf_simps)

subsection \<open>Word arithmetic of the free space\<close>

lemma unat_u16_of_nat: "k < 65536 \<Longrightarrow> unat (word_of_nat k :: u16) = k"
  by (simp add: unat_of_nat)

lemma unat_u16_diff: "unat b \<le> unat a \<Longrightarrow> unat (a - b :: u16) = unat a - unat b"
  by (simp add: unat_sub_if')

lemma unat_u16_add: "unat a + k < 65536 \<Longrightarrow> unat (a + word_of_nat k :: u16) = unat a + k"
  by (simp add: unat_word_ariths unat_of_nat)

lemma free_space_eq_page_free:
  "page_wf pg \<Longrightarrow> unat (free_space_upper (header pg) - free_space_lower (header pg)) = page_free pg"
  by (simp add: page_wf_def page_free_def unat_u16_diff)

lemma page_wf_length: "page_wf pg \<Longrightarrow> 16 + 4 * slot_count pg \<le> length pg"
  by (simp add: page_wf_def)

lemma page_wf_slot:
  assumes "page_wf pg" and "i < slot_count pg"
  shows "16 \<le> slot_len i pg" and "16 + 4 * slot_count pg \<le> slot_off i pg"
    and "slot_off i pg + slot_len i pg \<le> length pg" and "i < slot_count pg"
  using assms unfolding page_wf_def by force+

lemma page_wf_disjoint:
  assumes "page_wf pg" and "i < slot_count pg" and "j < slot_count pg" and "i \<noteq> j"
  shows "slot_off i pg + slot_len i pg \<le> slot_off j pg \<or> slot_off j pg + slot_len j pg \<le> slot_off i pg"
  using assms unfolding page_wf_def by (cases i j rule: linorder_cases) blast+

lemma slots_wf: "page_wf pg \<Longrightarrow> slots pg = Ok (map (\<lambda>i. slot_at i pg) [0..<slot_count pg])"
  using page_wf_length [of pg] by (simp add: slots_def slot_count_def Let_def)

subsection \<open>Readers on a well-formed page\<close>

lemma get_record_wf:
  assumes "page_wf pg"
  shows "get_record i pg = Ok (if i < slot_count pg then Some (record_at i pg) else None)"
proof (cases "i < slot_count pg")
  case True
  note w = page_wf_slot [OF assms True]
  from w(1) have "slot_length (slot_at i pg) \<noteq> 0"
    by (auto simp: slot_len_def)
  with True w show ?thesis
    by (simp add: get_record_def slots_wf [OF assms] record_at_def slot_len_def slot_off_def Let_def)
next
  case False
  then show ?thesis
    by (simp add: get_record_def slots_wf [OF assms])
qed

lemma get_record_from_bytes_wf:
  assumes "page_wf pg"
  shows "get_record_from_bytes pg i =
    Ok (if i < slot_count pg \<and> xmax (fst (record_at i pg)) = 0 then Some (record_at i pg) else None)"
proof (cases "i < slot_count pg")
  case True
  note w = page_wf_slot [OF assms True]
  from w(1) have "slot_length (slot_at i pg) \<noteq> 0"
    by (auto simp: slot_len_def)
  with True w page_wf_length [OF assms] show ?thesis
    by (simp add: get_record_from_bytes_def record_at_def slot_len_def slot_off_def
        slot_count_def Let_def)
next
  case False
  then show ?thesis
    by (simp add: get_record_from_bytes_def slot_count_def Let_def)
qed

lemma nth_page_records: "i < slot_count pg \<Longrightarrow> page_records pg ! i = record_at i pg"
  by (simp add: page_records_def)

lemma length_page_records [simp]: "length (page_records pg) = slot_count pg"
  by (simp add: page_records_def)

subsection \<open>Initialisation and the LSN\<close>

lemma header_init:
  "16 \<le> length pg \<Longrightarrow> header (init pg) = \<lparr>log_sequence_number = 0, total_slots = 0,
     free_space_lower = 16, free_space_upper = word_of_nat (length pg), page_flags = 0\<rparr>"
  by (simp add: init_def)

lemma length_init [simp]: "16 \<le> length pg \<Longrightarrow> length (init pg) = length pg"
  by (simp add: init_def)

lemma page_wf_init:
  assumes "16 \<le> length pg" and "length pg < 65536"
  shows "page_wf (init pg)" and "page_records (init pg) = []"
  using assms
  by (simp_all add: page_wf_def page_records_def slot_count_def header_init unat_u16_of_nat)

lemma header_set_lsn: "16 \<le> length pg \<Longrightarrow> header (set_lsn l pg) = (header pg)\<lparr>log_sequence_number := l\<rparr>"
  by (simp add: set_lsn_def)

lemma length_set_lsn [simp]: "16 \<le> length pg \<Longrightarrow> length (set_lsn l pg) = length pg"
  by (simp add: set_lsn_def)

lemma set_lsn_parts:
  assumes "page_wf pg"
  shows "slot_count (set_lsn l pg) = slot_count pg" and "slot_at i (set_lsn l pg) = slot_at i pg"
    and "i < slot_count pg \<Longrightarrow> record_at i (set_lsn l pg) = record_at i pg"
proof -
  have len: "16 \<le> length pg" using page_wf_length [OF assms] by simp
  show "slot_count (set_lsn l pg) = slot_count pg" and s: "slot_at i (set_lsn l pg) = slot_at i pg" for i
    using len by (simp_all add: slot_count_def header_set_lsn) (simp add: set_lsn_def)
  show "record_at i (set_lsn l pg) = record_at i pg" if "i < slot_count pg"
    using page_wf_slot [OF assms that] len
    by (simp add: record_at_def slot_off_def slot_len_def s)
      (simp add: set_lsn_def read_tuple_header_def buf_simps)
qed

lemma page_wf_set_lsn:
  assumes "page_wf pg"
  shows "page_wf (set_lsn l pg)" and "page_records (set_lsn l pg) = page_records pg"
proof -
  have len: "16 \<le> length pg" using page_wf_length [OF assms] by simp
  show "page_wf (set_lsn l pg)"
    using assms len by (simp add: page_wf_def set_lsn_parts [OF assms] slot_off_def slot_len_def header_set_lsn)
  show "page_records (set_lsn l pg) = page_records pg"
    by (simp add: page_records_def set_lsn_parts [OF assms])
qed

subsection \<open>Inserting a record\<close>

text \<open>The three writes of a successful \<open>insert_record\<close>, at the byte offset \<open>off\<close>.\<close>

definition insert_bytes :: "nat \<Rightarrow> bytes \<Rightarrow> u64 \<Rightarrow> page \<Rightarrow> page" where
  "insert_bytes off rec xmn pg =
     put_slot (slot_count pg) \<lparr>slot_offset = word_of_nat off, slot_length = word_of_nat (16 + length rec)\<rparr>
       (put_header ((header pg)\<lparr>total_slots := total_slots (header pg) + 1,
          free_space_upper := word_of_nat off, free_space_lower := free_space_lower (header pg) + 4\<rparr>)
         (overwrite (off + 16) rec (write_tuple_header off \<lparr>xmin = xmn, xmax = 0\<rparr> pg)))"

lemma insert_bytes_parts:
  fixes rec :: bytes and xmn :: u64
  assumes room: "20 + 4 * slot_count pg \<le> off" "off + 16 + length rec \<le> length pg" "length pg < 65536"
  defines "pg' \<equiv> insert_bytes off rec xmn pg"
  shows "length pg' = length pg"
    and "header pg' = (header pg)\<lparr>total_slots := total_slots (header pg) + 1,
          free_space_upper := word_of_nat off, free_space_lower := free_space_lower (header pg) + 4\<rparr>"
    and "slot_at (slot_count pg) pg' =
          \<lparr>slot_offset = word_of_nat off, slot_length = word_of_nat (16 + length rec)\<rparr>"
    and "i < slot_count pg \<Longrightarrow> slot_at i pg' = slot_at i pg"
    and "read_tuple_header off pg' = \<lparr>xmin = xmn, xmax = 0\<rparr>"
    and "peek (off + 16) (length rec) pg' = rec"
    and "off + 16 + length rec \<le> o1 \<Longrightarrow> read_tuple_header o1 pg' = read_tuple_header o1 pg"
    and "off + 16 + length rec \<le> o1 \<Longrightarrow> peek o1 k pg' = peek o1 k pg"
  using room
  by (simp_all add: pg'_def insert_bytes_def buf_simps)
    (simp_all add: read_tuple_header_def slot_at_def buf_simps write_tuple_header_def)

lemma insert_record_ok:
  assumes wf: "page_wf pg" and room: "length rec + 20 \<le> page_free pg"
  shows "insert_record rec xmn pg = (Ok (Some (slot_count pg)),
    insert_bytes (unat (free_space_upper (header pg)) - (16 + length rec)) rec xmn pg)"
proof -
  let ?h = "header pg" and ?t = "16 + length rec"
  let ?up = "unat (free_space_upper ?h)" and ?lo = "unat (free_space_lower ?h)"
  have b: "?up \<le> length pg" "length pg < 65536" "?lo = 16 + 4 * slot_count pg" "?t + 4 + ?lo \<le> ?up"
    using wf room by (simp_all add: page_wf_def page_free_def)
  have t: "unat (word_of_nat (?t + 4) :: u16) = ?t + 4" "unat (word_of_nat ?t :: u16) = ?t"
    by (rule unat_u16_of_nat, use b in simp)+
  have fs: "\<not> free_space_upper ?h - free_space_lower ?h < word_of_nat (?t + 4)"
    unfolding word_less_nat_alt using free_space_eq_page_free [OF wf] t room by simp
  have off: "unat (free_space_upper ?h - word_of_nat ?t) = ?up - ?t"
    using b t by (simp add: unat_u16_diff)
  have off_w: "free_space_upper ?h - word_of_nat ?t = word_of_nat (?up - ?t)"
    by (simp flip: off)
  have n1: "unat (total_slots ?h + 1) = slot_count pg + 1"
    using b unat_u16_add [of "total_slots ?h" 1] by (simp add: slot_count_def)
  show ?thesis
    using b fs off_w off n1
    unfolding insert_record_def Let_def insert_bytes_def
    by (simp add: slot_count_def algebra_simps)
qed

lemma insert_bytes_wf:
  fixes xmn :: u64
  assumes wf: "page_wf pg" and room: "length rec + 20 \<le> page_free pg"
  defines "pg' \<equiv> insert_bytes (unat (free_space_upper (header pg)) - (16 + length rec)) rec xmn pg"
  shows "page_wf pg'" and "page_records pg' = page_records pg @ [(\<lparr>xmin = xmn, xmax = 0\<rparr>, rec)]"
    and "length pg' = length pg" and "get_lsn pg' = get_lsn pg"
    and "slot_count pg' = Suc (slot_count pg)"
    and "page_free pg' = page_free pg - (length rec + 20)"
proof -
  let ?n = "slot_count pg" and ?t = "16 + length rec"
  let ?up = "unat (free_space_upper (header pg))" and ?lo = "unat (free_space_lower (header pg))"
  let ?off = "?up - ?t"
  have b: "?up \<le> length pg" "length pg < 65536" "?lo = 16 + 4 * ?n" "?t + 4 + ?lo \<le> ?up"
    using wf room by (simp_all add: page_wf_def page_free_def)
  then have room': "20 + 4 * ?n \<le> ?off" "?off + 16 + length rec \<le> length pg" "length pg < 65536"
    by simp_all
  note parts = insert_bytes_parts [OF room', where xmn = xmn, folded pg'_def]
  have n: "slot_count pg' = Suc ?n"
    using b unat_u16_add [of "total_slots (header pg)" 1] by (simp add: slot_count_def parts(2))
  have lo: "unat (free_space_lower (header pg')) = ?lo + 4"
    using b unat_u16_add [of "free_space_lower (header pg)" 4] by (simp add: parts(2))
  have up: "unat (free_space_upper (header pg')) = ?off"
    using b unat_u16_of_nat [of ?off] by (simp add: parts(2))
  have t: "unat (word_of_nat ?t :: u16) = ?t" "unat (word_of_nat ?off :: u16) = ?off"
    by (rule unat_u16_of_nat, use b in simp)+
  have new: "slot_off ?n pg' = ?off" "slot_len ?n pg' = ?t"
    using t by (simp_all add: slot_off_def slot_len_def parts(3) del: of_nat_add)
  have old: "slot_off i pg' = slot_off i pg" "slot_len i pg' = slot_len i pg" if "i < ?n" for i
    using that by (simp_all add: slot_off_def slot_len_def parts(4))
  have above: "?up \<le> slot_off i pg" if "i < ?n" for i
    using wf that unfolding page_wf_def by blast
  show "page_wf pg'"
    unfolding page_wf_def n
  proof (intro conjI allI impI)
    fix i assume "i < Suc ?n"
    then show "16 \<le> slot_len i pg'" "unat (free_space_upper (header pg')) \<le> slot_off i pg'"
      "slot_off i pg' + slot_len i pg' \<le> length pg'"
      using page_wf_slot [OF wf, of i] above [of i] b
      by (auto simp: less_Suc_eq new old up parts(1))
  next
    fix j i assume "j < Suc ?n" "i < j"
    then show "slot_off j pg' + slot_len j pg' \<le> slot_off i pg'"
      using page_wf_disjoint [OF wf, of i j] above [of i] b wf
      unfolding page_wf_def by (auto simp: less_Suc_eq new old)
  qed (use b lo up parts(1) in simp_all)
  have rec_old: "record_at i pg' = record_at i pg" if "i < ?n" for i
    using above [OF that] b by (simp add: record_at_def old [OF that] parts(7,8))
  have rec_new: "record_at ?n pg' = (\<lparr>xmin = xmn, xmax = 0\<rparr>, rec)"
    by (simp add: record_at_def new parts(5,6))
  show "page_records pg' = page_records pg @ [(\<lparr>xmin = xmn, xmax = 0\<rparr>, rec)]"
    by (simp add: page_records_def n rec_old rec_new)
  show "page_free pg' = page_free pg - (length rec + 20)"
    using b by (simp add: page_free_def lo up)
  show "length pg' = length pg" "get_lsn pg' = get_lsn pg" "slot_count pg' = Suc ?n"
    by (simp_all add: parts(1,2) n get_lsn_def)
qed

lemma insert_record_full:
  assumes wf: "page_wf pg" and big: "page_free pg < length rec + 20" "length rec + 20 < 65536"
  shows "insert_record rec xmn pg = (Ok None, pg)"
proof -
  have "unat (word_of_nat (16 + length rec + 4) :: u16) = length rec + 20"
    using unat_u16_of_nat [of "16 + length rec + 4"] big(2) by simp
  then have "free_space_upper (header pg) - free_space_lower (header pg) < word_of_nat (16 + length rec + 4)"
    unfolding word_less_nat_alt free_space_eq_page_free [OF wf] using big(1) by simp
  then show ?thesis
    by (simp add: insert_record_def Let_def)
qed

text \<open>
  C20: Inserting a record that fits (its 16-byte header, its bytes and a 4-byte slot) returns the
  next slot index, keeps the page invariant and the LSN, and appends exactly that record (with
  \<open>xmax = 0\<close>) to the stored records, leaving all others as they were; a record of less than 64 KB
  that does not fit is refused and the page is unchanged.
\<close>

theorem insert_record_spec:
  assumes "page_wf pg" and "length rec + 20 < 65536"
  shows "if length rec + 20 \<le> page_free pg
    then \<exists>pg'. insert_record rec xmn pg = (Ok (Some (slot_count pg)), pg') \<and> page_wf pg' \<and>
           page_records pg' = page_records pg @ [(\<lparr>xmin = xmn, xmax = 0\<rparr>, rec)] \<and>
           length pg' = length pg \<and> get_lsn pg' = get_lsn pg
    else insert_record rec xmn pg = (Ok None, pg)"
proof (cases "length rec + 20 \<le> page_free pg")
  case True
  then show ?thesis
    by (simp add: insert_record_ok [OF assms(1)] insert_bytes_wf [OF assms(1)])
next
  case False
  then show ?thesis
    using insert_record_full [OF assms(1) _ assms(2)] by simp
qed

theorem insert_record_spec_witness:
  "\<exists>pg'. insert_record [1, 2, 3] 7 (new_page_buf 64) = (Ok (Some 0) :: (unit, nat option) res, pg') \<and>
     page_wf pg' \<and> page_records pg' = [(\<lparr>xmin = 7, xmax = 0\<rparr>, [1, 2, 3])]"
proof -
  have wf: "page_wf (new_page_buf 64)" and r: "page_records (new_page_buf 64) = []"
    and n: "slot_count (new_page_buf 64) = 0" and f: "page_free (new_page_buf 64) = 48"
    by (simp_all add: new_page_buf_def page_wf_init slot_count_def page_free_def header_init)
  show ?thesis
    using insert_record_spec [OF wf, of "[1, 2, 3]" 7, where ?'a = unit] r n f by auto
qed

subsection \<open>Deleting a record\<close>

lemma mark_deleted_wf:
  fixes x :: u64
  assumes wf: "page_wf pg" and i: "i < slot_count pg"
  defines "pg' \<equiv> write_tuple_header (slot_off i pg) ((read_tuple_header (slot_off i pg) pg)\<lparr>xmax := x\<rparr>) pg"
  shows "mark_deleted i x pg = (Ok True, pg')" and "page_wf pg'"
    and "page_records pg' = (page_records pg)[i := ((fst (record_at i pg))\<lparr>xmax := x\<rparr>, snd (record_at i pg))]"
    and "length pg' = length pg" and "header pg' = header pg"
proof -
  note w = page_wf_slot [OF wf i]
  have len: "slot_off i pg + 16 \<le> length pg" "16 + 4 * slot_count pg \<le> slot_off i pg" using w by simp_all
  show l: "length pg' = length pg" and h: "header pg' = header pg"
    using len by (simp_all add: pg'_def header_def buf_simps)
  have s: "slot_at j pg' = slot_at j pg" if "j < slot_count pg" for j
    using len that by (simp add: pg'_def slot_at_def buf_simps)
  then have so: "slot_off j pg' = slot_off j pg" "slot_len j pg' = slot_len j pg" if "j < slot_count pg" for j
    using that by (simp_all add: slot_off_def slot_len_def)
  have n: "slot_count pg' = slot_count pg"
    by (simp add: slot_count_def h)
  show "page_wf pg'"
    using wf by (auto simp: page_wf_def n l h so)
  have "record_at j pg' = (if j = i then ((fst (record_at i pg))\<lparr>xmax := x\<rparr>, snd (record_at i pg)) else record_at j pg)"
    if j: "j < slot_count pg" for j
  proof (cases "j = i")
    case True
    then show ?thesis
      using len w by (simp add: record_at_def so [OF i]) (simp add: pg'_def buf_simps)
  next
    case False
    then show ?thesis
      using len page_wf_slot [OF wf j] page_wf_disjoint [OF wf j i] w
      by (auto simp: record_at_def so [OF j]) (auto simp: pg'_def read_tuple_header_def buf_simps)
  qed
  then show "page_records pg' = (page_records pg)[i := ((fst (record_at i pg))\<lparr>xmax := x\<rparr>, snd (record_at i pg))]"
    by (auto simp: page_records_def n intro!: nth_equalityI simp: nth_list_update)
  have "slot_length (slot_at i pg) \<noteq> 0"
    using w(1) by (auto simp: slot_len_def)
  with i len show "mark_deleted i x pg = (Ok True, pg')"
    by (simp add: mark_deleted_def slots_wf [OF wf] pg'_def slot_off_def Let_def)
qed

lemma mark_deleted_out:
  "page_wf pg \<Longrightarrow> slot_count pg \<le> i \<Longrightarrow> mark_deleted i x pg = (Ok False, pg)"
  by (simp add: mark_deleted_def slots_wf)

lemma wr_rd_same:
  assumes "off + 8 \<le> length pg"
  shows "wr off (rd off pg :: u64) pg = pg"
proof -
  have len: "length (peek off 8 pg) = 8" using assms by (rule length_peek)
  then have "unat (rd off pg :: u64) = of_le (peek off 8 pg)"
    using of_le_bound [of "peek off 8 pg"] by (simp add: rd_def unat_of_nat)
  moreover have "to_le 8 (of_le (peek off 8 pg)) = peek off 8 pg" using to_le_of_le [of "peek off 8 pg"] len by simp
  moreover have "overwrite off (peek off 8 pg) pg = pg"
    using assms by (simp add: overwrite_def peek_def len min_def) (metis add.commute append_take_drop_id drop_drop)
  ultimately show ?thesis by (simp add: wr_def)
qed

lemma mark_deleted_bytes:
  fixes x :: u64
  assumes "off + 16 \<le> length pg"
  shows "write_tuple_header off ((read_tuple_header off pg)\<lparr>xmax := x\<rparr>) pg = wr (off + 8) x pg"
proof -
  have "wr off (rd off pg :: u64) pg = pg"
    using assms by (intro wr_rd_same) simp
  then show ?thesis by (simp add: write_tuple_header_def read_tuple_header_def)
qed

text \<open>
  C21: Deleting slot \<open>i\<close> succeeds exactly for an existing slot and then stores the transaction id
  into the eight bytes of that record's \<open>xmax\<close>, changing no other byte of the page: its \<open>xmin\<close> and
  payload, the other records, the slots and the page header stay as they were, and the page
  invariant holds. When the transaction id is not zero, the scans' reader hides slot \<open>i\<close> afterwards
  and answers as before on every other slot. For a slot that does not exist nothing changes.
\<close>

theorem mark_deleted_hides:
  assumes "page_wf pg" and "mark_deleted i x pg = (r :: ('e, bool) res, pg')"
  shows "r = Ok (i < slot_count pg) \<and> page_wf pg' \<and> header pg' = header pg \<and>
    pg' = (if i < slot_count pg then wr (slot_off i pg + 8) x pg else pg) \<and>
    page_records pg' = (if i < slot_count pg
      then (page_records pg)[i := (\<lparr>xmin = xmin (fst (page_records pg ! i)), xmax = x\<rparr>, snd (page_records pg ! i))]
      else page_records pg) \<and>
    (x \<noteq> 0 \<longrightarrow> (\<forall>j. (get_record_from_bytes pg' j :: ('e, _) res) =
      (if j = i then Ok None else get_record_from_bytes pg j)))"
proof (cases "i < slot_count pg")
  case True
  note d = mark_deleted_wf(2-) [OF assms(1) True, of x]
  have pg': "pg' = write_tuple_header (slot_off i pg) ((read_tuple_header (slot_off i pg) pg)\<lparr>xmax := x\<rparr>) pg"
    and r: "r = Ok True"
    using assms(2) by (simp_all add: mark_deleted_wf(1) [OF assms(1) True])
  note d = d [folded pg']
  have bytes: "pg' = wr (slot_off i pg + 8) x pg"
    unfolding pg' using page_wf_slot [OF assms(1) True] by (intro mark_deleted_bytes) simp
  have n: "slot_count pg' = slot_count pg" using d(4) by (simp add: slot_count_def)
  have "record_at j pg' = (page_records pg') ! j" if "j < slot_count pg" for j
    using that n by (simp add: nth_page_records)
  then have rec: "record_at j pg' = (if j = i then ((fst (record_at i pg))\<lparr>xmax := x\<rparr>, snd (record_at i pg))
      else record_at j pg)" if "j < slot_count pg" for j
    using that d(2) by (simp add: nth_list_update nth_page_records)
  have "(get_record_from_bytes pg' j :: ('e, _) res) = (if j = i then Ok None else get_record_from_bytes pg j)"
    if "x \<noteq> 0" for j
    using assms(1) that True by (cases "j = i") (simp_all add: get_record_from_bytes_wf d(1) n rec cong: conj_cong)
  moreover have up: "h\<lparr>xmax := x\<rparr> = \<lparr>xmin = xmin h, xmax = x\<rparr>" for h :: tuple_header by simp
  have "page_records pg' = (page_records pg)[i := (\<lparr>xmin = xmin (fst (page_records pg ! i)), xmax = x\<rparr>, snd (page_records pg ! i))]"
    unfolding d(2) up nth_page_records [OF True] ..
  ultimately show ?thesis
    using r d(1,4) True bytes by simp
next
  case False
  then have "r = Ok False" "pg' = pg"
    using assms(2) by (simp_all add: mark_deleted_out [OF assms(1)])
  with False assms(1) show ?thesis
    by (simp add: get_record_from_bytes_wf)
qed

theorem mark_deleted_hides_witness:
  "\<exists>pg pg'. page_wf pg \<and> get_record_from_bytes pg 0 = (Ok (Some (\<lparr>xmin = 7, xmax = 0\<rparr>, [1, 2])) :: (unit, _) res) \<and>
     mark_deleted 0 999 pg = (Ok True :: (unit, bool) res, pg') \<and>
     page_records pg' = [(\<lparr>xmin = 7, xmax = 999\<rparr>, [1, 2])] \<and>
     get_record_from_bytes pg' 0 = (Ok None :: (unit, _) res)"
proof -
  have wf0: "page_wf (new_page_buf 64)" and r: "page_records (new_page_buf 64) = []"
    and f: "page_free (new_page_buf 64) = 48"
    by (simp_all add: new_page_buf_def page_wf_init page_free_def header_init)
  define pg where "pg = insert_bytes (unat (free_space_upper (header (new_page_buf 64))) - (16 + length [1, 2 :: u8]))
    [1, 2] 7 (new_page_buf 64)"
  have wf: "page_wf pg" and pr: "page_records pg = [(\<lparr>xmin = 7, xmax = 0\<rparr>, [1, 2])]"
    using insert_bytes_wf(1,2) [OF wf0, of "[1, 2]" 7] f r by (simp_all add: pg_def)
  have n: "slot_count pg = 1" and rec: "record_at 0 pg = (\<lparr>xmin = 7, xmax = 0\<rparr>, [1, 2])"
    using length_page_records [of pg] nth_page_records [of 0 pg] unfolding pr by simp_all
  obtain pg' where d: "mark_deleted 0 999 pg = (Ok True :: (unit, bool) res, pg')"
    using n by (simp add: mark_deleted_wf(1) [OF wf])
  note m = mark_deleted_hides [OF wf d, THEN conjunct2, THEN conjunct2, THEN conjunct2, THEN conjunct2]
  have "page_records pg' = [(\<lparr>xmin = 7, xmax = 999\<rparr>, [1, 2])]" "get_record_from_bytes pg' 0 = (Ok None :: (unit, _) res)"
    using m by (simp_all add: n pr)
  moreover have "get_record_from_bytes pg 0 = (Ok (Some (\<lparr>xmin = 7, xmax = 0\<rparr>, [1, 2])) :: (unit, _) res)"
    using n rec by (simp add: get_record_from_bytes_wf [OF wf])
  ultimately show ?thesis
    using wf d by blast
qed

subsection \<open>Records of 64 KB\<close>

text \<open>
  C39: The required space is compared after a cast to \<open>u16\<close>: a record of 65516 bytes or a little more
  needs \<open>k\<close> bytes more than 64 KB, passes the check when \<open>k\<close> bytes are free, and the write that
  follows runs over the end of the page.
\<close>

theorem insert_record_oversized:
  assumes wf: "page_wf pg" and small: "length pg \<le> 32768"
    and big: "65516 \<le> length rec" "length rec - 65516 \<le> page_free pg"
  shows "insert_record rec xmn pg = (Panic, pg)"
proof -
  obtain k where k: "length rec = 65516 + k" using big(1) le_Suc_ex by blast
  have "page_free pg \<le> 32768" using wf small unfolding page_wf_def page_free_def by linarith
  then have "k < 65536" using big(2) k by simp
  moreover have "16 + length rec + 4 = 65536 + k" using k by simp
  ultimately have "unat (word_of_nat (16 + length rec + 4) :: u16) = k"
    by (simp only: unat_of_nat) simp
  then have "\<not> free_space_upper (header pg) - free_space_lower (header pg) < word_of_nat (16 + length rec + 4)"
    unfolding word_less_nat_alt free_space_eq_page_free [OF wf] using big(2) k by simp
  moreover have "length pg < unat (free_space_upper (header pg) - word_of_nat (16 + length rec)) + (16 + length rec)"
    using small big(1) by simp
  ultimately show ?thesis
    by (simp add: insert_record_def Let_def)
qed

theorem insert_record_oversized_witness:
  "insert_record (replicate 65516 0) 7 (new_page_buf 64) = (Panic :: (unit, nat option) res, new_page_buf 64)"
proof -
  have "page_wf (new_page_buf 64)" "length (new_page_buf 64) = 64" "page_free (new_page_buf 64) = 48"
    by (simp_all add: new_page_buf_def page_wf_init page_free_def header_init)
  then show ?thesis by (intro insert_record_oversized) simp_all
qed

end
