(* ===== verification/Storage.thy ===== *)
theory Storage
  imports Page
begin

text \<open>
  The storage layer of \<open>crates/wackdb_storage\<close>: page and tuple identifiers, the errors, the
  \<open>DiskManager\<close> interface and its file-system implementation \<open>BasicDiskManager\<close>. The files of
  the data directory are a map from file ids to bytes; every system call may fail
  (\<open>disk_faults\<close>), and a failed write may leave a part of its data. \<open>File::read\<close> on a file
  returns all bytes that are there: the short reads the standard library allows, which
  \<open>read_page\<close> fills up with zeros, are left out. \<open>disk_manager\<close> is the contract the buffer pool relies on: a view
  (what each page holds), how many pages each file has, and what each operation does to them.
\<close>

record page_id =
  file_id :: u32
  page_num :: u32

record ctid =
  ctid_page :: page_id
  slot_idx :: u16

datatype storage_error =
    IoError
  | OutOfBounds u32 u32
  | FileError u32

subsection \<open>The interface\<close>

record 'd disk_ops =
  disk_read :: "page_id \<Rightarrow> 'd \<Rightarrow> (storage_error, page) res \<times> 'd"
  disk_write :: "page_id \<Rightarrow> page \<Rightarrow> 'd \<Rightarrow> (storage_error, unit) res \<times> 'd"
  disk_allocate :: "u32 \<Rightarrow> 'd \<Rightarrow> (storage_error, page_id) res \<times> 'd"
  disk_deallocate :: "page_id \<Rightarrow> 'd \<Rightarrow> 'd"
  disk_delete :: "u32 \<Rightarrow> 'd \<Rightarrow> (storage_error, unit) res \<times> 'd"
  disk_close_all :: "'d \<Rightarrow> 'd"
  disk_total_pages :: "u32 \<Rightarrow> 'd \<Rightarrow> (storage_error, u32) res \<times> 'd"

text \<open>
  The contract: \<open>dview\<close> is the content of the pages, \<open>dtotal\<close> the next page number of a file,
  \<open>healthy\<close> says that no system call is going to fail. A failed write may leave its own page
  torn, and no other.
\<close>

locale disk_manager =
  fixes D :: "'d disk_ops" and page_size :: nat
    and dinv :: "'d \<Rightarrow> bool" and dview :: "'d \<Rightarrow> page_id \<Rightarrow> page"
    and dtotal :: "'d \<Rightarrow> u32 \<Rightarrow> u32" and healthy :: "'d \<Rightarrow> bool"
  assumes view_length: "dinv d \<Longrightarrow> length (dview d p) = page_size"
    and read_law: "dinv d \<Longrightarrow> disk_read D p d = (r, d') \<Longrightarrow>
      dinv d' \<and> dview d' = dview d \<and> dtotal d' = dtotal d \<and> (healthy d \<longrightarrow> healthy d' \<and> is_ok r) \<and>
      (case r of Ok pg \<Rightarrow> pg = dview d p | Err _ \<Rightarrow> True | Panic \<Rightarrow> False)"
    and write_law: "dinv d \<Longrightarrow> length pg = page_size \<Longrightarrow> disk_write D p pg d = (w, d') \<Longrightarrow>
      dinv d' \<and> dtotal d' = dtotal d \<and> (healthy d \<longrightarrow> healthy d' \<and> is_ok w) \<and>
      (case w of Ok _ \<Rightarrow> dview d' = (dview d)(p := pg)
        | Err _ \<Rightarrow> (\<forall>q. q \<noteq> p \<longrightarrow> dview d' q = dview d q) | Panic \<Rightarrow> False)"
    and allocate_law: "dinv d \<Longrightarrow> disk_allocate D fid d = (a, d') \<Longrightarrow>
      dinv d' \<and> dview d' = dview d \<and> (healthy d \<longrightarrow> healthy d' \<and> is_ok a) \<and>
      (case a of Ok p \<Rightarrow> p = \<lparr>file_id = fid, page_num = dtotal d fid\<rparr> \<and>
            dtotal d' = (dtotal d)(fid := dtotal d fid + 1)
        | Err _ \<Rightarrow> dtotal d' = dtotal d | Panic \<Rightarrow> False)"
    and total_law: "dinv d \<Longrightarrow> disk_total_pages D fid d = (t, d') \<Longrightarrow>
      dinv d' \<and> dview d' = dview d \<and> dtotal d' = dtotal d \<and> (healthy d \<longrightarrow> healthy d' \<and> is_ok t) \<and>
      (case t of Ok n \<Rightarrow> n = dtotal d fid | Err _ \<Rightarrow> True | Panic \<Rightarrow> False)"
begin

lemma read_ok: "dinv d \<Longrightarrow> disk_read D p d = (Ok pg, d') \<Longrightarrow>
    pg = dview d p \<and> dinv d' \<and> dview d' = dview d \<and> dtotal d' = dtotal d"
  using read_law by fastforce

lemma read_after_write:
  assumes "dinv d" and "length pg = page_size" and "disk_write D p pg d = (Ok (), d1)"
    and "disk_read D q d1 = (Ok x, d2)"
  shows "x = (if q = p then pg else dview d q)"
  using write_law [OF assms(1-3)] read_ok [of d1 q x d2] assms(4) by auto

lemma allocate_distinct:
  assumes "dinv d" and "disk_allocate D fid d = (Ok p, d1)" and "disk_allocate D fid d1 = (Ok q, d2)"
  shows "p \<noteq> q"
  using allocate_law [OF assms(1,2)] allocate_law [of d1 fid "Ok q" d2] assms(3) by auto

end

subsection \<open>The basic disk manager\<close>

record basic_disk =
  disk_files :: "u32 \<Rightarrow> bytes option"
  disk_faults :: faults
  file_handles :: "u32 \<Rightarrow> u32 option"

definition new_basic_disk :: "(u32 \<Rightarrow> bytes option) \<Rightarrow> faults \<Rightarrow> (storage_error, unit) res \<times> basic_disk" where
  "new_basic_disk fs flt = (case next_call flt of
       (None, flt') \<Rightarrow> (Ok (), \<lparr>disk_files = fs, disk_faults = flt', file_handles = (\<lambda>_. None)\<rparr>)
     | (Some _, flt') \<Rightarrow> (Err IoError, \<lparr>disk_files = fs, disk_faults = flt', file_handles = (\<lambda>_. None)\<rparr>))"

definition file_bytes :: "u32 \<Rightarrow> basic_disk \<Rightarrow> bytes" where
  "file_bytes fid d = (case disk_files d fid of None \<Rightarrow> [] | Some bs \<Rightarrow> bs)"

text \<open>A system call that changes nothing but may fail, and \<open>write_all\<close>.\<close>

definition syscall :: "basic_disk \<Rightarrow> (storage_error, unit) res \<times> basic_disk" where
  "syscall d = (case next_call (disk_faults d) of
       (None, fs) \<Rightarrow> (Ok (), d\<lparr>disk_faults := fs\<rparr>)
     | (Some n, fs) \<Rightarrow> (Err IoError, d\<lparr>disk_faults := fs\<rparr>))"

definition write_file :: "u32 \<Rightarrow> nat \<Rightarrow> bytes \<Rightarrow> basic_disk \<Rightarrow> basic_disk" where
  "write_file fid off data d =
     d\<lparr>disk_files := (disk_files d)(fid \<mapsto> file_write off data (file_bytes fid d))\<rparr>"

definition write_all :: "u32 \<Rightarrow> nat \<Rightarrow> bytes \<Rightarrow> basic_disk \<Rightarrow> (storage_error, unit) res \<times> basic_disk" where
  "write_all fid off data d = (case next_call (disk_faults d) of
       (None, fs) \<Rightarrow> (Ok (), write_file fid off data (d\<lparr>disk_faults := fs\<rparr>))
     | (Some n, fs) \<Rightarrow> (Err IoError, write_file fid off (take n data) (d\<lparr>disk_faults := fs\<rparr>)))"

definition ensure_file_open :: "nat \<Rightarrow> u32 \<Rightarrow> basic_disk \<Rightarrow> (storage_error, unit) res \<times> basic_disk" where
  "ensure_file_open ps fid d = (case file_handles d fid of
       Some _ \<Rightarrow> (Ok (), d)
     | None \<Rightarrow> and_then (syscall d) (\<lambda>_ d.
         and_then (syscall (d\<lparr>disk_files := (disk_files d)(fid \<mapsto> file_bytes fid d)\<rparr>)) (\<lambda>_ d.
           (Ok (), d\<lparr>file_handles := (file_handles d)(fid \<mapsto>
              word_of_nat (length (file_bytes fid d) div ps))\<rparr>))))"

definition read_page :: "nat \<Rightarrow> page_id \<Rightarrow> basic_disk \<Rightarrow> (storage_error, page) res \<times> basic_disk" where
  "read_page ps pid d = and_then (ensure_file_open ps (file_id pid) d) (\<lambda>_ d.
     case file_handles d (file_id pid) of
       None \<Rightarrow> (Err (FileError (file_id pid)), d)
     | Some _ \<Rightarrow>
         let offset = unat (page_num pid) * ps in
         and_then (syscall d) (\<lambda>_ d.
           let bs = file_bytes (file_id pid) d in
           if length bs \<le> offset then (Ok (replicate ps 0), d)
           else and_then (syscall d) (\<lambda>_ d. and_then (syscall d) (\<lambda>_ d.
             let temp_buf = peek offset ps bs
             in (Ok (temp_buf @ replicate (ps - length temp_buf) 0), d)))))"

definition write_page :: "nat \<Rightarrow> page_id \<Rightarrow> page \<Rightarrow> basic_disk \<Rightarrow> (storage_error, unit) res \<times> basic_disk" where
  "write_page ps pid data d = and_then (ensure_file_open ps (file_id pid) d) (\<lambda>_ d.
     case file_handles d (file_id pid) of
       None \<Rightarrow> (Err (FileError (file_id pid)), d)
     | Some _ \<Rightarrow>
         let offset = unat (page_num pid) * ps in
         and_then (syscall d) (\<lambda>_ d.
           and_then (write_all (file_id pid) offset data d) (\<lambda>_ d. syscall d)))"

definition allocate_page :: "nat \<Rightarrow> u32 \<Rightarrow> basic_disk \<Rightarrow> (storage_error, page_id) res \<times> basic_disk" where
  "allocate_page ps fid d = and_then (ensure_file_open ps fid d) (\<lambda>_ d.
     case file_handles d fid of
       None \<Rightarrow> (Err (FileError fid), d)
     | Some n \<Rightarrow> (Ok \<lparr>file_id = fid, page_num = n\<rparr>,
                  d\<lparr>file_handles := (file_handles d)(fid \<mapsto> n + 1)\<rparr>))"

definition deallocate_page :: "page_id \<Rightarrow> basic_disk \<Rightarrow> basic_disk" where
  "deallocate_page pid d = d"

definition delete_file :: "u32 \<Rightarrow> basic_disk \<Rightarrow> (storage_error, unit) res \<times> basic_disk" where
  "delete_file fid d = (let d1 = d\<lparr>file_handles := (file_handles d)(fid := None)\<rparr> in
     case disk_files d1 fid of
       None \<Rightarrow> (Ok (), d1)
     | Some _ \<Rightarrow> and_then (syscall d1) (\<lambda>_ d2.
         (Ok (), d2\<lparr>disk_files := (disk_files d2)(fid := None)\<rparr>)))"

definition close_all :: "basic_disk \<Rightarrow> basic_disk" where
  "close_all d = d\<lparr>file_handles := (\<lambda>_. None)\<rparr>"

definition get_total_pages :: "nat \<Rightarrow> u32 \<Rightarrow> basic_disk \<Rightarrow> (storage_error, u32) res \<times> basic_disk" where
  "get_total_pages ps fid d = and_then (ensure_file_open ps fid d) (\<lambda>_ d.
     case file_handles d fid of None \<Rightarrow> (Err (FileError fid), d) | Some n \<Rightarrow> (Ok n, d))"

definition basic_disk_ops :: "nat \<Rightarrow> basic_disk disk_ops" where
  "basic_disk_ops ps = \<lparr>disk_read = read_page ps, disk_write = write_page ps,
     disk_allocate = allocate_page ps, disk_deallocate = deallocate_page, disk_delete = delete_file,
     disk_close_all = close_all, disk_total_pages = get_total_pages ps\<rparr>"

subsection \<open>Its view\<close>

definition page_of :: "nat \<Rightarrow> nat \<Rightarrow> bytes \<Rightarrow> page" where
  "page_of ps n bs = map (\<lambda>i. byte_at (n * ps + i) bs) [0..<ps]"

definition basic_view :: "nat \<Rightarrow> basic_disk \<Rightarrow> page_id \<Rightarrow> page" where
  "basic_view ps d pid = page_of ps (unat (page_num pid)) (file_bytes (file_id pid) d)"

definition basic_total :: "nat \<Rightarrow> basic_disk \<Rightarrow> u32 \<Rightarrow> u32" where
  "basic_total ps d fid = (case file_handles d fid of
     Some n \<Rightarrow> n | None \<Rightarrow> word_of_nat (length (file_bytes fid d) div ps))"

definition basic_inv :: "basic_disk \<Rightarrow> bool" where
  "basic_inv d \<longleftrightarrow> (\<forall>fid. file_handles d fid \<noteq> None \<longrightarrow> disk_files d fid \<noteq> None)"

definition basic_healthy :: "basic_disk \<Rightarrow> bool" where
  "basic_healthy d \<longleftrightarrow> (\<forall>f \<in> set (disk_faults d). f = None)"

text \<open>\<open>keeps ps d d'\<close>: nothing a client can see changed from \<open>d\<close> to \<open>d'\<close>.\<close>

definition keeps :: "nat \<Rightarrow> basic_disk \<Rightarrow> basic_disk \<Rightarrow> bool" where
  "keeps ps d d' \<longleftrightarrow> (basic_inv d \<longrightarrow> basic_inv d') \<and> basic_view ps d' = basic_view ps d \<and>
     basic_total ps d' = basic_total ps d \<and> (basic_healthy d \<longrightarrow> basic_healthy d')"

lemma keeps_refl [simp]: "keeps ps d d"
  by (simp add: keeps_def)

lemma keeps_trans [trans]: "keeps ps a b \<Longrightarrow> keeps ps b c \<Longrightarrow> keeps ps a c"
  by (auto simp: keeps_def)

lemma next_call_None:
  "\<forall>f \<in> set fs. f = None \<Longrightarrow> \<exists>fs'. next_call fs = (None, fs') \<and> (\<forall>f \<in> set fs'. f = None)"
  by (cases fs) auto

lemma syscall_cases:
  assumes "syscall d = (r, d')"
  shows "\<exists>fs. d' = d\<lparr>disk_faults := fs\<rparr>" and "r \<noteq> Panic" and "basic_healthy d \<Longrightarrow> r = Ok () \<and> basic_healthy d'"
    and "keeps ps d d'" and "file_handles d' = file_handles d" and "file_bytes fid d' = file_bytes fid d"
  using assms next_call_None [of "disk_faults d"]
  by (auto simp: syscall_def keeps_def basic_inv_def basic_view_def basic_total_def file_bytes_def
      basic_healthy_def fun_eq_iff split: prod.splits option.splits)

lemma ensure_file_open_cases:
  assumes "ensure_file_open ps fid d = (r, d')"
  shows "keeps ps d d'" and "r \<noteq> Panic" and "r = Ok () \<Longrightarrow> \<exists>n. file_handles d' fid = Some n"
    and "basic_healthy d \<Longrightarrow> r = Ok ()"
proof -
  have create: "keeps ps d (d\<lparr>disk_files := (disk_files d)(fid \<mapsto> file_bytes fid d)\<rparr>)" for d
    by (auto simp: keeps_def basic_inv_def basic_view_def basic_total_def file_bytes_def basic_healthy_def fun_eq_iff
        split: option.splits)
  have opened: "keeps ps d (d\<lparr>file_handles := (file_handles d)(fid \<mapsto> word_of_nat (length (file_bytes fid d) div ps))\<rparr>)"
    if "file_handles d fid = None" "disk_files d fid \<noteq> None" for d
    using that by (auto simp: keeps_def basic_inv_def basic_view_def basic_total_def file_bytes_def basic_healthy_def
        fun_eq_iff split: option.splits)
  have "keeps ps d d' \<and> r \<noteq> Panic \<and> (r = Ok () \<longrightarrow> (\<exists>n. file_handles d' fid = Some n)) \<and> (basic_healthy d \<longrightarrow> r = Ok ())"
  proof (cases "file_handles d fid")
    case (Some n)
    with assms show ?thesis by (auto simp: ensure_file_open_def)
  next
    case None
    obtain r1 d1 where s1: "syscall d = (r1, d1)" by fastforce
    note c1 = syscall_cases [OF s1]
    show ?thesis
    proof (cases r1)
      case (Ok u)
      let ?d2 = "d1\<lparr>disk_files := (disk_files d1)(fid \<mapsto> file_bytes fid d1)\<rparr>"
      obtain r2 d3 where s2: "syscall ?d2 = (r2, d3)" by fastforce
      note c2 = syscall_cases [OF s2]
      have k: "keeps ps d d3"
        using c1(4) create [of d1] c2(4) by (blast intro: keeps_trans)
      have h: "file_handles d3 fid = None" "disk_files d3 fid \<noteq> None"
        using None c1(5) c2(1) by auto
      have ok: "basic_healthy d \<Longrightarrow> r2 = Ok ()"
        using c1(3) c2(3) create [of d1] by (simp add: keeps_def)
      show ?thesis
      proof (cases r2)
        case (Ok u')
        with None s1 s2 assms \<open>r1 = Ok u\<close>
        have "d' = d3\<lparr>file_handles := (file_handles d3)(fid \<mapsto> word_of_nat (length (file_bytes fid d3) div ps))\<rparr>"
          "r = Ok ()" by (simp_all add: ensure_file_open_def)
        with k opened [OF h] show ?thesis by (auto intro: keeps_trans)
      qed (use None s1 s2 assms \<open>r1 = Ok u\<close> k ok c2(2) in \<open>auto simp: ensure_file_open_def\<close>)
    qed (use None s1 assms c1 in \<open>auto simp: ensure_file_open_def\<close>)
  qed
  then show "keeps ps d d'" "r \<noteq> Panic" "r = Ok () \<Longrightarrow> \<exists>n. file_handles d' fid = Some n" "basic_healthy d \<Longrightarrow> r = Ok ()"
    by simp_all
qed

lemma length_page_of [simp]: "length (page_of ps n bs) = ps"
  by (simp add: page_of_def)

lemma page_of_beyond: "length bs \<le> n * ps \<Longrightarrow> page_of ps n bs = replicate ps 0"
  by (auto simp: page_of_def byte_at_def intro!: nth_equalityI)

lemma page_of_peek:
  "n * ps < length bs \<Longrightarrow>
   peek (n * ps) ps bs @ replicate (ps - length (peek (n * ps) ps bs)) 0 = page_of ps n bs"
  by (auto simp: page_of_def byte_at_def peek_def nth_append intro!: nth_equalityI)

lemma page_of_file_write_other:
  assumes "m \<noteq> n" and "length data \<le> ps"
  shows "page_of ps n (file_write (m * ps) data bs) = page_of ps n bs"
proof -
  have "byte_at (n * ps + i) (file_write (m * ps) data bs) = byte_at (n * ps + i) bs" if "i < ps" for i
  proof (cases "n < m")
    case True
    then have "Suc n * ps \<le> m * ps" by (intro mult_le_mono1) simp
    with that show ?thesis by (simp add: byte_at_file_write)
  next
    case False
    with assms(1) have "Suc m * ps \<le> n * ps" by (intro mult_le_mono1) simp
    with assms(2) show ?thesis by (simp add: byte_at_file_write)
  qed
  then show ?thesis by (simp add: page_of_def)
qed

lemma page_of_file_write_same:
  "length data = ps \<Longrightarrow> page_of ps n (file_write (n * ps) data bs) = data"
  by (auto simp: page_of_def byte_at_file_write intro!: nth_equalityI)

lemma read_page_cases:
  assumes "read_page ps pid d = (r, d')"
  shows "keeps ps d d'" and "r \<noteq> Panic" and "basic_healthy d \<Longrightarrow> is_ok r"
    and "r = Ok pg \<Longrightarrow> pg = basic_view ps d pid"
proof -
  obtain r1 d1 where e: "ensure_file_open ps (file_id pid) d = (r1, d1)" by fastforce
  note e1 = ensure_file_open_cases [OF e]
  have "keeps ps d d' \<and> r \<noteq> Panic \<and> (basic_healthy d \<longrightarrow> is_ok r) \<and> (\<forall>pg. r = Ok pg \<longrightarrow> pg = basic_view ps d pid)"
  proof (cases r1)
    case (Ok u)
    then obtain n where n: "file_handles d1 (file_id pid) = Some n" using e1(3) by auto
    obtain r2 d2 where s2: "syscall d1 = (r2, d2)" by fastforce
    obtain r3 d3 where s3: "syscall d2 = (r3, d3)" by fastforce
    obtain r4 d4 where s4: "syscall d3 = (r4, d4)" by fastforce
    note c2 = syscall_cases [OF s2] and c3 = syscall_cases [OF s3] and c4 = syscall_cases [OF s4]
    have ks: "keeps ps d d2" "keeps ps d d3" "keeps ps d d4"
      using e1(1) c2(4) c3(4) c4(4) by (blast intro: keeps_trans)+
    have h: "basic_healthy d \<Longrightarrow> r2 = Ok () \<and> r3 = Ok () \<and> r4 = Ok ()"
      using e1(1) c2(3,4) c3(3,4) c4(3) by (simp add: keeps_def)
    have v: "basic_view ps d pid = page_of ps (unat (page_num pid)) (file_bytes (file_id pid) d2)"
      using ks(1) by (metis basic_view_def keeps_def)
    show ?thesis
      using assms Ok e n s2 s3 s4 ks h c2(2) c3(2) c4(2)
      by (cases r2; cases r3; cases r4)
         (auto simp: read_page_def Let_def v page_of_beyond page_of_peek split: if_splits)
  qed (use assms e e1 in \<open>auto simp: read_page_def\<close>)
  then show "keeps ps d d'" "r \<noteq> Panic" "basic_healthy d \<Longrightarrow> is_ok r" "r = Ok pg \<Longrightarrow> pg = basic_view ps d pid"
    by simp_all
qed

lemma write_file_simps [simp]:
  "file_bytes g (write_file fid off data d) =
    (if g = fid then file_write off data (file_bytes g d) else file_bytes g d)"
  "file_handles (write_file fid off data d) = file_handles d"
  "file_bytes g (d\<lparr>disk_faults := fs\<rparr>) = file_bytes g d"
  "file_bytes g (d\<lparr>file_handles := h\<rparr>) = file_bytes g d"
  by (simp_all add: write_file_def file_bytes_def)

lemma write_all_cases:
  assumes "write_all fid off data d = (r, d')" and "file_handles d fid = Some n" and "basic_inv d"
  shows "basic_inv d'" and "r \<noteq> Panic" and "basic_healthy d \<Longrightarrow> r = Ok () \<and> basic_healthy d'"
    and "file_handles d' = file_handles d" and "basic_total ps d' = basic_total ps d"
    and "\<exists>k. file_bytes g d' = (if g = fid then file_write off (take k data) (file_bytes g d) else file_bytes g d)"
    and "r = Ok () \<Longrightarrow> file_bytes g d' = (if g = fid then file_write off data (file_bytes g d) else file_bytes g d)"
proof -
  have "basic_total ps d' = basic_total ps d"
    using assms(1,2)
    by (auto simp: write_all_def basic_total_def fun_eq_iff split: prod.splits option.splits)
  then show "basic_total ps d' = basic_total ps d" .
  show "basic_inv d'" "r \<noteq> Panic" "file_handles d' = file_handles d"
    using assms by (auto simp: write_all_def write_file_def basic_inv_def split: prod.splits option.splits)
  show "basic_healthy d \<Longrightarrow> r = Ok () \<and> basic_healthy d'"
    using assms(1) next_call_None [of "disk_faults d"]
    by (auto simp: write_all_def write_file_def basic_healthy_def)
  show "r = Ok () \<Longrightarrow> file_bytes g d' = (if g = fid then file_write off data (file_bytes g d) else file_bytes g d)"
    using assms(1) by (auto simp: write_all_def split: prod.splits option.splits)
  have "\<exists>k. d' = write_file fid off (take k data) (d\<lparr>disk_faults := snd (next_call (disk_faults d))\<rparr>)"
    using assms(1) by (auto simp: write_all_def split: prod.splits option.splits intro: exI [of _ "length data"])
  then show "\<exists>k. file_bytes g d' = (if g = fid then file_write off (take k data) (file_bytes g d) else file_bytes g d)"
    by auto
qed

lemma write_page_cases:
  assumes "write_page ps pid data d = (r, d')" and inv: "basic_inv d" and len: "length data = ps"
  shows "basic_inv d'" and "basic_total ps d' = basic_total ps d" and "r \<noteq> Panic"
    and "basic_healthy d \<Longrightarrow> is_ok r \<and> basic_healthy d'"
    and "q \<noteq> pid \<Longrightarrow> basic_view ps d' q = basic_view ps d q"
    and "r = Ok () \<Longrightarrow> basic_view ps d' = (basic_view ps d)(pid := data)"
proof -
  let ?fid = "file_id pid" and ?off = "unat (page_num pid) * ps"
  obtain r1 d1 where e: "ensure_file_open ps ?fid d = (r1, d1)" by fastforce
  note e1 = ensure_file_open_cases [OF e]
  have same: "q = pid" if "file_id q = ?fid" "unat (page_num q) = unat (page_num pid)" for q
    using that by (intro page_id.equality) (auto intro: unsigned_word_eqI)
  have "basic_inv d' \<and> basic_total ps d' = basic_total ps d \<and> r \<noteq> Panic \<and>
      (basic_healthy d \<longrightarrow> is_ok r \<and> basic_healthy d') \<and>
      (\<forall>q. q \<noteq> pid \<longrightarrow> basic_view ps d' q = basic_view ps d q) \<and>
      (r = Ok () \<longrightarrow> basic_view ps d' pid = data)"
  proof (cases r1)
    case (Ok u)
    then obtain n where n: "file_handles d1 ?fid = Some n" using e1(3) by auto
    obtain r2 d2 where s2: "syscall d1 = (r2, d2)" by fastforce
    obtain r3 d3 where s3: "write_all ?fid ?off data d2 = (r3, d3)" by fastforce
    obtain r4 d4 where s4: "syscall d3 = (r4, d4)" by fastforce
    note c2 = syscall_cases [OF s2] and c4 = syscall_cases [OF s4]
    have k2: "keeps ps d d2" using e1(1) c2(4) by (blast intro: keeps_trans)
    have n2: "file_handles d2 ?fid = Some n" using n c2(5) by simp
    have i2: "basic_inv d2" using k2 inv by (simp add: keeps_def)
    note c3 = write_all_cases [OF s3 n2 i2]
    have t3: "basic_total ps d3 = basic_total ps d" using c3(5) k2 by (simp add: keeps_def)
    have v3: "basic_view ps d3 q = basic_view ps d q" if "q \<noteq> pid" for q
    proof -
      obtain k where k: "file_bytes (file_id q) d3 = (if file_id q = ?fid
          then file_write ?off (take k data) (file_bytes (file_id q) d2) else file_bytes (file_id q) d2)"
        using c3(6) by blast
      have "basic_view ps d3 q = basic_view ps d2 q"
      proof (cases "file_id q = ?fid")
        case True
        with that same [of q] have "unat (page_num pid) \<noteq> unat (page_num q)" by metis
        moreover have "length (take k data) \<le> ps" using len by simp
        ultimately show ?thesis
          using k True page_of_file_write_other by (simp add: basic_view_def)
      qed (simp add: basic_view_def k)
      then show ?thesis using k2 by (simp add: keeps_def)
    qed
    have w3: "basic_view ps d3 pid = data" if "r3 = Ok ()"
      using c3(7) [OF that] len by (simp add: basic_view_def page_of_file_write_same)
    have h: "basic_healthy d \<Longrightarrow> r2 = Ok () \<and> r3 = Ok () \<and> r4 = Ok () \<and> basic_healthy d4"
      using e1(1) c2(3,4) c3(3) c4(3) by (simp add: keeps_def)
    have k4: "keeps ps d3 d4" by (rule c4(4))
    have cases: "(r, d') = (case r2 of Ok _ \<Rightarrow> (case r3 of Ok _ \<Rightarrow> (r4, d4) | Err e \<Rightarrow> (Err e, d3) | Panic \<Rightarrow> (Panic, d3))
        | Err e \<Rightarrow> (Err e, d2) | Panic \<Rightarrow> (Panic, d2))"
      unfolding assms(1) [symmetric] using Ok e n s2 s3 s4
      by (cases r2; cases r3) (simp_all add: write_page_def Let_def)
    show ?thesis
      using cases k2 k4 i2 c3(1,2) c2(2) c4(2) t3 v3 w3 h
      by (cases r2; cases r3) (auto simp: keeps_def)
  qed (use assms e e1 in \<open>auto simp: write_page_def keeps_def\<close>)
  then show "basic_inv d'" "basic_total ps d' = basic_total ps d" "r \<noteq> Panic"
    "basic_healthy d \<Longrightarrow> is_ok r \<and> basic_healthy d'"
    "q \<noteq> pid \<Longrightarrow> basic_view ps d' q = basic_view ps d q"
    "r = Ok () \<Longrightarrow> basic_view ps d' = (basic_view ps d)(pid := data)"
    by auto
qed

lemma allocate_page_cases:
  assumes "allocate_page ps fid d = (r, d')" and "basic_inv d"
  shows "basic_inv d'" and "basic_view ps d' = basic_view ps d" and "r \<noteq> Panic"
    and "basic_healthy d \<Longrightarrow> is_ok r \<and> basic_healthy d'"
    and "r = Ok p \<Longrightarrow> p = \<lparr>file_id = fid, page_num = basic_total ps d fid\<rparr> \<and>
      basic_total ps d' = (basic_total ps d)(fid := basic_total ps d fid + 1)"
    and "r = Err e \<Longrightarrow> basic_total ps d' = basic_total ps d"
proof -
  obtain r1 d1 where e: "ensure_file_open ps fid d = (r1, d1)" by fastforce
  note e1 = ensure_file_open_cases [OF e]
  have "basic_inv d' \<and> basic_view ps d' = basic_view ps d \<and> r \<noteq> Panic \<and>
    (basic_healthy d \<longrightarrow> is_ok r \<and> basic_healthy d') \<and>
    (\<forall>p. r = Ok p \<longrightarrow> p = \<lparr>file_id = fid, page_num = basic_total ps d fid\<rparr> \<and>
      basic_total ps d' = (basic_total ps d)(fid := basic_total ps d fid + 1)) \<and>
    (\<forall>e. r = Err e \<longrightarrow> basic_total ps d' = basic_total ps d)"
  proof (cases r1)
    case (Ok u)
    then obtain n where n: "file_handles d1 fid = Some n" using e1(3) by auto
    have t: "basic_total ps d fid = n"
      using e1(1) n by (metis basic_total_def keeps_def option.simps(5))
    have "r = Ok \<lparr>file_id = fid, page_num = n\<rparr>" "d' = d1\<lparr>file_handles := (file_handles d1)(fid \<mapsto> n + 1)\<rparr>"
      using assms(1) Ok e n by (simp_all add: allocate_page_def)
    moreover have "basic_view ps d' = basic_view ps d1" "basic_total ps d' = (basic_total ps d1)(fid := n + 1)"
      "basic_inv d1 \<Longrightarrow> basic_inv d'" "basic_healthy d1 \<Longrightarrow> basic_healthy d'"
      using calculation n by (auto simp: basic_inv_def basic_view_def basic_healthy_def
          basic_total_def fun_eq_iff split: option.split)
    ultimately show ?thesis
      using e1(1) t assms(2) by (simp add: keeps_def)
  qed (use assms e e1 in \<open>auto simp: allocate_page_def keeps_def\<close>)
  then show "basic_inv d'" "basic_view ps d' = basic_view ps d" "r \<noteq> Panic"
    "basic_healthy d \<Longrightarrow> is_ok r \<and> basic_healthy d'"
    "r = Ok p \<Longrightarrow> p = \<lparr>file_id = fid, page_num = basic_total ps d fid\<rparr> \<and>
      basic_total ps d' = (basic_total ps d)(fid := basic_total ps d fid + 1)"
    "r = Err e \<Longrightarrow> basic_total ps d' = basic_total ps d"
    by auto
qed

lemma get_total_pages_cases:
  assumes "get_total_pages ps fid d = (r, d')"
  shows "keeps ps d d'" and "r \<noteq> Panic" and "basic_healthy d \<Longrightarrow> is_ok r"
    and "r = Ok n \<Longrightarrow> n = basic_total ps d fid"
proof -
  obtain r1 d1 where e: "ensure_file_open ps fid d = (r1, d1)" by fastforce
  note e1 = ensure_file_open_cases [OF e]
  have "keeps ps d d' \<and> r \<noteq> Panic \<and> (basic_healthy d \<longrightarrow> is_ok r) \<and> (\<forall>n. r = Ok n \<longrightarrow> n = basic_total ps d fid)"
  proof (cases r1)
    case (Ok u)
    then obtain n where n: "file_handles d1 fid = Some n" using e1(3) by auto
    have "basic_total ps d fid = n"
      using e1(1) n by (metis basic_total_def keeps_def option.simps(5))
    with n Ok e e1(1) assms show ?thesis by (auto simp: get_total_pages_def)
  qed (use assms e e1 in \<open>auto simp: get_total_pages_def\<close>)
  then show "keeps ps d d'" "r \<noteq> Panic" "basic_healthy d \<Longrightarrow> is_ok r" "r = Ok n \<Longrightarrow> n = basic_total ps d fid"
    by auto
qed

interpretation bd: disk_manager "basic_disk_ops ps" ps basic_inv "basic_view ps" "basic_total ps" basic_healthy
  for ps
proof
  show "length (basic_view ps d p) = ps" for d p by (simp add: basic_view_def)
next
  fix d p r d' assume "basic_inv d" "disk_read (basic_disk_ops ps) p d = (r, d')"
  then show "basic_inv d' \<and> basic_view ps d' = basic_view ps d \<and> basic_total ps d' = basic_total ps d \<and>
      (basic_healthy d \<longrightarrow> basic_healthy d' \<and> is_ok r) \<and>
      (case r of Ok pg \<Rightarrow> pg = basic_view ps d p | Err _ \<Rightarrow> True | Panic \<Rightarrow> False)"
    using read_page_cases [of ps p d r d'] by (cases r) (auto simp: basic_disk_ops_def keeps_def)
next
  fix d p pg w d' assume "basic_inv d" "length pg = ps" "disk_write (basic_disk_ops ps) p pg d = (w, d')"
  then show "basic_inv d' \<and> basic_total ps d' = basic_total ps d \<and>
      (basic_healthy d \<longrightarrow> basic_healthy d' \<and> is_ok w) \<and>
      (case w of Ok _ \<Rightarrow> basic_view ps d' = (basic_view ps d)(p := pg)
        | Err _ \<Rightarrow> (\<forall>q. q \<noteq> p \<longrightarrow> basic_view ps d' q = basic_view ps d q) | Panic \<Rightarrow> False)"
    using write_page_cases [of ps p pg d w d'] by (cases w) (auto simp: basic_disk_ops_def)
next
  fix d fid a d' assume "basic_inv d" "disk_allocate (basic_disk_ops ps) fid d = (a, d')"
  then show "basic_inv d' \<and> basic_view ps d' = basic_view ps d \<and>
      (basic_healthy d \<longrightarrow> basic_healthy d' \<and> is_ok a) \<and>
      (case a of Ok p \<Rightarrow> p = \<lparr>file_id = fid, page_num = basic_total ps d fid\<rparr> \<and>
            basic_total ps d' = (basic_total ps d)(fid := basic_total ps d fid + 1)
        | Err _ \<Rightarrow> basic_total ps d' = basic_total ps d | Panic \<Rightarrow> False)"
    using allocate_page_cases [of ps fid d a d'] by (cases a) (auto simp: basic_disk_ops_def)
next
  fix d fid t d' assume "basic_inv d" "disk_total_pages (basic_disk_ops ps) fid d = (t, d')"
  then show "basic_inv d' \<and> basic_view ps d' = basic_view ps d \<and> basic_total ps d' = basic_total ps d \<and>
      (basic_healthy d \<longrightarrow> basic_healthy d' \<and> is_ok t) \<and>
      (case t of Ok n \<Rightarrow> n = basic_total ps d fid | Err _ \<Rightarrow> True | Panic \<Rightarrow> False)"
    using get_total_pages_cases [of ps fid d t d'] by (cases t) (auto simp: basic_disk_ops_def keeps_def)
qed

subsection \<open>What a client reads\<close>

text \<open>
  C28: After \<open>write_page\<close> of page \<open>p\<close>, successful or not and with any system call failing on the
  way, every other page reads as before; when it succeeded, \<open>p\<close> reads as the data written.
\<close>

theorem disk_read_after_write:
  assumes "basic_inv d" and "length pg = ps" and "write_page ps p pg d = (w, d1)"
    and "read_page ps q d1 = (Ok x, d2)"
  shows "(q \<noteq> p \<longrightarrow> x = basic_view ps d q) \<and> (q = p \<and> w = Ok () \<longrightarrow> x = pg)"
  using write_page_cases [OF assms(3,1,2)] read_page_cases(4) [OF assms(4)] by auto

theorem disk_read_after_write_witness:
  "\<exists>d1 d2. write_page 2 \<lparr>file_id = 1, page_num = 1\<rparr> [7, 8]
      \<lparr>disk_files = (\<lambda>_. None), disk_faults = [], file_handles = (\<lambda>_. None)\<rparr> = (Ok (), d1) \<and>
    read_page 2 \<lparr>file_id = 1, page_num = 1\<rparr> d1 = (Ok [7, 8], d2)"
proof -
  let ?d = "\<lparr>disk_files = (\<lambda>_. None), disk_faults = [], file_handles = (\<lambda>_. None)\<rparr>"
  let ?p = "\<lparr>file_id = 1, page_num = 1\<rparr>"
  have inv: "basic_inv ?d" and h: "basic_healthy ?d" by (simp_all add: basic_inv_def basic_healthy_def)
  obtain w d1 where w: "write_page 2 ?p [7, 8] ?d = (w, d1)" by fastforce
  have w': "w = Ok ()" "basic_healthy d1"
    using write_page_cases(4) [OF w inv] h by (cases w; simp)+
  obtain r d2 where r: "read_page 2 ?p d1 = (r, d2)" by fastforce
  then obtain x where x: "r = Ok x" using read_page_cases(3) [OF r w'(2)] by (auto simp: is_ok_iff)
  have "x = [7, 8]"
    using disk_read_after_write [OF inv _ w r [unfolded x]] w'(1) by simp
  with w r w' x show ?thesis by blast
qed

text \<open>
  C29: Allocating pages of a file hands out consecutive page numbers, and the reads and writes of
  any page in between do not disturb that: the next number is one more than the last (so the two
  pages differ), until the file is closed.
\<close>

theorem allocate_page_fresh:
  assumes "basic_inv d" and "allocate_page ps fid d = (Ok p, d1)"
    and "length pg = ps" and "write_page ps w pg d1 = (rw, d2)" and "read_page ps q d2 = (rr, d3)"
    and "allocate_page ps fid d3 = (Ok p', d4)"
  shows "p' = p\<lparr>page_num := page_num p + 1\<rparr> \<and> p' \<noteq> p"
proof -
  note a = allocate_page_cases [OF assms(2,1)]
  note w = write_page_cases [OF assms(4) a(1) assms(3)]
  have r: "basic_inv d3" "basic_total ps d3 = basic_total ps d2"
    using read_page_cases(1) [OF assms(5)] w(1) by (simp_all add: keeps_def)
  show ?thesis
    using a(5) allocate_page_cases(5) [OF assms(6) r(1)] r(2) w(2) by simp
qed

theorem allocate_page_fresh_witness:
  "\<exists>d1 d2 d3 d4. allocate_page 2 5 \<lparr>disk_files = (\<lambda>_. None), disk_faults = [], file_handles = (\<lambda>_. None)\<rparr>
      = (Ok \<lparr>file_id = 5, page_num = 0\<rparr>, d1) \<and>
    write_page 2 \<lparr>file_id = 5, page_num = 0\<rparr> [1, 2] d1 = (Ok (), d2) \<and>
    read_page 2 \<lparr>file_id = 5, page_num = 0\<rparr> d2 = (Ok [1, 2], d3) \<and>
    allocate_page 2 5 d3 = (Ok \<lparr>file_id = 5, page_num = 1\<rparr>, d4)"
proof -
  let ?d = "\<lparr>disk_files = (\<lambda>_. None), disk_faults = [], file_handles = (\<lambda>_. None)\<rparr>"
  let ?p = "\<lparr>file_id = 5, page_num = 0\<rparr>"
  have inv: "basic_inv ?d" and h: "basic_healthy ?d" by (simp_all add: basic_inv_def basic_healthy_def)
  obtain a d1 where a: "allocate_page 2 5 ?d = (a, d1)" by fastforce
  note ac = allocate_page_cases [OF a inv]
  then obtain p where p: "a = Ok p" using h by (auto simp: is_ok_iff)
  have pp: "p = ?p" using ac(5) [OF p] by (simp add: basic_total_def file_bytes_def)
  obtain w d2 where w: "write_page 2 ?p [1, 2] d1 = (w, d2)" by fastforce
  note wc = write_page_cases [OF w ac(1)]
  have w': "w = Ok ()" using wc(4) ac(4) h by (cases w) simp_all
  obtain r d3 where r: "read_page 2 ?p d2 = (r, d3)" by fastforce
  note rc = read_page_cases [OF r]
  then obtain x where x: "r = Ok x" using wc(4) ac(4) h by (auto simp: is_ok_iff)
  have x': "x = [1, 2]" using rc(4) [OF x] wc(6) w' by simp
  have inv3: "basic_inv d3" "basic_healthy d3" using rc(1) wc ac h by (auto simp: keeps_def)
  obtain b d4 where b: "allocate_page 2 5 d3 = (b, d4)" by fastforce
  then obtain p' where p': "b = Ok p'" using allocate_page_cases(4) [OF b inv3(1) inv3(2)] by (auto simp: is_ok_iff)
  have "p' = p\<lparr>page_num := page_num p + 1\<rparr>"
    using allocate_page_fresh [OF inv a [unfolded p] _ w r b [unfolded p']] by simp
  with a p pp w w' r x x' b p' show ?thesis by auto
qed

end
