(* ===== verification/Lru.thy ===== *)
theory Lru
  imports Prelude
begin

text \<open>
  The page replacement policy of \<open>crates/wackdb_buffer\<close>: \<open>LRUReplacer\<close> (\<open>lru.rs\<close>) and, as the
  locale \<open>replacement_policy\<close>, the contract of the trait \<open>ReplacementPolicy\<close> (\<open>replacer.rs\<close>).
  The abstraction of a policy is the list of its tracked frames, the next victim first, and the
  set of pinned frames. The LRU order itself is stated against the log of accesses.
\<close>

record lru =
  capacity :: nat
  access_queue :: "nat list"
  is_pinned :: "bool list"

definition new_lru :: "nat \<Rightarrow> lru" where
  "new_lru cap = \<lparr>capacity = cap, access_queue = [], is_pinned = replicate cap False\<rparr>"

definition record_access :: "nat \<Rightarrow> lru \<Rightarrow> lru" where
  "record_access frame_id st =
     (let q = (case position (\<lambda>id. id = frame_id) (access_queue st) of
                 Some pos \<Rightarrow> remove_at pos (access_queue st) | None \<Rightarrow> access_queue st)
      in st\<lparr>access_queue := q @ [frame_id]\<rparr>)"

definition set_pin :: "nat \<Rightarrow> bool \<Rightarrow> lru \<Rightarrow> lru" where
  "set_pin frame_id pinned st =
     (if frame_id < capacity st then st\<lparr>is_pinned := (is_pinned st)[frame_id := pinned]\<rparr> else st)"

text \<open>The loop of \<open>evict\<close>: the position and the frame of the first unpinned entry. Indexing
  \<open>is_pinned\<close> out of range panics.\<close>

fun evict_scan :: "nat \<Rightarrow> nat list \<Rightarrow> bool list \<Rightarrow> (unit, (nat \<times> nat) option) res" where
  "evict_scan i [] pins = Ok None"
| "evict_scan i (frame_id # rest) pins =
     (if length pins \<le> frame_id then Panic
      else if \<not> pins ! frame_id then Ok (Some (i, frame_id))
      else evict_scan (Suc i) rest pins)"

definition evict :: "lru \<Rightarrow> (unit, nat option) res \<times> lru" where
  "evict st = (case evict_scan 0 (access_queue st) (is_pinned st) of
       Ok (Some (i, frame_id)) \<Rightarrow> (Ok (Some frame_id), st\<lparr>access_queue := remove_at i (access_queue st)\<rparr>)
     | Ok None \<Rightarrow> (Ok None, st)
     | Err e \<Rightarrow> (Err e, st)
     | Panic \<Rightarrow> (Panic, st))"

definition remove :: "nat \<Rightarrow> lru \<Rightarrow> lru" where
  "remove frame_id st = (case position (\<lambda>id. id = frame_id) (access_queue st) of
       Some pos \<Rightarrow> st\<lparr>access_queue := remove_at pos (access_queue st)\<rparr> | None \<Rightarrow> st)"

definition lru_size :: "lru \<Rightarrow> nat" where
  "lru_size st = length (access_queue st)"

subsection \<open>The contract\<close>

locale replacement_policy =
  fixes access :: "nat \<Rightarrow> 'r \<Rightarrow> 'r" and pin :: "nat \<Rightarrow> bool \<Rightarrow> 'r \<Rightarrow> 'r"
    and victim :: "'r \<Rightarrow> (unit, nat option) res \<times> 'r" and forget :: "nat \<Rightarrow> 'r \<Rightarrow> 'r"
    and rinv :: "nat \<Rightarrow> 'r \<Rightarrow> bool" and tracked :: "'r \<Rightarrow> nat list" and pinned :: "'r \<Rightarrow> nat \<Rightarrow> bool"
  assumes access_law: "rinv n r \<Longrightarrow> f < n \<Longrightarrow> rinv n (access f r) \<and> pinned (access f r) = pinned r \<and>
      set (tracked (access f r)) = insert f (set (tracked r))"
    and pin_law: "rinv n r \<Longrightarrow> f < n \<Longrightarrow> rinv n (pin f b r) \<and> tracked (pin f b r) = tracked r \<and>
      pinned (pin f b r) = (pinned r)(f := b)"
    and forget_law: "rinv n r \<Longrightarrow> rinv n (forget f r) \<and> pinned (forget f r) = pinned r \<and>
      set (tracked (forget f r)) = set (tracked r) - {f}"
    and tracked_bound: "rinv n r \<Longrightarrow> set (tracked r) \<subseteq> {..<n}"
    and victim_law: "rinv n r \<Longrightarrow> victim r = (v, r') \<Longrightarrow> rinv n r' \<and> pinned r' = pinned r \<and>
      (case v of Ok (Some f) \<Rightarrow> f \<in> set (tracked r) \<and> \<not> pinned r f \<and>
            set (tracked r') = set (tracked r) - {f}
        | Ok None \<Rightarrow> r' = r \<and> (\<forall>f \<in> set (tracked r). pinned r f)
        | _ \<Rightarrow> False)"
begin

lemma victim_exists:
  assumes "rinv n r" and "f \<in> set (tracked r)" and "\<not> pinned r f"
  shows "\<exists>g r'. victim r = (Ok (Some g), r')"
proof -
  obtain v r' where v: "victim r = (v, r')" by fastforce
  with victim_law [OF assms(1) v] assms(2,3) show ?thesis
    by (cases v) (auto split: option.splits)
qed

end

subsection \<open>The invariant\<close>

definition lru_inv :: "nat \<Rightarrow> lru \<Rightarrow> bool" where
  "lru_inv n st \<longleftrightarrow> capacity st = n \<and> length (is_pinned st) = n \<and> distinct (access_queue st) \<and>
     set (access_queue st) \<subseteq> {..<n}"

definition lru_pinned :: "lru \<Rightarrow> nat \<Rightarrow> bool" where
  "lru_pinned st f \<longleftrightarrow> f < length (is_pinned st) \<and> is_pinned st ! f"

lemma remove_at_eq_filter:
  "distinct xs \<Longrightarrow> i < length xs \<Longrightarrow> remove_at i xs = filter (\<lambda>x. x \<noteq> xs ! i) xs"
proof (induction xs arbitrary: i)
  case (Cons x xs)
  show ?case
  proof (cases i)
    case 0
    with Cons.prems show ?thesis by (auto simp: remove_at_def intro!: filter_True [symmetric])
  next
    case (Suc k)
    with Cons.prems Cons.IH [of k] show ?thesis by (auto simp: remove_at_def)
  qed
qed simp

lemma queue_without:
  assumes "distinct q"
  shows "(case position (\<lambda>id. id = f) q of Some pos \<Rightarrow> remove_at pos q | None \<Rightarrow> q) = filter (\<lambda>x. x \<noteq> f) q"
proof (cases "position (\<lambda>id. id = f) q")
  case None
  then have "\<forall>x \<in> set q. x \<noteq> f" by (simp add: position_None)
  then have "filter (\<lambda>x. x \<noteq> f) q = q" by (intro filter_True) blast
  with None show ?thesis by simp
next
  case (Some i)
  then have "i < length q" "q ! i = f" by (simp_all add: position_Some)
  with Some show ?thesis using remove_at_eq_filter [OF assms, of i] by simp
qed

lemma record_access_eq:
  "lru_inv n st \<Longrightarrow> record_access f st = st\<lparr>access_queue := filter (\<lambda>x. x \<noteq> f) (access_queue st) @ [f]\<rparr>"
  by (simp add: record_access_def queue_without lru_inv_def)

lemma remove_eq:
  "lru_inv n st \<Longrightarrow> remove f st = st\<lparr>access_queue := filter (\<lambda>x. x \<noteq> f) (access_queue st)\<rparr>"
  by (simp add: lru_inv_def remove_def flip: queue_without split: option.split)

lemma evict_scan_eq:
  "set q \<subseteq> {..<length pins} \<Longrightarrow>
   evict_scan i q pins = Ok (map_option (\<lambda>k. (i + k, q ! k)) (position (\<lambda>f. \<not> pins ! f) q))"
  by (induction q arbitrary: i) (auto simp: option.map_comp comp_def)

lemma evict_cases:
  assumes "lru_inv n st"
  obtains (None) "evict st = (Ok None, st)" "\<forall>f \<in> set (access_queue st). lru_pinned st f"
  | (Some) pre f post where "access_queue st = pre @ f # post" "\<forall>g \<in> set pre. lru_pinned st g"
      "\<not> lru_pinned st f" "evict st = (Ok (Some f), st\<lparr>access_queue := pre @ post\<rparr>)"
proof (cases "position (\<lambda>f. \<not> is_pinned st ! f) (access_queue st)")
  case None
  with assms that(1) show ?thesis
    by (auto simp: evict_def evict_scan_eq lru_inv_def position_None lru_pinned_def)
next
  case (Some i)
  then have i: "i < length (access_queue st)" "\<not> is_pinned st ! (access_queue st ! i)"
    "\<forall>j < i. is_pinned st ! (access_queue st ! j)" by (simp_all add: position_Some)
  show ?thesis
  proof (rule that(2))
    show "access_queue st = take i (access_queue st) @ access_queue st ! i # drop (Suc i) (access_queue st)"
      using i(1) by (rule id_take_nth_drop)
    have "access_queue st ! j < n" if "j < length (access_queue st)" for j
      using assms nth_mem [OF that] by (auto simp: lru_inv_def)
    then show "\<forall>g \<in> set (take i (access_queue st)). lru_pinned st g"
      using i assms by (auto simp: in_set_conv_nth lru_pinned_def lru_inv_def)
    show "\<not> lru_pinned st (access_queue st ! i)" using i(2) by (simp add: lru_pinned_def)
    show "evict st = (Ok (Some (access_queue st ! i)),
        st\<lparr>access_queue := take i (access_queue st) @ drop (Suc i) (access_queue st)\<rparr>)"
      using assms Some by (simp add: evict_def evict_scan_eq lru_inv_def remove_at_def)
  qed
qed

lemma set_pin_parts:
  assumes "lru_inv n st" and "f < n"
  shows "lru_inv n (set_pin f b st)" and "access_queue (set_pin f b st) = access_queue st"
    and "lru_pinned (set_pin f b st) = (lru_pinned st)(f := b)"
  using assms by (auto simp: set_pin_def lru_inv_def lru_pinned_def fun_eq_iff nth_list_update)

interpretation lru: replacement_policy record_access set_pin evict remove lru_inv access_queue lru_pinned
proof
  fix n r f assume inv: "lru_inv n r" and "f < n"
  then show "lru_inv n (record_access f r) \<and> lru_pinned (record_access f r) = lru_pinned r \<and>
      set (access_queue (record_access f r)) = insert f (set (access_queue r))"
    by (auto simp: record_access_eq [OF inv] fun_eq_iff lru_pinned_def) (auto simp: lru_inv_def)
next
  fix n r f b assume "lru_inv n r" "f < n"
  then show "lru_inv n (set_pin f b r) \<and> access_queue (set_pin f b r) = access_queue r \<and>
      lru_pinned (set_pin f b r) = (lru_pinned r)(f := b)"
    by (simp add: set_pin_parts)
next
  fix n r f assume inv: "lru_inv n r"
  then show "lru_inv n (remove f r) \<and> lru_pinned (remove f r) = lru_pinned r \<and>
      set (access_queue (remove f r)) = set (access_queue r) - {f}"
    by (auto simp: remove_eq [OF inv] lru_pinned_def fun_eq_iff) (auto simp: lru_inv_def)
next
  fix n r assume "lru_inv n r"
  then show "set (access_queue r) \<subseteq> {..<n}" by (simp add: lru_inv_def)
next
  fix n r v r' assume inv: "lru_inv n r" and v: "evict r = (v, r')"
  from inv show "lru_inv n r' \<and> lru_pinned r' = lru_pinned r \<and>
      (case v of Ok (Some f) \<Rightarrow> f \<in> set (access_queue r) \<and> \<not> lru_pinned r f \<and>
            set (access_queue r') = set (access_queue r) - {f}
        | Ok None \<Rightarrow> r' = r \<and> (\<forall>f \<in> set (access_queue r). lru_pinned r f)
        | _ \<Rightarrow> False)"
  proof (cases rule: evict_cases)
    case None
    with inv v show ?thesis by auto
  next
    case (Some pre f post)
    have "distinct (pre @ f # post)" using inv Some(1) by (simp add: lru_inv_def)
    then show ?thesis
      using inv v Some by (auto simp: lru_inv_def lru_pinned_def fun_eq_iff)
  qed
qed

subsection \<open>The least recently used frame\<close>

text \<open>
  The history of a replacer, most recent event first, and what it says: \<open>age\<close> is the number of
  events since the last access of a frame that is still tracked, \<open>pinned_in\<close> its last pin.
\<close>

datatype lru_event = Accessed nat | Pinned nat bool | Removed nat | Evicted nat

inductive lru_run :: "nat \<Rightarrow> lru_event list \<Rightarrow> lru \<Rightarrow> bool" for n where
  start: "lru_run n [] (new_lru n)"
| access: "lru_run n es st \<Longrightarrow> f < n \<Longrightarrow> lru_run n (Accessed f # es) (record_access f st)"
| pin: "lru_run n es st \<Longrightarrow> f < n \<Longrightarrow> lru_run n (Pinned f b # es) (set_pin f b st)"
| remove: "lru_run n es st \<Longrightarrow> f < n \<Longrightarrow> lru_run n (Removed f # es) (remove f st)"
| evict: "lru_run n es st \<Longrightarrow> evict st = (Ok (Some f), st') \<Longrightarrow> lru_run n (Evicted f # es) st'"

inductive_cases lru_run_NilE: "lru_run n [] st"

fun age :: "lru_event list \<Rightarrow> nat \<Rightarrow> nat option" where
  "age [] f = None"
| "age (e # es) f = (if e = Accessed f then Some 0 else if e = Removed f \<or> e = Evicted f then None
     else map_option Suc (age es f))"

fun pinned_in :: "lru_event list \<Rightarrow> nat \<Rightarrow> bool" where
  "pinned_in [] f = False"
| "pinned_in (e # es) f = (if e = Pinned f True then True else if e = Pinned f False then False else pinned_in es f)"

lemma sorted_wrt_filter_mono:
  "sorted_wrt P xs \<Longrightarrow> (\<And>x y. x \<in> set xs \<Longrightarrow> y \<in> set xs \<Longrightarrow> R x \<Longrightarrow> R y \<Longrightarrow> P x y \<Longrightarrow> Q x y) \<Longrightarrow>
   sorted_wrt Q (filter R xs)"
  by (rule sorted_wrt_mono_rel [OF _ sorted_wrt_filter]) auto

lemma lru_run_inv:
  assumes "lru_run n es st"
  shows "lru_inv n st \<and> (\<forall>f. lru_pinned st f = pinned_in es f) \<and>
    set (access_queue st) = {f. age es f \<noteq> None} \<and>
    sorted_wrt (\<lambda>f g. the (age es g) < the (age es f)) (access_queue st)"
  using assms
proof induction
  case start
  show ?case by (simp add: new_lru_def lru_inv_def lru_pinned_def)
next
  case (access es st f)
  then have inv: "lru_inv n st" by blast
  have a: "age (Accessed f # es) g = map_option Suc (age es g)" if "g \<noteq> f" for g using that by simp
  have q: "sorted_wrt (\<lambda>g h. the (age (Accessed f # es) h) < the (age (Accessed f # es) g))
      (filter (\<lambda>x. x \<noteq> f) (access_queue st))"
  proof (rule sorted_wrt_filter_mono)
    show "sorted_wrt (\<lambda>f g. the (age es g) < the (age es f)) (access_queue st)" using access.IH by blast
  qed (use access.IH in auto)
  have "set (access_queue (record_access f st)) = {g. age (Accessed f # es) g \<noteq> None}"
    using access.IH by (auto simp: record_access_eq [OF inv])
  moreover have "sorted_wrt (\<lambda>g h. the (age (Accessed f # es) h) < the (age (Accessed f # es) g))
      (access_queue (record_access f st))"
    using q access.IH by (auto simp: record_access_eq [OF inv] sorted_wrt_append)
  ultimately show ?case
    using access.IH lru.access_law [OF inv access.hyps(2)] by simp
next
  case (pin es st f b)
  then have inv: "lru_inv n st" by blast
  have "age (Pinned f b # es) = (\<lambda>g. map_option Suc (age es g))" by (auto simp: fun_eq_iff)
  moreover have "sorted_wrt (\<lambda>g h. the (map_option Suc (age es h)) < the (map_option Suc (age es g))) (access_queue st)"
  proof (rule sorted_wrt_mono_rel)
    show "sorted_wrt (\<lambda>f g. the (age es g) < the (age es f)) (access_queue st)" using pin.IH by blast
  qed (use pin.IH in auto)
  ultimately show ?case
    using pin.IH set_pin_parts [OF inv pin.hyps(2), of b] by auto
next
  case (remove es st f)
  then have inv: "lru_inv n st" by blast
  have q: "sorted_wrt (\<lambda>g h. the (age (Removed f # es) h) < the (age (Removed f # es) g))
      (filter (\<lambda>x. x \<noteq> f) (access_queue st))"
  proof (rule sorted_wrt_filter_mono)
    show "sorted_wrt (\<lambda>f g. the (age es g) < the (age es f)) (access_queue st)" using remove.IH by blast
  qed (use remove.IH in auto)
  show ?case
    using remove.IH lru.forget_law [OF inv, of f] q by (auto simp: remove_eq [OF inv])
next
  case (evict es st f st')
  then have inv: "lru_inv n st" by blast
  from inv show ?case
  proof (cases rule: evict_cases)
    case None
    with evict.hyps show ?thesis by simp
  next
    case (Some pre g post)
    with evict.hyps have f: "f = g" and st': "st' = st\<lparr>access_queue := pre @ post\<rparr>" by simp_all
    have d: "distinct (pre @ f # post)" using inv Some(1) f by (simp add: lru_inv_def)
    have s: "sorted_wrt (\<lambda>f g. the (age es g) < the (age es f)) (pre @ post)"
      using evict.IH Some(1) f by (simp add: sorted_wrt_append)
    have "the (age (Evicted f # es) x) = Suc (the (age es x))" if "x \<in> set (pre @ post)" for x
    proof -
      have "x \<in> set (access_queue st)" "x \<noteq> f" using that d Some(1) f by auto
      then show ?thesis using evict.IH by auto
    qed
    then have "sorted_wrt (\<lambda>g h. the (age (Evicted f # es) h) < the (age (Evicted f # es) g)) (pre @ post)"
      by (intro sorted_wrt_mono_rel [OF _ s]) simp
    moreover have "set (pre @ post) = {g. age (Evicted f # es) g \<noteq> None}"
      using d evict.IH Some(1) f by (auto split: if_splits)
    ultimately show ?thesis
      using lru.victim_law [OF inv evict.hyps(2)] evict.IH st' by auto
  qed
qed

text \<open>
  C26: After any history of accesses, pins, removals and evictions, \<open>evict\<close> does not panic and
  returns the unpinned tracked frame that was accessed longest ago, and no frame exactly when all
  tracked frames are pinned.
\<close>

theorem lru_evicts_oldest:
  assumes "lru_run n es st" and "evict st = (r, st')"
  shows "(\<exists>f a. r = Ok (Some f) \<and> age es f = Some a \<and> \<not> pinned_in es f \<and>
        (\<forall>g b. g \<noteq> f \<longrightarrow> age es g = Some b \<longrightarrow> \<not> pinned_in es g \<longrightarrow> b < a)) \<or>
    r = Ok None \<and> (\<forall>f. age es f \<noteq> None \<longrightarrow> pinned_in es f)"
proof -
  note i = lru_run_inv [OF assms(1)]
  then have inv: "lru_inv n st" by blast
  from inv show ?thesis
  proof (cases rule: evict_cases)
    case None
    with i assms(2) show ?thesis by auto
  next
    case (Some pre f post)
    have "f \<in> set (access_queue st)" using Some(1) by simp
    then obtain a where a: "age es f = Some a" using i by auto
    have "b < a" if "g \<noteq> f" "age es g = Some b" "\<not> pinned_in es g" for g b
    proof -
      have "g \<in> set (access_queue st)" using i that(2) by auto
      then have "g \<in> set post" using Some(1,2) i that(1,3) by auto
      then show ?thesis using i Some(1) a that(2) by (auto simp: sorted_wrt_append)
    qed
    with a Some i assms(2) show ?thesis by auto
  qed
qed

theorem lru_evicts_oldest_witness:
  "\<exists>st st'. lru_run 3 [Accessed 1, Pinned 2 True, Accessed 0, Accessed 2, Accessed 1] st \<and>
    evict st = (Ok (Some 0), st')"
proof -
  let ?es = "[Accessed 1, Pinned 2 True, Accessed 0, Accessed 2, Accessed 1]"
  obtain st where st: "lru_run 3 ?es st"
    using lru_run.access [OF lru_run.pin [OF lru_run.access [OF lru_run.access [OF lru_run.access
      [OF lru_run.start [of 3], of 1], of 2], of 0], of 2 True], of 1] by fastforce
  obtain r st' where e: "evict st = (r, st')" by fastforce
  have "r = Ok (Some 0)"
    using lru_evicts_oldest [OF st e] by (auto split: if_splits)
  with st e show ?thesis by auto
qed

end
