(* ===== verification/Log_Manager.thy ===== *)
theory Log_Manager
  imports Storage
begin

text \<open>
  The errors of \<open>crates/wackdb_buffer\<close> and its \<open>LogManager\<close> trait (\<open>error.rs\<close>,
  \<open>log_manager.rs\<close>), with the contract the buffer pool relies on: a log is a list of durable
  records and a list of pending ones, and a successful flush up to an LSN makes durable exactly the
  pending records up to that LSN. A failed flush may lose pending records, but no durable one.
\<close>

datatype buffer_error =
    NoFreeFrames
  | PageNotFound
  | StorageErr storage_error

record 'l log_ops =
  lm_flush_up_to :: "u64 \<Rightarrow> 'l \<Rightarrow> (buffer_error, unit) res \<times> 'l"
  lm_append_record :: "bytes \<Rightarrow> 'l \<Rightarrow> (buffer_error, u64) res \<times> 'l"
  lm_checkpoint :: "'l \<Rightarrow> (buffer_error, unit) res \<times> 'l"
  lm_log_size :: "'l \<Rightarrow> u64 \<times> 'l"

type_synonym log_record = "u64 \<times> bytes"

locale log_manager =
  fixes L :: "'l log_ops" and linv :: "'l \<Rightarrow> bool" and durable :: "'l \<Rightarrow> log_record list"
    and pending :: "'l \<Rightarrow> log_record list" and lroom :: "'l \<Rightarrow> bool" and lhealthy :: "'l \<Rightarrow> bool"
  assumes flush_law: "linv l \<Longrightarrow> lm_flush_up_to L lsn l = (r, l') \<Longrightarrow>
      r \<noteq> Panic \<and> (lhealthy l \<longrightarrow> lhealthy l' \<and> is_ok r) \<and>
      set (pending l') \<subseteq> set (pending l) \<and> set (durable l) \<subseteq> set (durable l') \<and>
      (r = Ok () \<longrightarrow> linv l' \<and> durable l' = durable l @ filter (\<lambda>(n, _). n \<le> lsn) (pending l) \<and>
        pending l' = filter (\<lambda>(n, _). lsn < n) (pending l))"
    and append_law: "linv l \<Longrightarrow> lroom l \<Longrightarrow> length p < 2 ^ 32 \<Longrightarrow>
      \<exists>n l'. lm_append_record L p l = (Ok n, l') \<and> linv l' \<and> durable l' = durable l \<and>
        pending l' = pending l @ [(n, p)] \<and> (\<forall>(m, _) \<in> set (pending l). m < n) \<and> (lhealthy l \<longrightarrow> lhealthy l')"
    and checkpoint_law: "linv l \<Longrightarrow> lm_checkpoint L l = (c, l') \<Longrightarrow>
      c \<noteq> Panic \<and> (lhealthy l \<longrightarrow> lhealthy l' \<and> is_ok c) \<and> linv l' \<and>
      (c = Ok () \<longrightarrow> durable l' = [] \<and> pending l' = pending l)"
begin

lemma flushed_nothing_pending:
  "linv l \<Longrightarrow> lm_flush_up_to L lsn l = (Ok (), l') \<Longrightarrow> (n, p) \<in> set (pending l') \<Longrightarrow> lsn < n"
  using flush_law by fastforce

lemma flush_keeps_records:
  assumes "linv l" and "lm_flush_up_to L lsn l = (Ok (), l')"
  shows "set (durable l') \<union> set (pending l') = set (durable l) \<union> set (pending l)"
proof -
  have "set (filter (\<lambda>(n, _). n \<le> lsn) xs) \<union> set (filter (\<lambda>(n, _). lsn < n) xs) = set xs" for xs :: "log_record list"
    by (auto simp: not_le [symmetric])
  then show ?thesis using flush_law [OF assms] by auto
qed

end

end
