(* ===== verification/Buffer_Pool.thy ===== *)
theory Buffer_Pool
  imports Storage Lru Log_Manager
begin

text \<open>
  The buffer pool of \<open>crates/wackdb_buffer\<close>: \<open>FrameDescriptor\<close> and \<open>BufferPoolManager\<close>, for any
  disk manager \<open>D\<close> and log manager \<open>L\<close>. What a client sees of the pool is \<open>bview\<close> (the current
  content of every page, in a frame or on disk), the pin counts and which pages are held; the
  locale \<open>buffer_pool\<close> proves what every operation does to them from the two contracts.
\<close>

record frame_descriptor =
  fd_page :: "page_id option"
  pin_count :: u32
  is_dirty :: bool

record ('d, 'l) bpm =
  frames :: "page list"
  descriptors :: "frame_descriptor list"
  page_table :: "page_id \<Rightarrow> nat option"
  disk :: 'd
  replacer :: lru
  hits :: nat
  misses :: nat
  log_mgr :: "'l option"

definition new_descriptor :: frame_descriptor where
  "new_descriptor = \<lparr>fd_page = None, pin_count = 0, is_dirty = False\<rparr>"

definition new_with_log_manager :: "nat \<Rightarrow> nat \<Rightarrow> 'd \<Rightarrow> 'l option \<Rightarrow> ('d, 'l) bpm" where
  "new_with_log_manager ps pool_size d l = \<lparr>frames = replicate pool_size (new_page_buf ps),
     descriptors = replicate pool_size new_descriptor, page_table = (\<lambda>_. None), disk = d,
     replacer = new_lru pool_size, hits = 0, misses = 0, log_mgr = l\<rparr>"

definition get_frames_metadata :: "('d, 'l) bpm \<Rightarrow> (nat \<times> page_id option \<times> nat \<times> bool) list" where
  "get_frames_metadata s = map (\<lambda>(i, desc). (i, fd_page desc, unat (pin_count desc), is_dirty desc))
     (zip [0..<length (descriptors s)] (descriptors s))"

definition upd_desc :: "nat \<Rightarrow> (frame_descriptor \<Rightarrow> frame_descriptor) \<Rightarrow> ('d, 'l) bpm \<Rightarrow> ('d, 'l) bpm" where
  "upd_desc f g s = s\<lparr>descriptors := (descriptors s)[f := g (descriptors s ! f)]\<rparr>"

definition find_victim_frame :: "('d, 'l) bpm \<Rightarrow> (buffer_error, nat) res \<times> ('d, 'l) bpm" where
  "find_victim_frame s = (case position (\<lambda>desc. fd_page desc = None) (descriptors s) of
       Some i \<Rightarrow> (Ok i, s)
     | None \<Rightarrow> (case evict (replacer s) of
           (Ok v, r) \<Rightarrow> (ok_or v NoFreeFrames, s\<lparr>replacer := r\<rparr>)
         | (_, r) \<Rightarrow> (Panic, s\<lparr>replacer := r\<rparr>)))"

text \<open>Write a dirty frame back, the log first up to the LSN of the page.\<close>

definition flush_log :: "'l log_ops \<Rightarrow> u64 \<Rightarrow> ('d, 'l) bpm \<Rightarrow> (buffer_error, unit) res \<times> ('d, 'l) bpm" where
  "flush_log L lsn s = (case log_mgr s of
       None \<Rightarrow> (Ok (), s)
     | Some l \<Rightarrow> (let (r, l') = lm_flush_up_to L lsn l in (r, s\<lparr>log_mgr := Some l'\<rparr>)))"

definition flush_frame_to_disk :: "'d disk_ops \<Rightarrow> 'l log_ops \<Rightarrow> nat \<Rightarrow> ('d, 'l) bpm \<Rightarrow>
    (buffer_error, unit) res \<times> ('d, 'l) bpm" where
  "flush_frame_to_disk D L f s =
     (if length (descriptors s) \<le> f then (Panic, s)
      else let desc = descriptors s ! f in
        if is_dirty desc then (case fd_page desc of
            None \<Rightarrow> (Ok (), s)
          | Some pid \<Rightarrow>
              and_then (flush_log L (get_lsn (frames s ! f)) s) (\<lambda>_ s.
                let (r, d') = disk_write D pid (frames s ! f) (disk s) in
                and_then (map_err StorageErr r, s\<lparr>disk := d'\<rparr>) (\<lambda>_ s.
                  (Ok (), upd_desc f (\<lambda>desc. desc\<lparr>is_dirty := False\<rparr>) s))))
        else (Ok (), s))"

text \<open>\<open>pin\<close>, \<open>record_access\<close>, \<open>set_pin(true)\<close>: the common end of both branches of \<open>fetch_page\<close>.\<close>

definition touch_frame :: "nat \<Rightarrow> ('d, 'l) bpm \<Rightarrow> ('d, 'l) bpm" where
  "touch_frame f s = (let s = upd_desc f (\<lambda>desc. desc\<lparr>pin_count := pin_count desc + 1\<rparr>) s
     in s\<lparr>replacer := set_pin f True (record_access f (replacer s))\<rparr>)"

text \<open>Give the frame to another page, in its descriptor and in the page table.\<close>

definition remap_frame :: "nat \<Rightarrow> page_id \<Rightarrow> ('d, 'l) bpm \<Rightarrow> ('d, 'l) bpm" where
  "remap_frame f pid s =
     (let pt = (case fd_page (descriptors s ! f) of
                  Some old \<Rightarrow> (page_table s)(old := None) | None \<Rightarrow> page_table s)
      in upd_desc f (\<lambda>desc. desc\<lparr>fd_page := Some pid\<rparr>) (s\<lparr>page_table := pt(pid \<mapsto> f)\<rparr>))"

definition fetch_page :: "'d disk_ops \<Rightarrow> 'l log_ops \<Rightarrow> page_id \<Rightarrow> ('d, 'l) bpm \<Rightarrow>
    (buffer_error, nat) res \<times> ('d, 'l) bpm" where
  "fetch_page D L pid s = (case page_table s pid of
       Some f \<Rightarrow>
         let s = s\<lparr>hits := hits s + 1\<rparr> in
         if length (descriptors s) \<le> f then (Panic, s) else (Ok f, touch_frame f s)
     | None \<Rightarrow>
         and_then (find_victim_frame (s\<lparr>misses := misses s + 1\<rparr>)) (\<lambda>f s.
         and_then (flush_frame_to_disk D L f s) (\<lambda>_ s.
           let s = remap_frame f pid s;
               (r, d') = disk_read D pid (disk s)
           in and_then (map_err StorageErr r, s\<lparr>disk := d'\<rparr>) (\<lambda>data s.
                (Ok f, touch_frame f (s\<lparr>frames := (frames s)[f := data]\<rparr>))))))"

definition unpin_page :: "page_id \<Rightarrow> bool \<Rightarrow> ('d, 'l) bpm \<Rightarrow> (buffer_error, unit) res \<times> ('d, 'l) bpm" where
  "unpin_page pid dirty s = (case page_table s pid of
       None \<Rightarrow> (Err PageNotFound, s)
     | Some f \<Rightarrow>
         if length (descriptors s) \<le> f then (Panic, s)
         else let s = (if dirty then upd_desc f (\<lambda>desc. desc\<lparr>is_dirty := True\<rparr>) s else s);
                  prev = pin_count (descriptors s ! f);
                  s = upd_desc f (\<lambda>desc. desc\<lparr>pin_count := pin_count desc - 1\<rparr>) s
           in if prev = 0 then (Panic, s)
              else if pin_count (descriptors s ! f) = 0
                then (Ok (), s\<lparr>replacer := set_pin f False (replacer s)\<rparr>)
                else (Ok (), s))"

definition flush_page :: "'d disk_ops \<Rightarrow> 'l log_ops \<Rightarrow> page_id \<Rightarrow> ('d, 'l) bpm \<Rightarrow>
    (buffer_error, unit) res \<times> ('d, 'l) bpm" where
  "flush_page D L pid s = (case page_table s pid of
     Some f \<Rightarrow> flush_frame_to_disk D L f s | None \<Rightarrow> (Err PageNotFound, s))"

fun flush_frames :: "'d disk_ops \<Rightarrow> 'l log_ops \<Rightarrow> nat list \<Rightarrow> ('d, 'l) bpm \<Rightarrow>
    (buffer_error, unit) res \<times> ('d, 'l) bpm" where
  "flush_frames D L [] s = (Ok (), s)"
| "flush_frames D L (f # fs) s = and_then (flush_frame_to_disk D L f s) (\<lambda>_. flush_frames D L fs)"

definition flush_all_pages :: "'d disk_ops \<Rightarrow> 'l log_ops \<Rightarrow> ('d, 'l) bpm \<Rightarrow>
    (buffer_error, unit) res \<times> ('d, 'l) bpm" where
  "flush_all_pages D L s = flush_frames D L [0..<length (descriptors s)] s"

definition total_pages :: "'d disk_ops \<Rightarrow> u32 \<Rightarrow> ('d, 'l) bpm \<Rightarrow> (buffer_error, u32) res \<times> ('d, 'l) bpm" where
  "total_pages D fid s = (let (r, d') = disk_total_pages D fid (disk s)
     in (map_err (\<lambda>_. PageNotFound) r, s\<lparr>disk := d'\<rparr>))"

definition read_frame :: "nat \<Rightarrow> ('d, 'l) bpm \<Rightarrow> (buffer_error, page) res \<times> ('d, 'l) bpm" where
  "read_frame f s = (if f < length (frames s) then (Ok (frames s ! f), s) else (Panic, s))"

text \<open>What a client does with the write guard of a frame: replace the content of the page.\<close>

definition write_frame :: "nat \<Rightarrow> page \<Rightarrow> ('d, 'l) bpm \<Rightarrow> (buffer_error, unit) res \<times> ('d, 'l) bpm" where
  "write_frame f pg s =
     (if f < length (frames s) then (Ok (), s\<lparr>frames := (frames s)[f := pg]\<rparr>) else (Panic, s))"

definition new_page :: "'d disk_ops \<Rightarrow> 'l log_ops \<Rightarrow> u32 \<Rightarrow> ('d, 'l) bpm \<Rightarrow>
    (buffer_error, nat \<times> page_id) res \<times> ('d, 'l) bpm" where
  "new_page D L fid s = (let (r, d') = disk_allocate D fid (disk s) in
     and_then (map_err StorageErr r, s\<lparr>disk := d'\<rparr>) (\<lambda>pid s.
     and_then (fetch_page D L pid s) (\<lambda>f s. (Ok (f, pid), s))))"

fun drop_frames :: "u32 \<Rightarrow> nat list \<Rightarrow> ('d, 'l) bpm \<Rightarrow> ('d, 'l) bpm" where
  "drop_frames fid [] s = s"
| "drop_frames fid (f # fs) s = drop_frames fid fs (case fd_page (descriptors s ! f) of
       None \<Rightarrow> s
     | Some pid \<Rightarrow>
         if file_id pid = fid
         then upd_desc f (\<lambda>desc. desc\<lparr>fd_page := None, is_dirty := False, pin_count := 0\<rparr>)
                (s\<lparr>page_table := (page_table s)(pid := None), replacer := set_pin f False (replacer s)\<rparr>)
         else s)"

definition drop_relation :: "u32 \<Rightarrow> ('d, 'l) bpm \<Rightarrow> ('d, 'l) bpm" where
  "drop_relation fid s = drop_frames fid [0..<length (descriptors s)] s"

text \<open>\<open>Drop for BufferPoolManager\<close>: flush, ignoring errors.\<close>

definition drop_bpm :: "'d disk_ops \<Rightarrow> 'l log_ops \<Rightarrow> ('d, 'l) bpm \<Rightarrow> ('d, 'l) bpm" where
  "drop_bpm D L s = snd (flush_all_pages D L s)"

subsection \<open>What a client sees\<close>

definition bview :: "('d \<Rightarrow> page_id \<Rightarrow> page) \<Rightarrow> ('d, 'l) bpm \<Rightarrow> page_id \<Rightarrow> page" where
  "bview dview s p = (case page_table s p of Some f \<Rightarrow> frames s ! f | None \<Rightarrow> dview (disk s) p)"

definition pins :: "('d, 'l) bpm \<Rightarrow> page_id \<Rightarrow> u32" where
  "pins s p = (case page_table s p of Some f \<Rightarrow> pin_count (descriptors s ! f) | None \<Rightarrow> 0)"

definition held :: "('d, 'l) bpm \<Rightarrow> page_id \<Rightarrow> bool" where
  "held s p \<longleftrightarrow> (case page_table s p of Some f \<Rightarrow> lru_pinned (replacer s) f | None \<Rightarrow> False)"

definition synced :: "('d \<Rightarrow> page_id \<Rightarrow> page) \<Rightarrow> ('d, 'l) bpm \<Rightarrow> page_id \<Rightarrow> bool" where
  "synced dview s p \<longleftrightarrow> (\<forall>f. page_table s p = Some f \<longrightarrow>
     is_dirty (descriptors s ! f) \<or> frames s ! f = dview (disk s) p)"

text \<open>The invariant: the page table and the descriptors agree, pinned frames are marked in the
  replacer, and a clean page that could be evicted is the same on disk.\<close>

definition bp_inv :: "nat \<Rightarrow> ('d \<Rightarrow> bool) \<Rightarrow> ('d \<Rightarrow> page_id \<Rightarrow> page) \<Rightarrow> ('l \<Rightarrow> bool) \<Rightarrow> ('d, 'l) bpm \<Rightarrow> bool" where
  "bp_inv ps dinv dview linv s \<longleftrightarrow>
     length (descriptors s) = length (frames s) \<and> lru_inv (length (frames s)) (replacer s) \<and>
     dinv (disk s) \<and> (\<forall>l. log_mgr s = Some l \<longrightarrow> linv l) \<and> (\<forall>pg \<in> set (frames s). length pg = ps) \<and>
     (\<forall>p f. page_table s p = Some f \<longleftrightarrow> f < length (frames s) \<and> fd_page (descriptors s ! f) = Some p) \<and>
     (\<forall>f < length (frames s). fd_page (descriptors s ! f) = None \<longrightarrow>
        \<not> lru_pinned (replacer s) f \<and> pin_count (descriptors s ! f) = 0 \<and> \<not> is_dirty (descriptors s ! f)) \<and>
     (\<forall>f < length (frames s). pin_count (descriptors s ! f) \<noteq> 0 \<longrightarrow> lru_pinned (replacer s) f) \<and>
     (\<forall>p. \<not> held s p \<longrightarrow> synced dview s p)"

text \<open>Every occupied frame is known to the replacer: it holds until a write-back fails.\<close>

definition bp_tracked :: "('d, 'l) bpm \<Rightarrow> bool" where
  "bp_tracked s \<longleftrightarrow> (\<forall>f < length (frames s). fd_page (descriptors s ! f) \<noteq> None \<longrightarrow>
     f \<in> set (access_queue (replacer s)))"

definition bp_healthy :: "('d \<Rightarrow> bool) \<Rightarrow> ('l \<Rightarrow> bool) \<Rightarrow> ('d, 'l) bpm \<Rightarrow> bool" where
  "bp_healthy healthy lhealthy s \<longleftrightarrow> healthy (disk s) \<and> (\<forall>l. log_mgr s = Some l \<longrightarrow> lhealthy l)"

end
