(* ===== verification/Buffer_Pool_Laws.thy ===== *)
theory Buffer_Pool_Laws
  imports Buffer_Pool
begin

text \<open>
  What the operations of the buffer pool do, proved in the locale \<open>buffer_pool\<close> from the contracts
  of the disk manager and of the log manager: fetching, pinning, writing back, allocating.
\<close>

lemma upd_desc_simps [simp]:
  "frames (upd_desc f g s) = frames s" "page_table (upd_desc f g s) = page_table s"
  "disk (upd_desc f g s) = disk s" "replacer (upd_desc f g s) = replacer s"
  "log_mgr (upd_desc f g s) = log_mgr s" "length (descriptors (upd_desc f g s)) = length (descriptors s)"
  "f < length (descriptors s) \<Longrightarrow> descriptors (upd_desc f g s) ! f = g (descriptors s ! f)"
  "h \<noteq> f \<Longrightarrow> descriptors (upd_desc f g s) ! h = descriptors s ! h"
  by (simp_all add: upd_desc_def)

lemma held_iff: "held s p \<longleftrightarrow> (\<exists>f. page_table s p = Some f \<and> lru_pinned (replacer s) f)"
  by (simp add: held_def split: option.split)

lemma bp_invD:
  assumes "bp_inv ps dinv dview linv s"
  shows "length (descriptors s) = length (frames s)" and "lru_inv (length (frames s)) (replacer s)"
    and "dinv (disk s)" and "log_mgr s = Some l \<Longrightarrow> linv l"
    and "f < length (frames s) \<Longrightarrow> length (frames s ! f) = ps"
    and "page_table s p = Some f \<longleftrightarrow> f < length (frames s) \<and> fd_page (descriptors s ! f) = Some p"
    and "f < length (frames s) \<Longrightarrow> fd_page (descriptors s ! f) = None \<Longrightarrow>
        \<not> lru_pinned (replacer s) f \<and> pin_count (descriptors s ! f) = 0 \<and> \<not> is_dirty (descriptors s ! f)"
    and "f < length (frames s) \<Longrightarrow> pin_count (descriptors s ! f) \<noteq> 0 \<Longrightarrow> lru_pinned (replacer s) f"
    and "\<not> held s p \<Longrightarrow> synced dview s p"
  using assms unfolding bp_inv_def by auto

lemma page_table_inj:
  "bp_inv ps dinv dview linv s \<Longrightarrow> page_table s p = Some f \<Longrightarrow> page_table s q = Some f \<Longrightarrow> p = q"
  by (metis bp_invD(6) option.inject)

text \<open>
  What a step does to the log, seen through its durable and pending records: no durable record is
  lost; a step that succeeds (\<open>good\<close>) loses no record at all; and whenever a page on disk changes, all
  records up to the LSN of the page are durable afterwards.
\<close>

definition log_kept :: "('l \<Rightarrow> log_record list) \<Rightarrow> ('l \<Rightarrow> log_record list) \<Rightarrow> 'l option \<Rightarrow> 'l option \<Rightarrow> bool" where
  "log_kept durable pending lg lg' \<longleftrightarrow> (\<forall>l. lg = Some l \<longrightarrow> (\<exists>l'. lg' = Some l' \<and>
     set (durable l') \<union> set (pending l') = set (durable l) \<union> set (pending l)))"

definition log_grows :: "('l \<Rightarrow> log_record list) \<Rightarrow> 'l option \<Rightarrow> 'l option \<Rightarrow> bool" where
  "log_grows durable lg lg' \<longleftrightarrow> (lg = None \<longleftrightarrow> lg' = None) \<and>
     (\<forall>l l'. lg = Some l \<longrightarrow> lg' = Some l' \<longrightarrow> set (durable l) \<subseteq> set (durable l'))"

definition log_stored :: "('l \<Rightarrow> log_record list) \<Rightarrow> ('l \<Rightarrow> log_record list) \<Rightarrow> u64 \<Rightarrow> 'l option \<Rightarrow> 'l option \<Rightarrow> bool" where
  "log_stored durable pending lsn lg lg' \<longleftrightarrow> (\<forall>l l'. lg = Some l \<longrightarrow> lg' = Some l' \<longrightarrow>
     (\<forall>(n, x) \<in> set (durable l) \<union> set (pending l). n \<le> lsn \<longrightarrow> (n, x) \<in> set (durable l')))"

definition log_safe :: "('l \<Rightarrow> log_record list) \<Rightarrow> ('l \<Rightarrow> log_record list) \<Rightarrow> ('d \<Rightarrow> page_id \<Rightarrow> page) \<Rightarrow>
    bool \<Rightarrow> ('d, 'l) bpm \<Rightarrow> ('d, 'l) bpm \<Rightarrow> bool" where
  "log_safe durable pending dview good s s' \<longleftrightarrow> log_grows durable (log_mgr s) (log_mgr s') \<and>
     (good \<longrightarrow> log_kept durable pending (log_mgr s) (log_mgr s')) \<and>
     (\<forall>q. dview (disk s') q \<noteq> dview (disk s) q \<longrightarrow>
        log_stored durable pending (get_lsn (bview dview s q)) (log_mgr s) (log_mgr s'))"

lemma log_safe_quiet: "log_mgr s' = log_mgr s \<Longrightarrow> dview (disk s') = dview (disk s) \<Longrightarrow>
    log_safe durable pending dview good s s'"
  by (simp add: log_safe_def log_grows_def log_kept_def)

lemma log_safe_weaken:
  "log_safe durable pending dview good s s' \<Longrightarrow> (good' \<Longrightarrow> good) \<Longrightarrow> log_safe durable pending dview good' s s'"
  by (auto simp: log_safe_def)

lemma log_safe_trans:
  assumes 1: "log_safe durable pending dview True s s1" and 2: "log_safe durable pending dview good s1 s'"
    and v: "bview dview s1 = bview dview s"
  shows "log_safe durable pending dview good s s'"
  unfolding log_safe_def
proof (intro conjI impI allI)
  show "log_grows durable (log_mgr s) (log_mgr s')"
    using 1 2 unfolding log_safe_def log_grows_def by (cases "log_mgr s1") fastforce+
  show "log_kept durable pending (log_mgr s) (log_mgr s')" if good
    using 1 2 that unfolding log_safe_def log_kept_def by fastforce
next
  fix q assume chg: "dview (disk s') q \<noteq> dview (disk s) q"
  show "log_stored durable pending (get_lsn (bview dview s q)) (log_mgr s) (log_mgr s')"
  proof (cases "dview (disk s1) q = dview (disk s) q")
    case True
    then have "log_stored durable pending (get_lsn (bview dview s q)) (log_mgr s1) (log_mgr s')"
      using 2 chg by (simp add: log_safe_def v)
    then show ?thesis using 1 unfolding log_safe_def log_kept_def log_stored_def by fastforce
  next
    case False
    then have "log_stored durable pending (get_lsn (bview dview s q)) (log_mgr s) (log_mgr s1)"
      using 1 by (simp add: log_safe_def)
    moreover have "log_grows durable (log_mgr s1) (log_mgr s')" using 2 by (simp add: log_safe_def)
    ultimately show ?thesis unfolding log_stored_def log_grows_def by (cases "log_mgr s1") fastforce+
  qed
qed

locale buffer_pool = disk_manager D page_size dinv dview dtotal healthy + log_manager L linv durable pending lroom lhealthy
  for D :: "'d disk_ops" and page_size dinv dview dtotal healthy
    and L :: "'l log_ops" and linv durable pending lroom lhealthy
begin

lemma flush_log_cases:
  assumes inv: "\<forall>l. log_mgr s = Some l \<longrightarrow> linv l" and run: "flush_log L lsn s = (r, s')"
  shows flush_log_state: "\<exists>lg. s' = s\<lparr>log_mgr := lg\<rparr> \<and> log_grows durable (log_mgr s) lg \<and> (r = Ok () \<longrightarrow>
      (\<forall>l'. lg = Some l' \<longrightarrow> linv l') \<and> log_kept durable pending (log_mgr s) lg \<and>
      log_stored durable pending lsn (log_mgr s) lg)" (is ?S)
    and flush_log_no_panic: "r \<noteq> Panic" (is ?P)
    and flush_log_healthy: "\<forall>l. log_mgr s = Some l \<longrightarrow> lhealthy l \<Longrightarrow>
      r = Ok () \<and> (\<forall>l. log_mgr s' = Some l \<longrightarrow> lhealthy l)" (is "?A \<Longrightarrow> ?H")
proof -
  have "?S \<and> ?P \<and> (?A \<longrightarrow> ?H)"
  proof (cases "log_mgr s")
    case None
    then have "s' = s\<lparr>log_mgr := None\<rparr>" "r = Ok ()" using run by (simp_all add: flush_log_def)
    then have ?S using None by (intro exI [of _ None]) (simp add: log_grows_def log_kept_def log_stored_def)
    with None \<open>r = Ok ()\<close> run show ?thesis by (auto simp: flush_log_def)
  next
    case (Some l)
    obtain r0 l' where f: "lm_flush_up_to L lsn l = (r0, l')" by (cases "lm_flush_up_to L lsn l")
    have "linv l" using inv Some by simp
    note law = flush_law [OF this f]
    have r: "r = r0" "s' = s\<lparr>log_mgr := Some l'\<rparr>" using run Some f by (simp_all add: flush_log_def)
    have "set (durable l) \<subseteq> set (durable l')" and ok: "r0 = Ok () \<Longrightarrow> linv l'" using law by blast+
    moreover have "log_kept durable pending (Some l) (Some l')" if "r0 = Ok ()"
      using flush_keeps_records \<open>linv l\<close> f that by (simp add: log_kept_def)
    moreover have "log_stored durable pending lsn (Some l) (Some l')" if "r0 = Ok ()"
      using law that by (auto simp: log_stored_def)
    ultimately have ?S using r Some by (intro exI [of _ "Some l'"]) (simp add: log_grows_def)
    moreover have "is_ok r \<Longrightarrow> r = Ok ()" by (cases r) auto
    ultimately show ?thesis using law r Some by simp
  qed
  then show ?S ?P "?A \<Longrightarrow> ?H" by blast+
qed

text \<open>The three ways \<open>flush_frame_to_disk\<close> ends: nothing to do, an error, or the page written.\<close>

lemma flush_frame_cases:
  assumes inv: "bp_inv page_size dinv dview linv s" and f: "f < length (frames s)"
    and run: "flush_frame_to_disk D L f s = (r, s')"
  obtains (clean) "r = Ok ()" "s' = s" "\<not> is_dirty (descriptors s ! f)"
  | (log_error) e lg where "r = Err e" "s' = s\<lparr>log_mgr := lg\<rparr>" "log_grows durable (log_mgr s) lg" "\<not> bp_healthy healthy lhealthy s"
  | (disk_error) e p lg d' where "r = Err e" "s' = s\<lparr>log_mgr := lg, disk := d'\<rparr>" "page_table s p = Some f"
      "log_grows durable (log_mgr s) lg" "log_stored durable pending (get_lsn (frames s ! f)) (log_mgr s) lg"
      "dinv d'" "dtotal d' = dtotal (disk s)" "\<forall>q. q \<noteq> p \<longrightarrow> dview d' q = dview (disk s) q"
      "\<forall>l. lg = Some l \<longrightarrow> linv l"
      "\<not> bp_healthy healthy lhealthy s"
  | (written) p lg d' where "r = Ok ()" "page_table s p = Some f"
      "s' = upd_desc f (\<lambda>desc. desc\<lparr>is_dirty := False\<rparr>) (s\<lparr>log_mgr := lg, disk := d'\<rparr>)"
      "log_grows durable (log_mgr s) lg" "log_kept durable pending (log_mgr s) lg"
      "log_stored durable pending (get_lsn (frames s ! f)) (log_mgr s) lg" "dinv d'" "dtotal d' = dtotal (disk s)" "dview d' = (dview (disk s))(p := frames s ! f)"
      "\<forall>l. lg = Some l \<longrightarrow> linv l"
      "bp_healthy healthy lhealthy s \<longrightarrow> bp_healthy healthy lhealthy s'"
proof (cases "is_dirty (descriptors s ! f)")
  case False
  then show thesis using that(1) run f bp_invD(1) [OF inv] by (simp add: flush_frame_to_disk_def)
next
  case True
  then obtain p where p: "fd_page (descriptors s ! f) = Some p"
    using bp_invD(7) [OF inv f] by (cases "fd_page (descriptors s ! f)") auto
  then have pt: "page_table s p = Some f" using bp_invD(6) [OF inv] f by simp
  obtain r1 s1 where 1: "flush_log L (get_lsn (frames s ! f)) s = (r1, s1)"
    by (cases "flush_log L (get_lsn (frames s ! f)) s")
  have linv: "\<forall>l. log_mgr s = Some l \<longrightarrow> linv l" using bp_invD(4) [OF inv] by blast
  obtain lg where lg: "s1 = s\<lparr>log_mgr := lg\<rparr>" and grw: "log_grows durable (log_mgr s) lg"
    and lg_ok: "r1 = Ok () \<Longrightarrow> (\<forall>l'. lg = Some l' \<longrightarrow> linv l') \<and> log_kept durable pending (log_mgr s) lg \<and>
      log_stored durable pending (get_lsn (frames s ! f)) (log_mgr s) lg"
    using flush_log_state [OF linv 1] by blast
  obtain r2 d' where 2: "disk_write D p (frames s ! f) (disk s) = (r2, d')"
    by (cases "disk_write D p (frames s ! f) (disk s)")
  note w = write_law [OF bp_invD(3) [OF inv] bp_invD(5) [OF inv f] 2]
  have run': "(r, s') = (case r1 of Ok _ \<Rightarrow> (case r2 of
        Ok _ \<Rightarrow> (Ok (), upd_desc f (\<lambda>desc. desc\<lparr>is_dirty := False\<rparr>) (s\<lparr>log_mgr := lg, disk := d'\<rparr>))
      | Err e \<Rightarrow> (Err (StorageErr e), s\<lparr>log_mgr := lg, disk := d'\<rparr>) | Panic \<Rightarrow> (Panic, s\<lparr>log_mgr := lg, disk := d'\<rparr>))
      | Err e \<Rightarrow> (Err e, s1) | Panic \<Rightarrow> (Panic, s1))"
    unfolding run [symmetric] using True p f bp_invD(1) [OF inv] 1 2 lg
    by (cases r1; cases r2) (simp_all add: flush_frame_to_disk_def)
  note h1 = flush_log_healthy [OF linv 1]
  have ok: "is_ok x \<Longrightarrow> x = Ok ()" for x :: "(storage_error, unit) res" by (cases x) auto
  have h: "r1 = Ok () \<and> r2 = Ok () \<and> healthy d' \<and> (\<forall>l. lg = Some l \<longrightarrow> lhealthy l)"
    if bh: "bp_healthy healthy lhealthy s"
  proof -
    have "\<forall>l. log_mgr s = Some l \<longrightarrow> lhealthy l" using bh unfolding bp_healthy_def by blast
    from h1 [OF this] have "r1 = Ok () \<and> (\<forall>l. lg = Some l \<longrightarrow> lhealthy l)" unfolding lg by simp
    moreover have "healthy d' \<and> is_ok r2" using bh w unfolding bp_healthy_def by blast
    ultimately show ?thesis using ok by blast
  qed
  show thesis
  proof (cases "r1 = Ok ()")
    case r1: True
    note lg2 = lg_ok [OF r1]
    show thesis
    proof (cases r2)
      case (Ok u2)
      have e: "r = Ok ()" "s' = upd_desc f (\<lambda>desc. desc\<lparr>is_dirty := False\<rparr>) (s\<lparr>log_mgr := lg, disk := d'\<rparr>)"
        using run' by (simp_all add: r1 Ok)
      have "dinv d'" "dtotal d' = dtotal (disk s)" "dview d' = (dview (disk s))(p := frames s ! f)"
        using w by (simp_all add: Ok)
      moreover have "bp_healthy healthy lhealthy s \<longrightarrow> bp_healthy healthy lhealthy s'"
      proof
        assume "bp_healthy healthy lhealthy s"
        from h [OF this] show "bp_healthy healthy lhealthy s'"
          unfolding bp_healthy_def e(2) by simp
      qed
      ultimately show thesis using that(4) [OF e(1) pt e(2) grw] lg2 by blast
    next
      case (Err e)
      have e: "r = Err (StorageErr e)" "s' = s\<lparr>log_mgr := lg, disk := d'\<rparr>"
        using run' by (simp_all add: r1 Err)
      have "dinv d'" "dtotal d' = dtotal (disk s)" "\<forall>q. q \<noteq> p \<longrightarrow> dview d' q = dview (disk s) q"
        using w by (simp_all add: Err)
      moreover have "\<not> bp_healthy healthy lhealthy s" using h Err by blast
      ultimately show thesis using that(3) [OF e pt grw] lg2 by blast
    next
      case Panic
      then show thesis using w by simp
    qed
  next
    case False
    then obtain e where e: "r1 = Err e" using flush_log_no_panic [OF linv 1] by (cases r1) auto
    have "r = Err e" "s' = s\<lparr>log_mgr := lg\<rparr>" using run' by (simp_all add: e lg)
    then show thesis using that(2) h e grw by blast
  qed
qed

lemma flush_frame_keeps:
  assumes inv: "bp_inv page_size dinv dview linv s" and f: "f < length (frames s)"
    and run: "flush_frame_to_disk D L f s = (r, s')"
  shows "r \<noteq> Panic" and "frames s' = frames s" and "page_table s' = page_table s" and "replacer s' = replacer s"
    and "length (descriptors s') = length (descriptors s)"
    and "fd_page (descriptors s' ! g) = fd_page (descriptors s ! g)"
    and "pin_count (descriptors s' ! g) = pin_count (descriptors s ! g)"
    and "g \<noteq> f \<Longrightarrow> descriptors s' ! g = descriptors s ! g"
    and "dinv (disk s')" and "dtotal (disk s') = dtotal (disk s)"
    and "page_table s q \<noteq> Some f \<Longrightarrow> dview (disk s') q = dview (disk s) q"
proof -
  note D = bp_invD(1,3) [OF inv]
  have "r \<noteq> Panic \<and> frames s' = frames s \<and> page_table s' = page_table s \<and> replacer s' = replacer s \<and>
    length (descriptors s') = length (descriptors s) \<and>
    (\<forall>g. fd_page (descriptors s' ! g) = fd_page (descriptors s ! g) \<and>
      pin_count (descriptors s' ! g) = pin_count (descriptors s ! g) \<and>
      (g \<noteq> f \<longrightarrow> descriptors s' ! g = descriptors s ! g)) \<and>
    dinv (disk s') \<and> dtotal (disk s') = dtotal (disk s) \<and>
    (\<forall>q. page_table s q \<noteq> Some f \<longrightarrow> dview (disk s') q = dview (disk s) q)"
  proof (cases rule: flush_frame_cases [OF inv f run])
    case 1
    then show ?thesis using D by simp
  next
    case 2
    then show ?thesis using D by simp
  next
    case (3 e p lg d')
    then have "page_table s q \<noteq> Some f \<Longrightarrow> dview d' q = dview (disk s) q" for q by metis
    then show ?thesis using 3(1,2,6,7) by simp
  next
    case (4 p lg d')
    then have "page_table s q \<noteq> Some f \<Longrightarrow> dview d' q = dview (disk s) q" for q by (metis fun_upd_apply)
    then show ?thesis using 4(1,7,8) f D unfolding 4(3) by (simp add: upd_desc_def nth_list_update)
  qed
  then show "r \<noteq> Panic" "frames s' = frames s" "page_table s' = page_table s" "replacer s' = replacer s"
    "length (descriptors s') = length (descriptors s)" "fd_page (descriptors s' ! g) = fd_page (descriptors s ! g)"
    "pin_count (descriptors s' ! g) = pin_count (descriptors s ! g)"
    "g \<noteq> f \<Longrightarrow> descriptors s' ! g = descriptors s ! g" "dinv (disk s')" "dtotal (disk s') = dtotal (disk s)"
    "page_table s q \<noteq> Some f \<Longrightarrow> dview (disk s') q = dview (disk s) q"
    by blast+
qed

lemma flush_frame_view:
  assumes inv: "bp_inv page_size dinv dview linv s" and f: "f < length (frames s)"
    and run: "flush_frame_to_disk D L f s = (r, s')"
  shows "bview dview s' = bview dview s" and "pins s' = pins s" and "held s' = held s"
proof -
  note k = flush_frame_keeps [OF inv f run]
  show "bview dview s' = bview dview s"
    using k(11) by (auto simp: bview_def fun_eq_iff k(2,3) split: option.split)
  show "pins s' = pins s" by (simp add: pins_def fun_eq_iff k(3,7) cong: option.case_cong)
  show "held s' = held s" by (auto simp: held_def fun_eq_iff k(3,4) split: option.split)
qed

lemma flush_frame_Ok:
  assumes inv: "bp_inv page_size dinv dview linv s" and f: "f < length (frames s)"
    and run: "flush_frame_to_disk D L f s = (Ok (), s')"
  shows "synced dview s q \<Longrightarrow> synced dview s' q"
    and "\<not> is_dirty (descriptors s' ! f)"
    and "page_table s p = Some f \<Longrightarrow> synced dview s p \<Longrightarrow> dview (disk s') p = frames s ! f"
    and "bp_inv page_size dinv dview linv s'"
proof -
  note k = flush_frame_keeps [OF inv f run] and v = flush_frame_view [OF inv f run]
  note D = bp_invD [OF inv]
  show sync: "synced dview s' q" if "synced dview s q" for q
  proof (cases rule: flush_frame_cases [OF inv f run])
    case (4 p lg d')
    have "\<exists>g. page_table s q = Some g \<and> g \<noteq> f" if "page_table s q = Some g" "q \<noteq> p" for g
      using that page_table_inj [OF inv 4(2)] by blast
    then show ?thesis
      using 4 that f D(1) by (auto simp: synced_def upd_desc_def nth_list_update)
  qed (use that in simp_all)
  show "\<not> is_dirty (descriptors s' ! f)"
    using f D(1) by (cases rule: flush_frame_cases [OF inv f run]) (simp_all add: upd_desc_def)
  show "dview (disk s') p = frames s ! f" if "page_table s p = Some f" "synced dview s p"
  proof (cases rule: flush_frame_cases [OF inv f run])
    case 1
    then show ?thesis using that by (simp add: synced_def)
  next
    case (4 q lg d')
    then show ?thesis using page_table_inj [OF inv 4(2) that(1)] by simp
  qed simp_all
  have linv: "\<forall>l. log_mgr s' = Some l \<longrightarrow> linv l"
    using D(4) by (cases rule: flush_frame_cases [OF inv f run]) simp_all
  have dirty: "fd_page (descriptors s ! g) = None \<Longrightarrow> g < length (frames s) \<Longrightarrow> \<not> is_dirty (descriptors s' ! g)" for g
    using D(7) [of g] f D(1)
    by (cases rule: flush_frame_cases [OF inv f run]) (auto simp: upd_desc_def nth_list_update)
  show "bp_inv page_size dinv dview linv s'"
    unfolding bp_inv_def k(2,3,4,5,6,7)
  proof (intro conjI allI impI ballI)
    fix p assume "\<not> held s' p"
    then show "synced dview s' p" using sync D(9) by (simp add: v(3))
  next
    fix g assume "g < length (frames s)" "fd_page (descriptors s ! g) = None"
    then show "\<not> lru_pinned (replacer s) g" "pin_count (descriptors s ! g) = 0" "\<not> is_dirty (descriptors s' ! g)"
      using D(7) dirty by blast+
  qed (use D k(9) linv in \<open>auto simp: in_set_conv_nth\<close>)
qed

lemma flush_frame_healthy:
  assumes inv: "bp_inv page_size dinv dview linv s" and f: "f < length (frames s)"
    and run: "flush_frame_to_disk D L f s = (r, s')" and h: "bp_healthy healthy lhealthy s"
  shows "r = Ok () \<and> bp_healthy healthy lhealthy s'"
  using h by (cases rule: flush_frame_cases [OF inv f run]) simp_all

lemma flush_frame_log:
  assumes inv: "bp_inv page_size dinv dview linv s" and f: "f < length (frames s)"
    and run: "flush_frame_to_disk D L f s = (r, s')"
  shows "log_safe durable pending dview (is_ok r) s s'"
proof (cases rule: flush_frame_cases [OF inv f run])
  case 1
  then show ?thesis by (simp add: log_safe_quiet)
next
  case (2 e lg)
  then show ?thesis by (simp add: log_safe_def)
next
  case (3 e p lg d')
  then have "q = p" if "dview d' q \<noteq> dview (disk s) q" for q using that by metis
  with 3(1-5) show ?thesis by (fastforce simp: log_safe_def bview_def)
next
  case (4 p lg d')
  then have "q = p" if "dview d' q \<noteq> dview (disk s) q" for q using that by (metis fun_upd_other)
  with 4(1-6) show ?thesis by (fastforce simp: log_safe_def bview_def)
qed

lemma bp_inv_counters [simp]:
  "bp_inv ps di dv li (s\<lparr>hits := h\<rparr>) = bp_inv ps di dv li s"
  "bp_inv ps di dv li (s\<lparr>misses := m\<rparr>) = bp_inv ps di dv li s"
  by (simp_all add: bp_inv_def held_iff synced_def)

lemma bp_inv_replacer:
  "bp_inv ps di dv li s \<Longrightarrow> lru_inv (length (frames s)) r \<Longrightarrow> lru_pinned r = lru_pinned (replacer s) \<Longrightarrow>
   bp_inv ps di dv li (s\<lparr>replacer := r\<rparr>)"
  by (simp add: bp_inv_def held_iff synced_def)

lemma find_victim_cases:
  assumes inv: "bp_inv ps di dv li s" and run: "find_victim_frame s = (r, s')"
  obtains (victim) f rp where "r = Ok f" "f < length (frames s)" "\<not> lru_pinned (replacer s) f"
      "s' = s\<lparr>replacer := rp\<rparr>" "lru_inv (length (frames s)) rp" "lru_pinned rp = lru_pinned (replacer s)"
      "set (access_queue (replacer s)) \<subseteq> insert f (set (access_queue rp))"
  | (full) "r = Err NoFreeFrames" "s' = s" "\<forall>f < length (frames s). fd_page (descriptors s ! f) \<noteq> None"
      "\<forall>f \<in> set (access_queue (replacer s)). lru_pinned (replacer s) f"
proof (cases "position (\<lambda>desc. fd_page desc = None) (descriptors s)")
  case (Some i)
  then have e: "r = Ok i" "s' = s" using run by (simp_all add: find_victim_frame_def)
  from Some have i: "i < length (descriptors s)" "fd_page (descriptors s ! i) = None" by (simp_all add: position_Some)
  show thesis
    by (rule victim [of i "replacer s"]) (use e i bp_invD(1,2,7) [OF inv] in auto)
next
  case None
  then have occ: "\<forall>f < length (frames s). fd_page (descriptors s ! f) \<noteq> None"
    using bp_invD(1) [OF inv] by (simp add: position_None all_set_conv_all_nth)
  obtain v rp where e: "evict (replacer s) = (v, rp)" by (cases "evict (replacer s)")
  note law = lru.victim_law [OF bp_invD(2) [OF inv] e]
  show thesis
  proof (cases v)
    case (Ok o')
    show thesis
    proof (cases o')
      case None
      have "rp = replacer s" using law Ok None by simp
      then show thesis using full run e Ok None occ \<open>position _ _ = None\<close> law by (simp add: find_victim_frame_def)
    next
      case (Some f)
      have "f \<in> set (access_queue (replacer s))" using law Ok Some by simp
      then have f: "f < length (frames s)" using lru.tracked_bound [OF bp_invD(2) [OF inv]] by auto
      show thesis
        by (rule victim [of f rp]) (use run e Ok Some law f \<open>position _ _ = None\<close> in \<open>auto simp: find_victim_frame_def\<close>)
    qed
  qed (use law in simp_all)
qed

lemma touch_frame_simps [simp]:
  "frames (touch_frame f s) = frames s" "page_table (touch_frame f s) = page_table s"
  "disk (touch_frame f s) = disk s" "log_mgr (touch_frame f s) = log_mgr s"
  "length (descriptors (touch_frame f s)) = length (descriptors s)"
  "fd_page (descriptors (touch_frame f s) ! g) = fd_page (descriptors s ! g)"
  "is_dirty (descriptors (touch_frame f s) ! g) = is_dirty (descriptors s ! g)"
  "g \<noteq> f \<Longrightarrow> descriptors (touch_frame f s) ! g = descriptors s ! g"
  "f < length (descriptors s) \<Longrightarrow> pin_count (descriptors (touch_frame f s) ! f) = pin_count (descriptors s ! f) + 1"
  by (cases "f < length (descriptors s)"; auto simp: touch_frame_def upd_desc_def Let_def nth_list_update list_update_beyond)+

lemma touch_frame_replacer:
  assumes "lru_inv n (replacer s)" and "f < n"
  shows "lru_inv n (replacer (touch_frame f s))"
    and "lru_pinned (replacer (touch_frame f s)) = (lru_pinned (replacer s))(f := True)"
    and "set (access_queue (replacer (touch_frame f s))) = insert f (set (access_queue (replacer s)))"
  using lru.access_law [OF assms] lru.pin_law [of n "record_access f (replacer s)" f True] assms(2)
  by (simp_all add: touch_frame_def)

text \<open>The end of a successful fetch, from a state where frame \<open>f\<close> holds page \<open>p\<close> and everything
  but its bookkeeping is in order.\<close>

lemma touch_frame_inv:
  assumes inv: "bp_inv ps di dv li s" and pt: "page_table s p = Some f"
  shows "bp_inv ps di dv li (touch_frame f s)" and "bview dv (touch_frame f s) = bview dv s"
    and "pins (touch_frame f s) = (pins s)(p := pins s p + 1)"
    and "held (touch_frame f s) = (held s)(p := True)"
    and "synced dv (touch_frame f s) = synced dv s"
proof -
  note D = bp_invD [OF inv]
  have f: "f < length (frames s)" "fd_page (descriptors s ! f) = Some p" using D(6) pt by auto
  note R = touch_frame_replacer [OF D(2) f(1)]
  show v: "bview dv (touch_frame f s) = bview dv s" and sy: "synced dv (touch_frame f s) = synced dv s"
    by (auto simp: bview_def synced_def fun_eq_iff split: option.split)
  have other: "page_table s q = Some f \<Longrightarrow> q = p" for q using page_table_inj [OF inv _ pt] by blast
  show "pins (touch_frame f s) = (pins s)(p := pins s p + 1)"
  proof
    fix q show "pins (touch_frame f s) q = ((pins s)(p := pins s p + 1)) q"
    proof (cases "q = p")
      case True
      then show ?thesis using f(1) D(1) pt by (simp add: pins_def)
    next
      case False
      then have "page_table s q \<noteq> Some f" using other by blast
      with False show ?thesis by (cases "page_table s q") (simp_all add: pins_def)
    qed
  qed
  show h: "held (touch_frame f s) = (held s)(p := True)"
  proof
    fix q show "held (touch_frame f s) q = ((held s)(p := True)) q"
    proof (cases "q = p")
      case True
      then show ?thesis using pt by (simp add: held_def R(2))
    next
      case False
      then have "page_table s q \<noteq> Some f" using other by blast
      with False show ?thesis by (cases "page_table s q") (simp_all add: held_def R(2))
    qed
  qed
  have pin: "pin_count (descriptors (touch_frame f s) ! g) \<noteq> 0 \<Longrightarrow> g < length (frames s) \<Longrightarrow>
      lru_pinned (replacer (touch_frame f s)) g" for g
    using D(8) [of g] by (cases "g = f") (simp_all add: R(2))
  have none: "fd_page (descriptors s ! g) = None \<Longrightarrow> g < length (frames s) \<Longrightarrow> g \<noteq> f" for g
    using f(2) by auto
  show "bp_inv ps di dv li (touch_frame f s)"
    unfolding bp_inv_def touch_frame_simps(1-7)
  proof (intro conjI allI impI ballI)
    fix q assume "\<not> held (touch_frame f s) q"
    then show "synced dv (touch_frame f s) q" using D(9) by (simp add: sy h split: if_splits)
  next
    fix g assume g: "g < length (frames s)" "fd_page (descriptors s ! g) = None"
    then show "\<not> lru_pinned (replacer (touch_frame f s)) g" "pin_count (descriptors (touch_frame f s) ! g) = 0"
      "\<not> is_dirty (descriptors s ! g)"
      using D(7) none [OF g(2,1)] by (simp_all add: R(2))
  next
    fix g assume "g < length (frames s)" "pin_count (descriptors (touch_frame f s) ! g) \<noteq> 0"
    then show "lru_pinned (replacer (touch_frame f s)) g" using pin by blast
  next
    fix pg assume "pg \<in> set (frames s)"
    then show "length pg = ps" using D(5) by (auto simp: in_set_conv_nth)
  qed (use D(1,3,4,6) R(1) in blast)+
qed

lemma remap_frame_simps [simp]:
  "frames (remap_frame f p s) = frames s" "disk (remap_frame f p s) = disk s"
  "replacer (remap_frame f p s) = replacer s" "log_mgr (remap_frame f p s) = log_mgr s"
  "length (descriptors (remap_frame f p s)) = length (descriptors s)"
  "is_dirty (descriptors (remap_frame f p s) ! g) = is_dirty (descriptors s ! g)"
  "pin_count (descriptors (remap_frame f p s) ! g) = pin_count (descriptors s ! g)"
  by (cases "f < length (descriptors s)";
      auto simp: remap_frame_def upd_desc_def Let_def nth_list_update list_update_beyond)+

lemma remap_frame_page_table:
  assumes inv: "bp_inv ps di dv li s" and f: "f < length (frames s)"
  shows "page_table (remap_frame f p s) q = (if q = p then Some f
      else if page_table s q = Some f then None else page_table s q)"
proof (cases "fd_page (descriptors s ! f)")
  case None
  then have "page_table s q \<noteq> Some f" using bp_invD(6) [OF inv] by auto
  with None show ?thesis by (simp add: remap_frame_def)
next
  case (Some old)
  then have "page_table s q = Some f \<longleftrightarrow> q = old" using bp_invD(6) [OF inv] f by auto
  with Some show ?thesis by (simp add: remap_frame_def)
qed

lemma remap_frame_fd_page:
  "f < length (descriptors s) \<Longrightarrow>
   fd_page (descriptors (remap_frame f p s) ! g) = (if g = f then Some p else fd_page (descriptors s ! g))"
  by (simp add: remap_frame_def upd_desc_def Let_def nth_list_update)

lemma load_frame:
  assumes inv: "bp_inv page_size dinv dview linv s" and f: "f < length (frames s)"
    and free: "\<not> lru_pinned (replacer s) f" "\<not> is_dirty (descriptors s ! f)" and p: "page_table s p = None"
    and d': "dinv d'" "dview d' = dview (disk s)"
  defines "s' \<equiv> (remap_frame f p s)\<lparr>disk := d', frames := (frames s)[f := dview (disk s) p]\<rparr>"
  shows "bp_inv page_size dinv dview linv s'" and "bview dview s' = bview dview s" and "pins s' = pins s"
    and "held s' = held s" and "synced dview s q \<Longrightarrow> synced dview s' q" and "page_table s' p = Some f"
proof -
  note D = bp_invD [OF inv]
  have fl: "f < length (descriptors s)" using f D(1) by simp
  have pt: "page_table s' q = (if q = p then Some f else if page_table s q = Some f then None else page_table s q)" for q
    using remap_frame_page_table [OF inv f] by (simp add: s'_def)
  have pin0: "pin_count (descriptors s ! f) = 0" using D(8) [OF f] free(1) by blast
  have old: "\<not> held s q" "synced dview s q" "dview (disk s) q = frames s ! f" if "page_table s q = Some f" for q
  proof -
    show nh: "\<not> held s q" using that free(1) by (simp add: held_iff)
    from D(9) [OF this] show "synced dview s q" .
    then show "dview (disk s) q = frames s ! f" using that free(2) by (simp add: synced_def)
  qed
  show "page_table s' p = Some f" by (simp add: pt)
  show bv: "bview dview s' = bview dview s"
  proof
    fix q
    consider "q = p" | "q \<noteq> p" "page_table s q = Some f" | "q \<noteq> p" "page_table s q \<noteq> Some f" by blast
    then show "bview dview s' q = bview dview s q"
    proof cases
      case 1
      then show ?thesis using p f by (simp add: bview_def pt) (simp add: s'_def)
    next
      case 2
      then show ?thesis using old(3) d'(2) by (simp add: bview_def pt) (simp add: s'_def)
    next
      case 3
      then show ?thesis using d'(2) by (cases "page_table s q") (simp_all add: bview_def pt, simp_all add: s'_def)
    qed
  qed
  show "pins s' = pins s"
  proof
    fix q
    have pc: "pin_count (descriptors s' ! g) = pin_count (descriptors s ! g)" for g by (simp add: s'_def)
    show "pins s' q = pins s q"
      using pin0 p by (cases "q = p"; cases "page_table s q") (simp_all add: pins_def pt pc)
  qed
  show h: "held s' = held s"
  proof
    fix q show "held s' q = held s q"
      using free(1) p by (cases "page_table s q") (simp_all add: held_def pt, auto simp add: s'_def)
  qed
  show sy: "synced dview s' q" if "synced dview s q" for q
  proof (cases "q = p")
    case True
    then show ?thesis using f d'(2) by (simp add: synced_def pt) (simp add: s'_def)
  next
    case False
    then show ?thesis
      using that d'(2) by (auto simp: synced_def pt) (auto simp: s'_def)
  qed
  have fd: "fd_page (descriptors s' ! g) = (if g = f then Some p else fd_page (descriptors s ! g))" for g
    using remap_frame_fd_page [OF fl] by (simp add: s'_def)
  have rest: "length (frames s') = length (frames s)" "length (descriptors s') = length (descriptors s)"
    "replacer s' = replacer s" "log_mgr s' = log_mgr s" "disk s' = d'"
    "pin_count (descriptors s' ! g) = pin_count (descriptors s ! g)"
    "is_dirty (descriptors s' ! g) = is_dirty (descriptors s ! g)" for g
    by (simp_all add: s'_def)
  show "bp_inv page_size dinv dview linv s'"
    unfolding bp_inv_def rest fd
  proof (intro conjI allI impI ballI)
    fix q g
    show "(page_table s' q = Some g) = (g < length (frames s) \<and> (if g = f then Some p else fd_page (descriptors s ! g)) = Some q)"
      using D(6) [of q g] D(6) [of q f] p f by (auto simp: pt split: if_splits)
  next
    fix g assume "g < length (frames s)" "(if g = f then Some p else fd_page (descriptors s ! g)) = None"
    then show "\<not> lru_pinned (replacer s) g" "pin_count (descriptors s ! g) = 0" "\<not> is_dirty (descriptors s ! g)"
      using D(7) by (auto split: if_splits)
  next
    fix pg assume "pg \<in> set (frames s')"
    then have "pg = dview (disk s) p \<or> pg \<in> set (frames s)"
      using set_update_subset_insert [of "frames s" f "dview (disk s) p"] by (auto simp: s'_def)
    then show "length pg = page_size"
      using D(5) view_length [OF D(3)] by (auto simp: in_set_conv_nth)
  next
    fix q assume "\<not> held s' q"
    then show "synced dview s' q" using sy D(9) h by simp
  qed (use D(1,2,4,8) d'(1) in blast)+
qed

text \<open>The ways a fetch of a page that is in no frame can end.\<close>

lemma fetch_miss_cases:
  assumes inv: "bp_inv page_size dinv dview linv s" and miss: "page_table s p = None"
    and run: "fetch_page D L p s = (r, s')"
  obtains (full) "r = Err NoFreeFrames" "s' = s\<lparr>misses := misses s + 1\<rparr>"
      "\<forall>f < length (frames s). fd_page (descriptors s ! f) \<noteq> None"
      "\<forall>f \<in> set (access_queue (replacer s)). lru_pinned (replacer s) f"
  | (flush) f s1 e where "f < length (frames s)" "bp_inv page_size dinv dview linv s1"
      "\<exists>rp. s1 = s\<lparr>misses := misses s + 1, replacer := rp\<rparr>" "lru_pinned (replacer s1) = lru_pinned (replacer s)"
      "flush_frame_to_disk D L f s1 = (Err e, s')" "r = Err e"
  | (load) f s1 s2 rr d' where "f < length (frames s)" "\<not> lru_pinned (replacer s) f"
      "bp_inv page_size dinv dview linv s1"
      "\<exists>rp. s1 = s\<lparr>misses := misses s + 1, replacer := rp\<rparr>" "lru_pinned (replacer s1) = lru_pinned (replacer s)"
      "set (access_queue (replacer s)) \<subseteq> insert f (set (access_queue (replacer s1)))"
      "flush_frame_to_disk D L f s1 = (Ok (), s2)" "disk_read D p (disk s2) = (rr, d')"
      "(r, s') = (case rr of Ok data \<Rightarrow> (Ok f, touch_frame f ((remap_frame f p s2)\<lparr>disk := d', frames := (frames s2)[f := data]\<rparr>))
        | Err e \<Rightarrow> (Err (StorageErr e), (remap_frame f p s2)\<lparr>disk := d'\<rparr>)
        | Panic \<Rightarrow> (Panic, (remap_frame f p s2)\<lparr>disk := d'\<rparr>))"
proof -
  let ?s = "s\<lparr>misses := misses s + 1\<rparr>"
  have inv0: "bp_inv page_size dinv dview linv ?s" using inv by simp
  obtain r0 s1 where v: "find_victim_frame ?s = (r0, s1)" by (cases "find_victim_frame ?s")
  from inv0 v show thesis
  proof (cases rule: find_victim_cases)
    case full
    then show thesis using that(1) run miss v by (simp add: fetch_page_def)
  next
    case (victim f rp)
    have f: "f < length (frames s)" using victim(2) by simp
    have s1: "s1 = s\<lparr>misses := misses s + 1, replacer := rp\<rparr>" using victim(4) by simp
    have inv1: "bp_inv page_size dinv dview linv s1"
      unfolding victim(4) by (rule bp_inv_replacer [OF inv0]) (use victim in simp_all)
    obtain r1 s2 where fl: "flush_frame_to_disk D L f s1 = (r1, s2)" by (cases "flush_frame_to_disk D L f s1")
    have np: "r1 \<noteq> Panic" using flush_frame_keeps(1) [OF inv1 _ fl] f s1 by simp
    have run1: "(r, s') = and_then (r1, s2) (\<lambda>_ s.
        let s = remap_frame f p s; (r, d') = disk_read D p (disk s)
        in and_then (map_err StorageErr r, s\<lparr>disk := d'\<rparr>) (\<lambda>data s.
             (Ok f, touch_frame f (s\<lparr>frames := (frames s)[f := data]\<rparr>))))"
      unfolding run [symmetric] using miss v victim(1) fl by (simp add: fetch_page_def)
    show thesis
    proof (cases r1)
      case (Ok u)
      obtain rr d' where rd: "disk_read D p (disk s2) = (rr, d')" by (cases "disk_read D p (disk s2)")
      have fin: "(r, s') = (case rr of Ok data \<Rightarrow> (Ok f, touch_frame f ((remap_frame f p s2)\<lparr>disk := d', frames := (frames s2)[f := data]\<rparr>))
        | Err e \<Rightarrow> (Err (StorageErr e), (remap_frame f p s2)\<lparr>disk := d'\<rparr>)
        | Panic \<Rightarrow> (Panic, (remap_frame f p s2)\<lparr>disk := d'\<rparr>))"
        unfolding run1 Ok using rd by (cases rr) (simp_all add: Let_def)
      have fl': "flush_frame_to_disk D L f s1 = (Ok (), s2)" using fl Ok by simp
      show thesis
        by (rule that(3) [OF f _ inv1 _ _ _ fl' rd fin]) (use victim s1 in auto)
    next
      case (Err e)
      show thesis
        by (rule that(2) [OF f inv1, of e]) (use victim s1 fl Err run1 in auto)
    qed (use np in simp)
  qed
qed

lemma fetch_page_Ok:
  assumes inv: "bp_inv page_size dinv dview linv s" and run: "fetch_page D L p s = (Ok f, s')"
  shows "bp_inv page_size dinv dview linv s'" and "page_table s' p = Some f"
    and "bview dview s' = bview dview s" and "pins s' = (pins s)(p := pins s p + 1)"
    and "held s' = (held s)(p := True)" and "synced dview s q \<Longrightarrow> synced dview s' q"
    and "dtotal (disk s') = dtotal (disk s)" and "length (frames s') = length (frames s)"
    and "bp_tracked s \<Longrightarrow> bp_tracked s'"
proof -
  have "bp_inv page_size dinv dview linv s' \<and> page_table s' p = Some f \<and> bview dview s' = bview dview s \<and>
    pins s' = (pins s)(p := pins s p + 1) \<and> held s' = (held s)(p := True) \<and>
    (\<forall>q. synced dview s q \<longrightarrow> synced dview s' q) \<and> dtotal (disk s') = dtotal (disk s) \<and>
    length (frames s') = length (frames s) \<and> (bp_tracked s \<longrightarrow> bp_tracked s')"
  proof (cases "page_table s p")
    case (Some g)
    have g: "g < length (frames s)" "length (descriptors s) = length (frames s)"
      using bp_invD(1,6) [OF inv] Some by auto
    let ?s = "s\<lparr>hits := hits s + 1\<rparr>"
    have inv0: "bp_inv page_size dinv dview linv ?s" and pt: "page_table ?s p = Some g" using inv Some by simp_all
    have e: "f = g" "s' = touch_frame g ?s" using run Some g by (auto simp: fetch_page_def)
    note t = touch_frame_inv [OF inv0 pt]
    have same: "bview dview ?s = bview dview s" "pins ?s = pins s" "held ?s = held s" "synced dview ?s = synced dview s"
      by (simp_all add: fun_eq_iff bview_def pins_def held_iff synced_def cong: option.case_cong)
    have "bp_tracked s \<longrightarrow> bp_tracked s'"
      using touch_frame_replacer(3) [OF bp_invD(2) [OF inv0], of g] g(1) by (auto simp: bp_tracked_def e(2))
    then show ?thesis using t same Some by (simp add: e)
  next
    case None
    from inv None run show ?thesis
    proof (cases rule: fetch_miss_cases)
      case (load g s1 s2 rr d')
      then obtain data where rr: "rr = Ok data" by (cases rr) auto
      obtain rp where s1: "s1 = s\<lparr>misses := misses s + 1, replacer := rp\<rparr>" using load(4) by blast
      have g1: "g < length (frames s1)" using load(1) s1 by simp
      note k = flush_frame_keeps [OF load(3) g1 load(7)] and v = flush_frame_view [OF load(3) g1 load(7)]
      note fo = flush_frame_Ok [OF load(3) g1 load(7)]
      note rd = read_ok [OF k(9) load(8) [unfolded rr]]
      have data: "data = dview (disk s2) p" using rd by simp
      have g2: "g < length (frames s2)" and np: "\<not> lru_pinned (replacer s2) g" and pt2: "page_table s2 p = None"
        using g1 load(2,5) None s1 by (simp_all add: k(2,3,4))
      let ?s3 = "(remap_frame g p s2)\<lparr>disk := d', frames := (frames s2)[g := dview (disk s2) p]\<rparr>"
      have lf: "bp_inv page_size dinv dview linv ?s3" "bview dview ?s3 = bview dview s2" "pins ?s3 = pins s2"
        "held ?s3 = held s2" "\<And>q. synced dview s2 q \<Longrightarrow> synced dview ?s3 q" "page_table ?s3 p = Some g"
        by (rule load_frame [OF fo(4) g2 np fo(2) pt2], use rd in simp, use rd in simp, assumption?)+
      note t = touch_frame_inv [OF lf(1,6)]
      have e: "f = g" "s' = touch_frame g ?s3" using load(9) by (simp_all add: rr data)
      have same: "bview dview s1 = bview dview s" "pins s1 = pins s" "held s1 = held s" "synced dview s1 = synced dview s"
        unfolding s1 using load(5) s1
        by (simp_all add: fun_eq_iff bview_def pins_def held_iff synced_def cong: option.case_cong)
      have tr: "bp_tracked s \<longrightarrow> bp_tracked s'"
      proof
        assume "bp_tracked s"
        then have old: "h \<in> insert g (set (access_queue (replacer s2)))"
          if "h < length (frames s)" "fd_page (descriptors s ! h) \<noteq> None" for h
          using that load(6) by (auto simp: bp_tracked_def k(4))
        have "fd_page (descriptors ?s3 ! h) = (if h = g then Some p else fd_page (descriptors s ! h))" for h
          using remap_frame_fd_page [of g s2 p h] g1 bp_invD(1) [OF load(3)] k(5,6) s1 by simp
        with old show "bp_tracked s'"
          using touch_frame_replacer(3) [OF bp_invD(2) [OF lf(1)], of g] g2 k(2) s1
          by (auto simp: bp_tracked_def e(2) split: if_splits)
      qed
      have "synced dview s q \<Longrightarrow> synced dview s' q" for q
        using fo(1) lf(5) t(5) same(4) by (simp add: e(2))
      moreover have "length (frames s') = length (frames s)" using k(2) s1 by (simp add: e(2))
      moreover have "dtotal (disk s') = dtotal (disk s)" using rd k(10) s1 by (simp add: e(2))
      ultimately show ?thesis using t lf v same tr by (simp add: e)
    qed simp_all
  qed
  then show "bp_inv page_size dinv dview linv s'" "page_table s' p = Some f" "bview dview s' = bview dview s"
    "pins s' = (pins s)(p := pins s p + 1)" "held s' = (held s)(p := True)" "synced dview s q \<Longrightarrow> synced dview s' q"
    "dtotal (disk s') = dtotal (disk s)" "length (frames s') = length (frames s)" "bp_tracked s \<Longrightarrow> bp_tracked s'"
    by blast+
qed

lemma fetch_page_place:
  assumes inv: "bp_inv page_size dinv dview linv s" and run: "fetch_page D L p s = (Ok f, s')"
    and q: "held s q" "page_table s q = Some g"
  shows "page_table s' q = Some g"
proof (cases "page_table s p")
  case (Some h)
  then show ?thesis using run q by (auto simp: fetch_page_def Let_def split: if_splits)
next
  case None
  from inv None run show ?thesis
  proof (cases rule: fetch_miss_cases)
    case (load h s1 s2 rr d')
    then obtain data where rr: "rr = Ok data" by (cases rr) auto
    obtain rp where s1: "s1 = s\<lparr>misses := misses s + 1, replacer := rp\<rparr>" using load(4) by blast
    have h: "h < length (frames s1)" using load(1) s1 by simp
    note fo = flush_frame_Ok(4) [OF load(3) h load(7)] and k = flush_frame_keeps(2,3) [OF load(3) h load(7)]
    have "g \<noteq> h" using q load(2) by (auto simp: held_iff)
    then show ?thesis
      using load(9) q None h s1 k by (simp add: rr remap_frame_page_table [OF fo]) auto
  qed simp_all
qed

text \<open>With no failing system call and a frame to spare, a fetch succeeds.\<close>

lemma fetch_page_progress:
  assumes inv: "bp_inv page_size dinv dview linv s" and h: "bp_healthy healthy lhealthy s"
    and tr: "bp_tracked s" and room: "held s p \<or> (\<exists>f < length (frames s). \<not> lru_pinned (replacer s) f)"
  shows "\<exists>f s'. fetch_page D L p s = (Ok f, s') \<and> bp_healthy healthy lhealthy s'"
proof (cases "page_table s p")
  case (Some f)
  then have "f < length (frames s)" using bp_invD(6) [OF inv] by blast
  then show ?thesis
    using Some h bp_invD(1) [OF inv] by (simp add: fetch_page_def bp_healthy_def)
next
  case None
  obtain r s' where run: "fetch_page D L p s = (r, s')" by (cases "fetch_page D L p s")
  from inv None run show ?thesis
  proof (cases rule: fetch_miss_cases)
    case full
    then show ?thesis using room tr None by (auto simp: bp_tracked_def held_iff)
  next
    case (flush f s1 e)
    then have "f < length (frames s1)" "bp_healthy healthy lhealthy s1" using h by (auto simp: bp_healthy_def)
    with flush show ?thesis using flush_frame_healthy [OF flush(2) _ flush(5)] by blast
  next
    case (load f s1 s2 rr d')
    then have f: "f < length (frames s1)" and h1: "bp_healthy healthy lhealthy s1" using h by (auto simp: bp_healthy_def)
    have h2: "bp_healthy healthy lhealthy s2" using flush_frame_healthy [OF load(3) f load(7) h1] by simp
    have "dinv (disk s2)" by (rule flush_frame_keeps(9) [OF load(3) f load(7)])
    note rl = read_law [OF this load(8)]
    then have "healthy d'" "is_ok rr" using h2 by (simp_all add: bp_healthy_def)
    then obtain data where rr: "rr = Ok data" by (auto simp: is_ok_iff)
    let ?s' = "touch_frame f ((remap_frame f p s2)\<lparr>disk := d', frames := (frames s2)[f := data]\<rparr>)"
    have "r = Ok f" "s' = ?s'" using load(9) by (simp_all add: rr)
    moreover have "bp_healthy healthy lhealthy ?s'"
      using h2 \<open>healthy d'\<close> by (simp add: bp_healthy_def)
    ultimately show ?thesis using run by blast
  qed
qed

lemma fetch_page_no_panic:
  assumes inv: "bp_inv page_size dinv dview linv s" and run: "fetch_page D L p s = (r, s')"
  shows "r \<noteq> Panic"
proof (cases "page_table s p")
  case (Some f)
  then have "f < length (frames s)" using bp_invD(6) [OF inv] by blast
  then show ?thesis
    using Some run bp_invD(1) [OF inv] by (auto simp: fetch_page_def)
next
  case None
  from inv None run show ?thesis
  proof (cases rule: fetch_miss_cases)
    case (load f s1 s2 rr d')
    then have f: "f < length (frames s1)" by auto
    have "dinv (disk s2)" by (rule flush_frame_keeps(9) [OF load(3) f load(7)])
    then have "rr \<noteq> Panic" using read_law [OF _ load(8)] by auto
    then show ?thesis using load(9) by (cases rr) auto
  qed auto
qed

text \<open>Whatever a fetch writes to disk on the way, it does so after the log.\<close>

lemma fetch_page_log:
  assumes inv: "bp_inv page_size dinv dview linv s" and run: "fetch_page D L p s = (r, s')"
  shows "log_safe durable pending dview (is_ok r) s s'"
proof (cases "page_table s p")
  case (Some f)
  then have "f < length (frames s)" using bp_invD(6) [OF inv] by blast
  then have "disk s' = disk s" "log_mgr s' = log_mgr s"
    using Some run bp_invD(1) [OF inv] by (auto simp: fetch_page_def)
  then show ?thesis by (simp add: log_safe_quiet)
next
  case None
  have start: "log_safe durable pending dview True s s1" "bview dview s1 = bview dview s"
    if "\<exists>rp. s1 = s\<lparr>misses := misses s + 1, replacer := rp\<rparr>" for s1
    using that by (auto simp: log_safe_quiet bview_def fun_eq_iff cong: option.case_cong)
  from inv None run show ?thesis
  proof (cases rule: fetch_miss_cases)
    case full
    then show ?thesis by (simp add: log_safe_quiet)
  next
    case (flush f s1 e)
    then have "f < length (frames s1)" by auto
    from log_safe_trans [OF start(1) [OF flush(3)] flush_frame_log [OF flush(2) this flush(5)] start(2) [OF flush(3)]]
    show ?thesis by (simp add: flush(6))
  next
    case (load f s1 s2 rr d')
    then have f: "f < length (frames s1)" by auto
    have "dinv (disk s2)" by (rule flush_frame_keeps(9) [OF load(3) f load(7)])
    then have "dview d' = dview (disk s2)" using read_law [OF _ load(8)] by blast
    moreover have "disk s' = d'" "log_mgr s' = log_mgr s2" using load(9) by (cases rr; simp)+
    ultimately have rest: "log_safe durable pending dview (is_ok r) s2 s'" by (simp add: log_safe_quiet)
    have "log_safe durable pending dview True s1 s2"
      using flush_frame_log [OF load(3) f load(7)] by simp
    from log_safe_trans [OF this rest flush_frame_view(1) [OF load(3) f load(7)]]
    show ?thesis by (rule log_safe_trans [OF start(1) [OF load(4)] _ start(2) [OF load(4)]])
  qed
qed

lemma fetch_clean_disk:
  assumes inv: "bp_inv page_size dinv dview linv s" and clean: "\<forall>f < length (frames s). \<not> is_dirty (descriptors s ! f)"
    and run: "fetch_page D L p s = (r, s')"
  shows "dview (disk s') = dview (disk s)"
proof (cases "page_table s p")
  case (Some f)
  then have "f < length (frames s)" using bp_invD(6) [OF inv] by blast
  then show ?thesis using Some run bp_invD(1) [OF inv] by (auto simp: fetch_page_def)
next
  case None
  have skip: "flush_frame_to_disk D L f s1 = (Ok (), s1)"
    if "f < length (frames s)" "\<exists>rp. s1 = s\<lparr>misses := misses s + 1, replacer := rp\<rparr>" for f s1
    using that clean bp_invD(1) [OF inv] by (auto simp: flush_frame_to_disk_def)
  from inv None run show ?thesis
  proof (cases rule: fetch_miss_cases)
    case (flush f s1 e)
    then show ?thesis using skip [OF flush(1,3)] by simp
  next
    case (load f s1 s2 rr d')
    then have s2: "s2 = s1" "disk s1 = disk s" using skip [OF load(1,4)] by auto
    then have "dview d' = dview (disk s)" using read_law [OF _ load(8)] bp_invD(3) [OF inv] by auto
    moreover have "disk s' = d'" using load(9) by (cases rr; simp)
    ultimately show ?thesis by simp
  qed simp
qed

lemma unpin_page_cases:
  assumes inv: "bp_inv page_size dinv dview linv s" and pin: "pins s p \<noteq> 0"
    and ok: "dirty \<or> synced dview s p \<or> pins s p \<noteq> 1"
  shows "\<exists>s'. unpin_page p dirty s = (Ok (), s') \<and> bp_inv page_size dinv dview linv s' \<and>
    bview dview s' = bview dview s \<and> pins s' = (pins s)(p := pins s p - 1) \<and>
    held s' = (if pins s p = 1 then (held s)(p := False) else held s) \<and>
    synced dview s' = (synced dview s)(p := dirty \<or> synced dview s p) \<and> disk s' = disk s \<and> log_mgr s' = log_mgr s \<and>
    length (frames s') = length (frames s) \<and> page_table s' = page_table s \<and> (bp_tracked s \<longrightarrow> bp_tracked s')"
proof -
  note D = bp_invD [OF inv]
  obtain f where f: "page_table s p = Some f" and pc: "pin_count (descriptors s ! f) \<noteq> 0"
    using pin by (cases "page_table s p") (simp_all add: pins_def)
  have fl: "f < length (frames s)" "fd_page (descriptors s ! f) = Some p" using D(6) f by auto
  define s1 where "s1 = (if dirty then upd_desc f (\<lambda>desc. desc\<lparr>is_dirty := True\<rparr>) s else s)"
  define s2 where "s2 = upd_desc f (\<lambda>desc. desc\<lparr>pin_count := pin_count desc - 1\<rparr>) s1"
  define last where "last \<longleftrightarrow> pin_count (descriptors s ! f) = 1"
  define s3 where "s3 = (if last then s2\<lparr>replacer := set_pin f False (replacer s2)\<rparr> else s2)"
  have desc: "descriptors s3 ! g = (if g = f then (descriptors s ! f)\<lparr>is_dirty := dirty \<or> is_dirty (descriptors s ! f),
      pin_count := pin_count (descriptors s ! f) - 1\<rparr> else descriptors s ! g)" for g
    using fl D(1) by (simp add: s3_def s2_def s1_def upd_desc_def nth_list_update)
  have keep: "frames s3 = frames s" "page_table s3 = page_table s" "disk s3 = disk s" "log_mgr s3 = log_mgr s"
    "length (descriptors s3) = length (descriptors s)"
    by (simp_all add: s3_def s2_def s1_def)
  have repl: "replacer s3 = (if last then set_pin f False (replacer s) else replacer s)"
    by (simp add: s3_def s2_def s1_def)
  note sp = set_pin_parts [OF D(2) fl(1), of False]
  have lp: "lru_pinned (replacer s3) = (if last then (lru_pinned (replacer s))(f := False) else lru_pinned (replacer s))"
    "lru_inv (length (frames s)) (replacer s3)" "access_queue (replacer s3) = access_queue (replacer s)"
    using sp D(2) by (simp_all add: repl)
  have run: "unpin_page p dirty s = (Ok (), s3)"
    using f fl D(1) pc
    by (simp add: unpin_page_def Let_def s3_def s2_def s1_def last_def upd_desc_def nth_list_update)
  have other: "page_table s q = Some f \<Longrightarrow> q = p" for q using page_table_inj [OF inv _ f] by blast
  have bv: "bview dview s3 = bview dview s" by (simp add: fun_eq_iff bview_def keep cong: option.case_cong)
  have pins: "pins s3 = (pins s)(p := pins s p - 1)"
  proof
    fix q show "pins s3 q = ((pins s)(p := pins s p - 1)) q"
      using f other [of q] by (cases "page_table s q") (auto simp: pins_def keep desc)
  qed
  have last_pins: "last \<longleftrightarrow> pins s p = 1" using f by (simp add: last_def pins_def)
  have held: "held s3 = (if pins s p = 1 then (held s)(p := False) else held s)"
  proof
    fix q show "held s3 q = (if pins s p = 1 then (held s)(p := False) else held s) q"
      using f other [of q] by (cases "page_table s q") (auto simp: held_def keep lp last_pins)
  qed
  have sync: "synced dview s3 = (synced dview s)(p := dirty \<or> synced dview s p)"
  proof
    fix q show "synced dview s3 q = ((synced dview s)(p := dirty \<or> synced dview s p)) q"
      using f other [of q] by (cases "page_table s q") (auto simp: synced_def keep desc)
  qed
  have tr: "bp_tracked s \<longrightarrow> bp_tracked s3" by (auto simp: bp_tracked_def keep desc lp(3))
  have "bp_inv page_size dinv dview linv s3"
    unfolding bp_inv_def keep
  proof (intro conjI allI impI ballI)
    fix q assume "\<not> held s3 q"
    then show "synced dview s3 q" using D(9) ok by (auto simp: held sync split: if_splits)
  next
    fix q g show "(page_table s q = Some g) = (g < length (frames s) \<and> fd_page (descriptors s3 ! g) = Some q)"
      using D(6) by (simp add: desc)
  next
    fix g assume "g < length (frames s)" "fd_page (descriptors s3 ! g) = None"
    then show "\<not> lru_pinned (replacer s3) g" "pin_count (descriptors s3 ! g) = 0" "\<not> is_dirty (descriptors s3 ! g)"
      using D(7) [of g] fl by (auto simp: desc lp split: if_splits)
  next
    fix g assume "g < length (frames s)" "pin_count (descriptors s3 ! g) \<noteq> 0"
    then show "lru_pinned (replacer s3) g"
      using D(8) [of g] pc by (auto simp: desc lp last_def split: if_splits)
  next
    fix pg assume "pg \<in> set (frames s)"
    then show "length pg = page_size" using D(5) by (auto simp: in_set_conv_nth)
  qed (use D(1-4) lp(2) in blast)+
  with run bv pins held sync keep tr show ?thesis by simp
qed

lemma unpin_page_Ok:
  assumes inv: "bp_inv page_size dinv dview linv s" and pin: "pins s p \<noteq> 0"
    and ok: "dirty \<or> synced dview s p"
  shows "\<exists>s'. unpin_page p dirty s = (Ok (), s') \<and> bp_inv page_size dinv dview linv s' \<and>
    bview dview s' = bview dview s \<and> pins s' = (pins s)(p := pins s p - 1) \<and>
    held s' = (if pins s p = 1 then (held s)(p := False) else held s) \<and>
    synced dview s' = (synced dview s)(p := True) \<and> disk s' = disk s \<and> log_mgr s' = log_mgr s \<and>
    length (frames s') = length (frames s) \<and> page_table s' = page_table s \<and> (bp_tracked s \<longrightarrow> bp_tracked s')"
proof -
  have "dirty \<or> synced dview s p \<or> pins s p \<noteq> 1" using ok by blast
  from unpin_page_cases [OF inv pin this] ok show ?thesis by simp
qed

lemma unpin_page_zero:
  assumes inv: "bp_inv page_size dinv dview linv s" and "pins s p = 0"
  shows "fst (unpin_page p dirty s) = (if page_table s p = None then Err PageNotFound else Panic)"
proof (cases "page_table s p")
  case (Some f)
  then have "f < length (frames s)" using bp_invD(6) [OF inv] by blast
  then show ?thesis
    using assms(2) Some bp_invD(1) [OF inv] by (simp add: unpin_page_def pins_def Let_def upd_desc_def)
qed (simp add: unpin_page_def)

lemma write_frame_Ok:
  assumes inv: "bp_inv page_size dinv dview linv s" and f: "page_table s p = Some f" and h: "held s p"
    and len: "length pg = page_size"
  shows "\<exists>s'. write_frame f pg s = (Ok (), s') \<and> bp_inv page_size dinv dview linv s' \<and>
    bview dview s' = (bview dview s)(p := pg) \<and> pins s' = pins s \<and> held s' = held s \<and>
    (\<forall>q. q \<noteq> p \<longrightarrow> synced dview s' q = synced dview s q) \<and> disk s' = disk s \<and> log_mgr s' = log_mgr s \<and>
    page_table s' = page_table s \<and> length (frames s') = length (frames s) \<and> (bp_tracked s \<longrightarrow> bp_tracked s') \<and>
    (pg = bview dview s p \<longrightarrow> synced dview s' = synced dview s)"
proof -
  note D = bp_invD [OF inv]
  have fl: "f < length (frames s)" using D(6) f by blast
  let ?s = "s\<lparr>frames := (frames s)[f := pg]\<rparr>"
  have same: "synced dview ?s = synced dview s" if "pg = bview dview s p" using that f by (simp add: bview_def)
  have other: "page_table s q = Some f \<Longrightarrow> q = p" for q using page_table_inj [OF inv _ f] by blast
  have bv: "bview dview ?s = (bview dview s)(p := pg)"
  proof
    fix q show "bview dview ?s q = ((bview dview s)(p := pg)) q"
      using f fl other [of q] by (cases "page_table s q") (auto simp: bview_def nth_list_update)
  qed
  have sy: "synced dview ?s q = synced dview s q" if "q \<noteq> p" for q
    using that other [of q] by (cases "page_table s q = Some f") (auto simp: synced_def)
  have hd: "held ?s = held s" "pins ?s = pins s" by (simp_all add: fun_eq_iff held_iff pins_def cong: option.case_cong)
  have "bp_inv page_size dinv dview linv ?s"
    unfolding bp_inv_def
  proof (intro conjI allI impI ballI)
    fix q assume q: "\<not> held ?s q"
    then have "q \<noteq> p" using h hd by auto
    then show "synced dview ?s q" using sy D(9) q by (simp add: hd)
  next
    fix x assume "x \<in> set (frames ?s)"
    then have "x = pg \<or> x \<in> set (frames s)" using set_update_subset_insert [of "frames s" f pg] by auto
    then show "length x = page_size" using D(5) len by (auto simp: in_set_conv_nth)
  qed (use D in \<open>auto simp: in_set_conv_nth\<close>)
  then show ?thesis using bv hd sy fl same by (auto simp: write_frame_def bp_tracked_def)
qed

lemma bp_inv_disk:
  assumes inv: "bp_inv page_size dinv dview linv s" and d': "dinv d'" "dview d' = dview (disk s)"
  shows "bp_inv page_size dinv dview linv (s\<lparr>disk := d'\<rparr>)"
    and "bview dview (s\<lparr>disk := d'\<rparr>) = bview dview s" and "synced dview (s\<lparr>disk := d'\<rparr>) = synced dview s"
    and "pins (s\<lparr>disk := d'\<rparr>) = pins s" and "held (s\<lparr>disk := d'\<rparr>) = held s"
proof -
  show bv: "bview dview (s\<lparr>disk := d'\<rparr>) = bview dview s" and sy: "synced dview (s\<lparr>disk := d'\<rparr>) = synced dview s"
    and p: "pins (s\<lparr>disk := d'\<rparr>) = pins s" and h: "held (s\<lparr>disk := d'\<rparr>) = held s"
    using d'(2) by (simp_all add: fun_eq_iff bview_def synced_def pins_def held_iff cong: option.case_cong)
  show "bp_inv page_size dinv dview linv (s\<lparr>disk := d'\<rparr>)"
    using inv d'(1) unfolding bp_inv_def sy h by simp
qed

lemma new_page_Ok:
  assumes inv: "bp_inv page_size dinv dview linv s" and run: "new_page D L fid s = (Ok (f, p), s')"
  shows "p = \<lparr>file_id = fid, page_num = dtotal (disk s) fid\<rparr>"
    and "bp_inv page_size dinv dview linv s'" and "page_table s' p = Some f"
    and "bview dview s' = bview dview s" and "pins s' = (pins s)(p := pins s p + 1)"
    and "held s' = (held s)(p := True)" and "synced dview s q \<Longrightarrow> synced dview s' q"
    and "dtotal (disk s') = (dtotal (disk s))(fid := dtotal (disk s) fid + 1)"
    and "length (frames s') = length (frames s)" and "bp_tracked s \<Longrightarrow> bp_tracked s'"
    and "held s r \<Longrightarrow> page_table s r = Some g \<Longrightarrow> page_table s' r = Some g"
proof -
  obtain a d' where al: "disk_allocate D fid (disk s) = (a, d')" by (cases "disk_allocate D fid (disk s)")
  note law = allocate_law [OF bp_invD(3) [OF inv] al]
  from run al obtain p0 where q: "a = Ok p0" by (cases a) (simp_all add: new_page_def)
  obtain rf s1 where ft: "fetch_page D L p0 (s\<lparr>disk := d'\<rparr>) = (rf, s1)" by (cases "fetch_page D L p0 (s\<lparr>disk := d'\<rparr>)")
  with run al q have e: "rf = Ok f" "p0 = p" "s1 = s'" by (cases rf; simp add: new_page_def)+
  note ft = ft [unfolded e]
  have pd: "p = \<lparr>file_id = fid, page_num = dtotal (disk s) fid\<rparr>" "dinv d'" "dview d' = dview (disk s)"
    "dtotal d' = (dtotal (disk s))(fid := dtotal (disk s) fid + 1)" using law q e by simp_all
  note b = bp_inv_disk [OF inv pd(2,3)]
  note f = fetch_page_Ok [OF b(1) ft]
  show "p = \<lparr>file_id = fid, page_num = dtotal (disk s) fid\<rparr>" by (rule pd(1))
  show "bp_inv page_size dinv dview linv s'" "page_table s' p = Some f" by (rule f)+
  show "bview dview s' = bview dview s" "pins s' = (pins s)(p := pins s p + 1)" "held s' = (held s)(p := True)"
    "synced dview s q \<Longrightarrow> synced dview s' q" "dtotal (disk s') = (dtotal (disk s))(fid := dtotal (disk s) fid + 1)"
    "length (frames s') = length (frames s)" "bp_tracked s \<Longrightarrow> bp_tracked s'"
    using f b pd(4) by (simp_all add: bp_tracked_def)
  show "held s r \<Longrightarrow> page_table s r = Some g \<Longrightarrow> page_table s' r = Some g"
    using fetch_page_place [OF b(1) ft, of r g] b(5) by simp
qed

lemma new_page_log:
  assumes inv: "bp_inv page_size dinv dview linv s" and run: "new_page D L fid s = (r, s')"
  shows "log_safe durable pending dview (is_ok r) s s'"
proof -
  obtain a d' where al: "disk_allocate D fid (disk s) = (a, d')" by (cases "disk_allocate D fid (disk s)")
  note law = allocate_law [OF bp_invD(3) [OF inv] al]
  then have d: "dinv d'" "dview d' = dview (disk s)" by blast+
  show ?thesis
  proof (cases a)
    case (Ok p)
    obtain r1 where 1: "fetch_page D L p (s\<lparr>disk := d'\<rparr>) = (r1, s')" and ok: "is_ok r \<Longrightarrow> is_ok r1"
      using run al Ok by (cases "fetch_page D L p (s\<lparr>disk := d'\<rparr>)"; cases "fst (fetch_page D L p (s\<lparr>disk := d'\<rparr>))")
        (auto simp: new_page_def)
    have "log_safe durable pending dview (is_ok r) (s\<lparr>disk := d'\<rparr>) s'"
      using fetch_page_log [OF bp_inv_disk(1) [OF inv d] 1] ok by (rule log_safe_weaken)
    then show ?thesis
      by (rule log_safe_trans [rotated]) (simp_all add: log_safe_quiet d(2) bp_inv_disk(2) [OF inv d])
  next
    case (Err e)
    then show ?thesis using run al d(2) by (auto simp: new_page_def intro!: log_safe_quiet)
  next
    case Panic
    then show ?thesis using law by simp
  qed
qed

lemma flush_page_log:
  assumes inv: "bp_inv page_size dinv dview linv s" and run: "flush_page D L p s = (r, s')"
  shows "log_safe durable pending dview (is_ok r) s s'"
proof (cases "page_table s p")
  case None
  then show ?thesis using run by (simp add: flush_page_def log_safe_quiet)
next
  case (Some f)
  then have "f < length (frames s)" using bp_invD(6) [OF inv] by blast
  from flush_frame_log [OF inv this] show ?thesis using run Some by (simp add: flush_page_def)
qed

lemma new_page_progress:
  assumes inv: "bp_inv page_size dinv dview linv s" and h: "bp_healthy healthy lhealthy s"
    and tr: "bp_tracked s" and room: "\<exists>f < length (frames s). \<not> lru_pinned (replacer s) f"
  shows "\<exists>f p s'. new_page D L fid s = (Ok (f, p), s') \<and> bp_healthy healthy lhealthy s'"
proof -
  obtain a d' where al: "disk_allocate D fid (disk s) = (a, d')" by (cases "disk_allocate D fid (disk s)")
  note law = allocate_law [OF bp_invD(3) [OF inv] al]
  have "is_ok a" "healthy d'" using law h by (simp_all add: bp_healthy_def)
  then obtain q where q: "a = Ok q" by (auto simp: is_ok_iff)
  have pd: "dinv d'" "dview d' = dview (disk s)" using law by simp_all
  note b = bp_inv_disk [OF inv pd]
  have "bp_healthy healthy lhealthy (s\<lparr>disk := d'\<rparr>)" "bp_tracked (s\<lparr>disk := d'\<rparr>)"
    using h \<open>healthy d'\<close> tr by (simp_all add: bp_healthy_def bp_tracked_def)
  from fetch_page_progress [OF b(1) this, of q] room al q show ?thesis
    by (auto simp: new_page_def)
qed

lemma flush_frames_Ok:
  assumes "bp_inv page_size dinv dview linv s" and "\<forall>f \<in> set fs. f < length (frames s)"
    and "flush_frames D L fs s = (Ok (), s')"
  shows "bp_inv page_size dinv dview linv s' \<and> bview dview s' = bview dview s \<and> pins s' = pins s \<and> held s' = held s \<and>
    frames s' = frames s \<and> page_table s' = page_table s \<and> replacer s' = replacer s \<and>
    (\<forall>f. f \<in> set fs \<or> \<not> is_dirty (descriptors s ! f) \<longrightarrow> \<not> is_dirty (descriptors s' ! f)) \<and>
    (\<forall>q. synced dview s q \<longrightarrow> synced dview s' q)"
  using assms
proof (induction fs arbitrary: s)
  case Nil
  then show ?case by simp
next
  case (Cons f fs)
  obtain r s1 where 1: "flush_frame_to_disk D L f s = (r, s1)" by (cases "flush_frame_to_disk D L f s")
  have r: "r = Ok ()" and rest: "flush_frames D L fs s1 = (Ok (), s')" using Cons.prems(3) 1 by (cases r; simp)+
  have f: "f < length (frames s)" using Cons.prems(2) by simp
  note k = flush_frame_keeps [OF Cons.prems(1) f 1] and v = flush_frame_view [OF Cons.prems(1) f 1]
  note o = flush_frame_Ok [OF Cons.prems(1) f 1 [unfolded r]]
  have bound: "\<forall>f \<in> set fs. f < length (frames s1)" using Cons.prems(2) by (simp add: k(2))
  note IH = Cons.IH [OF o(4) bound rest]
  have dirty: "\<not> is_dirty (descriptors s1 ! g)" if "\<not> is_dirty (descriptors s ! g) \<or> g = f" for g
    using that o(2) k(8) [of g] by (cases "g = f") simp_all
  have "\<not> is_dirty (descriptors s' ! g)" if "g \<in> set (f # fs) \<or> \<not> is_dirty (descriptors s ! g)" for g
    using that IH dirty by auto
  then show ?case using IH v k(2,3,4) o(1) by auto
qed

lemma flush_frames_log:
  assumes "bp_inv page_size dinv dview linv s" and "\<forall>f \<in> set fs. f < length (frames s)"
    and "flush_frames D L fs s = (r, s')"
  shows "log_safe durable pending dview (is_ok r) s s'"
  using assms
proof (induction fs arbitrary: s)
  case Nil
  then show ?case by (simp add: log_safe_quiet)
next
  case (Cons f fs)
  obtain r1 s1 where 1: "flush_frame_to_disk D L f s = (r1, s1)" by (cases "flush_frame_to_disk D L f s")
  have f: "f < length (frames s)" using Cons.prems(2) by simp
  note l1 = flush_frame_log [OF Cons.prems(1) f 1]
  show ?case
  proof (cases "r1 = Ok ()")
    case True
    then have rest: "flush_frames D L fs s1 = (r, s')" using Cons.prems(3) 1 by simp
    have "\<forall>f \<in> set fs. f < length (frames s1)"
      using Cons.prems(2) flush_frame_keeps(2) [OF Cons.prems(1) f 1] by simp
    note IH = Cons.IH [OF flush_frame_Ok(4) [OF Cons.prems(1) f 1 [unfolded True]] this rest]
    have "log_safe durable pending dview True s s1" using l1 True by simp
    from log_safe_trans [OF this IH flush_frame_view(1) [OF Cons.prems(1) f 1]] show ?thesis .
  next
    case False
    then have "s' = s1" "\<not> is_ok r" using Cons.prems(3) 1 by (cases r1; auto)+
    with l1 show ?thesis by (simp add: log_safe_weaken)
  qed
qed

lemma flush_frames_healthy:
  assumes "bp_inv page_size dinv dview linv s" and "\<forall>f \<in> set fs. f < length (frames s)"
    and "bp_healthy healthy lhealthy s"
  shows "\<exists>s'. flush_frames D L fs s = (Ok (), s') \<and> bp_healthy healthy lhealthy s'"
  using assms
proof (induction fs arbitrary: s)
  case (Cons f fs)
  obtain r s1 where 1: "flush_frame_to_disk D L f s = (r, s1)" by (cases "flush_frame_to_disk D L f s")
  have f: "f < length (frames s)" using Cons.prems(2) by simp
  note h = flush_frame_healthy [OF Cons.prems(1) f 1 Cons.prems(3)]
  then have r: "r = Ok ()" by blast
  have "bp_inv page_size dinv dview linv s1" by (rule flush_frame_Ok(4) [OF Cons.prems(1) f 1 [unfolded r]])
  from Cons.IH [OF this _ conjunct2 [OF h]] show ?case
    using 1 r Cons.prems(2) flush_frame_keeps(2) [OF Cons.prems(1) f 1] by simp
qed simp

lemma flush_all_log:
  assumes inv: "bp_inv page_size dinv dview linv s" and run: "flush_all_pages D L s = (r, s')"
  shows "log_safe durable pending dview (is_ok r) s s'"
  using flush_frames_log [OF inv _ run [unfolded flush_all_pages_def]] bp_invD(1) [OF inv] by simp

lemma flush_all_Ok:
  assumes inv: "bp_inv page_size dinv dview linv s" and run: "flush_all_pages D L s = (Ok (), s')"
    and sync: "\<forall>p. synced dview s p"
  shows "bp_inv page_size dinv dview linv s'" and "dview (disk s') = bview dview s" and "bview dview s' = bview dview s"
proof -
  have b: "\<forall>f \<in> set [0..<length (descriptors s)]. f < length (frames s)" using bp_invD(1) [OF inv] by simp
  note a = flush_frames_Ok [OF inv b run [unfolded flush_all_pages_def]]
  then show i: "bp_inv page_size dinv dview linv s'" and v: "bview dview s' = bview dview s" by blast+
  have "dview (disk s') q = bview dview s' q" for q
  proof (cases "page_table s' q")
    case (Some f)
    then have "f < length (frames s)" using bp_invD(6) [OF i] a by simp
    then have "\<not> is_dirty (descriptors s' ! f)" using a bp_invD(1) [OF inv] by simp
    moreover have "synced dview s' q" using a sync by blast
    ultimately show ?thesis using Some by (simp add: synced_def bview_def)
  qed (simp add: bview_def)
  then show "dview (disk s') = bview dview s" using v by auto
qed

end

end
