(* ===== verification/Buffer_Pool_Drop.thy ===== *)
theory Buffer_Pool_Drop
  imports Buffer_Pool_Laws
begin

text \<open>
  Dropping a relation (\<open>drop_relation\<close> of \<open>buffer_pool.rs\<close>): every frame that holds a page of the
  file is reset and leaves the page table, all other pages keep their frames, contents and pins.
\<close>

context buffer_pool
begin

lemma drop_frame_step:
  assumes inv: "bp_inv page_size dinv dview linv s" and f: "f < length (frames s)"
    and p: "fd_page (descriptors s ! f) = Some p"
  defines "s' \<equiv> upd_desc f (\<lambda>desc. desc\<lparr>fd_page := None, is_dirty := False, pin_count := 0\<rparr>)
                (s\<lparr>page_table := (page_table s)(p := None), replacer := set_pin f False (replacer s)\<rparr>)"
  shows "bp_inv page_size dinv dview linv s'" and "page_table s' = (page_table s)(p := None)"
    and "fd_page (descriptors s' ! g) = (if g = f then None else fd_page (descriptors s ! g))"
    and "frames s' = frames s" and "disk s' = disk s" and "pins s' = (pins s)(p := 0)" and "held s' = (held s)(p := False)"
proof -
  note D = bp_invD [OF inv]
  have pt: "page_table s p = Some f" using D(6) f p by simp
  have other: "page_table s q = Some f \<Longrightarrow> q = p" for q using page_table_inj [OF inv _ pt] by blast
  have desc: "descriptors s' ! g = (if g = f then (descriptors s ! f)\<lparr>fd_page := None, is_dirty := False, pin_count := 0\<rparr>
      else descriptors s ! g)" for g
    using f D(1) by (simp add: s'_def upd_desc_def nth_list_update)
  note sp = set_pin_parts [OF D(2) f, of False]
  have keep: "length (descriptors s') = length (descriptors s)" "log_mgr s' = log_mgr s"
    "replacer s' = set_pin f False (replacer s)"
    by (simp_all add: s'_def)
  show pt': "page_table s' = (page_table s)(p := None)" and fr: "frames s' = frames s" and dk: "disk s' = disk s"
    by (simp_all add: s'_def)
  show "fd_page (descriptors s' ! g) = (if g = f then None else fd_page (descriptors s ! g))" by (simp add: desc)
  show "pins s' = (pins s)(p := 0)"
  proof
    fix q show "pins s' q = ((pins s)(p := 0)) q"
      using other [of q] by (cases "page_table s q") (auto simp: pins_def pt' desc)
  qed
  show hd: "held s' = (held s)(p := False)"
  proof
    fix q show "held s' q = ((held s)(p := False)) q"
      using other [of q] by (cases "page_table s q") (auto simp: held_def pt' keep sp)
  qed
  have sy: "synced dview s' q = synced dview s q" if "q \<noteq> p" for q
    using that other [of q] by (cases "page_table s q = Some f") (auto simp: synced_def pt' desc fr dk)
  show "bp_inv page_size dinv dview linv s'"
    unfolding bp_inv_def fr dk keep
  proof (intro conjI allI impI ballI)
    fix q g show "(page_table s' q = Some g) = (g < length (frames s) \<and> fd_page (descriptors s' ! g) = Some q)"
    proof (cases "q = p")
      case True
      have "g < length (frames s) \<and> fd_page (descriptors s ! g) = Some p \<longrightarrow> g = f" using D(6) [of p g] pt by auto
      then have "\<not> (g < length (frames s) \<and> fd_page (descriptors s' ! g) = Some p)"
        by (cases "g = f") (simp_all add: desc)
      moreover have "page_table s' p \<noteq> Some g" by (simp add: pt')
      ultimately show ?thesis unfolding True by blast
    next
      case False
      then have "fd_page (descriptors s ! f) \<noteq> Some q" using p by simp
      then show ?thesis using D(6) [of q g] False by (simp add: pt' desc)
    qed
  next
    fix g assume "g < length (frames s)" "fd_page (descriptors s' ! g) = None"
    then show "\<not> lru_pinned (set_pin f False (replacer s)) g" "pin_count (descriptors s' ! g) = 0"
      "\<not> is_dirty (descriptors s' ! g)"
      using D(7) [of g] by (auto simp: desc sp split: if_splits)
  next
    fix g assume "g < length (frames s)" "pin_count (descriptors s' ! g) \<noteq> 0"
    then show "lru_pinned (set_pin f False (replacer s)) g"
      using D(8) [of g] by (auto simp: desc sp split: if_splits)
  next
    fix q assume "\<not> held s' q"
    then show "synced dview s' q" using D(9) [of q] sy by (cases "q = p") (simp_all add: hd synced_def pt')
  next
    fix pg assume "pg \<in> set (frames s)"
    then show "length pg = page_size" using D(5) by (auto simp: in_set_conv_nth)
  qed (use D(1-4) sp(1) in blast)+
qed

lemma drop_frames_spec:
  assumes "bp_inv page_size dinv dview linv s" and "\<forall>f \<in> set fs. f < length (frames s)"
  shows "bp_inv page_size dinv dview linv (drop_frames fid fs s) \<and> disk (drop_frames fid fs s) = disk s \<and>
    frames (drop_frames fid fs s) = frames s \<and>
    page_table (drop_frames fid fs s) = (\<lambda>q. if file_id q = fid \<and> (\<exists>f \<in> set fs. page_table s q = Some f)
      then None else page_table s q) \<and>
    (\<forall>q. pins (drop_frames fid fs s) q = (if page_table (drop_frames fid fs s) q = None then 0 else pins s q))"
  using assms
proof (induction fs arbitrary: s)
  case Nil
  then show ?case by (auto simp: pins_def)
next
  case (Cons f fs)
  have f: "f < length (frames s)" using Cons.prems(2) by simp
  show ?case
  proof (cases "\<exists>p. fd_page (descriptors s ! f) = Some p \<and> file_id p = fid")
    case False
    then have e: "drop_frames fid (f # fs) s = drop_frames fid fs s" by (auto split: option.split)
    have "file_id q \<noteq> fid" if "page_table s q = Some f" for q
      using that False bp_invD(6) [OF Cons.prems(1)] by blast
    then have eq: "file_id q = fid \<and> (\<exists>h \<in> set (f # fs). page_table s q = Some h) \<longleftrightarrow>
        file_id q = fid \<and> (\<exists>h \<in> set fs. page_table s q = Some h)" for q by auto
    have "\<forall>f \<in> set fs. f < length (frames s)" using Cons.prems(2) by simp
    from Cons.IH [OF Cons.prems(1) this] show ?thesis unfolding e eq .
  next
    case True
    then obtain p where p: "fd_page (descriptors s ! f) = Some p" "file_id p = fid" by blast
    have pt: "page_table s p = Some f" using bp_invD(6) [OF Cons.prems(1)] f p by simp
    have other: "page_table s q = Some f \<Longrightarrow> q = p" for q using page_table_inj [OF Cons.prems(1) _ pt] by blast
    define s2 where "s2 = upd_desc f (\<lambda>desc. desc\<lparr>fd_page := None, is_dirty := False, pin_count := 0\<rparr>)
                (s\<lparr>page_table := (page_table s)(p := None), replacer := set_pin f False (replacer s)\<rparr>)"
    note st = drop_frame_step [OF Cons.prems(1) f p(1), folded s2_def]
    have e: "drop_frames fid (f # fs) s = drop_frames fid fs s2" using p by (simp add: s2_def)
    have "\<forall>f \<in> set fs. f < length (frames s2)" using Cons.prems(2) st(4) by simp
    note IH = Cons.IH [OF st(1) this]
    have "(if file_id q = fid \<and> (\<exists>h \<in> set fs. page_table s2 q = Some h) then None else page_table s2 q) =
      (if file_id q = fid \<and> (\<exists>h \<in> set (f # fs). page_table s q = Some h) then None else page_table s q)" for q
    proof (cases "q = p")
      case True
      then show ?thesis using p pt by (simp add: st(2))
    next
      case False
      then have "page_table s2 q = page_table s q" "page_table s q \<noteq> Some f" using other by (auto simp: st(2))
      then show ?thesis by auto
    qed
    then have pt': "page_table (drop_frames fid fs s2) q = (if file_id q = fid \<and> (\<exists>h \<in> set (f # fs).
        page_table s q = Some h) then None else page_table s q)" for q
      using IH by presburger
    have "pins (drop_frames fid fs s2) q = (if page_table (drop_frames fid fs s2) q = None then 0 else pins s q)" for q
    proof (cases "q = p")
      case True
      have "page_table (drop_frames fid fs s2) p = None" unfolding pt' using p pt by simp
      then show ?thesis using IH True by simp
    next
      case False
      then have "pins s2 q = pins s q" by (simp add: st(6))
      then show ?thesis using IH by metis
    qed
    moreover have "disk (drop_frames fid fs s2) = disk s" "frames (drop_frames fid fs s2) = frames s"
      using IH st(4,5) by metis+
    ultimately show ?thesis unfolding e using IH pt' by blast
  qed
qed

lemma drop_relation_spec:
  assumes inv: "bp_inv page_size dinv dview linv s"
  shows "bp_inv page_size dinv dview linv (drop_relation fid s)"
    and "bview dview (drop_relation fid s) q = (if file_id q = fid then dview (disk s) q else bview dview s q)"
    and "pins (drop_relation fid s) q = (if file_id q = fid then 0 else pins s q)"
    and "disk (drop_relation fid s) = disk s"
proof -
  have b: "\<forall>f \<in> set [0..<length (descriptors s)]. f < length (frames s)" using bp_invD(1) [OF inv] by simp
  note a = drop_frames_spec [OF inv b, where fid = fid, folded drop_relation_def]
  have "page_table s q = Some f \<Longrightarrow> f \<in> set [0..<length (descriptors s)]" for f
    using bp_invD(1,6) [OF inv] by simp
  then have pt: "page_table (drop_relation fid s) q = (if file_id q = fid then None else page_table s q)"
    using a by (cases "page_table s q") auto
  show "bp_inv page_size dinv dview linv (drop_relation fid s)" "disk (drop_relation fid s) = disk s" using a by blast+
  have df: "disk (drop_relation fid s) = disk s" "frames (drop_relation fid s) = frames s" using a by blast+
  show "bview dview (drop_relation fid s) q = (if file_id q = fid then dview (disk s) q else bview dview s q)"
    by (simp add: bview_def pt df split: option.split)
  show "pins (drop_relation fid s) q = (if file_id q = fid then 0 else pins s q)"
    using a pt by (auto simp: pins_def [of s])
qed

lemma new_pool_inv:
  assumes "dinv d" and "\<forall>l. lg = Some l \<longrightarrow> linv l" and "16 \<le> page_size"
  shows "bp_inv page_size dinv dview linv (new_with_log_manager page_size n d lg)"
    and "bp_tracked (new_with_log_manager page_size n d lg)"
    and "bview dview (new_with_log_manager page_size n d lg) = dview d"
    and "pins (new_with_log_manager page_size n d lg) p = 0" and "\<not> held (new_with_log_manager page_size n d lg) p"
    and "synced dview (new_with_log_manager page_size n d lg) p"
  using assms
  by (auto simp: bp_inv_def new_with_log_manager_def new_descriptor_def new_lru_def lru_inv_def lru_pinned_def
      held_iff synced_def bp_tracked_def bview_def pins_def fun_eq_iff new_page_buf_def)

end

end
