(* ===== verification/Wal.thy ===== *)
theory Wal
  imports Log_Manager
begin

text \<open>
  The write-ahead log of \<open>crates/wackdb_wal\<close>: \<open>DiskLogManager\<close>. A record on disk is its LSN (8
  bytes), the length of its payload (4 bytes) and the payload. The file is a byte list, any system
  call may fail (\<open>wal_faults\<close>) and a failing write may leave a part of its data. Mutexes are
  never poisoned in this sequential model. The theory interprets \<open>log_manager\<close>.
\<close>

record wal =
  wal_file :: bytes
  wal_faults :: faults
  flushed_lsn :: u64
  next_lsn :: u64
  log_buffer :: "log_record list"

definition new_wal :: "bytes \<Rightarrow> faults \<Rightarrow> (storage_error, wal) res" where
  "new_wal file flt = (case next_call flt of
       (None, flt') \<Rightarrow> Ok \<lparr>wal_file = file, wal_faults = flt', flushed_lsn = 0, next_lsn = 1, log_buffer = []\<rparr>
     | (Some _, flt') \<Rightarrow> Err IoError)"

text \<open>A system call that changes nothing but may fail; every I/O error is reported as
  \<open>PageNotFound\<close>.\<close>

definition wal_call :: "wal \<Rightarrow> (buffer_error, unit) res \<times> wal" where
  "wal_call w = (case next_call (wal_faults w) of
       (None, fs) \<Rightarrow> (Ok (), w\<lparr>wal_faults := fs\<rparr>)
     | (Some _, fs) \<Rightarrow> (Err PageNotFound, w\<lparr>wal_faults := fs\<rparr>))"

definition wal_append :: "bytes \<Rightarrow> wal \<Rightarrow> (buffer_error, unit) res \<times> wal" where
  "wal_append data w = (let file = wal_file w in case next_call (wal_faults w) of
       (None, fs) \<Rightarrow> (Ok (), w\<lparr>wal_faults := fs, wal_file := file_write (length file) data file\<rparr>)
     | (Some n, fs) \<Rightarrow> (Err PageNotFound,
         w\<lparr>wal_faults := fs, wal_file := file_write (length file) (take n data) file\<rparr>))"

subsection \<open>Reading the log\<close>

definition read_exact :: "nat \<Rightarrow> faults \<Rightarrow> bytes \<Rightarrow> bytes option \<times> faults" where
  "read_exact n flt bs = (case next_call flt of
       (None, flt') \<Rightarrow> (if n \<le> length bs then Some (take n bs) else None, flt')
     | (Some _, flt') \<Rightarrow> (None, flt'))"

lemma read_exact_Some: "read_exact n flt bs = (Some x, flt') \<Longrightarrow> n \<le> length bs \<and> x = take n bs"
  by (auto simp: read_exact_def split: prod.splits option.splits if_splits)

function read_records :: "faults \<Rightarrow> bytes \<Rightarrow> bytes list \<times> faults" where
  "read_records flt bs = (case read_exact 8 flt bs of
       (None, flt) \<Rightarrow> ([], flt)
     | (Some lsn_buf, flt) \<Rightarrow> (case read_exact 4 flt (drop 8 bs) of
         (None, flt) \<Rightarrow> ([], flt)
       | (Some len_buf, flt) \<Rightarrow> (let len = of_le len_buf in
           case read_exact len flt (drop 12 bs) of
             (None, flt) \<Rightarrow> ([], flt)
           | (Some payload, flt) \<Rightarrow>
               (let (rest, flt) = read_records flt (drop (12 + len) bs) in (payload # rest, flt)))))"
  by pat_completeness auto
termination
  by (relation "measure (\<lambda>(flt, bs). length bs)") (auto dest!: read_exact_Some [OF sym])

declare read_records.simps [simp del]

definition read_all_logs :: "wal \<Rightarrow> (buffer_error, bytes list) res \<times> wal" where
  "read_all_logs w = and_then (wal_call w) (\<lambda>_ w.
     let (records, flt) = read_records (wal_faults w) (wal_file w)
     in (Ok records, w\<lparr>wal_faults := flt\<rparr>))"

subsection \<open>Writing the log\<close>

text \<open>The loop over the drained buffer, with its three accumulators.\<close>

fun drain_up_to :: "u64 \<Rightarrow> log_record list \<Rightarrow> u64 \<Rightarrow> bytes \<Rightarrow> log_record list \<Rightarrow>
    u64 \<times> bytes \<times> log_record list" where
  "drain_up_to lsn [] new_flushed bytes_to_write retained = (new_flushed, bytes_to_write, retained)"
| "drain_up_to lsn ((rec_lsn, payload) # rest) new_flushed bytes_to_write retained =
     (if rec_lsn \<le> lsn
      then drain_up_to lsn rest (if new_flushed < rec_lsn then rec_lsn else new_flushed)
             (bytes_to_write @ to_le 8 (unat rec_lsn) @ to_le 4 (length payload) @ payload) retained
      else drain_up_to lsn rest new_flushed bytes_to_write (retained @ [(rec_lsn, payload)]))"

definition flush_up_to :: "u64 \<Rightarrow> wal \<Rightarrow> (buffer_error, unit) res \<times> wal" where
  "flush_up_to lsn w =
     (if \<not> flushed_lsn w < lsn then (Ok (), w)
      else let (new_flushed, bytes_to_write, retained) =
                 drain_up_to lsn (log_buffer w) (flushed_lsn w) [] [];
               w = w\<lparr>log_buffer := retained\<rparr>
        in if bytes_to_write = [] then (Ok (), w)
           else and_then (wal_call w) (\<lambda>_ w.
                and_then (wal_append bytes_to_write w) (\<lambda>_ w.
                and_then (wal_call w) (\<lambda>_ w. (Ok (), w\<lparr>flushed_lsn := new_flushed\<rparr>)))))"

definition append_record :: "bytes \<Rightarrow> wal \<Rightarrow> (buffer_error, u64) res \<times> wal" where
  "append_record payload w = (Ok (next_lsn w),
     w\<lparr>next_lsn := next_lsn w + 1, log_buffer := log_buffer w @ [(next_lsn w, payload)]\<rparr>)"

definition checkpoint :: "wal \<Rightarrow> (buffer_error, unit) res \<times> wal" where
  "checkpoint w = and_then (wal_call w) (\<lambda>_ w. wal_call (w\<lparr>wal_file := []\<rparr>))"

definition log_size :: "wal \<Rightarrow> u64 \<times> wal" where
  "log_size w = (let (disk_size, w) = (case wal_call w of
         (Ok _, w) \<Rightarrow> (word_of_nat (length (wal_file w)), w) | (_, w) \<Rightarrow> (0, w));
       buffer_size = sum_list (map (\<lambda>(_, p). word_of_nat (length p) + 12) (log_buffer w))
     in (disk_size + buffer_size, w))"

definition wal_ops :: "wal log_ops" where
  "wal_ops = \<lparr>lm_flush_up_to = flush_up_to, lm_append_record = append_record,
     lm_checkpoint = checkpoint, lm_log_size = log_size\<rparr>"

subsection \<open>The format\<close>

definition encode_record :: "log_record \<Rightarrow> bytes" where
  "encode_record r = to_le 8 (unat (fst r)) @ to_le 4 (length (snd r)) @ snd r"

definition encode_log :: "log_record list \<Rightarrow> bytes" where
  "encode_log rs = concat (map encode_record rs)"

text \<open>\<open>decode_log\<close> keeps the LSNs that \<open>read_all_logs\<close> skips.\<close>

function decode_log :: "bytes \<Rightarrow> log_record list" where
  "decode_log bs =
     (if length bs < 12 then []
      else let len = of_le (peek 8 4 bs) in
        if length bs < 12 + len then []
        else (word_of_nat (of_le (take 8 bs)), peek 12 len bs) # decode_log (drop (12 + len) bs))"
  by pat_completeness auto
termination
  by (relation "measure length") auto

declare decode_log.simps [simp del]

definition small_records :: "log_record list \<Rightarrow> bool" where
  "small_records rs \<longleftrightarrow> (\<forall>(n, p) \<in> set rs. length p < 2 ^ 32)"

lemma small_records_append [simp]: "small_records (xs @ ys) \<longleftrightarrow> small_records xs \<and> small_records ys"
  by (auto simp: small_records_def)

lemma small_records_Cons [simp]: "small_records (r # rs) \<longleftrightarrow> length (snd r) < 4294967296 \<and> small_records rs"
  by (auto simp: small_records_def case_prod_beta)

lemma small_records_Nil [simp]: "small_records []"
  by (simp add: small_records_def)

lemma small_records_filter [simp]: "small_records rs \<Longrightarrow> small_records (filter P rs)"
  by (auto simp: small_records_def)

lemma encode_log_simps [simp]:
  "encode_log [] = []" "encode_log (r # rs) = encode_record r @ encode_log rs"
  "encode_log (rs @ ss) = encode_log rs @ encode_log ss"
  by (simp_all add: encode_log_def)

lemma length_encode_record [simp]: "length (encode_record r) = 12 + length (snd r)"
  by (simp add: encode_record_def)

lemma encode_log_eq_Nil [simp]: "encode_log rs = [] \<longleftrightarrow> rs = []"
proof (cases rs)
  case (Cons r rs')
  have "encode_record r \<noteq> []" using length_encode_record [of r] by (metis list.size(3) add_is_0 zero_neq_numeral)
  then show ?thesis using Cons by simp
qed simp

lemma encode_record_parts:
  assumes "length (snd r) < 4294967296"
  shows "of_le (peek 8 4 (encode_record r @ bs)) = length (snd r)"
    and "word_of_nat (of_le (take 8 (encode_record r))) = fst r"
    and "peek 12 (length (snd r)) (encode_record r @ bs) = snd r"
proof -
  show "of_le (peek 8 4 (encode_record r @ bs)) = length (snd r)"
    using assms by (simp add: encode_record_def peek_def of_le_to_le)
  have "unat (fst r) < 256 ^ 8" using unsigned_less [of "fst r"] by simp
  then show "word_of_nat (of_le (take 8 (encode_record r))) = fst r"
    by (simp add: encode_record_def of_le_to_le)
  show "peek 12 (length (snd r)) (encode_record r @ bs) = snd r"
    by (simp add: encode_record_def peek_def)
qed

lemma decode_log_Cons:
  "length (snd r) < 4294967296 \<Longrightarrow> decode_log (encode_record r @ bs) = r # decode_log bs"
  by (subst decode_log.simps) (simp add: encode_record_parts Let_def)

lemma decode_log_append: "small_records rs \<Longrightarrow> decode_log (encode_log rs @ bs) = rs @ decode_log bs"
  by (induction rs) (simp_all add: decode_log_Cons)

lemma decode_log_Nil [simp]: "decode_log [] = []"
  by (simp add: decode_log.simps)

lemma decode_encode: "small_records rs \<Longrightarrow> decode_log (encode_log rs) = rs"
  using decode_log_append [of rs "[]"] by simp

lemma decode_log_torn:
  assumes "k < 12 + length (snd r)" and "length (snd r) < 4294967296"
  shows "decode_log (take k (encode_record r)) = []"
proof (cases "k < 12")
  case False
  then have "peek 8 4 (take k (encode_record r)) = peek 8 4 (encode_record r @ [])"
    by (simp add: peek_def drop_take)
  then have "of_le (peek 8 4 (take k (encode_record r))) = length (snd r)"
    using encode_record_parts(1) [OF assms(2), of "[]"] by simp
  with assms(1) False show ?thesis by (simp add: decode_log.simps Let_def)
qed (simp add: decode_log.simps)

lemma decode_log_prefix:
  assumes "small_records rs"
  shows "\<exists>j \<le> length rs. decode_log (take k (encode_log rs)) = take j rs \<and>
    length (encode_log (take j rs)) \<le> max k 0 \<and>
    (j < length rs \<longrightarrow> k < length (encode_log (take (Suc j) rs)))"
  using assms
proof (induction rs arbitrary: k)
  case (Cons r rs)
  then have r: "length (snd r) < 4294967296" by simp
  show ?case
  proof (cases "k < 12 + length (snd r)")
    case True
    then show ?thesis
      using decode_log_torn [OF True r] by (intro exI [of _ 0]) simp
  next
    case False
    obtain j where j: "j \<le> length rs" "decode_log (take (k - (12 + length (snd r))) (encode_log rs)) = take j rs"
      "length (encode_log (take j rs)) \<le> k - (12 + length (snd r))"
      "j < length rs \<longrightarrow> k - (12 + length (snd r)) < length (encode_log (take (Suc j) rs))"
      using Cons.IH [of "k - (12 + length (snd r))"] Cons.prems by auto
    have "take k (encode_log (r # rs)) = encode_record r @ take (k - (12 + length (snd r))) (encode_log rs)"
      using False by simp
    then show ?thesis
      using j False decode_log_Cons [OF r] by (intro exI [of _ "Suc j"]) auto
  qed
qed simp

lemma read_records_decode: "read_records [] bs = (map snd (decode_log bs), [])"
proof (induction bs rule: decode_log.induct)
  case (1 bs)
  show ?case
  proof (cases "length bs < 12")
    case True
    then have "\<not> 4 \<le> length bs - 8" by linarith
    with True show ?thesis by (subst read_records.simps) (simp add: read_exact_def decode_log.simps)
  next
    case False
    define len where "len = of_le (peek 8 4 bs)"
    have p: "take 4 (drop 8 bs) = peek 8 4 bs" "take len (drop 12 bs) = peek 12 len bs"
      by (simp_all add: peek_def)
    show ?thesis
    proof (cases "length bs < 12 + len")
      case True
      with False show ?thesis
        by (subst read_records.simps) (simp add: read_exact_def decode_log.simps [of bs] p Let_def flip: len_def)
    next
      case b: False
      then have "decode_log bs = (word_of_nat (of_le (take 8 bs)), peek 12 len bs) # decode_log (drop (12 + len) bs)"
        using False by (simp add: decode_log.simps [of bs] Let_def flip: len_def)
      moreover have "read_records [] (drop (12 + len) bs) = (map snd (decode_log (drop (12 + len) bs)), [])"
        using "1.IH" [OF False len_def] b by simp
      moreover have le: "4 \<le> length bs - 8" "len \<le> length bs - 12" using False b by linarith+
      ultimately show ?thesis
        using False b by (subst read_records.simps) (simp add: read_exact_def p Let_def flip: len_def)
    qed
  qed
qed

subsection \<open>The invariant\<close>

definition wal_inv :: "wal \<Rightarrow> bool" where
  "wal_inv w \<longleftrightarrow> small_records (log_buffer w) \<and>
     (\<exists>rs. small_records rs \<and> wal_file w = encode_log rs) \<and>
     sorted_wrt (<) (map fst (log_buffer w)) \<and>
     (\<forall>r \<in> set (log_buffer w). flushed_lsn w < fst r \<and> fst r < next_lsn w)"

definition wal_records :: "wal \<Rightarrow> log_record list" where
  "wal_records w = decode_log (wal_file w)"

definition wal_healthy :: "wal \<Rightarrow> bool" where
  "wal_healthy w \<longleftrightarrow> (\<forall>f \<in> set (wal_faults w). f = None)"

lemma drain_up_to_eq:
  "drain_up_to lsn rs m bytes kept =
    (fold (\<lambda>(n, _) m. if m < n then n else m) (filter (\<lambda>(n, _). n \<le> lsn) rs) m,
     bytes @ encode_log (filter (\<lambda>(n, _). n \<le> lsn) rs), kept @ filter (\<lambda>(n, _). lsn < n) rs)"
  by (induction rs arbitrary: m bytes kept) (auto simp: encode_record_def)

lemma fold_max_le:
  "m \<le> (lsn :: u64) \<Longrightarrow> \<forall>(n, _) \<in> set rs. n \<le> lsn \<Longrightarrow> fold (\<lambda>(n, _) m. if m < n then n else m) rs m \<le> lsn"
  by (induction rs arbitrary: m) auto

lemma wal_call_cases:
  assumes "wal_call w = (r, w')"
  shows "\<exists>fs. w' = w\<lparr>wal_faults := fs\<rparr>" and "r \<noteq> Panic" and "wal_healthy w \<Longrightarrow> r = Ok () \<and> wal_healthy w'"
  using assms
  by (cases "wal_faults w"; auto simp: wal_call_def wal_healthy_def split: prod.splits option.splits)+

lemma wal_append_cases:
  assumes "wal_append data w = (r, w')"
  shows "r \<noteq> Panic" and "wal_healthy w \<Longrightarrow> r = Ok () \<and> wal_healthy w'"
    and "r = Ok () \<Longrightarrow> \<exists>fs. w' = w\<lparr>wal_faults := fs, wal_file := wal_file w @ data\<rparr>"
    and "\<exists>fs k. w' = w\<lparr>wal_faults := fs, wal_file := wal_file w @ take k data\<rparr>"
  using assms
  by (cases "wal_faults w"; auto simp: wal_append_def wal_healthy_def Let_def split: prod.splits option.splits;
      metis append_take_drop_id order_refl take_all)+

lemma flush_up_to_cases:
  assumes inv: "wal_inv w" and f: "flush_up_to lsn w = (r, w')"
  shows "r \<noteq> Panic" and "wal_healthy w \<Longrightarrow> r = Ok () \<and> wal_healthy w'"
    and "r = Ok () \<Longrightarrow> wal_inv w' \<and>
      wal_records w' = wal_records w @ filter (\<lambda>(n, _). n \<le> lsn) (log_buffer w) \<and>
      log_buffer w' = filter (\<lambda>(n, _). lsn < n) (log_buffer w)"
proof -
  let ?out = "filter (\<lambda>(n, _). n \<le> lsn) (log_buffer w)"
  let ?ret = "filter (\<lambda>(n, _). lsn < n) (log_buffer w)"
  let ?m = "fold (\<lambda>(n, _) m. if m < n then n else m) ?out (flushed_lsn w)"
  obtain rs where rs: "small_records rs" "wal_file w = encode_log rs" using inv unfolding wal_inv_def by blast
  have small: "small_records ?out" "small_records ?ret" using inv by (simp_all add: wal_inv_def)
  have "r \<noteq> Panic \<and> (wal_healthy w \<longrightarrow> r = Ok () \<and> wal_healthy w') \<and> (r = Ok () \<longrightarrow> wal_inv w' \<and>
      wal_records w' = wal_records w @ ?out \<and> log_buffer w' = ?ret)"
  proof (cases "flushed_lsn w < lsn")
    case False
    then have "?out = []" "?ret = log_buffer w"
      using inv by (auto simp: wal_inv_def filter_empty_conv filter_id_conv not_less intro!: filter_True)
    with False inv show ?thesis using f by (auto simp: flush_up_to_def)
  next
    case True
    let ?w = "w\<lparr>log_buffer := ?ret\<rparr>"
    have inv': "wal_inv (w\<lparr>log_buffer := ?ret, wal_file := wal_file w @ encode_log ?out, wal_faults := fs, flushed_lsn := m\<rparr>)"
      if "m \<le> lsn" for fs m
    proof -
      have "sorted_wrt (<) (map fst ?ret)"
        using inv by (simp add: wal_inv_def sorted_wrt_map sorted_wrt_filter)
      moreover have "\<forall>r \<in> set ?ret. m < fst r \<and> fst r < next_lsn w"
        using inv that by (auto simp: wal_inv_def)
      moreover have "\<exists>rs'. small_records rs' \<and> wal_file w @ encode_log ?out = encode_log rs'"
        using rs small by (intro exI [of _ "rs @ ?out"]) simp
      ultimately show ?thesis using small by (simp add: wal_inv_def)
    qed
    have rec: "decode_log (wal_file w @ encode_log ?out) = wal_records w @ ?out"
      using rs small by (simp add: wal_records_def decode_log_append decode_encode)
    have m: "?m \<le> lsn" using True by (intro fold_max_le) auto
    show ?thesis
    proof (cases "?out = []")
      case empty: True
      then have "?ret = log_buffer w" by (auto simp: filter_empty_conv intro!: filter_True)
      with empty True inv show ?thesis
        using f by (auto simp: flush_up_to_def drain_up_to_eq wal_records_def wal_healthy_def)
    next
      case nonempty: False
      obtain r1 w1 where 1: "wal_call ?w = (r1, w1)" by fastforce
      obtain r2 w2 where 2: "wal_append (encode_log ?out) w1 = (r2, w2)" by fastforce
      obtain r3 w3 where 3: "wal_call w2 = (r3, w3)" by fastforce
      have run: "(r, w') = (case r1 of Ok _ \<Rightarrow> (case r2 of Ok _ \<Rightarrow>
            (case r3 of Ok _ \<Rightarrow> (Ok (), w3\<lparr>flushed_lsn := ?m\<rparr>) | Err e \<Rightarrow> (Err e, w3) | Panic \<Rightarrow> (Panic, w3))
          | Err e \<Rightarrow> (Err e, w2) | Panic \<Rightarrow> (Panic, w2)) | Err e \<Rightarrow> (Err e, w1) | Panic \<Rightarrow> (Panic, w1))"
        unfolding f [symmetric] using True nonempty 1 2 3
        by (cases r1; cases r2; cases r3) (simp_all add: flush_up_to_def drain_up_to_eq)
      note c1 = wal_call_cases [OF 1] and c2 = wal_append_cases [OF 2] and c3 = wal_call_cases [OF 3]
      have h: "wal_healthy w \<Longrightarrow> r1 = Ok () \<and> r2 = Ok () \<and> r3 = Ok () \<and> wal_healthy w3"
        using c1(3) c2(2) c3(3) by (simp add: wal_healthy_def)
      have final: "wal_inv w' \<and> wal_records w' = wal_records w @ ?out \<and> log_buffer w' = ?ret" if "r = Ok ()"
      proof -
        have oks: "r1 = Ok ()" "r2 = Ok ()" "r3 = Ok ()" and w': "w' = w3\<lparr>flushed_lsn := ?m\<rparr>"
          using run that by (auto split: res.splits)
        obtain f1 f2 f3 where "w1 = ?w\<lparr>wal_faults := f1\<rparr>"
            "w2 = w1\<lparr>wal_faults := f2, wal_file := wal_file w1 @ encode_log ?out\<rparr>" "w3 = w2\<lparr>wal_faults := f3\<rparr>"
          using c1(1) c2(3) [OF oks(2)] c3(1) by blast
        with w' inv' [OF m, of f3] rec show ?thesis by (simp add: wal_records_def)
      qed
      have ok: "r = Ok () \<and> w' = w3\<lparr>flushed_lsn := ?m\<rparr>" if "r1 = Ok ()" "r2 = Ok ()" "r3 = Ok ()"
        using run that by simp
      have "r \<noteq> Panic" using run c1(2) c2(1) c3(2) by (auto split: res.splits)
      with final h ok show ?thesis by (auto simp: wal_healthy_def)
    qed
  qed
  then show "r \<noteq> Panic" "wal_healthy w \<Longrightarrow> r = Ok () \<and> wal_healthy w'"
    "r = Ok () \<Longrightarrow> wal_inv w' \<and> wal_records w' = wal_records w @ ?out \<and> log_buffer w' = ?ret"
    by simp_all
qed

lemma word_less_plus_one: "x \<noteq> - 1 \<Longrightarrow> x < x + 1" for x :: u64
proof -
  assume "x \<noteq> - 1"
  then have "unat x \<noteq> unat (- 1 :: u64)" by (auto dest: unsigned_word_eqI)
  moreover have "unat (- 1 :: u64) = 2 ^ 64 - 1" by (simp add: unsigned_minus_1_eq_mask mask_eq_exp_minus_1)
  moreover have "unat x < 2 ^ 64" using unsigned_less [of x] by simp
  ultimately have "unat (x + 1) = unat x + 1" by (simp add: unat_word_ariths)
  then show ?thesis by (simp add: word_less_nat_alt)
qed

lemma append_record_cases:
  assumes inv: "wal_inv w" and room: "next_lsn w \<noteq> - 1" "flushed_lsn w < next_lsn w" and len: "length p < 2 ^ 32"
  shows "append_record p w = (Ok (next_lsn w), snd (append_record p w))"
    and "wal_inv (snd (append_record p w))"
proof -
  have "next_lsn w < next_lsn w + 1" by (rule word_less_plus_one [OF room(1)])
  then have "\<forall>r \<in> set (log_buffer w). fst r < next_lsn w + 1"
    using inv by (auto simp: wal_inv_def intro: less_trans)
  then show "wal_inv (snd (append_record p w))"
    using inv room len \<open>next_lsn w < next_lsn w + 1\<close>
    by (auto simp: append_record_def wal_inv_def sorted_wrt_append)
qed (simp add: append_record_def)

lemma checkpoint_cases:
  assumes inv: "wal_inv w" and c: "checkpoint w = (r, w')"
  shows "r \<noteq> Panic" and "wal_healthy w \<Longrightarrow> r = Ok () \<and> wal_healthy w'" and "wal_inv w'"
    and "r = Ok () \<Longrightarrow> wal_records w' = [] \<and> log_buffer w' = log_buffer w"
proof -
  obtain r1 w1 where 1: "wal_call w = (r1, w1)" by fastforce
  obtain r2 w2 where 2: "wal_call (w1\<lparr>wal_file := []\<rparr>) = (r2, w2)" by fastforce
  note c1 = wal_call_cases [OF 1] and c2 = wal_call_cases [OF 2]
  have i: "wal_inv w1" "wal_inv w2"
    using inv c1(1) c2(1) by (fastforce simp: wal_inv_def intro: exI [of _ "[]"])+
  have run: "(r, w') = (case r1 of Ok _ \<Rightarrow> (r2, w2) | Err e \<Rightarrow> (Err e, w1) | Panic \<Rightarrow> (Panic, w1))"
    unfolding c [symmetric] using 1 2 by (cases r1) (simp_all add: checkpoint_def)
  show "r \<noteq> Panic" "wal_inv w'" using run c1(2) c2(2) i by (auto split: res.splits)
  show "wal_healthy w \<Longrightarrow> r = Ok () \<and> wal_healthy w'"
    using run c1(3) c2(3) by (simp add: wal_healthy_def)
  show "r = Ok () \<Longrightarrow> wal_records w' = [] \<and> log_buffer w' = log_buffer w"
    using run c1(1) c2(1) by (auto simp: wal_records_def split: res.splits)
qed

lemma flush_up_to_any:
  assumes "flush_up_to lsn w = (r, w')" and "wal_inv w"
  shows "\<exists>k. wal_file w' = wal_file w @ take k (encode_log (filter (\<lambda>(n, _). n \<le> lsn) (log_buffer w)))"
    and "r = Err e \<Longrightarrow> flushed_lsn w' = flushed_lsn w \<and> flushed_lsn w < lsn \<and>
      log_buffer w' = filter (\<lambda>(n, _). lsn < n) (log_buffer w)"
proof -
  let ?out = "filter (\<lambda>(n, _). n \<le> lsn) (log_buffer w)"
  have "(\<exists>k. wal_file w' = wal_file w @ take k (encode_log ?out)) \<and>
    (r = Err e \<longrightarrow> flushed_lsn w' = flushed_lsn w \<and> flushed_lsn w < lsn \<and>
      log_buffer w' = filter (\<lambda>(n, _). lsn < n) (log_buffer w))"
  proof (cases "flushed_lsn w < lsn \<and> ?out \<noteq> []")
    case False
    then show ?thesis
      using assms(1) by (auto simp: flush_up_to_def drain_up_to_eq intro: exI [of _ 0] split: if_splits)
  next
    case True
    let ?w = "w\<lparr>log_buffer := filter (\<lambda>(n, _). lsn < n) (log_buffer w)\<rparr>"
    obtain r1 w1 where 1: "wal_call ?w = (r1, w1)" by fastforce
    obtain r2 w2 where 2: "wal_append (encode_log ?out) w1 = (r2, w2)" by fastforce
    obtain r3 w3 where 3: "wal_call w2 = (r3, w3)" by fastforce
    obtain f1 where f1: "w1 = ?w\<lparr>wal_faults := f1\<rparr>" using wal_call_cases(1) [OF 1] by blast
    obtain f2 k where f2: "w2 = w1\<lparr>wal_faults := f2, wal_file := wal_file w1 @ take k (encode_log ?out)\<rparr>"
      using wal_append_cases(4) [OF 2] by blast
    obtain f3 where f3: "w3 = w2\<lparr>wal_faults := f3\<rparr>" using wal_call_cases(1) [OF 3] by blast
    let ?m = "fold (\<lambda>(n, _) m. if m < n then n else m) ?out (flushed_lsn w)"
    have run: "(r, w') = (case r1 of Ok _ \<Rightarrow> (case r2 of Ok _ \<Rightarrow>
          (case r3 of Ok _ \<Rightarrow> (Ok (), w3\<lparr>flushed_lsn := ?m\<rparr>) | Err e \<Rightarrow> (Err e, w3) | Panic \<Rightarrow> (Panic, w3))
        | Err e \<Rightarrow> (Err e, w2) | Panic \<Rightarrow> (Panic, w2)) | Err e \<Rightarrow> (Err e, w1) | Panic \<Rightarrow> (Panic, w1))"
      unfolding assms(1) [symmetric] using True 1 2 3
      by (cases r1; cases r2; cases r3) (simp_all add: flush_up_to_def drain_up_to_eq)
    have contents: "wal_file w1 = wal_file w @ take 0 (encode_log ?out)"
      "wal_file w2 = wal_file w @ take k (encode_log ?out)" "wal_file w3 = wal_file w @ take k (encode_log ?out)"
      using f1 f2 f3 by simp_all
    have keep: "flushed_lsn w1 = flushed_lsn w" "flushed_lsn w2 = flushed_lsn w" "flushed_lsn w3 = flushed_lsn w"
      "log_buffer w1 = log_buffer ?w" "log_buffer w2 = log_buffer ?w" "log_buffer w3 = log_buffer ?w"
      using f1 f2 f3 by simp_all
    have "\<exists>k. wal_file w' = wal_file w @ take k (encode_log ?out)"
    proof (cases r1)
      case (Ok _)
      with run have "wal_file w' = wal_file w @ take k (encode_log ?out)"
        using contents by (simp split: res.splits)
      then show ?thesis by blast
    qed (use run contents(1) in auto)
    moreover have "r = Err e \<longrightarrow> w' = w1 \<or> w' = w2 \<or> w' = w3"
      using run by (auto split: res.splits)
    ultimately show ?thesis using keep True by auto
  qed
  then show "\<exists>k. wal_file w' = wal_file w @ take k (encode_log ?out)"
    "r = Err e \<Longrightarrow> flushed_lsn w' = flushed_lsn w \<and> flushed_lsn w < lsn \<and>
      log_buffer w' = filter (\<lambda>(n, _). lsn < n) (log_buffer w)" by blast+
qed

lemma flush_up_to_grows:
  assumes "flush_up_to lsn w = (r, w')" and "wal_inv w"
  shows "set (wal_records w) \<subseteq> set (wal_records w')"
proof -
  obtain k where "wal_file w' = wal_file w @ take k (encode_log (filter (\<lambda>(n, _). n \<le> lsn) (log_buffer w)))"
    using flush_up_to_any(1) [OF assms] by blast
  moreover obtain rs where "small_records rs" "wal_file w = encode_log rs"
    using assms(2) unfolding wal_inv_def by blast
  ultimately show ?thesis by (simp add: wal_records_def decode_log_append decode_encode)
qed

lemma flush_up_to_shrinks:
  assumes "flush_up_to lsn w = (r, w')" and "wal_inv w"
  shows "set (log_buffer w') \<subseteq> set (log_buffer w)"
proof (cases r)
  case (Ok u)
  then show ?thesis using flush_up_to_cases(3) [OF assms(2,1)] by auto
next
  case (Err e)
  then show ?thesis using flush_up_to_any(2) [OF assms] by auto
next
  case Panic
  then show ?thesis using flush_up_to_cases(1) [OF assms(2,1)] by simp
qed

interpretation wal: log_manager wal_ops wal_inv wal_records log_buffer
  "\<lambda>w. next_lsn w \<noteq> - 1 \<and> flushed_lsn w < next_lsn w" wal_healthy
proof
  fix w lsn r w' assume "wal_inv w" "lm_flush_up_to wal_ops lsn w = (r, w')"
  then show "r \<noteq> Panic \<and> (wal_healthy w \<longrightarrow> wal_healthy w' \<and> is_ok r) \<and>
      set (log_buffer w') \<subseteq> set (log_buffer w) \<and> set (wal_records w) \<subseteq> set (wal_records w') \<and>
      (r = Ok () \<longrightarrow> wal_inv w' \<and> wal_records w' = wal_records w @ filter (\<lambda>(n, _). n \<le> lsn) (log_buffer w) \<and>
        log_buffer w' = filter (\<lambda>(n, _). lsn < n) (log_buffer w))"
    using flush_up_to_cases [of w lsn r w'] flush_up_to_shrinks [of lsn w r w'] flush_up_to_grows [of lsn w r w']
    by (simp add: wal_ops_def is_ok_iff)
next
  fix w p assume a: "wal_inv w" "next_lsn w \<noteq> - 1 \<and> flushed_lsn w < next_lsn w" "length (p :: bytes) < 2 ^ 32"
  then have "wal_inv (snd (append_record p w))" using append_record_cases(2) by blast
  with a(1) show "\<exists>n w'. lm_append_record wal_ops p w = (Ok n, w') \<and> wal_inv w' \<and> wal_records w' = wal_records w \<and>
        log_buffer w' = log_buffer w @ [(n, p)] \<and> (\<forall>(m, _) \<in> set (log_buffer w). m < n) \<and>
        (wal_healthy w \<longrightarrow> wal_healthy w')"
    by (auto simp: wal_ops_def append_record_def wal_records_def wal_healthy_def wal_inv_def)
next
  fix w c w' assume "wal_inv w" "lm_checkpoint wal_ops w = (c, w')"
  then show "c \<noteq> Panic \<and> (wal_healthy w \<longrightarrow> wal_healthy w' \<and> is_ok c) \<and> wal_inv w' \<and>
      (c = Ok () \<longrightarrow> wal_records w' = [] \<and> log_buffer w' = log_buffer w)"
    using checkpoint_cases [of w c w'] by (auto simp: wal_ops_def)
qed

text \<open>Room for \<open>n\<close> more records before the LSNs wrap around.\<close>

definition wal_space :: "nat \<Rightarrow> wal \<Rightarrow> bool" where
  "wal_space n w \<longleftrightarrow> unat (next_lsn w) + n < 2 ^ 64 \<and> flushed_lsn w < next_lsn w"

lemma fold_max_less:
  "m < (x :: u64) \<Longrightarrow> \<forall>(n, _) \<in> set rs. n < x \<Longrightarrow> fold (\<lambda>(n, _) m. if m < n then n else m) rs m < x"
  by (induction rs arbitrary: m) auto

lemma wal_space_flush:
  assumes "wal_inv w" and "wal_space n w"
  shows "wal_space n (snd (flush_up_to lsn w))"
proof (cases "flushed_lsn w < lsn")
  case False
  then show ?thesis using assms(2) by (simp add: flush_up_to_def)
next
  case True
  let ?out = "filter (\<lambda>(n, _). n \<le> lsn) (log_buffer w)"
  let ?m = "fold (\<lambda>(n, _) m. if m < n then n else m) ?out (flushed_lsn w)"
  have m: "?m < next_lsn w" using assms by (intro fold_max_less) (auto simp: wal_space_def wal_inv_def)
  have keep: "next_lsn w' = next_lsn w \<and> flushed_lsn w' = flushed_lsn w" if "wal_call w = (r, w')" for w w' r
    using wal_call_cases(1) [OF that] by auto
  have keep2: "next_lsn w' = next_lsn w \<and> flushed_lsn w' = flushed_lsn w" if "wal_append bs w = (r, w')" for w w' r bs
    using that by (auto simp: wal_append_def Let_def split: prod.splits option.splits if_splits)
  obtain r w' where f: "flush_up_to lsn w = (r, w')" by (cases "flush_up_to lsn w")
  have "next_lsn w' = next_lsn w \<and> (flushed_lsn w' = flushed_lsn w \<or> flushed_lsn w' = ?m)"
    using f True unfolding flush_up_to_def drain_up_to_eq
    by (auto simp: and_then_eq Let_def split: if_splits dest!: keep keep2)
  with m assms(2) f show ?thesis by (auto simp: wal_space_def)
qed

subsection \<open>Recovery after a crash\<close>

text \<open>A crash keeps the log file; the next start opens it and reads all records.\<close>

definition recover_log :: "bytes \<Rightarrow> (buffer_error, bytes list) res" where
  "recover_log file = (case new_wal file [] of
     Ok w \<Rightarrow> fst (read_all_logs w) | Err e \<Rightarrow> Err (StorageErr e) | Panic \<Rightarrow> Panic)"

lemma recover_log_eq: "recover_log file = Ok (map snd (decode_log file))"
  by (simp add: recover_log_def new_wal_def read_all_logs_def wal_call_def read_records_decode)

text \<open>
  C11: A crash after a flush recovers the payloads of the records that were durable before and,
  in order, of a prefix of the records up to the requested LSN, even if the write failed halfway;
  if the flush reported success, of all of them.
\<close>

theorem wal_crash_recovery:
  assumes "wal_inv w" and "flush_up_to lsn w = (r, w')"
  shows "\<exists>j. recover_log (wal_file w') =
      Ok (map snd (wal_records w @ take j (filter (\<lambda>(n, _). n \<le> lsn) (log_buffer w)))) \<and>
    (r = Ok () \<longrightarrow> length (filter (\<lambda>(n, _). n \<le> lsn) (log_buffer w)) \<le> j)"
proof -
  let ?out = "filter (\<lambda>(n, _). n \<le> lsn) (log_buffer w)"
  obtain rs where rs: "small_records rs" "wal_file w = encode_log rs" using assms(1) unfolding wal_inv_def by blast
  have small: "small_records ?out" using assms(1) by (simp add: wal_inv_def)
  obtain k where k: "wal_file w' = wal_file w @ take k (encode_log ?out)"
    using flush_up_to_any(1) [OF assms(2,1)] by blast
  obtain j where j: "decode_log (take k (encode_log ?out)) = take j ?out"
    using decode_log_prefix [OF small, of k] by blast
  have dec: "decode_log (wal_file w') = wal_records w @ take j ?out"
    using rs small by (simp add: k j decode_log_append decode_encode wal_records_def)
  show ?thesis
  proof (cases "r = Ok ()")
    case True
    then have "decode_log (wal_file w') = wal_records w @ take (length ?out) ?out"
      using flush_up_to_cases(3) [OF assms] by (simp add: wal_records_def)
    then show ?thesis by (intro exI [of _ "length ?out"]) (simp add: recover_log_eq)
  next
    case False
    with dec show ?thesis by (intro exI [of _ j]) (simp add: recover_log_eq)
  qed
qed

theorem wal_crash_recovery_witness:
  "\<exists>w'. flush_up_to 5 \<lparr>wal_file = [], wal_faults = [], flushed_lsn = 0, next_lsn = 3,
       log_buffer = [(1, [7]), (2, [8, 9])]\<rparr> = (Ok (), w') \<and>
     recover_log (wal_file w') = Ok [[7], [8, 9]]"
proof -
  let ?w = "\<lparr>wal_file = [], wal_faults = [], flushed_lsn = 0, next_lsn = 3,
       log_buffer = [(1, [7]), (2, [8, 9])]\<rparr> :: wal"
  have inv: "wal_inv ?w" by (auto simp: wal_inv_def intro: exI [of _ "[]"])
  obtain r w' where f: "flush_up_to 5 ?w = (r, w')" by fastforce
  have r: "r = Ok ()" using flush_up_to_cases(2) [OF inv f] by (simp add: wal_healthy_def)
  have "recover_log (wal_file w') = Ok [[7], [8, 9]]"
    using wal_crash_recovery [OF inv f] r by (auto simp: wal_records_def)
  with f r show ?thesis by blast
qed

text \<open>
  C36: A flush that fails has already dropped its records from the memory buffer: a later flush up
  to the same LSN reports success without writing anything, whether or not the records reached the
  file.
\<close>

theorem failed_flush_drops_records:
  assumes "wal_inv w" and "flush_up_to lsn w = (Err e, w1)"
  shows "flush_up_to lsn w1 = (Ok (), w1) \<and>
    log_buffer w1 = filter (\<lambda>(n, _). lsn < n) (log_buffer w)"
proof -
  note e = flush_up_to_any(2) [OF assms(2,1) refl]
  then have "filter (\<lambda>(n, _). n \<le> lsn) (log_buffer w1) = []" "filter (\<lambda>(n, _). lsn < n) (log_buffer w1) = log_buffer w1"
    by (auto simp: filter_empty_conv intro!: filter_True)
  with e show ?thesis by (simp add: flush_up_to_def drain_up_to_eq)
qed

theorem failed_flush_drops_records_witness:
  "\<exists>w1. flush_up_to 1 \<lparr>wal_file = [], wal_faults = [None, Some 0], flushed_lsn = 0, next_lsn = 2,
       log_buffer = [(1, [7])]\<rparr> = (Err PageNotFound, w1) \<and>
     flush_up_to 1 w1 = (Ok (), w1) \<and> recover_log (wal_file w1) = Ok []"
proof -
  let ?w = "\<lparr>wal_file = [], wal_faults = [None, Some 0], flushed_lsn = 0, next_lsn = 2,
       log_buffer = [(1, [7])]\<rparr> :: wal"
  have inv: "wal_inv ?w" by (auto simp: wal_inv_def intro: exI [of _ "[]"])
  have f: "flush_up_to 1 ?w = (Err PageNotFound, ?w\<lparr>wal_faults := [], log_buffer := []\<rparr>)"
    by (simp add: flush_up_to_def wal_call_def wal_append_def file_write_def)
  show ?thesis
    using failed_flush_drops_records [OF inv f] f by (simp add: recover_log_eq)
qed

end
