(* ===== verification/Buffer_Pool_Spec.thy ===== *)
theory Buffer_Pool_Spec
  imports Buffer_Pool_Drop Wal
begin

text \<open>
  The buffer pool over the file-system disk manager and the write-ahead log: the interpretation of
  \<open>buffer_pool\<close> on the model's own implementations and the properties of the whole stack.
\<close>

type_synonym pool = "(basic_disk, wal) bpm"

abbreviation pool_inv :: "nat \<Rightarrow> pool \<Rightarrow> bool" where
  "pool_inv ps \<equiv> bp_inv ps basic_inv (basic_view ps) wal_inv"

abbreviation pool_view :: "nat \<Rightarrow> pool \<Rightarrow> page_id \<Rightarrow> page" where
  "pool_view ps \<equiv> bview (basic_view ps)"

abbreviation pool_healthy :: "pool \<Rightarrow> bool" where
  "pool_healthy \<equiv> bp_healthy basic_healthy wal_healthy"

interpretation bp: buffer_pool "basic_disk_ops ps" ps basic_inv "basic_view ps" "basic_total ps" basic_healthy
  wal_ops wal_inv wal_records log_buffer "\<lambda>w. next_lsn w \<noteq> - 1 \<and> flushed_lsn w < next_lsn w" wal_healthy
  for ps
  by (rule buffer_pool.intro) (rule bd.disk_manager_axioms wal.log_manager_axioms)+

text \<open>The pool a witness starts from: one frame of 16 bytes, an empty disk and a log with one pending record.\<close>

definition pool0 :: "faults \<Rightarrow> pool" where
  "pool0 flt = new_with_log_manager 16 1 \<lparr>disk_files = (\<lambda>_. None), disk_faults = flt, file_handles = (\<lambda>_. None)\<rparr>
     (Some \<lparr>wal_file = [], wal_faults = [], flushed_lsn = 0, next_lsn = 2, log_buffer = [(1, [9])]\<rparr>)"

lemma pool0_inv: "pool_inv 16 (pool0 flt)" "bp_tracked (pool0 flt)"
  "pool_view 16 (pool0 flt) p = replicate 16 0" "pool_healthy (pool0 [])" "pins (pool0 flt) p = 0" "\<not> held (pool0 flt) p"
  "synced (basic_view 16) (pool0 flt) p" "length (frames (pool0 flt)) = 1"
proof -
  let ?d = "\<lparr>disk_files = (\<lambda>_. None), disk_faults = flt, file_handles = (\<lambda>_. None)\<rparr>"
  let ?w = "\<lparr>wal_file = [], wal_faults = [], flushed_lsn = 0, next_lsn = 2, log_buffer = [(1, [9])]\<rparr> :: wal"
  have d: "basic_inv ?d" by (simp add: basic_inv_def)
  have w: "\<forall>l. Some ?w = Some l \<longrightarrow> wal_inv l" by (auto simp: wal_inv_def intro: exI [of _ "[]"])
  note n = bp.new_pool_inv [OF d w, of 16 1]
  show "pool_inv 16 (pool0 flt)" "bp_tracked (pool0 flt)" "pins (pool0 flt) p = 0" "\<not> held (pool0 flt) p"
    "synced (basic_view 16) (pool0 flt) p"
    using n by (simp_all add: pool0_def)
  show "pool_view 16 (pool0 flt) p = replicate 16 0"
    using n(3) by (simp add: pool0_def basic_view_def file_bytes_def page_of_beyond)
  show "pool_healthy (pool0 [])" "length (frames (pool0 flt)) = 1"
    by (simp_all add: pool0_def new_with_log_manager_def bp_healthy_def basic_healthy_def wal_healthy_def)
qed

text \<open>
  C15: A successful \<open>fetch_page\<close>, with or without eviction, keeps the invariant, returns a frame
  holding the current content of the page, changes the content of no page, pins exactly that page
  once more, and leaves every page that is held in the frame it was in.
\<close>

theorem fetch_page_spec:
  assumes "pool_inv ps s" and "fetch_page (basic_disk_ops ps) wal_ops p s = (Ok f, s')"
  shows "pool_inv ps s' \<and> fst (read_frame f s') = Ok (pool_view ps s p) \<and> pool_view ps s' = pool_view ps s \<and>
    pins s' = (pins s)(p := pins s p + 1) \<and> held s' = (held s)(p := True) \<and>
    (\<forall>q g. held s q \<and> page_table s q = Some g \<longrightarrow> page_table s' q = Some g)"
proof -
  note f = bp.fetch_page_Ok [OF assms]
  have "f < length (frames s')" using bp_invD(6) [OF f(1)] f(2) by blast
  moreover have "frames s' ! f = pool_view ps s p"
    using fun_cong [OF f(3), of p] f(2) by (simp add: bview_def [of _ s'])
  ultimately show ?thesis
    using f(1,3,4,5) bp.fetch_page_place [OF assms] by (auto simp: read_frame_def)
qed

theorem fetch_page_spec_witness:
  "\<exists>f s'. fetch_page (basic_disk_ops 16) wal_ops \<lparr>file_id = 1, page_num = 0\<rparr> (pool0 []) = (Ok f, s') \<and>
    fst (read_frame f s') = Ok (replicate 16 0) \<and> pins s' \<lparr>file_id = 1, page_num = 0\<rparr> = 1"
proof -
  let ?p = "\<lparr>file_id = 1, page_num = 0\<rparr>"
  have "\<exists>f < length (frames (pool0 [])). \<not> lru_pinned (replacer (pool0 [])) f"
    by (intro exI [of _ 0]) (simp add: pool0_def new_with_log_manager_def new_lru_def lru_pinned_def)
  then obtain f s' where f: "fetch_page (basic_disk_ops 16) wal_ops ?p (pool0 []) = (Ok f, s')"
    using bp.fetch_page_progress [OF pool0_inv(1,4,2)] by blast
  show ?thesis
    using fetch_page_spec [OF pool0_inv(1) f] f by (simp add: pool0_inv(3,5))
qed

lemma all_pinned_held:
  assumes inv: "bp_inv ps di dv li s" and "\<forall>f < length (frames s). lru_pinned (replacer s) f"
  shows "length (frames s) \<le> card {p. held s p}"
proof -
  let ?n = "length (frames s)"
  let ?g = "\<lambda>f. the (fd_page (descriptors s ! f))"
  have fd: "fd_page (descriptors s ! f) = Some (?g f)" if "f < ?n" for f
    using bp_invD(7) [OF inv that] assms(2) that by (cases "fd_page (descriptors s ! f)") auto
  have pt: "page_table s (?g f) = Some f" if "f < ?n" for f
    using bp_invD(6) [OF inv] fd [OF that] that by blast
  have "inj_on ?g {..<?n}" using pt by (intro inj_onI) (metis lessThan_iff option.inject)
  then have "card (?g ` {..<?n}) = ?n" by (simp add: card_image)
  moreover have "?g ` {..<?n} \<subseteq> {p. held s p}" using pt assms(2) by (auto simp: held_iff)
  moreover have "finite {p. held s p}"
  proof -
    have "{p. held s p} \<subseteq> ?g ` {..<?n}"
    proof
      fix p assume "p \<in> {p. held s p}"
      then obtain f where "page_table s p = Some f" by (auto simp: held_iff)
      then have "f < ?n" "fd_page (descriptors s ! f) = Some p" using bp_invD(6) [OF inv] by auto
      then show "p \<in> ?g ` {..<?n}" by (auto intro!: image_eqI [of _ _ f])
    qed
    then show ?thesis by (rule finite_subset) simp
  qed
  ultimately show ?thesis by (metis card_mono)
qed

text \<open>
  C16: When no system call fails, a fetch succeeds whenever the page is already held or fewer pages
  are held than there are frames: eviction always finds a victim, and nothing leaks frames.
\<close>

theorem pool_fetch_progress:
  assumes "pool_inv ps s" and "pool_healthy s" and "bp_tracked s"
    and "held s p \<or> card {q. held s q} < length (frames s)"
  shows "\<exists>f s'. fetch_page (basic_disk_ops ps) wal_ops p s = (Ok f, s') \<and> pool_healthy s' \<and> bp_tracked s' \<and>
    length (frames s') = length (frames s)"
proof -
  have "held s p \<or> (\<exists>f < length (frames s). \<not> lru_pinned (replacer s) f)"
    using all_pinned_held [OF assms(1)] assms(4) by fastforce
  from bp.fetch_page_progress [OF assms(1-3) this] obtain f s' where
    f: "fetch_page (basic_disk_ops ps) wal_ops p s = (Ok f, s')" "pool_healthy s'" by blast
  with bp.fetch_page_Ok(8,9) [OF assms(1) f(1)] assms(3) show ?thesis by auto
qed

theorem pool_fetch_progress_witness:
  "\<exists>f s'. fetch_page (basic_disk_ops 16) wal_ops \<lparr>file_id = 7, page_num = 3\<rparr> (pool0 []) = (Ok f, s') \<and>
    pool_healthy s' \<and> bp_tracked s' \<and> length (frames s') = 1"
  using pool_fetch_progress [OF pool0_inv(1,4,2), of "\<lparr>file_id = 7, page_num = 3\<rparr>"]
  by (simp add: pool0_inv(6,8))

text \<open>A client that fetches a page, overwrites it and unpins it as dirty.\<close>

definition update_page :: "'d disk_ops \<Rightarrow> 'l log_ops \<Rightarrow> page_id \<Rightarrow> page \<Rightarrow> ('d, 'l) bpm \<Rightarrow>
    (buffer_error, unit) res \<times> ('d, 'l) bpm" where
  "update_page D L p pg s = and_then (fetch_page D L p s) (\<lambda>f s.
     and_then (write_frame f pg s) (\<lambda>_ s. unpin_page p True s))"

lemma update_page_Ok:
  assumes inv: "pool_inv ps s" and len: "length pg = ps"
    and run: "update_page (basic_disk_ops ps) wal_ops p pg s = (Ok (), s')"
  shows "pool_inv ps s' \<and> pool_view ps s' = (pool_view ps s)(p := pg) \<and> pins s' = pins s \<and>
    held s' = (held s)(p := pins s p \<noteq> 0) \<and> (\<forall>q. synced (basic_view ps) s q \<longrightarrow> synced (basic_view ps) s' q) \<and>
    disk s' = disk (snd (fetch_page (basic_disk_ops ps) wal_ops p s)) \<and>
    log_mgr s' = log_mgr (snd (fetch_page (basic_disk_ops ps) wal_ops p s))"
proof -
  obtain r f s1 where 1: "fetch_page (basic_disk_ops ps) wal_ops p s = (r, s1)"
    by (cases "fetch_page (basic_disk_ops ps) wal_ops p s")
  with run obtain f where r: "r = Ok f" by (cases r) (auto simp: update_page_def)
  note f = bp.fetch_page_Ok [OF inv 1 [unfolded r]]
  have "held s1 p" by (simp add: f(5))
  from bp.write_frame_Ok [OF f(1,2) this len] obtain s2 where
    s2: "write_frame f pg s1 = (Ok (), s2)" "pool_inv ps s2" "pool_view ps s2 = (pool_view ps s1)(p := pg)"
      "pins s2 = pins s1" "\<forall>q. q \<noteq> p \<longrightarrow> synced (basic_view ps) s2 q = synced (basic_view ps) s1 q"
      "held s2 = held s1" "disk s2 = disk s1" "log_mgr s2 = log_mgr s1" by blast
  have "pins s2 p \<noteq> 0"
  proof
    assume "pins s2 p = 0"
    from bp.unpin_page_zero [OF s2(2) this, of True] show False using run 1 r s2(1) by (simp add: update_page_def split: if_splits)
  qed
  from bp.unpin_page_Ok [OF s2(2) this, of True] obtain s3 where
    s3: "unpin_page p True s2 = (Ok (), s3)" "pool_inv ps s3" "pool_view ps s3 = pool_view ps s2"
      "pins s3 = (pins s2)(p := pins s2 p - 1)" "synced (basic_view ps) s3 = (synced (basic_view ps) s2)(p := True)"
      "held s3 = (if pins s2 p = 1 then (held s2)(p := False) else held s2)" "disk s3 = disk s2" "log_mgr s3 = log_mgr s2" by blast
  have "s' = s3" using run 1 r s2(1) s3(1) by (simp add: update_page_def)
  moreover have "pins s2 p = 1 \<longleftrightarrow> pins s p = 0" by (simp add: s2(4) f(4))
  ultimately show ?thesis using s2 s3 f 1 by (auto simp: fun_eq_iff)
qed

text \<open>What happens to the log: nothing, or one call of \<open>flush_up_to\<close>.\<close>

definition log_step :: "'l log_ops \<Rightarrow> 'l option \<Rightarrow> 'l option \<Rightarrow> bool" where
  "log_step L lg lg' \<longleftrightarrow> lg' = lg \<or> (\<exists>l lsn. lg = Some l \<and> lg' = Some (snd (lm_flush_up_to L lsn l)))"

lemma log_step_refl [simp]: "log_step L lg lg"
  by (simp add: log_step_def)

lemma flush_log_step: "flush_log L lsn s = (r, s') \<Longrightarrow> log_step L (log_mgr s) (log_mgr s')"
  by (auto simp: flush_log_def log_step_def split: option.splits prod.splits) (metis snd_conv)

lemma flush_frame_step:
  "flush_frame_to_disk D L f s = (r, s') \<Longrightarrow> log_step L (log_mgr s) (log_mgr s')"
  by (auto simp: flush_frame_to_disk_def and_then_eq Let_def case_prod_beta split: if_splits option.splits
      dest!: flush_log_step)

lemma find_victim_log: "find_victim_frame s = (r, s') \<Longrightarrow> log_mgr s' = log_mgr s"
  by (auto simp: find_victim_frame_def split: option.splits prod.splits res.splits)

lemma fetch_log_step:
  assumes "fetch_page D L p s = (r, s')"
  shows "log_step L (log_mgr s) (log_mgr s')"
proof (cases "page_table s p")
  case (Some f)
  then show ?thesis using assms by (auto simp: fetch_page_def Let_def split: if_splits)
next
  case None
  then show ?thesis
    using assms by (auto simp: fetch_page_def and_then_eq Let_def case_prod_beta
        dest!: find_victim_log flush_frame_step)
qed

lemma new_page_log_step:
  "new_page D L fid s = (r, s') \<Longrightarrow> log_step L (log_mgr s) (log_mgr s')"
  by (auto simp: new_page_def and_then_eq Let_def case_prod_beta split: prod.splits dest!: fetch_log_step)

lemma update_page_progress:
  assumes inv: "pool_inv ps s" and h: "pool_healthy s" and tr: "bp_tracked s"
    and room: "held s p \<or> card {q. held s q} < length (frames s)" and len: "length pg = ps" and small: "pins s p \<noteq> - 1"
  shows "\<exists>s'. update_page (basic_disk_ops ps) wal_ops p pg s = (Ok (), s') \<and> pool_healthy s' \<and>
    bp_tracked s' \<and> length (frames s') = length (frames s) \<and> page_table s' p \<noteq> None \<and> disk s' = disk (snd (fetch_page (basic_disk_ops ps) wal_ops p s)) \<and>
    log_mgr s' = log_mgr (snd (fetch_page (basic_disk_ops ps) wal_ops p s))"
proof -
  have "held s p \<or> (\<exists>f < length (frames s). \<not> lru_pinned (replacer s) f)"
    using all_pinned_held [OF inv] room by fastforce
  from bp.fetch_page_progress [OF inv h tr this] obtain f s1 where
    1: "fetch_page (basic_disk_ops ps) wal_ops p s = (Ok f, s1)" and h1: "pool_healthy s1" by blast
  note f = bp.fetch_page_Ok [OF inv 1]
  have "held s1 p" by (simp add: f(5))
  from bp.write_frame_Ok [OF f(1,2) this len] obtain s2 where
    s2: "write_frame f pg s1 = (Ok (), s2)" "pool_inv ps s2" "pins s2 = pins s1" "disk s2 = disk s1"
      "log_mgr s2 = log_mgr s1" "page_table s2 = page_table s1" "bp_tracked s1 \<longrightarrow> bp_tracked s2"
      "length (frames s2) = length (frames s1)" by blast
  have "pins s2 p \<noteq> 0" using small by (simp add: s2(3) f(4) add_eq_0_iff2)
  from bp.unpin_page_Ok [OF s2(2) this, of True] obtain s3 where
    s3: "unpin_page p True s2 = (Ok (), s3)" "disk s3 = disk s2" "log_mgr s3 = log_mgr s2"
      "page_table s3 = page_table s2" "bp_tracked s2 \<longrightarrow> bp_tracked s3" "length (frames s3) = length (frames s2)" by blast
  have "update_page (basic_disk_ops ps) wal_ops p pg s = (Ok (), s3)"
    using 1 s2(1) s3(1) by (simp add: update_page_def)
  then show ?thesis using s2 s3 h1 f(2,8,9) tr by (auto simp: bp_healthy_def 1)
qed

text \<open>The state of the witnesses: page 0 of file 1 overwritten in the one frame of \<open>pool0\<close>.\<close>

lemma pool1:
  obtains s where "update_page (basic_disk_ops 16) wal_ops \<lparr>file_id = 1, page_num = 0\<rparr> (1 # replicate 15 0) (pool0 []) = (Ok (), s)"
    "pool_healthy s" "pool_inv 16 s" "page_table s \<lparr>file_id = 1, page_num = 0\<rparr> \<noteq> None"
    "pool_view 16 s = (\<lambda>_. replicate 16 0)(\<lparr>file_id = 1, page_num = 0\<rparr> := 1 # replicate 15 0)"
    "\<forall>p. synced (basic_view 16) s p" "pins s = (\<lambda>_. 0)"
    "basic_view 16 (disk s) = (\<lambda>_. replicate 16 0)"
proof -
  let ?p = "\<lparr>file_id = 1, page_num = 0\<rparr>" and ?pg = "1 # replicate 15 0 :: page"
  have room: "held (pool0 []) ?p \<or> card {q. held (pool0 []) q} < length (frames (pool0 []))"
    by (simp add: pool0_inv(6,8))
  have small: "pins (pool0 []) ?p \<noteq> - 1" by (simp add: pool0_inv(5))
  from update_page_progress [OF pool0_inv(1,4,2) room _ small, of ?pg] obtain s where
    s: "update_page (basic_disk_ops 16) wal_ops ?p ?pg (pool0 []) = (Ok (), s)" "pool_healthy s" "page_table s ?p \<noteq> None"
      "disk s = disk (snd (fetch_page (basic_disk_ops 16) wal_ops ?p (pool0 [])))" by auto
  have "length ?pg = 16" by simp
  note u = update_page_Ok [OF pool0_inv(1) this s(1)]
  have clean: "\<forall>f < length (frames (pool0 [])). \<not> is_dirty (descriptors (pool0 []) ! f)"
    by (simp add: pool0_def new_with_log_manager_def new_descriptor_def)
  have "basic_view 16 (disk s) = basic_view 16 (disk (pool0 []))"
    unfolding s(4) by (rule bp.fetch_clean_disk [OF pool0_inv(1) clean]) (rule prod.collapse [symmetric])
  then have dv: "basic_view 16 (disk s) = (\<lambda>_. replicate 16 0)"
    by (simp add: fun_eq_iff pool0_def new_with_log_manager_def basic_view_def file_bytes_def page_of_beyond)
  show thesis
    by (rule that [OF s(1,2) _ s(3)]) (use u dv pool0_inv(3,5,7) in \<open>simp_all add: fun_eq_iff\<close>)
qed

text \<open>
  C13: Durability: a successful \<open>flush_all_pages\<close>, from a state where no client has modified a page
  without marking it dirty, leaves on disk exactly the content the pool shows; a pool opened on
  that disk shows the same pages.
\<close>

theorem flush_all_durable:
  assumes "pool_inv ps s" and "\<forall>p. synced (basic_view ps) s p" and "16 \<le> ps"
    and "flush_all_pages (basic_disk_ops ps) wal_ops s = (Ok (), s')"
  shows "pool_view ps (new_with_log_manager ps n (disk s') None) = pool_view ps s \<and>
    pool_inv ps (new_with_log_manager ps n (disk s') None) \<and> pool_view ps s' = pool_view ps s"
proof -
  note f = bp.flush_all_Ok [OF assms(1,4,2)]
  note n = bp.new_pool_inv [OF bp_invD(3) [OF f(1)] _ assms(3), of None n]
  show ?thesis using n(1,3) f by simp
qed

theorem flush_all_durable_witness:
  "\<exists>s s'. update_page (basic_disk_ops 16) wal_ops \<lparr>file_id = 1, page_num = 0\<rparr> (1 # replicate 15 0) (pool0 []) = (Ok (), s) \<and>
    flush_all_pages (basic_disk_ops 16) wal_ops s = (Ok (), s') \<and>
    pool_view 16 (new_with_log_manager 16 4 (disk s') None) \<lparr>file_id = 1, page_num = 0\<rparr> = 1 # replicate 15 0"
proof -
  obtain s where s: "update_page (basic_disk_ops 16) wal_ops \<lparr>file_id = 1, page_num = 0\<rparr> (1 # replicate 15 0) (pool0 []) = (Ok (), s)"
    "pool_healthy s" "pool_inv 16 s" "pool_view 16 s = (\<lambda>_. replicate 16 0)(\<lparr>file_id = 1, page_num = 0\<rparr> := 1 # replicate 15 0)"
    "\<forall>p. synced (basic_view 16) s p" by (rule pool1)
  have "\<forall>f \<in> set [0..<length (descriptors s)]. f < length (frames s)" using bp_invD(1) [OF s(3)] by simp
  from bp.flush_frames_healthy [OF s(3) this s(2)] obtain s' where
    f: "flush_all_pages (basic_disk_ops 16) wal_ops s = (Ok (), s')" unfolding flush_all_pages_def by blast
  have "pool_view 16 (new_with_log_manager 16 4 (disk s') None) = pool_view 16 s"
    using flush_all_durable [OF s(3,5) _ f, of 4] by simp
  with s f show ?thesis by auto
qed

text \<open>
  C32: Unpinning a page that the pool shows as unpinned panics when the page is in a frame and is
  refused when it is not; unpinning a pinned page always succeeds.
\<close>

theorem unpin_page_errors:
  assumes "pool_inv ps s"
  shows "fst (unpin_page p dirty s) =
    (if pins s p \<noteq> 0 then Ok () else if page_table s p = None then Err PageNotFound else Panic)"
proof (cases "pins s p = 0")
  case True
  then show ?thesis using bp.unpin_page_zero [OF assms True] by simp
next
  case False
  then obtain f where f: "page_table s p = Some f" "pin_count (descriptors s ! f) \<noteq> 0"
    by (cases "page_table s p") (simp_all add: pins_def)
  then have "f < length (descriptors s)" using bp_invD(1,6) [OF assms] by simp
  with f False show ?thesis
    by (simp add: unpin_page_def Let_def upd_desc_def nth_list_update)
qed

theorem unpin_page_errors_witness:
  "fst (unpin_page \<lparr>file_id = 1, page_num = 0\<rparr> False (pool0 [])) = Err PageNotFound"
  using unpin_page_errors [OF pool0_inv(1), of "\<lparr>file_id = 1, page_num = 0\<rparr>" False "[]"]
  by (simp add: pool0_inv(5)) (simp add: pool0_def new_with_log_manager_def)

text \<open>
  C27: Dropping a relation forgets its pages without writing them: the disk is untouched, the pages
  of the file show what the disk holds and are unpinned, all other pages are as before.
\<close>

theorem pool_drop_relation:
  assumes "pool_inv ps s"
  shows "pool_inv ps (drop_relation fid s) \<and> disk (drop_relation fid s) = disk s \<and>
    (\<forall>q. pool_view ps (drop_relation fid s) q = (if file_id q = fid then basic_view ps (disk s) q else pool_view ps s q) \<and>
      pins (drop_relation fid s) q = (if file_id q = fid then 0 else pins s q))"
  using bp.drop_relation_spec [OF assms] by blast

theorem pool_drop_relation_witness:
  "\<exists>s. update_page (basic_disk_ops 16) wal_ops \<lparr>file_id = 1, page_num = 0\<rparr> (1 # replicate 15 0) (pool0 []) = (Ok (), s) \<and>
    pool_view 16 s \<lparr>file_id = 1, page_num = 0\<rparr> = 1 # replicate 15 0 \<and> pool_view 16 (drop_relation 1 s) \<lparr>file_id = 1, page_num = 0\<rparr> = replicate 16 0"
proof -
  obtain s where s: "update_page (basic_disk_ops 16) wal_ops \<lparr>file_id = 1, page_num = 0\<rparr> (1 # replicate 15 0) (pool0 []) = (Ok (), s)"
    "pool_inv 16 s" "pool_view 16 s = (\<lambda>_. replicate 16 0)(\<lparr>file_id = 1, page_num = 0\<rparr> := 1 # replicate 15 0)"
    "basic_view 16 (disk s) = (\<lambda>_. replicate 16 0)" by (rule pool1)
  have "pool_view 16 (drop_relation 1 s) \<lparr>file_id = 1, page_num = 0\<rparr> = replicate 16 0"
    using pool_drop_relation [OF s(2), of 1] s(4) by simp
  with s(1,3) show ?thesis by auto
qed

text \<open>
  C38: A miss enters the page into the page table before it is read. When the frame was found and
  written back and only the disk read fails, the fetch returns the error but leaves the page mapped
  to that frame: the next fetch of the same page succeeds without reading the disk and returns
  what the frame held before, which is the content of the page that was evicted from it.
\<close>

theorem failed_read_leaves_stale_frame:
  assumes "pool_inv ps s" and "page_table s p = None"
    and "find_victim_frame (s\<lparr>misses := misses s + 1\<rparr>) = (Ok f, s1)"
    and "flush_frame_to_disk (basic_disk_ops ps) wal_ops f s1 = (Ok (), s2)"
    and "read_page ps p (disk s2) = (Err e, d)"
  shows "\<exists>s' s''. fetch_page (basic_disk_ops ps) wal_ops p s = (Err (StorageErr e), s') \<and> page_table s' p = Some f \<and>
    fetch_page (basic_disk_ops ps) wal_ops p s' = (Ok f, s'') \<and> disk s'' = disk s' \<and>
    fst (read_frame f s'') = Ok (frames s ! f) \<and>
    (\<forall>old. page_table s old = Some f \<longrightarrow> fst (read_frame f s'') = Ok (pool_view ps s old))"
proof -
  let ?s' = "(remap_frame f p s2)\<lparr>disk := d\<rparr>"
  let ?t = "touch_frame f (?s'\<lparr>hits := hits ?s' + 1\<rparr>)"
  have inv0: "pool_inv ps (s\<lparr>misses := misses s + 1\<rparr>)" using assms(1) by simp
  from inv0 assms(3) obtain rp where f: "f < length (frames s)" and s1: "s1 = s\<lparr>misses := misses s + 1, replacer := rp\<rparr>"
    and rp: "lru_inv (length (frames s)) rp" "lru_pinned rp = lru_pinned (replacer s)"
    by (cases rule: bp.find_victim_cases) auto
  have inv1: "pool_inv ps s1"
    unfolding s1 by (rule bp.bp_inv_replacer [OF inv0]) (use rp in simp_all)
  have f1: "f < length (frames s1)" using f s1 by simp
  note k = bp.flush_frame_keeps [OF inv1 f1 assms(4)]
  have "disk_read (basic_disk_ops ps) p (disk s2) = (Err e, d)" using assms(5) by (simp add: basic_disk_ops_def)
  then have "fetch_page (basic_disk_ops ps) wal_ops p s = (Err (StorageErr e), ?s')"
    using assms(2-4) by (simp add: fetch_page_def Let_def)
  moreover have pt: "page_table ?s' p = Some f" by (simp add: remap_frame_def)
  moreover have len: "f < length (descriptors ?s')" "f < length (frames ?s')" "frames ?s' = frames s"
    using f1 k(2,5) bp_invD(1) [OF inv1] s1 by simp_all
  moreover have "fetch_page (basic_disk_ops ps) wal_ops p ?s' = (Ok f, ?t)" using pt len(1) by (simp add: fetch_page_def)
  moreover have "disk ?t = disk ?s'" "fst (read_frame f ?t) = Ok (frames s ! f)"
    using len by (simp_all add: read_frame_def)
  moreover have "frames s ! f = pool_view ps s old" if "page_table s old = Some f" for old
    using that by (simp add: bview_def)
  ultimately show ?thesis by metis
qed

theorem failed_read_leaves_stale_frame_witness:
  "\<exists>s1 s2. fetch_page (basic_disk_ops 16) wal_ops \<lparr>file_id = 1, page_num = 0\<rparr> (pool0 [Some 0]) = (Err (StorageErr IoError), s1) \<and>
    fetch_page (basic_disk_ops 16) wal_ops \<lparr>file_id = 1, page_num = 0\<rparr> s1 = (Ok 0, s2) \<and> disk s2 = disk s1 \<and>
    fst (read_frame 0 s2) = Ok (new_page_buf 16)"
proof -
  let ?p = "\<lparr>file_id = 1, page_num = 0\<rparr>" and ?s = "(pool0 [Some 0])\<lparr>misses := misses (pool0 [Some 0]) + 1\<rparr>"
  note unf = pool0_def new_with_log_manager_def new_descriptor_def
  have no: "page_table (pool0 [Some 0]) ?p = None" by (simp add: unf)
  have v: "find_victim_frame ?s = (Ok 0, ?s)" by (simp add: find_victim_frame_def unf)
  have fl: "flush_frame_to_disk (basic_disk_ops 16) wal_ops 0 ?s = (Ok (), ?s)" by (simp add: flush_frame_to_disk_def unf)
  obtain d where d: "read_page 16 ?p (disk ?s) = (Err IoError, d)"
    by (simp add: read_page_def ensure_file_open_def syscall_def unf)
  have "frames (pool0 [Some 0]) ! 0 = new_page_buf 16" by (simp add: unf)
  then show ?thesis
    using failed_read_leaves_stale_frame [OF pool0_inv(1) no v fl d] by auto
qed

end
