(* ===== verification/BTree_Node.thy ===== *)
theory BTree_Node
  imports Storage
begin

text \<open>
  The nodes of \<open>crates/wackdb_btree\<close> (\<open>node.rs\<close>): the page header, the key, value and child arrays
  that a leaf or an internal node has behind it in the bytes of a page, and the changes \<open>tree.rs\<close>
  makes to one or two nodes it holds write guards of. \<open>load_leaf\<close> and \<open>load_internal\<close> are the
  pointer casts with the slices of \<open>max_keys\<close> elements; a node whose arrays would reach beyond its
  page is undefined behaviour in the code and \<open>Panic\<close> here. Padding bytes are written as zeros;
  nothing reads them. \<open>PAGE_SIZE\<close> is taken to be at least the size of the header.
\<close>

definition invalid_page_id :: page_id where
  "invalid_page_id = \<lparr>file_id = - 1, page_num = - 1\<rparr>"

text \<open>\<open>NodeType::Internal\<close> and \<open>NodeType::Leaf\<close>\<close>

definition internal_tag :: u8 where "internal_tag = 1"
definition leaf_tag :: u8 where "leaf_tag = 2"

lemma tags_distinct [simp]: "internal_tag \<noteq> leaf_tag" "leaf_tag \<noteq> internal_tag"
  by (simp_all add: internal_tag_def leaf_tag_def)

record node_header =
  node_type :: u8
  num_keys :: u16
  max_keys :: u16
  parent_page_id :: page_id
  next_page_id :: page_id

record leaf_node =
  lf_header :: node_header
  lf_keys :: "int list"
  lf_values :: "ctid list"

record internal_node =
  in_header :: node_header
  in_keys :: "int list"
  in_children :: "page_id list"

definition leaf_max_keys :: "nat \<Rightarrow> u16" where
  "leaf_max_keys ps = word_of_nat ((ps - 24) div (4 + 12))"

definition internal_max_keys :: "nat \<Rightarrow> u16" where
  "internal_max_keys ps = word_of_nat ((ps - 24 - 8) div (4 + 8))"

subsection \<open>The bytes of a node\<close>

definition enc_page_id :: "page_id \<Rightarrow> bytes" where
  "enc_page_id p = to_le 4 (unat (file_id p)) @ to_le 4 (unat (page_num p))"

definition dec_page_id :: "bytes \<Rightarrow> page_id" where
  "dec_page_id bs = \<lparr>file_id = rd 0 bs, page_num = rd 4 bs\<rparr>"

definition enc_ctid :: "ctid \<Rightarrow> bytes" where
  "enc_ctid c = enc_page_id (ctid_page c) @ to_le 2 (unat (slot_idx c)) @ [0, 0]"

definition dec_ctid :: "bytes \<Rightarrow> ctid" where
  "dec_ctid bs = \<lparr>ctid_page = dec_page_id bs, slot_idx = rd 8 bs\<rparr>"

definition load_header :: "page \<Rightarrow> node_header" where
  "load_header pg = \<lparr>node_type = rd 0 pg, num_keys = rd 2 pg, max_keys = rd 4 pg,
     parent_page_id = dec_page_id (peek 8 8 pg), next_page_id = dec_page_id (peek 16 8 pg)\<rparr>"

definition store_header :: "node_header \<Rightarrow> page \<Rightarrow> page" where
  "store_header h pg = overwrite 16 (enc_page_id (next_page_id h)) (overwrite 8 (enc_page_id (parent_page_id h))
     (wr 4 (max_keys h) (wr 2 (num_keys h) (wr 0 (node_type h) pg))))"

definition leaf_of :: "page \<Rightarrow> leaf_node" where
  "leaf_of pg = (let h = load_header pg; m = unat (max_keys h) in
     \<lparr>lf_header = h, lf_keys = dec_array 4 i32_of_le m 24 pg, lf_values = dec_array 12 dec_ctid m (24 + 4 * m) pg\<rparr>)"

definition load_leaf :: "page \<Rightarrow> ('e, leaf_node) res" where
  "load_leaf pg = (if 24 + 16 * unat (max_keys (load_header pg)) \<le> length pg then Ok (leaf_of pg) else Panic)"

definition store_leaf :: "leaf_node \<Rightarrow> page \<Rightarrow> page" where
  "store_leaf n pg = store_header (lf_header n)
     (overwrite 24 (enc_array i32_to_le (lf_keys n) @ enc_array enc_ctid (lf_values n)) pg)"

definition internal_of :: "page \<Rightarrow> internal_node" where
  "internal_of pg = (let h = load_header pg; m = unat (max_keys h) in
     \<lparr>in_header = h, in_keys = dec_array 4 i32_of_le m 24 pg,
      in_children = dec_array 8 dec_page_id (m + 1) (24 + 4 * m) pg\<rparr>)"

definition load_internal :: "page \<Rightarrow> ('e, internal_node) res" where
  "load_internal pg =
     (if 24 + 12 * unat (max_keys (load_header pg)) + 8 \<le> length pg then Ok (internal_of pg) else Panic)"

definition store_internal :: "internal_node \<Rightarrow> page \<Rightarrow> page" where
  "store_internal n pg = store_header (in_header n)
     (overwrite 24 (enc_array i32_to_le (in_keys n) @ enc_array enc_page_id (in_children n)) pg)"

subsection \<open>Operations on one node\<close>

text \<open>\<open>unwrap_or_else(|e| e)\<close> on a binary search\<close>

definition search_pos :: "nat + nat \<Rightarrow> nat" where
  "search_pos r = (case r of Inl i \<Rightarrow> i | Inr i \<Rightarrow> i)"

text \<open>\<open>insert_into_leaf\<close>: make room at \<open>idx\<close> and store the pair there.\<close>

definition leaf_insert_at :: "nat \<Rightarrow> nat \<Rightarrow> int \<Rightarrow> ctid \<Rightarrow> leaf_node \<Rightarrow> ('e, leaf_node) res" where
  "leaf_insert_at idx n key val leaf =
     res_bind (move_within idx n (idx + 1) (lf_keys leaf)) (\<lambda>ks.
     res_bind (move_within idx n (idx + 1) (lf_values leaf)) (\<lambda>vs.
     res_bind (set_index idx key ks) (\<lambda>ks.
     res_bind (set_index idx val vs) (\<lambda>vs.
       Ok (leaf\<lparr>lf_keys := ks, lf_values := vs,
         lf_header := (lf_header leaf)\<lparr>num_keys := num_keys (lf_header leaf) + 1\<rparr>\<rparr>)))))"

text \<open>\<open>delete\<close>: close the gap at \<open>idx\<close>.\<close>

definition leaf_remove_at :: "nat \<Rightarrow> nat \<Rightarrow> leaf_node \<Rightarrow> ('e, leaf_node) res" where
  "leaf_remove_at idx n leaf =
     res_bind (move_within (idx + 1) n idx (lf_keys leaf)) (\<lambda>ks.
     res_bind (move_within (idx + 1) n idx (lf_values leaf)) (\<lambda>vs.
       Ok (leaf\<lparr>lf_keys := ks, lf_values := vs,
         lf_header := (lf_header leaf)\<lparr>num_keys := num_keys (lf_header leaf) - 1\<rparr>\<rparr>)))"

text \<open>\<open>insert_into_parent\<close>: the new child goes to the right of its separator.\<close>

definition internal_insert_at :: "nat \<Rightarrow> nat \<Rightarrow> int \<Rightarrow> page_id \<Rightarrow> internal_node \<Rightarrow> ('e, internal_node) res" where
  "internal_insert_at idx n key child node =
     res_bind (move_within idx n (idx + 1) (in_keys node)) (\<lambda>ks.
     res_bind (move_within (idx + 1) (n + 1) (idx + 2) (in_children node)) (\<lambda>cs.
     res_bind (set_index idx key ks) (\<lambda>ks.
     res_bind (set_index (idx + 1) child cs) (\<lambda>cs.
       Ok (node\<lparr>in_keys := ks, in_children := cs,
         in_header := (in_header node)\<lparr>num_keys := num_keys (in_header node) + 1\<rparr>\<rparr>)))))"

text \<open>\<open>merge_leaf\<close>: drop the child \<open>idx\<close> and the separator on its left.\<close>

definition internal_remove_at :: "nat \<Rightarrow> nat \<Rightarrow> internal_node \<Rightarrow> ('e, internal_node) res" where
  "internal_remove_at idx n node =
     res_bind (move_within idx n (idx - 1) (in_keys node)) (\<lambda>ks.
     res_bind (move_within (idx + 1) (n + 1) idx (in_children node)) (\<lambda>cs.
       Ok (node\<lparr>in_keys := ks, in_children := cs,
         in_header := (in_header node)\<lparr>num_keys := num_keys (in_header node) - 1\<rparr>\<rparr>)))"

subsection \<open>Splitting and merging\<close>

text \<open>\<open>split_leaf\<close>: the header of the new right sibling, then both halves. \<open>rs\<close> is the fresh node
  with that header.\<close>

definition right_leaf_header :: "node_header \<Rightarrow> node_header \<Rightarrow> node_header" where
  "right_leaf_header h fresh = fresh\<lparr>node_type := leaf_tag, max_keys := max_keys h,
     parent_page_id := parent_page_id h, next_page_id := next_page_id h\<rparr>"

definition leaf_split :: "int \<Rightarrow> ctid \<Rightarrow> page_id \<Rightarrow> leaf_node \<Rightarrow> leaf_node \<Rightarrow>
    ('e, leaf_node \<times> leaf_node \<times> int) res" where
  "leaf_split key val rs_id leaf rs =
     (let total_keys = unat (num_keys (lf_header leaf)); mid = total_keys div 2 in
     res_bind (slice_to total_keys (lf_keys leaf)) (\<lambda>temp_keys.
     res_bind (slice_to total_keys (lf_values leaf)) (\<lambda>temp_vals.
     let insert_idx = search_pos (binary_search temp_keys key);
         temp_keys = insert_at insert_idx key temp_keys;
         temp_vals = insert_at insert_idx val temp_vals;
         rs_len = length temp_keys - mid in
     res_bind (overwrite_from 0 (take mid temp_keys) (lf_keys leaf)) (\<lambda>lks.
     res_bind (overwrite_from 0 (take mid temp_vals) (lf_values leaf)) (\<lambda>lvs.
     res_bind (overwrite_from 0 (drop mid temp_keys) (lf_keys rs)) (\<lambda>rks.
     res_bind (overwrite_from 0 (drop mid temp_vals) (lf_values rs)) (\<lambda>rvs.
     res_bind (index 0 rks) (\<lambda>promote_key.
       Ok (leaf\<lparr>lf_keys := lks, lf_values := lvs,
             lf_header := (lf_header leaf)\<lparr>num_keys := word_of_nat mid, next_page_id := rs_id\<rparr>\<rparr>,
           rs\<lparr>lf_keys := rks, lf_values := rvs,
             lf_header := (lf_header rs)\<lparr>num_keys := word_of_nat rs_len\<rparr>\<rparr>,
           promote_key)))))))))"

definition right_internal_header :: "node_header \<Rightarrow> node_header \<Rightarrow> node_header" where
  "right_internal_header h fresh = fresh\<lparr>node_type := internal_tag, max_keys := max_keys h,
     parent_page_id := parent_page_id h\<rparr>"

definition internal_split :: "int \<Rightarrow> page_id \<Rightarrow> internal_node \<Rightarrow> internal_node \<Rightarrow>
    ('e, internal_node \<times> internal_node \<times> int) res" where
  "internal_split key new_id node rs =
     (let n = unat (num_keys (in_header node)) in
     res_bind (slice_to n (in_keys node)) (\<lambda>temp_keys.
     res_bind (slice_to (n + 1) (in_children node)) (\<lambda>temp_children.
     let insert_idx = search_pos (binary_search temp_keys key);
         temp_keys = insert_at insert_idx key temp_keys;
         temp_children = insert_at (insert_idx + 1) new_id temp_children;
         total_keys = length temp_keys;
         mid = total_keys div 2;
         rs_num_keys = total_keys - mid - 1 in
     res_bind (overwrite_from 0 (take mid temp_keys) (in_keys node)) (\<lambda>pks.
     res_bind (overwrite_from 0 (take (mid + 1) temp_children) (in_children node)) (\<lambda>pcs.
     res_bind (index mid temp_keys) (\<lambda>promote_key.
     res_bind (overwrite_from 0 (drop (mid + 1) temp_keys) (in_keys rs)) (\<lambda>rks.
     res_bind (overwrite_from 0 (drop (mid + 1) temp_children) (in_children rs)) (\<lambda>rcs.
       Ok (node\<lparr>in_keys := pks, in_children := pcs,
             in_header := (in_header node)\<lparr>num_keys := word_of_nat mid\<rparr>\<rparr>,
           rs\<lparr>in_keys := rks, in_children := rcs,
             in_header := (in_header rs)\<lparr>num_keys := word_of_nat rs_num_keys\<rparr>\<rparr>,
           promote_key)))))))))"

text \<open>\<open>merge_leaf\<close>: append the right leaf to the left one and take over its link.\<close>

definition leaf_append :: "leaf_node \<Rightarrow> leaf_node \<Rightarrow> ('e, leaf_node) res" where
  "leaf_append l r =
     (let left_num = unat (num_keys (lf_header l)); right_num = unat (num_keys (lf_header r)) in
     res_bind (slice_to right_num (lf_keys r)) (\<lambda>r_keys.
     res_bind (overwrite_from left_num r_keys (lf_keys l)) (\<lambda>ks.
     res_bind (slice_to right_num (lf_values r)) (\<lambda>r_vals.
     res_bind (overwrite_from left_num r_vals (lf_values l)) (\<lambda>vs.
       Ok (l\<lparr>lf_keys := ks, lf_values := vs,
         lf_header := (lf_header l)\<lparr>num_keys := num_keys (lf_header l) + num_keys (lf_header r),
           next_page_id := next_page_id (lf_header r)\<rparr>\<rparr>))))))"

subsection \<open>Reading back a node\<close>

lemma length_enc_page_id [simp]: "length (enc_page_id p) = 8"
  by (simp add: enc_page_id_def)

lemma length_enc_ctid [simp]: "length (enc_ctid c) = 12"
  by (simp add: enc_ctid_def)

lemma rd_append: "length xs = n \<Longrightarrow> LENGTH('a) div 8 = length ys \<Longrightarrow>
    (rd n (xs @ ys @ zs) :: 'a::len word) = word_of_nat (of_le ys)"
  by (auto simp: rd_def peek_def)

lemma word_of_le_to_le:
  "LENGTH('a) = 8 * n \<Longrightarrow> (word_of_nat (of_le (to_le n (unat v))) :: 'a::len word) = v"
proof -
  assume "LENGTH('a) = 8 * n"
  moreover have "unat v < 2 ^ LENGTH('a)" by (rule unsigned_less)
  ultimately have "unat v < 256 ^ n" by (simp add: power_mult)
  then show ?thesis by (simp add: of_le_to_le)
qed

lemma dec_enc_page_id [simp]: "dec_page_id (enc_page_id p @ zs) = p"
proof -
  have "rd 0 (to_le 4 (unat (file_id p)) @ to_le 4 (unat (page_num p)) @ zs) = file_id p"
    using rd_append [of "[]" 0, where 'a = 32 and ys = "to_le 4 (unat (file_id p))"]
    by (simp add: word_of_le_to_le)
  moreover have "rd 4 (to_le 4 (unat (file_id p)) @ to_le 4 (unat (page_num p)) @ zs) = page_num p"
    using rd_append [of "to_le 4 (unat (file_id p))" 4, where 'a = 32 and ys = "to_le 4 (unat (page_num p))"]
    by (simp add: word_of_le_to_le)
  ultimately show ?thesis by (simp add: dec_page_id_def enc_page_id_def)
qed

lemma dec_enc_page_id' [simp]: "dec_page_id (enc_page_id p) = p"
  using dec_enc_page_id [of p "[]"] by simp

lemma dec_enc_ctid [simp]: "dec_ctid (enc_ctid c) = c"
proof -
  have "rd 8 (enc_page_id (ctid_page c) @ to_le 2 (unat (slot_idx c)) @ [0, 0]) = slot_idx c"
    using rd_append [of "enc_page_id (ctid_page c)" 8, where 'a = 16 and ys = "to_le 2 (unat (slot_idx c))"]
    by (simp add: word_of_le_to_le)
  then show ?thesis by (simp add: dec_ctid_def enc_ctid_def)
qed

lemma length_store_header [simp]: "24 \<le> length pg \<Longrightarrow> length (store_header h pg) = length pg"
  by (simp add: store_header_def)

lemma load_store_header [simp]: "24 \<le> length pg \<Longrightarrow> load_header (store_header h pg) = h"
  by (cases h) (simp add: load_header_def store_header_def buf_simps)

lemma peek_store_header [simp]: "24 \<le> length pg \<Longrightarrow> 24 \<le> off \<Longrightarrow> peek off n (store_header h pg) = peek off n pg"
  by (simp add: store_header_def buf_simps)

lemma dec_array_store_header [simp]:
  "24 \<le> length pg \<Longrightarrow> 24 \<le> off \<Longrightarrow> dec_array w dec n off (store_header h pg) = dec_array w dec n off pg"
  by (rule dec_array_cong) simp

lemma load_header_overwrite [simp]:
  "24 + length bs \<le> length pg \<Longrightarrow> load_header (overwrite 24 bs pg) = load_header pg"
  by (simp add: load_header_def buf_simps)

text \<open>The shape of a loaded node.\<close>

definition leaf_ok :: "leaf_node \<Rightarrow> bool" where
  "leaf_ok n \<longleftrightarrow> length (lf_keys n) = unat (max_keys (lf_header n)) \<and>
     length (lf_values n) = unat (max_keys (lf_header n)) \<and> (\<forall>k \<in> set (lf_keys n). i32_range k)"

definition internal_ok :: "internal_node \<Rightarrow> bool" where
  "internal_ok n \<longleftrightarrow> length (in_keys n) = unat (max_keys (in_header n)) \<and>
     length (in_children n) = unat (max_keys (in_header n)) + 1 \<and> (\<forall>k \<in> set (in_keys n). i32_range k)"

lemma load_leaf_ok: "load_leaf pg = Ok n \<Longrightarrow> leaf_ok n \<and> lf_header n = load_header pg"
proof -
  assume "load_leaf pg = Ok n"
  then have n: "n = \<lparr>lf_header = load_header pg, lf_keys = dec_array 4 i32_of_le (unat (max_keys (load_header pg))) 24 pg,
      lf_values = dec_array 12 dec_ctid (unat (max_keys (load_header pg))) (24 + 4 * unat (max_keys (load_header pg))) pg\<rparr>"
    and fits: "24 + 16 * unat (max_keys (load_header pg)) \<le> length pg"
    by (simp_all only: load_leaf_def leaf_of_def Let_def split: if_splits) simp_all
  have "\<forall>k \<in> set (dec_array 4 i32_of_le (unat (max_keys (load_header pg))) 24 pg). i32_range k"
    by (rule dec_array_all) (use fits in \<open>simp_all add: i32_range_of_le\<close>)
  with n show ?thesis by (simp add: leaf_ok_def)
qed

lemma load_internal_ok: "load_internal pg = Ok n \<Longrightarrow> internal_ok n \<and> in_header n = load_header pg"
proof -
  assume "load_internal pg = Ok n"
  then have n: "n = \<lparr>in_header = load_header pg, in_keys = dec_array 4 i32_of_le (unat (max_keys (load_header pg))) 24 pg,
      in_children = dec_array 8 dec_page_id (unat (max_keys (load_header pg)) + 1) (24 + 4 * unat (max_keys (load_header pg))) pg\<rparr>"
    and fits: "24 + 12 * unat (max_keys (load_header pg)) + 8 \<le> length pg"
    by (simp_all only: load_internal_def internal_of_def Let_def split: if_splits) simp_all
  have "\<forall>k \<in> set (dec_array 4 i32_of_le (unat (max_keys (load_header pg))) 24 pg). i32_range k"
    by (rule dec_array_all) (use fits in \<open>simp_all add: i32_range_of_le\<close>)
  with n show ?thesis by (simp add: internal_ok_def)
qed

lemma dec_two_arrays:
  assumes "\<And>x. length (enc1 x) = w1" and "\<And>x. length (enc2 x) = w2"
    and "\<forall>x \<in> set xs. dec1 (enc1 x) = x" and "\<forall>x \<in> set ys. dec2 (enc2 x) = x"
    and "off + w1 * length xs + w2 * length ys \<le> length bs"
  shows "dec_array w1 dec1 (length xs) off (overwrite off (enc_array enc1 xs @ enc_array enc2 ys) bs) = xs"
    and "dec_array w2 dec2 (length ys) (off + w1 * length xs)
           (overwrite off (enc_array enc1 xs @ enc_array enc2 ys) bs) = ys"
proof -
  let ?a = "enc_array enc1 xs" and ?b = "enc_array enc2 ys"
  have a: "length ?a = w1 * length xs" and b: "length ?b = w2 * length ys"
    by (simp_all add: length_enc_array assms(1,2))
  have "peek off (length ?a + length ?b) (overwrite off (?a @ ?b) bs) = ?a @ ?b"
    by (rule peek_overwrite_same) (use assms(5) a b in simp_all)
  then have "peek off (length ?a) (overwrite off (?a @ ?b) bs) = ?a"
      "peek (off + length ?a) (length ?b) (overwrite off (?a @ ?b) bs) = ?b"
    using assms(5) a b by (subst (asm) peek_append_iff; simp)+
  with a b assms(5)
  show "dec_array w1 dec1 (length xs) off (overwrite off (?a @ ?b) bs) = xs"
    and "dec_array w2 dec2 (length ys) (off + w1 * length xs) (overwrite off (?a @ ?b) bs) = ys"
    using assms(3,4) by (auto intro!: dec_array_enc_array assms(1,2))
qed

lemma length_leaf_arrays:
  "length (enc_array i32_to_le ks @ enc_array enc_ctid vs) = 4 * length ks + 12 * length vs"
  by (simp add: length_enc_array)

lemma length_internal_arrays:
  "length (enc_array i32_to_le ks @ enc_array enc_page_id cs) = 4 * length ks + 8 * length cs"
  by (simp add: length_enc_array)

lemma load_store_leaf:
  assumes "leaf_ok n" and "24 + 16 * unat (max_keys (lf_header n)) \<le> length pg"
  shows "load_leaf (store_leaf n pg) = Ok n" and "length (store_leaf n pg) = length pg"
    and "load_header (store_leaf n pg) = lf_header n"
proof -
  let ?m = "unat (max_keys (lf_header n))"
  let ?pg = "overwrite 24 (enc_array i32_to_le (lf_keys n) @ enc_array enc_ctid (lf_values n)) pg"
  have len: "length (lf_keys n) = ?m" "length (lf_values n) = ?m"
    and rng: "\<forall>k \<in> set (lf_keys n). i32_of_le (i32_to_le k) = k"
    using assms(1) by (auto simp: leaf_ok_def i32_of_le_to_le)
  have pg: "length ?pg = length pg"
    by (rule length_overwrite) (use assms(2) len in \<open>simp only: length_leaf_arrays; simp\<close>)
  then show "load_header (store_leaf n pg) = lf_header n" "length (store_leaf n pg) = length pg"
    using assms(2) by (simp_all add: store_leaf_def)
  have "dec_array 4 i32_of_le ?m 24 ?pg = lf_keys n" "dec_array 12 dec_ctid ?m (24 + 4 * ?m) ?pg = lf_values n"
    using dec_two_arrays [of i32_to_le 4 enc_ctid 12 "lf_keys n" i32_of_le "lf_values n" dec_ctid 24 pg] len rng assms(2)
    by simp_all
  then show "load_leaf (store_leaf n pg) = Ok n"
    using assms(2) pg by (simp add: load_leaf_def leaf_of_def store_leaf_def Let_def)
qed

lemma load_store_internal:
  assumes "internal_ok n" and "24 + 12 * unat (max_keys (in_header n)) + 8 \<le> length pg"
  shows "load_internal (store_internal n pg) = Ok n" and "length (store_internal n pg) = length pg"
    and "load_header (store_internal n pg) = in_header n"
proof -
  let ?m = "unat (max_keys (in_header n))"
  let ?pg = "overwrite 24 (enc_array i32_to_le (in_keys n) @ enc_array enc_page_id (in_children n)) pg"
  have len: "length (in_keys n) = ?m" "length (in_children n) = Suc ?m"
    and rng: "\<forall>k \<in> set (in_keys n). i32_of_le (i32_to_le k) = k"
    using assms(1) by (auto simp: internal_ok_def i32_of_le_to_le)
  have pg: "length ?pg = length pg"
    by (rule length_overwrite) (use assms(2) len in \<open>simp only: length_internal_arrays; simp\<close>)
  then show "load_header (store_internal n pg) = in_header n" "length (store_internal n pg) = length pg"
    using assms(2) by (simp_all add: store_internal_def)
  have "dec_array 4 i32_of_le ?m 24 ?pg = in_keys n"
      "dec_array 8 dec_page_id (Suc ?m) (24 + 4 * ?m) ?pg = in_children n"
    using dec_two_arrays [of i32_to_le 4 enc_page_id 8 "in_keys n" i32_of_le "in_children n" dec_page_id 24 pg] len rng assms(2)
    by simp_all
  then show "load_internal (store_internal n pg) = Ok n"
    using assms(2) pg by (simp add: load_internal_def internal_of_def store_internal_def Let_def)
qed

text \<open>Writing only the header keeps the arrays.\<close>

lemma load_leaf_store_header:
  "24 \<le> length pg \<Longrightarrow> load_leaf pg = Ok n \<Longrightarrow> max_keys h = max_keys (lf_header n) \<Longrightarrow>
   load_leaf (store_header h pg) = Ok (n\<lparr>lf_header := h\<rparr>)"
  by (auto simp: load_leaf_def leaf_of_def Let_def split: if_splits)

lemma load_internal_store_header:
  "24 \<le> length pg \<Longrightarrow> load_internal pg = Ok n \<Longrightarrow> max_keys h = max_keys (in_header n) \<Longrightarrow>
   load_internal (store_header h pg) = Ok (n\<lparr>in_header := h\<rparr>)"
  by (auto simp: load_internal_def internal_of_def Let_def split: if_splits)

subsection \<open>What a node holds\<close>

text \<open>The used parts of the arrays: the entries of a leaf, the separators and children of an
  internal node.\<close>

definition leaf_has :: "leaf_node \<Rightarrow> (int \<times> ctid) list \<Rightarrow> bool" where
  "leaf_has n kvs \<longleftrightarrow> leaf_ok n \<and> unat (num_keys (lf_header n)) = length kvs \<and>
     length kvs \<le> unat (max_keys (lf_header n)) \<and>
     take (length kvs) (lf_keys n) = map fst kvs \<and> take (length kvs) (lf_values n) = map snd kvs"

definition internal_has :: "internal_node \<Rightarrow> int list \<Rightarrow> page_id list \<Rightarrow> bool" where
  "internal_has n ks cs \<longleftrightarrow> internal_ok n \<and> unat (num_keys (in_header n)) = length ks \<and>
     length cs = Suc (length ks) \<and> length ks \<le> unat (max_keys (in_header n)) \<and>
     take (length ks) (in_keys n) = ks \<and> take (Suc (length ks)) (in_children n) = cs"

lemma leaf_hasD:
  assumes "leaf_has n kvs"
  shows "unat (num_keys (lf_header n)) = length kvs" and "take (length kvs) (lf_keys n) = map fst kvs"
    and "take (length kvs) (lf_values n) = map snd kvs" and "length kvs \<le> unat (max_keys (lf_header n))"
    and "length (lf_keys n) = unat (max_keys (lf_header n))" and "length (lf_values n) = unat (max_keys (lf_header n))"
    and "leaf_ok n"
  using assms by (simp_all add: leaf_has_def leaf_ok_def)

lemma internal_hasD:
  assumes "internal_has n ks cs"
  shows "unat (num_keys (in_header n)) = length ks" and "take (length ks) (in_keys n) = ks"
    and "take (Suc (length ks)) (in_children n) = cs" and "length ks \<le> unat (max_keys (in_header n))"
    and "length (in_keys n) = unat (max_keys (in_header n))"
    and "length (in_children n) = Suc (unat (max_keys (in_header n)))"
    and "internal_ok n" and "length cs = Suc (length ks)"
  using assms by (simp_all add: internal_has_def internal_ok_def)

lemma leaf_has_header:
  "leaf_has n kvs \<Longrightarrow> num_keys h = num_keys (lf_header n) \<Longrightarrow> max_keys h = max_keys (lf_header n) \<Longrightarrow>
   leaf_has (n\<lparr>lf_header := h\<rparr>) kvs"
  by (simp add: leaf_has_def leaf_ok_def)

lemma internal_has_header:
  "internal_has n ks cs \<Longrightarrow> num_keys h = num_keys (in_header n) \<Longrightarrow> max_keys h = max_keys (in_header n) \<Longrightarrow>
   internal_has (n\<lparr>in_header := h\<rparr>) ks cs"
  by (simp add: internal_has_def internal_ok_def)

lemma unat_Suc16: "unat (x :: u16) < unat (y :: u16) \<Longrightarrow> unat (x + 1) = Suc (unat x)"
proof -
  assume "unat x < unat y"
  moreover have "unat y < 2 ^ 16" using unsigned_less [of y] by simp
  ultimately have "unat x + 1 < 2 ^ LENGTH(16)" by simp
  then show ?thesis by (simp add: unat_add_lem [THEN iffD1])
qed

lemma unat_pred16: "0 < unat (x :: u16) \<Longrightarrow> unat (x - 1) = unat x - 1"
  by (metis One_nat_def Suc_leI unat_1 unat_sub word_le_nat_alt)

lemma unat_of_nat16: "n \<le> unat (y :: u16) \<Longrightarrow> unat (word_of_nat n :: u16) = n"
proof -
  assume "n \<le> unat y"
  moreover have "unat y < 2 ^ 16" using unsigned_less [of y] by simp
  ultimately show ?thesis by (simp add: unat_of_nat)
qed

lemma leaf_insert_at_spec:
  assumes has: "leaf_has n kvs" and room: "length kvs < unat (max_keys (lf_header n))"
    and i: "i \<le> length kvs" and key: "i32_range key"
  obtains n' where "leaf_insert_at i (length kvs) key v n = Ok n'" and "leaf_has n' (insert_at i (key, v) kvs)"
    and "lf_header n' = (lf_header n)\<lparr>num_keys := num_keys (lf_header n) + 1\<rparr>"
proof -
  note [simp] = leaf_hasD (1,5,6) [OF has]
  define n' where "n' = n\<lparr>lf_keys := (copy_within i (length kvs) (Suc i) (lf_keys n))[i := key],
    lf_values := (copy_within i (length kvs) (Suc i) (lf_values n))[i := v],
    lf_header := (lf_header n)\<lparr>num_keys := num_keys (lf_header n) + 1\<rparr>\<rparr>"
  have "leaf_insert_at i (length kvs) key v n = Ok n'"
    using i room by (simp add: leaf_insert_at_def n'_def move_within_Ok)
  moreover have "set ((copy_within i (length kvs) (Suc i) (lf_keys n))[i := key]) \<subseteq> insert key (set (lf_keys n))"
    using set_update_subset_insert set_copy_within by fastforce
  then have "leaf_ok n'"
    using leaf_hasD(7) [OF has] key room i by (auto simp: leaf_ok_def n'_def)
  moreover have "unat (num_keys (lf_header n) + 1) = Suc (length kvs)"
    using unat_Suc16 [of "num_keys (lf_header n)" "max_keys (lf_header n)"] room by simp
  moreover have "take (Suc (length kvs)) (lf_keys n') = map fst (insert_at i (key, v) kvs)"
      "take (Suc (length kvs)) (lf_values n') = map snd (insert_at i (key, v) kvs)"
    using take_array_insert [of i "length kvs" "lf_keys n" key] take_array_insert [of i "length kvs" "lf_values n" v]
      i room leaf_hasD(2,3) [OF has] by (simp_all add: n'_def map_insert_at)
  ultimately show ?thesis
    using that [of n'] room by (simp add: leaf_has_def n'_def)
qed

lemma leaf_remove_at_spec:
  assumes has: "leaf_has n kvs" and i: "i < length kvs"
  obtains n' where "leaf_remove_at i (length kvs) n = Ok n'" and "leaf_has n' (remove_at i kvs)"
    and "lf_header n' = (lf_header n)\<lparr>num_keys := num_keys (lf_header n) - 1\<rparr>"
proof -
  note [simp] = leaf_hasD (1,5,6) [OF has]
  define n' where "n' = n\<lparr>lf_keys := copy_within (Suc i) (length kvs) i (lf_keys n),
    lf_values := copy_within (Suc i) (length kvs) i (lf_values n),
    lf_header := (lf_header n)\<lparr>num_keys := num_keys (lf_header n) - 1\<rparr>\<rparr>"
  have len: "length kvs \<le> unat (max_keys (lf_header n))" using leaf_hasD(4) [OF has] .
  have "leaf_remove_at i (length kvs) n = Ok n'"
    using i len by (simp add: leaf_remove_at_def n'_def move_within_Ok)
  moreover have "leaf_ok n'"
    using leaf_hasD(7) [OF has] len i set_copy_within [of "Suc i" "length kvs" i "lf_keys n"]
    by (auto simp: leaf_ok_def n'_def)
  moreover have "unat (num_keys (lf_header n) - 1) = length kvs - 1"
    using i unat_pred16 [of "num_keys (lf_header n)"] by force
  moreover have "take (length kvs - 1) (lf_keys n') = map fst (remove_at i kvs)"
      "take (length kvs - 1) (lf_values n') = map snd (remove_at i kvs)"
    using take_array_remove [of i "length kvs" "lf_keys n"] take_array_remove [of i "length kvs" "lf_values n"]
      i len leaf_hasD(2,3) [OF has] by (simp_all add: n'_def map_remove_at)
  ultimately have "leaf_has n' (remove_at i kvs)"
    using len i by (simp add: leaf_has_def n'_def length_remove_at)
  with \<open>leaf_remove_at i (length kvs) n = Ok n'\<close> show ?thesis by (rule that) (simp add: n'_def)
qed

lemma internal_insert_at_spec:
  assumes has: "internal_has n ks cs" and room: "length ks < unat (max_keys (in_header n))"
    and i: "i \<le> length ks" and key: "i32_range key"
  obtains n' where "internal_insert_at i (length ks) key c n = Ok n'"
    and "internal_has n' (insert_at i key ks) (insert_at (Suc i) c cs)"
    and "in_header n' = (in_header n)\<lparr>num_keys := num_keys (in_header n) + 1\<rparr>"
proof -
  note [simp] = internal_hasD (1,5,6) [OF has]
  define n' where "n' = n\<lparr>in_keys := (copy_within i (length ks) (Suc i) (in_keys n))[i := key],
    in_children := (copy_within (Suc i) (Suc (length ks)) (Suc (Suc i)) (in_children n))[Suc i := c],
    in_header := (in_header n)\<lparr>num_keys := num_keys (in_header n) + 1\<rparr>\<rparr>"
  have "internal_insert_at i (length ks) key c n = Ok n'"
    using i room by (simp add: internal_insert_at_def n'_def move_within_Ok)
  moreover have "set ((copy_within i (length ks) (Suc i) (in_keys n))[i := key]) \<subseteq> insert key (set (in_keys n))"
    using set_update_subset_insert set_copy_within by fastforce
  then have "internal_ok n'"
    using internal_hasD(7) [OF has] key room i by (auto simp: internal_ok_def n'_def)
  moreover have "unat (num_keys (in_header n) + 1) = Suc (length ks)"
    using unat_Suc16 [of "num_keys (in_header n)" "max_keys (in_header n)"] room by simp
  moreover have "take (Suc (length ks)) (in_keys n') = insert_at i key ks"
    using take_array_insert [of i "length ks" "in_keys n" key] i room internal_hasD(2) [OF has]
    by (simp add: n'_def)
  moreover have "take (Suc (Suc (length ks))) (in_children n') = insert_at (Suc i) c cs"
    using take_array_insert [of "Suc i" "Suc (length ks)" "in_children n" c] i room internal_hasD(3) [OF has]
    by (simp add: n'_def)
  ultimately show ?thesis
    using that [of n'] room internal_hasD(8) [OF has] by (simp add: internal_has_def n'_def)
qed

lemma internal_remove_at_spec:
  assumes has: "internal_has n ks cs" and i: "i < length ks"
  obtains n' where "internal_remove_at (Suc i) (length ks) n = Ok n'"
    and "internal_has n' (remove_at i ks) (remove_at (Suc i) cs)"
    and "in_header n' = (in_header n)\<lparr>num_keys := num_keys (in_header n) - 1\<rparr>"
proof -
  note [simp] = internal_hasD (1,5,6) [OF has]
  define n' where "n' = n\<lparr>in_keys := copy_within (Suc i) (length ks) i (in_keys n),
    in_children := copy_within (Suc (Suc i)) (Suc (length ks)) (Suc i) (in_children n),
    in_header := (in_header n)\<lparr>num_keys := num_keys (in_header n) - 1\<rparr>\<rparr>"
  have len: "length ks \<le> unat (max_keys (in_header n))" using internal_hasD(4) [OF has] .
  have "internal_remove_at (Suc i) (length ks) n = Ok n'"
    using i len by (simp add: internal_remove_at_def n'_def move_within_Ok)
  moreover have "internal_ok n'"
    using internal_hasD(7) [OF has] len i set_copy_within [of "Suc i" "length ks" i "in_keys n"]
    by (auto simp: internal_ok_def n'_def)
  moreover have "unat (num_keys (in_header n) - 1) = length ks - 1"
    using i unat_pred16 [of "num_keys (in_header n)"] by force
  moreover have "take (length ks - 1) (in_keys n') = remove_at i ks"
    using take_array_remove [of i "length ks" "in_keys n"] i len internal_hasD(2) [OF has] by (simp add: n'_def)
  moreover have "take (length ks) (in_children n') = remove_at (Suc i) cs"
    using take_array_remove [of "Suc i" "Suc (length ks)" "in_children n"] i len internal_hasD(3) [OF has]
    by (simp add: n'_def)
  moreover have m: "Suc (length ks - Suc 0) = length ks" using i by simp
  ultimately have "internal_has n' (remove_at i ks) (remove_at (Suc i) cs)"
    using len i internal_hasD(8) [OF has] m by (simp add: internal_has_def n'_def length_remove_at)
  with \<open>internal_remove_at (Suc i) (length ks) n = Ok n'\<close> show ?thesis by (rule that) (simp add: n'_def)
qed

lemma leaf_split_spec:
  assumes has: "leaf_has n kvs" and full: "unat (max_keys (lf_header n)) = length kvs" "2 \<le> length kvs"
    and rs: "leaf_ok rs" "max_keys (lf_header rs) = max_keys (lf_header n)" and key: "i32_range key"
    and i: "i = search_pos (binary_search (map fst kvs) key)" "i \<le> length kvs"
    and kvs': "kvs' = insert_at i (key, v) kvs" and mid: "mid = length kvs div 2" and rl: "rl = length kvs' - mid"
  obtains n' rs' where "leaf_split key v rs_id n rs = Ok (n', rs', fst (kvs' ! mid))"
    and "leaf_has n' (take mid kvs')" and "leaf_has rs' (drop mid kvs')"
    and "lf_header n' = (lf_header n)\<lparr>num_keys := word_of_nat mid, next_page_id := rs_id\<rparr>"
    and "lf_header rs' = (lf_header rs)\<lparr>num_keys := word_of_nat rl\<rparr>"
proof -
  note [simp] = leaf_hasD (1,5,6) [OF has] full(1)
  have len: "length kvs' = Suc (length kvs)" and mid': "mid \<le> length kvs" "Suc (length kvs) - mid \<le> length kvs"
    using full(2) by (simp_all add: kvs' mid)
  have [simp]: "length (lf_keys rs) = length kvs" "length (lf_values rs) = length kvs"
    using rs by (simp_all add: leaf_ok_def)
  define n' where "n' = n\<lparr>lf_keys := overwrite 0 (map fst (take mid kvs')) (lf_keys n),
    lf_values := overwrite 0 (map snd (take mid kvs')) (lf_values n),
    lf_header := (lf_header n)\<lparr>num_keys := word_of_nat mid, next_page_id := rs_id\<rparr>\<rparr>"
  define rs' where "rs' = rs\<lparr>lf_keys := overwrite 0 (map fst (drop mid kvs')) (lf_keys rs),
    lf_values := overwrite 0 (map snd (drop mid kvs')) (lf_values rs),
    lf_header := (lf_header rs)\<lparr>num_keys := word_of_nat rl\<rparr>\<rparr>"
  have ks: "take (length kvs) (lf_keys n) = map fst kvs" "take (length kvs) (lf_values n) = map snd kvs"
    using leaf_hasD(2,3) [OF has] by simp_all
  have kv: "insert_at i key (map fst kvs) = map fst kvs'" "insert_at i v (map snd kvs) = map snd kvs'"
    by (simp_all add: kvs' map_insert_at)
  have rl': "mid \<le> length kvs'" "rl \<le> length kvs" "Suc (length kvs) - mid = rl"
    using mid' len rl by simp_all
  have ne: "kvs \<noteq> []" using full(2) by auto
  have nth: "overwrite 0 (map fst (drop mid kvs')) (lf_keys rs) ! 0 = fst (kvs' ! mid)"
    using mid' len full(2) by (subst nth_overwrite) auto
  have "leaf_split key v rs_id n rs = Ok (n', rs', fst (kvs' ! mid))"
    using mid'(1) rl' nth ne
    by (simp add: leaf_split_def Let_def ks kv i(1) [symmetric] mid [symmetric] rl [symmetric] n'_def rs'_def take_map drop_map)
  moreover have rng: "\<forall>k \<in> fst ` set kvs'. i32_range k"
    using leaf_hasD(7) [OF has] key arg_cong [OF ks(1), of set]
    by (auto simp: kvs' leaf_ok_def dest!: in_set_takeD)
  have "leaf_ok n'" "leaf_ok rs'"
    using leaf_hasD(7) [OF has] rs mid' len rng set_overwrite [of 0 "map fst (take mid kvs')" "lf_keys n"]
      set_overwrite [of 0 "map fst (drop mid kvs')" "lf_keys rs"]
    by (auto simp: leaf_ok_def n'_def rs'_def dest!: subsetD in_set_takeD in_set_dropD)
  moreover have "unat (word_of_nat mid :: u16) = mid" "unat (word_of_nat rl :: u16) = rl"
    using unat_of_nat16 [of _ "max_keys (lf_header n)"] mid' len rl by (simp_all del: of_nat_diff)
  ultimately show ?thesis
    using that [of n' rs'] mid' len rs rl take_overwrite_0 [of "map fst (take mid kvs')" "lf_keys n"]
      take_overwrite_0 [of "map snd (take mid kvs')" "lf_values n"]
      take_overwrite_0 [of "map fst (drop mid kvs')" "lf_keys rs"]
      take_overwrite_0 [of "map snd (drop mid kvs')" "lf_values rs"]
    by (simp add: leaf_has_def n'_def rs'_def)
qed

lemma internal_split_spec:
  assumes has: "internal_has n ks cs" and full: "unat (max_keys (in_header n)) = length ks" "1 \<le> length ks"
    and rs: "internal_ok rs" "max_keys (in_header rs) = max_keys (in_header n)" and key: "i32_range key"
    and i: "i = search_pos (binary_search ks key)" "i \<le> length ks"
    and ks': "ks' = insert_at i key ks" and cs': "cs' = insert_at (Suc i) c cs" and mid: "mid = Suc (length ks) div 2"
  obtains n' rs' where "internal_split key c n rs = Ok (n', rs', ks' ! mid)"
    and "internal_has n' (take mid ks') (take (Suc mid) cs')"
    and "internal_has rs' (drop (Suc mid) ks') (drop (Suc mid) cs')"
    and "in_header n' = (in_header n)\<lparr>num_keys := word_of_nat mid\<rparr>"
    and "in_header rs' = (in_header rs)\<lparr>num_keys := word_of_nat (length ks - mid)\<rparr>"
proof -
  note [simp] = internal_hasD (1,5,6) [OF has] full(1)
  have len: "length ks' = Suc (length ks)" "length cs' = Suc (Suc (length ks))" and mid': "mid \<le> length ks" "1 \<le> mid"
    using full(2) internal_hasD(8) [OF has] by (simp_all add: ks' cs' mid)
  have [simp]: "length (in_keys rs) = length ks" "length (in_children rs) = Suc (length ks)"
    using rs by (simp_all add: internal_ok_def)
  define n' where "n' = n\<lparr>in_keys := overwrite 0 (take mid ks') (in_keys n),
    in_children := overwrite 0 (take (Suc mid) cs') (in_children n),
    in_header := (in_header n)\<lparr>num_keys := word_of_nat mid\<rparr>\<rparr>"
  define rs' where "rs' = rs\<lparr>in_keys := overwrite 0 (drop (Suc mid) ks') (in_keys rs),
    in_children := overwrite 0 (drop (Suc mid) cs') (in_children rs),
    in_header := (in_header rs)\<lparr>num_keys := word_of_nat (length ks - mid)\<rparr>\<rparr>"
  have ks: "take (length ks) (in_keys n) = ks" "take (Suc (length ks)) (in_children n) = cs"
    by (rule internal_hasD(2,3) [OF has])+
  have "internal_split key c n rs = Ok (n', rs', ks' ! mid)"
    using mid' len internal_hasD(8) [OF has]
    by (simp add: internal_split_def Let_def ks i(1) [symmetric] ks' [symmetric] cs' [symmetric] mid [symmetric]
        n'_def rs'_def)
  moreover have rng: "\<forall>k \<in> set ks'. i32_range k"
    using internal_hasD(7) [OF has] key arg_cong [OF ks(1), of set]
    by (auto simp: ks' internal_ok_def dest!: in_set_takeD)
  have "internal_ok n'" "internal_ok rs'"
    using internal_hasD(7) [OF has] rs mid' len rng set_overwrite [of 0 "take mid ks'" "in_keys n"]
      set_overwrite [of 0 "drop (Suc mid) ks'" "in_keys rs"]
    by (auto simp: internal_ok_def n'_def rs'_def dest!: subsetD in_set_takeD in_set_dropD)
  moreover have "unat (word_of_nat mid :: u16) = mid" "unat (word_of_nat (length ks - mid) :: u16) = length ks - mid"
    using unat_of_nat16 [of _ "max_keys (in_header n)"] mid' len by (simp_all del: of_nat_diff)
  ultimately show ?thesis
    using that [of n' rs'] mid' len rs internal_hasD(8) [OF has] take_overwrite_0 [of "take mid ks'" "in_keys n"]
      take_overwrite_0 [of "take (Suc mid) cs'" "in_children n"]
      take_overwrite_0 [of "drop (Suc mid) ks'" "in_keys rs"]
      take_overwrite_0 [of "drop (Suc mid) cs'" "in_children rs"]
    by (simp add: internal_has_def n'_def rs'_def Suc_diff_le)
qed

lemma leaf_append_spec:
  assumes l: "leaf_has l kvs" and r: "leaf_has r kvs'" and room: "length kvs + length kvs' \<le> unat (max_keys (lf_header l))"
  obtains l' where "leaf_append l r = Ok l'" and "leaf_has l' (kvs @ kvs')"
    and "lf_header l' = (lf_header l)\<lparr>num_keys := num_keys (lf_header l) + num_keys (lf_header r),
           next_page_id := next_page_id (lf_header r)\<rparr>"
proof -
  note [simp] = leaf_hasD (1,5,6) [OF l] leaf_hasD (1,2,3,5,6) [OF r]
  define l' where "l' = l\<lparr>lf_keys := overwrite (length kvs) (map fst kvs') (lf_keys l),
    lf_values := overwrite (length kvs) (map snd kvs') (lf_values l),
    lf_header := (lf_header l)\<lparr>num_keys := num_keys (lf_header l) + num_keys (lf_header r),
           next_page_id := next_page_id (lf_header r)\<rparr>\<rparr>"
  have "leaf_append l r = Ok l'"
    using room leaf_hasD(4) [OF r] by (simp add: leaf_append_def l'_def Let_def)
  moreover have "fst ` set kvs' \<subseteq> set (lf_keys r)"
    using leaf_hasD(2) [OF r] by (metis set_map set_take_subset)
  then have "leaf_ok l'"
    using leaf_hasD(7) [OF l] leaf_hasD(7) [OF r] room set_overwrite [of "length kvs" "map fst kvs'" "lf_keys l"]
    by (simp add: leaf_ok_def l'_def) blast
  moreover have "unat (num_keys (lf_header l) + num_keys (lf_header r)) = length kvs + length kvs'"
  proof -
    have "unat (max_keys (lf_header l)) < 2 ^ LENGTH(16)" by (rule unsigned_less)
    then show ?thesis using room by (subst unat_add_lem [THEN iffD1]) simp_all
  qed
  moreover have "take (length kvs + length kvs') (lf_keys l') = map fst (kvs @ kvs')"
      "take (length kvs + length kvs') (lf_values l') = map snd (kvs @ kvs')"
    using take_overwrite_append [of "length kvs" "lf_keys l" "map fst kvs'"] leaf_hasD(2,3) [OF l]
      take_overwrite_append [of "length kvs" "lf_values l" "map snd kvs'"] room
    by (simp_all add: l'_def)
  ultimately show ?thesis
    using that [of l'] room by (simp add: leaf_has_def l'_def)
qed

end
