(* ===== verification/Pager.thy ===== *)
theory Pager
  imports Log_Manager
begin

text \<open>
  What the index asks of the buffer pool: the operations of \<open>BufferPoolManager\<close> that
  \<open>crates/wackdb_btree\<close> calls, as a record, and their contract as the locale \<open>page_pool\<close>. The
  contract is about a pool that works: \<open>pgood\<close> includes that no system call fails, and every
  operation succeeds as long as a frame is free to pin. \<open>Index_Pool\<close> shows that
  \<open>BufferPoolManager\<close> meets it.

  A client that has pinned some pages is described by \<open>session\<close>: the contents of all pages, the
  pages it holds with their frames, and the pages it has written to but not yet unpinned dirty.
\<close>

record 's pager =
  pg_size :: nat
  pg_fetch :: "page_id \<Rightarrow> 's \<Rightarrow> (buffer_error, nat) res \<times> 's"
  pg_new :: "u32 \<Rightarrow> 's \<Rightarrow> (buffer_error, nat \<times> page_id) res \<times> 's"
  pg_unpin :: "page_id \<Rightarrow> bool \<Rightarrow> 's \<Rightarrow> (buffer_error, unit) res \<times> 's"
  pg_read :: "nat \<Rightarrow> 's \<Rightarrow> (buffer_error, page) res \<times> 's"
  pg_write :: "nat \<Rightarrow> page \<Rightarrow> 's \<Rightarrow> (buffer_error, unit) res \<times> 's"

text \<open>The base pins \<open>base\<close> leave room for \<open>n\<close> more.\<close>

definition spare :: "(page_id \<Rightarrow> nat) \<Rightarrow> nat \<Rightarrow> nat \<Rightarrow> bool" where
  "spare base cap n \<longleftrightarrow> finite {q. base q \<noteq> 0} \<and> card {q. base q \<noteq> 0} + n \<le> cap \<and> (\<forall>q. base q + n + 1 < 2 ^ 32)"

lemma spare_le:
  assumes "spare base cap n" and "m \<le> n"
  shows "spare base cap m"
proof -
  have "base q + m + 1 < 2 ^ 32" for q
  proof -
    have "base q + n + 1 < 2 ^ 32" using assms(1) by (simp add: spare_def)
    with assms(2) show ?thesis by linarith
  qed
  with assms show ?thesis by (auto simp: spare_def)
qed

locale page_pool =
  fixes P :: "'s pager"
    and pgood :: "'s \<Rightarrow> bool" and pview :: "'s \<Rightarrow> page_id \<Rightarrow> page"
    and ploaded :: "'s \<Rightarrow> page_id \<Rightarrow> nat option" and ppins :: "'s \<Rightarrow> page_id \<Rightarrow> nat"
    and pcapacity :: "'s \<Rightarrow> nat" and psynced :: "'s \<Rightarrow> page_id \<Rightarrow> bool" and ptotal :: "'s \<Rightarrow> u32 \<Rightarrow> u32"
  assumes view_size: "pgood s \<Longrightarrow> length (pview s p) = pg_size P"
    and fetch_law: "pgood s \<Longrightarrow> ppins s p + 2 < 2 ^ 32 \<Longrightarrow>
      ppins s p \<noteq> 0 \<or> card {q. ppins s q \<noteq> 0} < pcapacity s \<Longrightarrow>
      \<exists>f s'. pg_fetch P p s = (Ok f, s') \<and> pgood s' \<and> pview s' = pview s \<and>
        ppins s' = (ppins s)(p := ppins s p + 1) \<and> pcapacity s' = pcapacity s \<and> ptotal s' = ptotal s \<and>
        ploaded s' p = Some f \<and> (\<forall>q. ppins s q \<noteq> 0 \<longrightarrow> ploaded s' q = ploaded s q) \<and>
        (\<forall>q. psynced s q \<longrightarrow> psynced s' q)"
    and new_law: "pgood s \<Longrightarrow> p = \<lparr>file_id = fid, page_num = ptotal s fid\<rparr> \<Longrightarrow> ppins s p + 2 < 2 ^ 32 \<Longrightarrow>
      card {q. ppins s q \<noteq> 0} < pcapacity s \<Longrightarrow>
      \<exists>f s'. pg_new P fid s = (Ok (f, p), s') \<and> pgood s' \<and> pview s' = pview s \<and>
        ppins s' = (ppins s)(p := ppins s p + 1) \<and> pcapacity s' = pcapacity s \<and>
        ptotal s' = (ptotal s)(fid := ptotal s fid + 1) \<and>
        ploaded s' p = Some f \<and> (\<forall>q. ppins s q \<noteq> 0 \<longrightarrow> ploaded s' q = ploaded s q) \<and>
        (\<forall>q. psynced s q \<longrightarrow> psynced s' q)"
    and unpin_law: "pgood s \<Longrightarrow> ppins s p \<noteq> 0 \<Longrightarrow> dirty \<or> psynced s p \<Longrightarrow>
      \<exists>s'. pg_unpin P p dirty s = (Ok (), s') \<and> pgood s' \<and> pview s' = pview s \<and>
        ppins s' = (ppins s)(p := ppins s p - 1) \<and> pcapacity s' = pcapacity s \<and> ptotal s' = ptotal s \<and>
        ploaded s' = ploaded s \<and> (\<forall>q. psynced s q \<or> q = p \<and> dirty \<longrightarrow> psynced s' q)"
    and read_law: "pgood s \<Longrightarrow> ploaded s p = Some f \<Longrightarrow> pg_read P f s = (Ok (pview s p), s)"
    and write_law: "pgood s \<Longrightarrow> ploaded s p = Some f \<Longrightarrow> ppins s p \<noteq> 0 \<Longrightarrow> length pg = pg_size P \<Longrightarrow>
      \<exists>s'. pg_write P f pg s = (Ok (), s') \<and> pgood s' \<and> pview s' = (pview s)(p := pg) \<and>
        ppins s' = ppins s \<and> pcapacity s' = pcapacity s \<and> ptotal s' = ptotal s \<and>
        ploaded s' = ploaded s \<and> (\<forall>q. q \<noteq> p \<or> pg = pview s p \<longrightarrow> psynced s q \<longrightarrow> psynced s' q)"
begin

text \<open>\<open>V\<close> are the contents, \<open>held\<close> the pages pinned on top of \<open>base\<close> with their frames,
  \<open>W\<close> the pages with writes that no dirty unpin has announced yet.\<close>

definition session :: "(page_id \<Rightarrow> nat) \<Rightarrow> nat \<Rightarrow> (u32 \<Rightarrow> u32) \<Rightarrow> (page_id \<Rightarrow> page) \<Rightarrow>
    (page_id \<times> nat) list \<Rightarrow> page_id set \<Rightarrow> 's \<Rightarrow> bool" where
  "session base cap tot V held W s \<longleftrightarrow> pgood s \<and> pview s = V \<and>
     ppins s = (\<lambda>q. base q + count_list (map fst held) q) \<and> pcapacity s = cap \<and> ptotal s = tot \<and>
     (\<forall>(p, f) \<in> set held. ploaded s p = Some f) \<and> (\<forall>q. q \<notin> W \<longrightarrow> psynced s q)"

lemma session_size: "session base cap tot V held W s \<Longrightarrow> length (V p) = pg_size P"
  by (auto simp: session_def view_size)

lemma pinned_room:
  assumes "spare base cap n" and "length held < n"
  shows "card {q. base q + count_list (map fst held) q \<noteq> 0} < cap"
    and "base p + count_list (map fst held) p + 2 < 2 ^ 32"
proof -
  have "{q. base q + count_list (map fst held) q \<noteq> 0} = {q. base q \<noteq> 0} \<union> fst ` set held"
    by (auto simp: count_list_0_iff)
  then have "card {q. base q + count_list (map fst held) q \<noteq> 0} \<le> card {q. base q \<noteq> 0} + length held"
    using card_Un_le [of "{q. base q \<noteq> 0}" "fst ` set held"] card_length [of "map fst held"] by simp
  with assms show "card {q. base q + count_list (map fst held) q \<noteq> 0} < cap" by (simp add: spare_def)
  have "count_list (map fst held) p \<le> length held" using count_le_length [of "map fst held" p] by simp
  moreover have "base p + n + 1 < 2 ^ 32" using assms(1) by (simp add: spare_def)
  ultimately show "base p + count_list (map fst held) p + 2 < 2 ^ 32" using assms(2) by linarith
qed

lemma session_fetch:
  assumes s: "session base cap tot V held W s" and room: "spare base cap n" "length held < n"
  obtains f s' where "pg_fetch P p s = (Ok f, s')" and "session base cap tot V ((p, f) # held) W s'"
proof -
  have pins: "ppins s = (\<lambda>q. base q + count_list (map fst held) q)" using s by (simp add: session_def)
  obtain f s' where *: "pg_fetch P p s = (Ok f, s')" "pgood s'" "pview s' = pview s"
      "ppins s' = (ppins s)(p := ppins s p + 1)" "pcapacity s' = pcapacity s" "ptotal s' = ptotal s"
      "ploaded s' p = Some f" "\<forall>q. ppins s q \<noteq> 0 \<longrightarrow> ploaded s' q = ploaded s q"
      "\<forall>q. psynced s q \<longrightarrow> psynced s' q"
    using fetch_law [of s p] pinned_room [OF room] s by (auto simp: pins session_def)
  have "ploaded s' q = Some g" if "(q, g) \<in> set held" for q g
  proof -
    have "ppins s q \<noteq> 0" using that by (force simp: pins count_list_0_iff)
    then show ?thesis using *(8) s that by (auto simp: session_def)
  qed
  then have "session base cap tot V ((p, f) # held) W s'"
    using * s by (auto simp: session_def fun_eq_iff)
  with *(1) show ?thesis by (rule that)
qed

lemma session_new:
  assumes s: "session base cap tot V held W s" and room: "spare base cap n" "length held < n"
    and p: "p = \<lparr>file_id = fid, page_num = tot fid\<rparr>"
  obtains f s' where "pg_new P fid s = (Ok (f, p), s')"
    and "session base cap (tot(fid := tot fid + 1)) V ((p, f) # held) W s'"
proof -
  have pins: "ppins s = (\<lambda>q. base q + count_list (map fst held) q)" using s by (simp add: session_def)
  obtain f s' where *: "pg_new P fid s = (Ok (f, p), s')" "pgood s'" "pview s' = pview s"
      "ppins s' = (ppins s)(p := ppins s p + 1)" "pcapacity s' = pcapacity s"
      "ptotal s' = (ptotal s)(fid := ptotal s fid + 1)"
      "ploaded s' p = Some f" "\<forall>q. ppins s q \<noteq> 0 \<longrightarrow> ploaded s' q = ploaded s q"
      "\<forall>q. psynced s q \<longrightarrow> psynced s' q"
    using new_law [of s p fid] pinned_room [OF room] s p by (auto simp: pins session_def)
  have "ploaded s' q = Some g" if "(q, g) \<in> set held" for q g
  proof -
    have "ppins s q \<noteq> 0" using that by (force simp: pins count_list_0_iff)
    then show ?thesis using *(8) s that by (auto simp: session_def)
  qed
  then have "session base cap (tot(fid := tot fid + 1)) V ((p, f) # held) W s'"
    using * s by (auto simp: session_def fun_eq_iff)
  with *(1) show ?thesis by (rule that)
qed

lemma count_list_remove1:
  "x \<in> set xs \<Longrightarrow> count_list (map fst (remove1 x xs)) q = count_list (map fst xs) q - (if fst x = q then 1 else 0)"
proof (induction xs)
  case (Cons y ys)
  show ?case
  proof (cases "x = y")
    case False
    with Cons.prems have "x \<in> set ys" by simp
    moreover from this have "fst x \<in> set (map fst ys)" by auto
    then have "count_list (map fst ys) (fst x) \<noteq> 0" by (simp only: count_list_0_iff) simp
    ultimately show ?thesis using Cons.IH False by auto
  qed simp
qed simp

lemma session_unpin:
  assumes s: "session base cap tot V held W s" and p: "(p, f) \<in> set held" and d: "dirty \<or> p \<notin> W"
  obtains s' where "pg_unpin P p dirty s = (Ok (), s')"
    and "session base cap tot V (remove1 (p, f) held) (if dirty then W - {p} else W) s'"
proof -
  have pins: "ppins s = (\<lambda>q. base q + count_list (map fst held) q)" using s by (simp add: session_def)
  have "p \<in> set (map fst held)" using p by force
  then have pos: "count_list (map fst held) p \<noteq> 0" by (simp only: count_list_0_iff) simp
  obtain s' where *: "pg_unpin P p dirty s = (Ok (), s')" "pgood s'" "pview s' = pview s"
      "ppins s' = (ppins s)(p := ppins s p - 1)" "pcapacity s' = pcapacity s" "ptotal s' = ptotal s"
      "ploaded s' = ploaded s" "\<forall>q. psynced s q \<or> q = p \<and> dirty \<longrightarrow> psynced s' q"
    using unpin_law [of s p dirty] s d pos by (auto simp: pins session_def)
  have "ppins s' = (\<lambda>q. base q + count_list (map fst (remove1 (p, f) held)) q)"
    using pos by (auto simp: *(4) pins count_list_remove1 [OF p] fun_eq_iff)
  then have "session base cap tot V (remove1 (p, f) held) (if dirty then W - {p} else W) s'"
    using * s notin_set_remove1 [of _ held "(p, f)"] by (auto simp: session_def)
  with *(1) show ?thesis by (rule that)
qed

lemma session_read:
  "session base cap tot V held W s \<Longrightarrow> (p, f) \<in> set held \<Longrightarrow> pg_read P f s = (Ok (V p), s)"
  by (auto simp: session_def intro: read_law)

lemma session_write:
  assumes s: "session base cap tot V held W s" and p: "(p, f) \<in> set held" and len: "length pg = pg_size P"
  obtains s' where "pg_write P f pg s = (Ok (), s')" and "session base cap tot (V(p := pg)) held (insert p W) s'"
    and "pg = V p \<Longrightarrow> session base cap tot V held W s'"
proof -
  have "p \<in> set (map fst held)" using p by force
  then have "count_list (map fst held) p \<noteq> 0" by (simp only: count_list_0_iff) simp
  then have "ppins s p \<noteq> 0" using s by (simp add: session_def)
  then obtain s' where *: "pg_write P f pg s = (Ok (), s')" "pgood s'" "pview s' = (pview s)(p := pg)"
      "ppins s' = ppins s" "pcapacity s' = pcapacity s" "ptotal s' = ptotal s" "ploaded s' = ploaded s"
      "\<forall>q. q \<noteq> p \<or> pg = pview s p \<longrightarrow> psynced s q \<longrightarrow> psynced s' q"
    using write_law [of s p f pg] s p len by (auto simp: session_def)
  have "session base cap tot (V(p := pg)) held (insert p W) s'"
    using * s by (auto simp: session_def)
  moreover have "session base cap tot V held W s'" if "pg = V p"
    using * s that by (auto simp: session_def)
  ultimately show ?thesis by (rule that [OF *(1)])
qed

end

end
