(* ===== verification/BTree.thy ===== *)
theory BTree
  imports BTree_Node Pager
begin

text \<open>
  \<open>BTreeIndex\<close> of \<open>crates/wackdb_btree/src/tree.rs\<close>, over any page pool. Every operation pins the
  pages it looks at, changes their bytes through the write guard of the frame and unpins them. A
  page that is changed is written back to its frame at once, as the code changes it in place:
  when a later step fails, the change stays. The descent to a leaf, the walk up the parents and
  the walk along the leaves may not end on a corrupted file: they are partial functions.

  The model is single-threaded. \<open>create_root_and_insert\<close> checks again, under the write lock, that
  no other thread has made a root; that branch is not reached here. The self-deadlock of a
  corrupted tree that holds the same page twice under a write guard is not modelled.
\<close>

datatype tree_error =
    BufferErr buffer_error
  | KeyNotFound
  | InvalidNode
  | DuplicateKey
  | Uninitialized

text \<open>The \<open>BTreeError\<close> of \<open>node.rs\<close>, which the \<open>Index\<close> trait uses\<close>

datatype node_error =
    NodeFull
  | NodeDuplicateKey
  | NodeKeyNotFound
  | NodeInvalid

record 's btree =
  bt_pool :: 's
  bt_root :: "page_id option"
  bt_file :: u32

definition new_btree :: "'s \<Rightarrow> page_id option \<Rightarrow> u32 \<Rightarrow> 's btree" where
  "new_btree pool root fid = \<lparr>bt_pool = pool, bt_root = root, bt_file = fid\<rparr>"

text \<open>A call of the pool with \<open>?\<close>, which converts its error.\<close>

definition pool_op :: "('s \<Rightarrow> (buffer_error, 'a) res \<times> 's) \<Rightarrow> ('s btree, tree_error, 'a) act" where
  "pool_op m = total (\<lambda>b. let (r, s) = m (bt_pool b) in (map_err BufferErr r, b\<lparr>bt_pool := s\<rparr>))"

definition set_root :: "page_id option \<Rightarrow> ('s btree, 'e, unit) act" where
  "set_root r = total (\<lambda>b. (Ok (), b\<lparr>bt_root := r\<rparr>))"

text \<open>\<open>let _ = self.buffer_pool.unpin_page(..)\<close>\<close>

definition unpin_ignoring :: "'s pager \<Rightarrow> page_id \<Rightarrow> bool \<Rightarrow> ('s btree, 'e, unit) act" where
  "unpin_ignoring P p dirty = attempt (pool_op (pg_unpin P p dirty)) (\<lambda>_. ret ())"

subsection \<open>Searching\<close>

definition child_index :: "int list \<Rightarrow> int \<Rightarrow> nat" where
  "child_index ks key = (case binary_search ks key of Inr i \<Rightarrow> i + 1 | Inl i \<Rightarrow> i)"

partial_function (option) find_leaf_loop ::
    "'s pager \<Rightarrow> int \<Rightarrow> page_id \<Rightarrow> ('s btree, tree_error, (nat \<times> page_id) option) act" where
  "find_leaf_loop P key page s =
     bnd (pool_op (pg_fetch P page)) (\<lambda>f.
     bnd (pool_op (pg_read P f)) (\<lambda>pg.
       if node_type (load_header pg) = leaf_tag then ret (Some (f, page))
       else if node_type (load_header pg) \<noteq> internal_tag then throw InvalidNode
       else bnd (of_res (load_internal pg)) (\<lambda>node.
         bnd (of_res (slice_to (unat (num_keys (load_header pg))) (in_keys node))) (\<lambda>ks.
         bnd (of_res (index (child_index ks key) (in_children node))) (\<lambda>next.
         bnd (pool_op (pg_unpin P page False)) (\<lambda>_ s. find_leaf_loop P key next s)))))) s"

definition find_leaf_page :: "'s pager \<Rightarrow> int \<Rightarrow> ('s btree, tree_error, (nat \<times> page_id) option) act" where
  "find_leaf_page P key = (\<lambda>b. case bt_root b of None \<Rightarrow> ret None b | Some root \<Rightarrow> find_leaf_loop P key root b)"

definition tree_search :: "'s pager \<Rightarrow> int \<Rightarrow> ('s btree, tree_error, ctid) act" where
  "tree_search P key =
     bnd (find_leaf_page P key) (\<lambda>r. bnd (of_res (ok_or r KeyNotFound)) (\<lambda>(f, page).
     bnd (pool_op (pg_read P f)) (\<lambda>pg.
     bnd (of_res (load_leaf pg)) (\<lambda>leaf.
     bnd (of_res (slice_to (unat (num_keys (lf_header leaf))) (lf_keys leaf))) (\<lambda>ks.
     bnd (of_res (case binary_search ks key of
         Inr idx \<Rightarrow> res_bind (index idx (lf_values leaf)) (\<lambda>v. Ok (Some v)) | Inl _ \<Rightarrow> Ok None)) (\<lambda>found_val.
     bnd (pool_op (pg_unpin P page False)) (\<lambda>_.
       of_res (ok_or found_val KeyNotFound))))))))"

text \<open>The keys of one leaf within the range, and whether a larger key was met.\<close>

function leaf_scan :: "int \<Rightarrow> int \<Rightarrow> nat \<Rightarrow> nat \<Rightarrow> int list \<Rightarrow> ctid list \<Rightarrow> ctid list \<Rightarrow> ('e, ctid list \<times> bool) res" where
  "leaf_scan start_key end_key i n ks vs results =
     (if i < n
      then res_bind (index i ks) (\<lambda>k.
        if start_key \<le> k \<and> k \<le> end_key
        then res_bind (index i vs) (\<lambda>v. leaf_scan start_key end_key (i + 1) n ks vs (results @ [v]))
        else if end_key < k then Ok (results, True)
        else leaf_scan start_key end_key (i + 1) n ks vs results)
      else Ok (results, False))"
  by pat_completeness auto
termination by (relation "measure (\<lambda>(_, _, i, n, _). n - i)") auto

declare leaf_scan.simps [simp del]

partial_function (option) range_loop ::
    "'s pager \<Rightarrow> int \<Rightarrow> int \<Rightarrow> ctid list \<Rightarrow> page_id \<Rightarrow> ('s btree, node_error, ctid list) act" where
  "range_loop P start_key end_key results page s =
     bnd (map_err_act (\<lambda>_. NodeKeyNotFound) (pool_op (pg_fetch P page))) (\<lambda>f.
     bnd (map_err_act (\<lambda>_. NodeKeyNotFound) (pool_op (pg_read P f))) (\<lambda>pg.
     bnd (of_res (load_leaf pg)) (\<lambda>leaf.
     bnd (of_res (leaf_scan start_key end_key 0 (unat (num_keys (lf_header leaf))) (lf_keys leaf) (lf_values leaf) results))
       (\<lambda>(results, stop).
     bnd (unpin_ignoring P page False) (\<lambda>_.
       if stop \<or> next_page_id (lf_header leaf) = invalid_page_id then ret results
       else (\<lambda>s. range_loop P start_key end_key results (next_page_id (lf_header leaf)) s)))))) s"

definition index_range_search :: "'s pager \<Rightarrow> int \<Rightarrow> int \<Rightarrow> ('s btree, node_error, ctid list) act" where
  "index_range_search P start_key end_key =
     bnd (map_err_act (\<lambda>_. NodeKeyNotFound) (find_leaf_page P start_key)) (\<lambda>r.
       case r of None \<Rightarrow> ret [] | Some (_, pid) \<Rightarrow> range_loop P start_key end_key [] pid)"

subsection \<open>Inserting\<close>

definition create_root_and_insert :: "'s pager \<Rightarrow> int \<Rightarrow> ctid \<Rightarrow> ('s btree, tree_error, unit) act" where
  "create_root_and_insert P key val = (\<lambda>b.
     bnd (pool_op (pg_new P (bt_file b))) (\<lambda>(f, root_id).
     bnd (pool_op (pg_read P f)) (\<lambda>pg.
     bnd (of_res (load_leaf (store_header ((load_header pg)\<lparr>node_type := leaf_tag, num_keys := 1,
         max_keys := leaf_max_keys (pg_size P), parent_page_id := invalid_page_id,
         next_page_id := invalid_page_id\<rparr>) pg))) (\<lambda>leaf.
     bnd (of_res (set_index 0 key (lf_keys leaf))) (\<lambda>ks.
     bnd (of_res (set_index 0 val (lf_values leaf))) (\<lambda>vs.
     bnd (pool_op (pg_write P f (store_leaf (leaf\<lparr>lf_keys := ks, lf_values := vs\<rparr>) pg))) (\<lambda>_.
     bnd (set_root (Some root_id)) (\<lambda>_.
       pool_op (pg_unpin P root_id True)))))))) b)"

definition update_parent_id :: "'s pager \<Rightarrow> page_id \<Rightarrow> page_id \<Rightarrow> ('s btree, tree_error, unit) act" where
  "update_parent_id P child_id parent_id =
     bnd (pool_op (pg_fetch P child_id)) (\<lambda>f.
     bnd (pool_op (pg_read P f)) (\<lambda>pg.
     bnd (pool_op (pg_write P f (store_header ((load_header pg)\<lparr>parent_page_id := parent_id\<rparr>) pg))) (\<lambda>_.
       pool_op (pg_unpin P child_id True))))"

definition create_new_root :: "'s pager \<Rightarrow> page_id \<Rightarrow> int \<Rightarrow> page_id \<Rightarrow> ('s btree, tree_error, unit) act" where
  "create_new_root P left key right =
     bnd (pool_op (pg_new P (file_id left))) (\<lambda>(f, new_root_id).
     bnd (pool_op (pg_read P f)) (\<lambda>pg.
     bnd (of_res (load_internal (store_header ((load_header pg)\<lparr>node_type := internal_tag,
         max_keys := internal_max_keys (pg_size P), num_keys := 1, parent_page_id := invalid_page_id\<rparr>) pg))) (\<lambda>root.
     bnd (of_res (set_index 0 key (in_keys root))) (\<lambda>ks.
     bnd (of_res (res_bind (set_index 0 left (in_children root)) (set_index 1 right))) (\<lambda>cs.
     bnd (pool_op (pg_write P f (store_internal (root\<lparr>in_keys := ks, in_children := cs\<rparr>) pg))) (\<lambda>_.
     bnd (update_parent_id P left new_root_id) (\<lambda>_.
     bnd (update_parent_id P right new_root_id) (\<lambda>_.
     bnd (pool_op (pg_unpin P new_root_id True)) (\<lambda>_.
       set_root (Some new_root_id))))))))))"

text \<open>The loop of \<open>split_internal\<close>: the children that moved to the new node get it as their parent.\<close>

fun reparent :: "'s pager \<Rightarrow> page_id \<Rightarrow> page_id list \<Rightarrow> ('s btree, tree_error, unit) act" where
  "reparent P rs_page_id [] = ret ()"
| "reparent P rs_page_id (child_id # rest) =
     bnd (pool_op (pg_fetch P child_id)) (\<lambda>f.
     bnd (pool_op (pg_read P f)) (\<lambda>pg.
     bnd (pool_op (pg_write P f (store_header ((load_header pg)\<lparr>parent_page_id := rs_page_id\<rparr>) pg))) (\<lambda>_.
     bnd (unpin_ignoring P child_id True) (\<lambda>_.
       reparent P rs_page_id rest))))"

text \<open>\<open>split_internal\<close> up to its tail call of \<open>insert_into_parent\<close>, whose last three arguments it returns.\<close>

definition split_internal :: "'s pager \<Rightarrow> page_id \<Rightarrow> int \<Rightarrow> page_id \<Rightarrow> ('s btree, tree_error, int \<times> page_id \<times> page_id) act" where
  "split_internal P parent_id key new_node_id =
     bnd (pool_op (pg_fetch P parent_id)) (\<lambda>f.
     bnd (pool_op (pg_new P (file_id parent_id))) (\<lambda>(rf, rs_page_id).
     bnd (pool_op (pg_read P f)) (\<lambda>pg.
     bnd (pool_op (pg_read P rf)) (\<lambda>rpg.
     bnd (of_res (load_internal pg)) (\<lambda>parent.
     bnd (of_res (load_internal (store_header (right_internal_header (in_header parent) (load_header rpg)) rpg))) (\<lambda>rs.
     bnd (of_res (internal_split key new_node_id parent rs)) (\<lambda>(parent, rs, promote_key).
     bnd (pool_op (pg_write P f (store_internal parent pg))) (\<lambda>_.
     bnd (pool_op (pg_write P rf (store_internal rs rpg))) (\<lambda>_.
     bnd (reparent P rs_page_id (take (unat (num_keys (in_header rs)) + 1) (in_children rs))) (\<lambda>_.
     bnd (unpin_ignoring P parent_id True) (\<lambda>_.
     bnd (unpin_ignoring P rs_page_id True) (\<lambda>_.
       ret (promote_key, rs_page_id, parent_page_id (in_header parent))))))))))))))"

partial_function (option) insert_into_parent ::
    "'s pager \<Rightarrow> page_id \<Rightarrow> int \<Rightarrow> page_id \<Rightarrow> page_id \<Rightarrow> ('s btree, tree_error, unit) act" where
  "insert_into_parent P old_node_id key new_node_id parent_id s =
     (if parent_id = invalid_page_id then create_new_root P old_node_id key new_node_id
      else
        bnd (pool_op (pg_fetch P parent_id)) (\<lambda>f.
        bnd (pool_op (pg_read P f)) (\<lambda>pg.
        bnd (of_res (load_internal pg)) (\<lambda>parent.
          if unat (num_keys (in_header parent)) < unat (max_keys (in_header parent))
          then bnd (of_res (slice_to (unat (num_keys (in_header parent))) (in_keys parent))) (\<lambda>ks.
            bnd (of_res (internal_insert_at (search_pos (binary_search ks key))
                  (unat (num_keys (in_header parent))) key new_node_id parent)) (\<lambda>parent.
            bnd (pool_op (pg_write P f (store_internal parent pg))) (\<lambda>_.
              unpin_ignoring P parent_id True)))
          else
            bnd (unpin_ignoring P parent_id False) (\<lambda>_.
            bnd (split_internal P parent_id key new_node_id) (\<lambda>(promote_key, rs_page_id, grand_parent_id) s.
              insert_into_parent P parent_id promote_key rs_page_id grand_parent_id s)))))) s"

definition split_leaf :: "'s pager \<Rightarrow> page_id \<Rightarrow> int \<Rightarrow> ctid \<Rightarrow> ('s btree, tree_error, unit) act" where
  "split_leaf P leaf_page_id key val =
     bnd (pool_op (pg_fetch P leaf_page_id)) (\<lambda>f.
     bnd (pool_op (pg_new P (file_id leaf_page_id))) (\<lambda>(rf, rs_page_id).
     bnd (pool_op (pg_read P f)) (\<lambda>pg.
     bnd (pool_op (pg_read P rf)) (\<lambda>rpg.
     bnd (of_res (load_leaf pg)) (\<lambda>leaf.
     bnd (of_res (load_leaf (store_header (right_leaf_header (lf_header leaf) (load_header rpg)) rpg))) (\<lambda>rs.
     bnd (of_res (leaf_split key val rs_page_id leaf rs)) (\<lambda>(leaf, rs, promote_key).
     bnd (pool_op (pg_write P f (store_leaf leaf pg))) (\<lambda>_.
     bnd (pool_op (pg_write P rf (store_leaf rs rpg))) (\<lambda>_.
     bnd (unpin_ignoring P leaf_page_id True) (\<lambda>_.
     bnd (unpin_ignoring P rs_page_id True) (\<lambda>_.
       insert_into_parent P leaf_page_id promote_key rs_page_id (parent_page_id (lf_header leaf)))))))))))))"

definition insert_into_leaf :: "'s pager \<Rightarrow> nat \<Rightarrow> page_id \<Rightarrow> int \<Rightarrow> ctid \<Rightarrow> ('s btree, tree_error, unit) act" where
  "insert_into_leaf P f leaf_page_id key val =
     bnd (pool_op (pg_read P f)) (\<lambda>pg.
     bnd (of_res (load_leaf pg)) (\<lambda>leaf.
     bnd (of_res (slice_to (unat (num_keys (lf_header leaf))) (lf_keys leaf))) (\<lambda>ks.
       case binary_search ks key of
         Inr _ \<Rightarrow> bnd (pool_op (pg_unpin P leaf_page_id False)) (\<lambda>_. throw DuplicateKey)
       | Inl insert_idx \<Rightarrow>
           if unat (num_keys (lf_header leaf)) < unat (max_keys (lf_header leaf))
           then bnd (of_res (leaf_insert_at insert_idx (unat (num_keys (lf_header leaf))) key val leaf)) (\<lambda>leaf.
             bnd (pool_op (pg_write P f (store_leaf leaf pg))) (\<lambda>_.
               pool_op (pg_unpin P leaf_page_id True)))
           else bnd (pool_op (pg_unpin P leaf_page_id False)) (\<lambda>_.
             split_leaf P leaf_page_id key val))))"

definition tree_insert :: "'s pager \<Rightarrow> int \<Rightarrow> ctid \<Rightarrow> ('s btree, tree_error, unit) act" where
  "tree_insert P key val = (\<lambda>b.
     if bt_root b = None then create_root_and_insert P key val b
     else bnd (find_leaf_page P key) (\<lambda>r. bnd (of_res (ok_or r KeyNotFound)) (\<lambda>(f, leaf_page_id).
       insert_into_leaf P f leaf_page_id key val)) b)"

subsection \<open>Deleting\<close>

text \<open>The position of the leaf among the children, as the loop of \<open>merge_leaf\<close> finds it.\<close>

definition find_child :: "page_id \<Rightarrow> nat \<Rightarrow> page_id list \<Rightarrow> (node_error, nat) res" where
  "find_child leaf_page_id n children =
     (case position (\<lambda>c. c = leaf_page_id) (take (n + 1) children) of
        Some i \<Rightarrow> Ok i
      | None \<Rightarrow> if n < length children then Err NodeInvalid else Panic)"

text \<open>The second half of \<open>merge_leaf\<close>, once the two siblings are known: append the right leaf to the
  left one when both fit, and drop the right one from the parent.\<close>

definition merge_siblings :: "'s pager \<Rightarrow> page_id \<Rightarrow> nat \<Rightarrow> page \<Rightarrow> internal_node \<Rightarrow> page_id \<Rightarrow> page_id \<Rightarrow> nat \<Rightarrow>
    ('s btree, node_error, unit) act" where
  "merge_siblings P parent_id pf ppg parent left_id right_id delete_idx =
     bnd (map_err_act (\<lambda>_. NodeInvalid) (pool_op (pg_fetch P left_id))) (\<lambda>lf.
     bnd (map_err_act (\<lambda>_. NodeInvalid) (pool_op (pg_fetch P right_id))) (\<lambda>rf.
     bnd (map_err_act (\<lambda>_. NodeInvalid) (pool_op (pg_read P lf))) (\<lambda>lpg.
     bnd (map_err_act (\<lambda>_. NodeInvalid) (pool_op (pg_read P rf))) (\<lambda>rpg.
     bnd (of_res (load_leaf lpg)) (\<lambda>left_leaf.
     bnd (of_res (load_leaf rpg)) (\<lambda>right_leaf.
       if unat (max_keys (lf_header left_leaf)) <
          unat (num_keys (lf_header left_leaf)) + unat (num_keys (lf_header right_leaf))
       then bnd (unpin_ignoring P left_id False) (\<lambda>_.
         bnd (unpin_ignoring P right_id False) (\<lambda>_.
           unpin_ignoring P parent_id False))
       else
         bnd (of_res (leaf_append left_leaf right_leaf)) (\<lambda>left_leaf.
         bnd (map_err_act (\<lambda>_. NodeInvalid) (pool_op (pg_write P lf (store_leaf left_leaf lpg)))) (\<lambda>_.
         bnd (unpin_ignoring P left_id True) (\<lambda>_.
         bnd (unpin_ignoring P right_id False) (\<lambda>_.
         bnd (of_res (internal_remove_at delete_idx (unat (num_keys (in_header parent))) parent)) (\<lambda>parent.
         bnd (map_err_act (\<lambda>_. NodeInvalid) (pool_op (pg_write P pf (store_internal parent ppg)))) (\<lambda>_.
           unpin_ignoring P parent_id True))))))))))))"

definition merge_leaf :: "'s pager \<Rightarrow> page_id \<Rightarrow> page_id \<Rightarrow> ('s btree, node_error, unit) act" where
  "merge_leaf P leaf_page_id parent_id =
     bnd (map_err_act (\<lambda>_. NodeInvalid) (pool_op (pg_fetch P parent_id))) (\<lambda>pf.
     bnd (map_err_act (\<lambda>_. NodeInvalid) (pool_op (pg_read P pf))) (\<lambda>ppg.
     bnd (of_res (load_internal ppg)) (\<lambda>parent.
     bnd (of_res (find_child leaf_page_id (unat (num_keys (in_header parent))) (in_children parent))) (\<lambda>leaf_idx.
       let p_keys_count = unat (num_keys (in_header parent));
           is_left_sibling = 0 < leaf_idx;
           sibling_idx = (if is_left_sibling then leaf_idx - 1 else leaf_idx + 1) in
       if p_keys_count < sibling_idx then unpin_ignoring P parent_id False
       else
         bnd (of_res (index sibling_idx (in_children parent))) (\<lambda>sibling_page_id.
           merge_siblings P parent_id pf ppg parent
             (if is_left_sibling then sibling_page_id else leaf_page_id)
             (if is_left_sibling then leaf_page_id else sibling_page_id)
             (if is_left_sibling then leaf_idx else sibling_idx))))))"

definition index_delete :: "'s pager \<Rightarrow> int \<Rightarrow> ('s btree, node_error, unit) act" where
  "index_delete P key = (\<lambda>b.
     bnd (map_err_act (\<lambda>_. NodeKeyNotFound) (find_leaf_page P key)) (\<lambda>r.
     bnd (of_res (ok_or r NodeKeyNotFound)) (\<lambda>(f, leaf_page_id).
     bnd (map_err_act (\<lambda>_. NodeKeyNotFound) (pool_op (pg_read P f))) (\<lambda>pg.
     bnd (of_res (load_leaf pg)) (\<lambda>leaf.
     bnd (of_res (slice_to (unat (num_keys (lf_header leaf))) (lf_keys leaf))) (\<lambda>ks.
       case binary_search ks key of
         Inr idx \<Rightarrow>
           bnd (of_res (leaf_remove_at idx (unat (num_keys (lf_header leaf))) leaf)) (\<lambda>leaf.
           bnd (map_err_act (\<lambda>_. NodeKeyNotFound) (pool_op (pg_write P f (store_leaf leaf pg)))) (\<lambda>_.
           bnd (unpin_ignoring P leaf_page_id True) (\<lambda>_.
             if Some leaf_page_id \<noteq> bt_root b \<and>
                unat (num_keys (lf_header leaf)) < unat (max_keys (lf_header leaf)) div 2
             then attempt (merge_leaf P leaf_page_id (parent_page_id (lf_header leaf))) (\<lambda>_. ret ())
             else ret ())))
       | Inl _ \<Rightarrow>
           bnd (unpin_ignoring P leaf_page_id False) (\<lambda>_. throw NodeKeyNotFound)))))) b)"

subsection \<open>The \<open>Index\<close> trait\<close>

definition index_insert :: "'s pager \<Rightarrow> int \<Rightarrow> ctid \<Rightarrow> ('s btree, node_error, unit) act" where
  "index_insert P key c = map_err_act (\<lambda>_. NodeFull) (tree_insert P key c)"

definition index_search :: "'s pager \<Rightarrow> int \<Rightarrow> ('s btree, node_error, ctid) act" where
  "index_search P key = map_err_act (\<lambda>_. NodeKeyNotFound) (tree_search P key)"

end
