(* ===== verification/BTree_Rep.thy ===== *)
theory BTree_Rep
  imports BTree "HOL-Library.Multiset"
begin

text \<open>
  The abstract search tree behind the pages of an index. A \<open>tree\<close> names the page of every node;
  \<open>tree_rep\<close> says that the pages hold it (keys, values, children, parent pointers), \<open>ordered\<close> that
  the keys lie between the separators, \<open>linked\<close> that the leaves are chained from left to right.
  A path from the root to a node is a context (\<open>tree_frame list\<close>, innermost first): \<open>fill\<close> puts a
  subtree into its hole, and \<open>ctx_rep\<close>, \<open>ctx_ord\<close> are what the invariants say about the rest of the tree.
\<close>

datatype tree = Lf page_id "(int \<times> ctid) list" | Nd page_id "tree list" "int list"

fun root :: "tree \<Rightarrow> page_id" where
  "root (Lf p kvs) = p"
| "root (Nd p ts ks) = p"

fun pages :: "tree \<Rightarrow> page_id list" where
  "pages (Lf p kvs) = [p]"
| "pages (Nd p ts ks) = p # concat (map pages ts)"

fun leaves :: "tree \<Rightarrow> page_id list" where
  "leaves (Lf p kvs) = [p]"
| "leaves (Nd p ts ks) = concat (map leaves ts)"

fun entries :: "tree \<Rightarrow> (int \<times> ctid) list" where
  "entries (Lf p kvs) = kvs"
| "entries (Nd p ts ks) = concat (map entries ts)"

lemma root_in_pages [simp]: "root t \<in> set (pages t)"
  by (cases t) auto

lemma leaves_subset: "set (leaves t) \<subseteq> set (pages t)"
  by (induction t) auto

subsection \<open>Order\<close>

text \<open>\<open>seg lo ts ks hi\<close>: the trees \<open>ts\<close> fill the keys from \<open>lo\<close> to \<open>hi\<close>, each up to its key in \<open>ks\<close>.\<close>

fun ordered :: "int \<Rightarrow> int \<Rightarrow> tree \<Rightarrow> bool"
and seg :: "int \<Rightarrow> tree list \<Rightarrow> int list \<Rightarrow> int \<Rightarrow> bool" where
  "ordered lo hi (Lf p kvs) \<longleftrightarrow> sorted_wrt (<) (map fst kvs) \<and> (\<forall>k \<in> set (map fst kvs). lo \<le> k \<and> k < hi)"
| "ordered lo hi (Nd p ts ks) \<longleftrightarrow> seg lo ts (ks @ [hi]) hi"
| "seg lo [] [] hi \<longleftrightarrow> lo = hi"
| "seg lo (t # ts) (k # ks) hi \<longleftrightarrow> lo < k \<and> ordered lo k t \<and> seg k ts ks hi"
| "seg lo [] (k # ks) hi \<longleftrightarrow> False"
| "seg lo (t # ts) [] hi \<longleftrightarrow> False"

lemma seg_length: "seg lo ts ks hi \<Longrightarrow> length ts = length ks"
proof (induction ts arbitrary: lo ks)
  case Nil
  then show ?case by (cases ks) auto
next
  case (Cons t ts)
  then show ?case by (cases ks) auto
qed

lemma seg_append:
  "length ts1 = length ks1 \<Longrightarrow> seg lo (ts1 @ ts2) (ks1 @ ks2) hi \<longleftrightarrow> (\<exists>m. seg lo ts1 ks1 m \<and> seg m ts2 ks2 hi)"
proof (induction ts1 arbitrary: lo ks1)
  case (Cons t ts)
  then show ?case by (cases ks1) auto
qed simp

lemma seg_last: "seg lo ts (ks @ [k]) hi \<Longrightarrow> hi = k"
proof (induction ks arbitrary: lo ts)
  case Nil
  then show ?case by (cases ts; cases "tl ts") auto
next
  case (Cons x xs)
  then show ?case by (cases ts) auto
qed

lemma seg_bounds: "seg lo ts ks hi \<Longrightarrow> sorted_wrt (<) (lo # ks) \<and> (\<forall>k \<in> set ks. k \<le> hi) \<and> lo \<le> hi"
proof (induction ts arbitrary: lo ks)
  case Nil
  then show ?case by (cases ks) auto
next
  case (Cons t ts)
  then obtain k ks' where ks: "ks = k # ks'" by (cases ks) auto
  with Cons.prems have "lo < k" "seg k ts ks' hi" by auto
  moreover from this Cons.IH have "sorted_wrt (<) (k # ks')" "\<forall>x \<in> set ks'. x \<le> hi" "k \<le> hi" by blast+
  ultimately show ?case by (fastforce simp: ks)
qed

lemma ordered_entries:
  "ordered lo hi t \<Longrightarrow> sorted_wrt (<) (map fst (entries t)) \<and> (\<forall>k \<in> fst ` set (entries t). lo \<le> k \<and> k < hi)"
  "seg lo ts ks hi \<Longrightarrow> sorted_wrt (<) (map fst (concat (map entries ts))) \<and>
     (\<forall>k \<in> fst ` set (concat (map entries ts)). lo \<le> k \<and> k < hi)"
proof (induction lo hi t and lo ts ks hi rule: ordered_seg.induct)
  case (4 lo t ts k ks hi)
  have le: "k \<le> hi" "lo < k" using 4(3) seg_bounds [of k ts ks hi] by auto
  have "sorted_wrt (<) (map fst (entries t))" "\<forall>x \<in> fst ` set (entries t). lo \<le> x \<and> x < k"
    using 4 by simp_all
  moreover have "sorted_wrt (<) (map fst (concat (map entries ts)))"
      "\<forall>x \<in> fst ` set (concat (map entries ts)). k \<le> x \<and> x < hi"
    using 4 by simp_all
  ultimately show ?case
    using le unfolding list.map concat.simps map_append sorted_wrt_append set_append image_Un set_map by fastforce
qed auto

subsection \<open>Contexts\<close>

type_synonym tree_frame = "page_id \<times> tree list \<times> int list \<times> int list \<times> tree list"

fun fill :: "tree_frame list \<Rightarrow> tree \<Rightarrow> tree" where
  "fill [] t = t"
| "fill ((p, lts, lks, rks, rts) # c) t = fill c (Nd p (lts @ t # rts) (lks @ rks))"

fun lentries :: "tree_frame list \<Rightarrow> (int \<times> ctid) list" where
  "lentries [] = []"
| "lentries ((p, lts, lks, rks, rts) # c) = lentries c @ concat (map entries lts)"

fun rentries :: "tree_frame list \<Rightarrow> (int \<times> ctid) list" where
  "rentries [] = []"
| "rentries ((p, lts, lks, rks, rts) # c) = concat (map entries rts) @ rentries c"

fun lleaves :: "tree_frame list \<Rightarrow> page_id list" where
  "lleaves [] = []"
| "lleaves ((p, lts, lks, rks, rts) # c) = lleaves c @ concat (map leaves lts)"

fun rleaves :: "tree_frame list \<Rightarrow> page_id list" where
  "rleaves [] = []"
| "rleaves ((p, lts, lks, rks, rts) # c) = concat (map leaves rts) @ rleaves c"

fun ctx_pages :: "tree_frame list \<Rightarrow> page_id list" where
  "ctx_pages [] = []"
| "ctx_pages ((p, lts, lks, rks, rts) # c) = p # concat (map pages lts) @ concat (map pages rts) @ ctx_pages c"

lemma entries_fill: "entries (fill c t) = lentries c @ entries t @ rentries c"
  by (induction c t rule: fill.induct) simp_all

lemma leaves_fill: "leaves (fill c t) = lleaves c @ leaves t @ rleaves c"
  by (induction c t rule: fill.induct) simp_all

lemma mset_pages_fill: "mset (pages (fill c t)) = mset (ctx_pages c) + mset (pages t)"
  by (induction c t rule: fill.induct) simp_all

lemma set_pages_fill: "set (pages (fill c t)) = set (ctx_pages c) \<union> set (pages t)"
  using arg_cong [OF mset_pages_fill [of c t], of set_mset] by simp

lemma distinct_pages_fill: "distinct (pages (fill c t)) \<longleftrightarrow> distinct (ctx_pages c @ pages t)"
  using mset_pages_fill [of c t] by (metis mset_append mset_eq_imp_distinct_iff)

text \<open>All leaves are at the same depth.\<close>

fun bal :: "tree \<Rightarrow> nat \<Rightarrow> bool" where
  "bal (Lf p kvs) h \<longleftrightarrow> h = 0"
| "bal (Nd p ts ks) 0 \<longleftrightarrow> False"
| "bal (Nd p ts ks) (Suc h) \<longleftrightarrow> (\<forall>t \<in> set ts. bal t h)"

definition balanced :: "tree \<Rightarrow> bool" where
  "balanced t \<longleftrightarrow> (\<exists>h. bal t h)"

fun ctx_bal :: "tree_frame list \<Rightarrow> nat \<Rightarrow> bool" where
  "ctx_bal [] h \<longleftrightarrow> True"
| "ctx_bal ((p, lts, lks, rks, rts) # c) h \<longleftrightarrow> (\<forall>t \<in> set lts \<union> set rts. bal t h) \<and> ctx_bal c (Suc h)"

lemma bal_Nd: "bal (Nd p ts ks) h \<longleftrightarrow> (\<exists>h'. h = Suc h' \<and> (\<forall>t \<in> set ts. bal t h'))"
  by (cases h) simp_all

lemma balanced_Lf [simp]: "balanced (Lf p kvs)"
  by (simp add: balanced_def)

lemma balanced_fill: "balanced (fill c t) \<longleftrightarrow> (\<exists>h. ctx_bal c h \<and> bal t h)"
proof (induction c arbitrary: t)
  case Nil
  then show ?case by (simp add: balanced_def)
next
  case (Cons fr c)
  obtain p lts lks rks rts where fr: "fr = (p, lts, lks, rks, rts)" by (cases fr)
  show ?case by (auto simp: fr Cons.IH bal_Nd)
qed

text \<open>The hole of \<open>c\<close> lies between \<open>lo\<close> and \<open>hi\<close>, when the whole tree lies between \<open>LO\<close> and \<open>HI\<close>.\<close>

fun ctx_ord :: "int \<Rightarrow> int \<Rightarrow> tree_frame list \<Rightarrow> int \<Rightarrow> int \<Rightarrow> bool" where
  "ctx_ord LO HI [] lo hi \<longleftrightarrow> lo = LO \<and> hi = HI \<and> lo < hi"
| "ctx_ord LO HI ((p, lts, lks, rks, rts) # c) lo hi \<longleftrightarrow> lo < hi \<and> length lts = length lks \<and> length rts = length rks \<and>
     (\<exists>lo' hi' rest. ctx_ord LO HI c lo' hi' \<and> seg lo' lts lks lo \<and> rks @ [hi'] = hi # rest \<and> seg hi rts rest hi')"

lemma ctx_ord_less: "ctx_ord LO HI c lo hi \<Longrightarrow> lo < hi"
  by (cases "(LO, HI, c, lo, hi)" rule: ctx_ord.cases) auto

lemma ctx_ord_frame:
  assumes "ctx_ord LO HI ((p, lts, lks, rks, rts) # c) lo hi"
  obtains lo' hi' rest where "ctx_ord LO HI c lo' hi'" and "seg lo' lts lks lo" and "rks @ [hi'] = hi # rest"
    and "seg hi rts rest hi'" and "length lts = length lks" and "length rts = length rks" and "lo < hi"
    and "\<forall>k \<in> set lks. k \<le> lo" and "\<forall>k \<in> set rks. hi \<le> k" and "sorted_wrt (<) (lks @ rks)" and "hi \<le> hi'" and "lo' \<le> lo"
proof -
  obtain lo' hi' rest where *: "ctx_ord LO HI c lo' hi'" "seg lo' lts lks lo" "rks @ [hi'] = hi # rest"
      "seg hi rts rest hi'" "length lts = length lks" "length rts = length rks" "lo < hi"
    using assms by auto
  have l: "sorted_wrt (<) (lo' # lks)" "\<forall>k \<in> set lks. k \<le> lo" "lo' \<le> lo" using seg_bounds [OF *(2)] by auto
  have r: "sorted_wrt (<) (hi # rest)" "hi \<le> hi'" using seg_bounds [OF *(4)] by auto
  have "set rks \<subseteq> set (hi # rest)" by (metis *(3) Un_iff set_append subsetI)
  then have r': "\<forall>k \<in> set rks. hi \<le> k" using r by (fastforce intro: less_imp_le)
  have "sorted_wrt (<) rks" using r(1) sorted_wrt_append [of "(<)" rks "[hi']"] *(3) by simp
  then have "sorted_wrt (<) (lks @ rks)" using l r' *(7) by (force simp: sorted_wrt_append)
  with * l r r' show ?thesis by (intro that) auto
qed

text \<open>Inserting a second subtree to the right of the hole keeps the order.\<close>

lemma seg_frame2:
  assumes "ctx_ord LO HI ((p, lts, lks, rks, rts) # c) lo hi" and "lo < k" and "k < hi"
    and "ordered lo k t1" and "ordered k hi t2"
  obtains lo' hi' where "ctx_ord LO HI c lo' hi'"
    and "seg lo' (lts @ t1 # t2 # rts) ((lks @ k # rks) @ [hi']) hi'" and "lo' \<le> lo" and "hi \<le> hi'"
proof -
  obtain lo' hi' rest where *: "ctx_ord LO HI c lo' hi'" "seg lo' lts lks lo" "rks @ [hi'] = hi # rest"
      "seg hi rts rest hi'" "length lts = length lks" "lo' \<le> lo" "hi \<le> hi'"
    by (rule ctx_ord_frame [OF assms(1)])
  have "(lks @ k # rks) @ [hi'] = lks @ k # hi # rest" using *(3) by simp
  with * assms have "seg lo' (lts @ t1 # t2 # rts) ((lks @ k # rks) @ [hi']) hi'"
    by (simp only: seg_append seg.simps) blast
  with * show ?thesis by (intro that)
qed

lemma seg_frame1:
  assumes "ctx_ord LO HI ((p, lts, lks, rks, rts) # c) lo hi" and "ordered lo hi t"
  obtains lo' hi' where "ctx_ord LO HI c lo' hi'" and "seg lo' (lts @ t # rts) ((lks @ rks) @ [hi']) hi'"
proof -
  obtain lo' hi' rest where *: "ctx_ord LO HI c lo' hi'" "seg lo' lts lks lo" "rks @ [hi'] = hi # rest"
      "seg hi rts rest hi'" "length lts = length lks" "lo < hi"
    by (rule ctx_ord_frame [OF assms(1)])
  have "(lks @ rks) @ [hi'] = lks @ hi # rest" using *(3) by simp
  with * assms have "seg lo' (lts @ t # rts) ((lks @ rks) @ [hi']) hi'"
    by (simp only: seg_append seg.simps) blast
  with *(1) show ?thesis by (intro that)
qed

lemma ordered_fill: "ctx_ord LO HI c lo hi \<Longrightarrow> ordered lo hi t \<Longrightarrow> ordered LO HI (fill c t)"
proof (induction c t arbitrary: lo hi rule: fill.induct)
  case (2 p lts lks rks rts c t)
  obtain lo' hi' where "ctx_ord LO HI c lo' hi'" "seg lo' (lts @ t # rts) ((lks @ rks) @ [hi']) hi'"
    by (rule seg_frame1 [OF 2(2,3)])
  then show ?case using 2(1) [of lo' hi'] by simp
qed simp

subsection \<open>Trees in pages\<close>

text \<open>Pages are large enough for a leaf of two entries and an internal node of one separator.\<close>

definition geometry :: "nat \<Rightarrow> bool" where
  "geometry ps \<longleftrightarrow> 2 \<le> unat (leaf_max_keys ps) \<and> 1 \<le> unat (internal_max_keys ps)"

lemma unat_word_of_nat_le: "unat (word_of_nat n :: 'a::len word) \<le> n"
  by (simp add: unat_of_nat)

lemma geometry_fits:
  assumes "geometry ps"
  shows "24 + 16 * unat (leaf_max_keys ps) \<le> ps" and "24 + 12 * unat (internal_max_keys ps) + 8 \<le> ps"
proof -
  have l: "unat (leaf_max_keys ps) \<le> (ps - 24) div 16" and i: "unat (internal_max_keys ps) \<le> (ps - 32) div 12"
    using unat_word_of_nat_le [where 'a = 16] by (simp_all add: leaf_max_keys_def internal_max_keys_def)
  with assms have "2 \<le> (ps - 24) div 16" "1 \<le> (ps - 32) div 12" by (auto simp: geometry_def)
  with l i show "24 + 16 * unat (leaf_max_keys ps) \<le> ps" "24 + 12 * unat (internal_max_keys ps) + 8 \<le> ps"
    by linarith+
qed

definition leaf_at :: "nat \<Rightarrow> (page_id \<Rightarrow> page) \<Rightarrow> page_id \<Rightarrow> page_id \<Rightarrow> (int \<times> ctid) list \<Rightarrow> bool" where
  "leaf_at ps V p par kvs \<longleftrightarrow> leaf_has (leaf_of (V p)) kvs \<and>
     node_type (load_header (V p)) = leaf_tag \<and> parent_page_id (load_header (V p)) = par \<and>
     max_keys (load_header (V p)) = leaf_max_keys ps"

definition node_at :: "nat \<Rightarrow> (page_id \<Rightarrow> page) \<Rightarrow> page_id \<Rightarrow> page_id \<Rightarrow> int list \<Rightarrow> page_id list \<Rightarrow> bool" where
  "node_at ps V p par ks cs \<longleftrightarrow> internal_has (internal_of (V p)) ks cs \<and>
     node_type (load_header (V p)) = internal_tag \<and> parent_page_id (load_header (V p)) = par \<and>
     max_keys (load_header (V p)) = internal_max_keys ps"

lemma header_of [simp]: "lf_header (leaf_of pg) = load_header pg" "in_header (internal_of pg) = load_header pg"
  by (simp_all add: leaf_of_def internal_of_def Let_def)

lemma leaf_at_load: "geometry ps \<Longrightarrow> length (V p) = ps \<Longrightarrow> leaf_at ps V p par kvs \<Longrightarrow> load_leaf (V p) = Ok (leaf_of (V p))"
  using geometry_fits(1) by (simp add: load_leaf_def leaf_at_def)

lemma node_at_load: "geometry ps \<Longrightarrow> length (V p) = ps \<Longrightarrow> node_at ps V p par ks cs \<Longrightarrow>
    load_internal (V p) = Ok (internal_of (V p))"
  using geometry_fits(2) by (simp add: load_internal_def node_at_def)

text \<open>The leaf or node just stored is the one on the page.\<close>

lemma leaf_of_store:
  assumes "leaf_ok n" and "24 + 16 * unat (max_keys (lf_header n)) \<le> length pg"
  shows "leaf_of (store_leaf n pg) = n"
  using load_store_leaf(1) [OF assms, where 'a = unit] by (simp add: load_leaf_def split: if_splits)

lemma internal_of_store:
  assumes "internal_ok n" and "24 + 12 * unat (max_keys (in_header n)) + 8 \<le> length pg"
  shows "internal_of (store_internal n pg) = n"
  using load_store_internal(1) [OF assms, where 'a = unit] by (simp add: load_internal_def split: if_splits)

lemma leaf_at_store:
  assumes g: "geometry ps" and pg: "length pg = ps" and n: "leaf_has n kvs" "max_keys (lf_header n) = leaf_max_keys ps"
    "node_type (lf_header n) = leaf_tag"
  shows "leaf_at ps (V(p := store_leaf n pg)) p (parent_page_id (lf_header n)) kvs"
    and "length (store_leaf n pg) = ps" and "load_header (store_leaf n pg) = lf_header n"
proof -
  have "leaf_ok n" "24 + 16 * unat (max_keys (lf_header n)) \<le> length pg"
    using n pg geometry_fits [OF g] by (auto simp: leaf_has_def)
  from leaf_of_store [OF this] load_store_leaf(2,3) [OF this] n pg
  show "leaf_at ps (V(p := store_leaf n pg)) p (parent_page_id (lf_header n)) kvs"
    and "length (store_leaf n pg) = ps" and "load_header (store_leaf n pg) = lf_header n"
    by (simp_all add: leaf_at_def)
qed

lemma node_at_store:
  assumes g: "geometry ps" and pg: "length pg = ps" and n: "internal_has n ks cs"
    "max_keys (in_header n) = internal_max_keys ps" "node_type (in_header n) = internal_tag"
  shows "node_at ps (V(p := store_internal n pg)) p (parent_page_id (in_header n)) ks cs"
    and "length (store_internal n pg) = ps" and "load_header (store_internal n pg) = in_header n"
proof -
  have "internal_ok n" "24 + 12 * unat (max_keys (in_header n)) + 8 \<le> length pg"
    using n pg geometry_fits [OF g] by (auto simp: internal_has_def)
  from internal_of_store [OF this] load_store_internal(2,3) [OF this] n pg
  show "node_at ps (V(p := store_internal n pg)) p (parent_page_id (in_header n)) ks cs"
    and "length (store_internal n pg) = ps" and "load_header (store_internal n pg) = in_header n"
    by (simp_all add: node_at_def)
qed

fun tree_rep :: "nat \<Rightarrow> (page_id \<Rightarrow> page) \<Rightarrow> page_id \<Rightarrow> tree \<Rightarrow> bool" where
  "tree_rep ps V par (Lf p kvs) \<longleftrightarrow> leaf_at ps V p par kvs"
| "tree_rep ps V par (Nd p ts ks) \<longleftrightarrow> node_at ps V p par ks (map root ts) \<and> (\<forall>t \<in> set ts. tree_rep ps V p t)"

fun hole_parent :: "tree_frame list \<Rightarrow> page_id" where
  "hole_parent [] = invalid_page_id"
| "hole_parent ((p, lts, lks, rks, rts) # c) = p"

fun ctx_rep :: "nat \<Rightarrow> (page_id \<Rightarrow> page) \<Rightarrow> tree_frame list \<Rightarrow> page_id \<Rightarrow> bool" where
  "ctx_rep ps V [] r \<longleftrightarrow> True"
| "ctx_rep ps V ((p, lts, lks, rks, rts) # c) r \<longleftrightarrow>
     node_at ps V p (hole_parent c) (lks @ rks) (map root lts @ r # map root rts) \<and>
     (\<forall>t \<in> set lts \<union> set rts. tree_rep ps V p t) \<and> ctx_rep ps V c p"

lemma tree_rep_fill:
  "tree_rep ps V invalid_page_id (fill c t) \<longleftrightarrow> ctx_rep ps V c (root t) \<and> tree_rep ps V (hole_parent c) t"
  by (induction c t rule: fill.induct) auto

lemma leaf_at_cong: "V p = V' p \<Longrightarrow> leaf_at ps V p = leaf_at ps V' p"
  by (simp add: leaf_at_def fun_eq_iff)

lemma node_at_cong: "V p = V' p \<Longrightarrow> node_at ps V p = node_at ps V' p"
  by (simp add: node_at_def fun_eq_iff)

lemma tree_rep_cong: "(\<And>p. p \<in> set (pages t) \<Longrightarrow> V p = V' p) \<Longrightarrow> tree_rep ps V par t = tree_rep ps V' par t"
proof (induction t arbitrary: par)
  case (Lf p kvs)
  then show ?case using leaf_at_cong [of V p V'] by simp
next
  case (Nd p ts ks)
  then have "node_at ps V p = node_at ps V' p" by (intro node_at_cong) simp
  moreover have "tree_rep ps V p t = tree_rep ps V' p t" if "t \<in> set ts" for t
    using Nd.IH [OF that] Nd.prems that by auto
  ultimately show ?case by simp
qed

lemma ctx_rep_cong: "(\<And>p. p \<in> set (ctx_pages c) \<Longrightarrow> V p = V' p) \<Longrightarrow> ctx_rep ps V c r = ctx_rep ps V' c r"
proof (induction c arbitrary: r)
  case (Cons fr c)
  obtain p lts lks rks rts where fr: "fr = (p, lts, lks, rks, rts)" by (cases fr)
  have "node_at ps V p = node_at ps V' p" by (rule node_at_cong) (use Cons.prems in \<open>simp add: fr\<close>)
  moreover have "tree_rep ps V p t = tree_rep ps V' p t" if "t \<in> set lts \<union> set rts" for t
    by (rule tree_rep_cong) (use Cons.prems that in \<open>auto simp: fr\<close>)
  ultimately show ?case using Cons by (simp add: fr)
qed simp

lemma tree_rep_upd: "p \<notin> set (pages t) \<Longrightarrow> tree_rep ps (V(p := pg)) par t = tree_rep ps V par t"
  by (rule tree_rep_cong) auto

lemma ctx_rep_upd: "p \<notin> set (ctx_pages c) \<Longrightarrow> ctx_rep ps (V(p := pg)) c r = ctx_rep ps V c r"
  by (rule ctx_rep_cong) auto

subsection \<open>Parent pointers and leaf links\<close>

definition set_parent :: "page_id \<Rightarrow> page \<Rightarrow> page" where
  "set_parent q pg = store_header ((load_header pg)\<lparr>parent_page_id := q\<rparr>) pg"

definition next_of :: "page \<Rightarrow> page_id" where
  "next_of pg = next_page_id (load_header pg)"

lemma length_set_parent [simp]: "24 \<le> length pg \<Longrightarrow> length (set_parent q pg) = length pg"
  by (simp add: set_parent_def)

lemma next_of_set_parent [simp]: "24 \<le> length pg \<Longrightarrow> next_of (set_parent q pg) = next_of pg"
  by (simp add: set_parent_def next_of_def)

lemma set_parent_nodes:
  assumes "24 \<le> length pg"
  shows "leaf_of (set_parent q pg) = (leaf_of pg)\<lparr>lf_header := (load_header pg)\<lparr>parent_page_id := q\<rparr>\<rparr>"
    and "internal_of (set_parent q pg) = (internal_of pg)\<lparr>in_header := (load_header pg)\<lparr>parent_page_id := q\<rparr>\<rparr>"
    and "load_header (set_parent q pg) = (load_header pg)\<lparr>parent_page_id := q\<rparr>"
  using assms by (simp_all add: set_parent_def leaf_of_def internal_of_def Let_def)

lemma tree_rep_set_parent:
  assumes "tree_rep ps V par t" and "24 \<le> length (V (root t))" and "distinct (pages t)"
  shows "tree_rep ps (V(root t := set_parent q (V (root t)))) q t"
proof (cases t)
  case (Lf p kvs)
  with assms show ?thesis
    by (auto simp: leaf_at_def set_parent_nodes intro: leaf_has_header)
next
  case (Nd p ts ks)
  have "tree_rep ps (V(p := set_parent q (V p))) p u = tree_rep ps V p u" if "u \<in> set ts" for u
    by (rule tree_rep_upd) (use assms(3) that Nd in auto)
  with Nd assms show ?thesis
    by (auto simp: node_at_def set_parent_nodes intro: internal_has_header)
qed

fun chain :: "(page_id \<Rightarrow> page) \<Rightarrow> page_id list \<Rightarrow> page_id \<Rightarrow> bool" where
  "chain V [] e \<longleftrightarrow> True"
| "chain V (p # ls) e \<longleftrightarrow> next_of (V p) = hd (ls @ [e]) \<and> chain V ls e"

lemma chain_append: "chain V (xs @ ys) e \<longleftrightarrow> chain V xs (hd (ys @ [e])) \<and> chain V ys e"
proof (induction xs)
  case (Cons x xs)
  then show ?case by (cases xs) auto
qed simp

lemma chain_cong: "(\<And>p. p \<in> set ls \<Longrightarrow> next_of (V p) = next_of (V' p)) \<Longrightarrow> chain V ls e = chain V' ls e"
  by (induction ls) auto

lemma chain_split:
  assumes ch: "chain V (xs @ p # ys) e"
    and same: "\<And>q. q \<in> set xs \<union> set ys \<Longrightarrow> next_of (V' q) = next_of (V q)"
    and new: "next_of (V' p) = r" "next_of (V' r) = next_of (V p)"
  shows "chain V' (xs @ p # r # ys) e"
proof -
  have "chain V' xs p" using ch same chain_cong [of xs V' V p] by (simp add: chain_append)
  moreover have "chain V' ys e" using ch same chain_cong [of ys V' V e] by (simp add: chain_append)
  ultimately show ?thesis using ch new by (simp add: chain_append)
qed

lemma chain_merge:
  assumes ch: "chain V (xs @ p # r # ys) e"
    and same: "\<And>q. q \<in> set xs \<union> set ys \<Longrightarrow> next_of (V' q) = next_of (V q)"
    and new: "next_of (V' p) = next_of (V r)"
  shows "chain V' (xs @ p # ys) e"
proof -
  have "chain V' xs p" using ch same chain_cong [of xs V' V p] by (simp add: chain_append)
  moreover have "chain V' ys e" using ch same chain_cong [of ys V' V e] by (simp add: chain_append)
  ultimately show ?thesis using ch new by (simp add: chain_append)
qed

subsection \<open>The invariant of an index\<close>

text \<open>\<open>tot\<close> is the number of the next page of every file.\<close>

definition pages_ok :: "u32 \<Rightarrow> (u32 \<Rightarrow> u32) \<Rightarrow> page_id list \<Rightarrow> bool" where
  "pages_ok fid tot ps \<longleftrightarrow> (\<forall>p \<in> set ps. file_id p = fid \<and> page_num p < tot fid)"

definition tree_inv :: "nat \<Rightarrow> u32 \<Rightarrow> (u32 \<Rightarrow> u32) \<Rightarrow> (page_id \<Rightarrow> page) \<Rightarrow> tree \<Rightarrow> bool" where
  "tree_inv ps fid tot V t \<longleftrightarrow> tree_rep ps V invalid_page_id t \<and> ordered (- 2147483648) 2147483648 t \<and> balanced t \<and>
     distinct (pages t) \<and> chain V (leaves t) invalid_page_id \<and> pages_ok fid tot (pages t)"

lemma page_not_invalid: "page_num p < n \<Longrightarrow> p \<noteq> invalid_page_id"
proof
  assume "page_num p < n" and "p = invalid_page_id"
  then have "(- 1 :: u32) < n" by (simp add: invalid_page_id_def)
  then show False by (metis word_n1_ge not_le)
qed

lemma fresh_page: "pages_ok fid tot ps \<Longrightarrow> \<lparr>file_id = fid, page_num = tot fid\<rparr> \<notin> set ps"
  by (auto simp: pages_ok_def)

end
