(* ===== verification/BTree_Laws.thy ===== *)
theory BTree_Laws
  imports BTree_Rep
begin

text \<open>
  Searching, range scans, insertion and deletion in an index over any page pool that meets
  \<open>page_pool\<close>. The lemmas are about total correctness: from a state that represents a tree, with a
  few frames free, the operation returns, and the new state represents the changed tree. Pages of
  other files are never changed.
\<close>

subsection \<open>Positions and contents\<close>

lemma binary_search_pos:
  assumes "sorted_wrt (<) (xs @ ys)" and "\<forall>x \<in> set xs. x < key" and "\<forall>y \<in> set ys. key < y"
  shows "binary_search (xs @ ys) key = Inl (length xs)"
proof (cases "binary_search (xs @ ys) key")
  case (Inr i)
  from binary_search_Inr [OF assms(1) Inr] have "key \<in> set (xs @ ys)" by (metis in_set_conv_nth)
  with assms(2,3) show ?thesis by auto
next
  case (Inl i)
  note i = binary_search_Inl [OF assms(1) Inl]
  have "\<not> i < length xs"
  proof
    assume "i < length xs"
    then have "xs ! i \<in> set (drop i (xs @ ys))" "xs ! i \<in> set xs"
      by (metis Cons_nth_drop_Suc append_Cons drop_append length_append list.set_intros(1) trans_less_add1 nth_append) (use \<open>i < length xs\<close> in simp)
    with i assms(2) show False by fastforce
  qed
  moreover have "\<not> length xs < i"
  proof
    assume "length xs < i"
    moreover from this i have "ys \<noteq> []" by auto
    ultimately have "hd ys \<in> set (take i (xs @ ys))" "hd ys \<in> set ys"
      by (cases ys; cases "i - length xs"; simp)+
    with i assms(3) show False by fastforce
  qed
  ultimately show ?thesis using Inl by simp
qed

lemma binary_search_map_of:
  assumes "sorted_wrt (<) (map fst kvs)"
  shows "map_of kvs key = (case binary_search (map fst kvs) key of Inr i \<Rightarrow> Some (snd (kvs ! i)) | Inl _ \<Rightarrow> None)"
proof (cases "binary_search (map fst kvs) key")
  case (Inl i)
  then have "key \<notin> set (map fst kvs)" using binary_search_member [OF assms, of key] by auto
  then show ?thesis using Inl by (simp add: map_of_eq_None_iff)
next
  case (Inr i)
  have "i < length kvs" "map fst kvs ! i = key" using binary_search_Inr [OF assms Inr] by simp_all
  moreover have "distinct (map fst kvs)" using assms strict_sorted_iff by blast
  ultimately have "map_of kvs key = Some (snd (kvs ! i))"
    by (metis length_map map_of_eq_Some_iff nth_map nth_mem prod.collapse)
  with Inr show ?thesis by simp
qed

lemma child_index_spec:
  assumes "sorted_wrt (<) ks"
  shows "child_index ks key \<le> length ks" and "\<forall>k \<in> set (take (child_index ks key) ks). k \<le> key"
    and "\<forall>k \<in> set (drop (child_index ks key) ks). key < k"
proof -
  have "child_index ks key \<le> length ks \<and> (\<forall>k \<in> set (take (child_index ks key) ks). k \<le> key) \<and>
      (\<forall>k \<in> set (drop (child_index ks key) ks). key < k)"
  proof (cases "binary_search ks key")
    case (Inl i)
    then show ?thesis using binary_search_Inl [OF assms Inl] by (fastforce simp: child_index_def)
  next
    case (Inr i)
    note i = binary_search_Inr [OF assms Inr]
    then have ks: "ks = take i ks @ key # drop (Suc i) ks" by (metis id_take_nth_drop)
    then have "sorted_wrt (<) (take i ks @ key # drop (Suc i) ks)" using assms by simp
    then have "\<forall>x \<in> set (take i ks). x < key" "\<forall>y \<in> set (drop (Suc i) ks). key < y"
      by (simp_all add: sorted_wrt_append)
    moreover have "take (Suc i) ks = take i ks @ [key]" using i by (simp add: take_Suc_conv_app_nth)
    ultimately show ?thesis using i Inr by (fastforce simp: child_index_def)
  qed
  then show "child_index ks key \<le> length ks" and "\<forall>k \<in> set (take (child_index ks key) ks). k \<le> key"
    and "\<forall>k \<in> set (drop (child_index ks key) ks). key < k" by blast+
qed

lemma seg_end: "seg lo ts ks m \<Longrightarrow> (ks = [] \<and> m = lo) \<or> m \<in> set ks"
proof (cases ks rule: rev_cases)
  case Nil
  moreover assume "seg lo ts ks m"
  ultimately show ?thesis using seg_length [of lo ts ks m] by auto
next
  case (snoc xs x)
  moreover assume "seg lo ts ks m"
  ultimately show ?thesis using seg_last [of lo ts xs x m] by simp
qed

text \<open>One step down: the child that may hold the key, with the context around it.\<close>

lemma descend:
  assumes c: "ctx_ord LO HI c lo hi" and t: "ordered lo hi (Nd p ts ks)" and key: "lo \<le> key" "key < hi"
    and i: "i = child_index ks key"
  obtains lo' hi' where "i < length ts" and "i \<le> length ks" and "length ts = Suc (length ks)"
    and "ctx_ord LO HI ((p, take i ts, take i ks, drop i ks, drop (Suc i) ts) # c) lo' hi'"
    and "ordered lo' hi' (ts ! i)" and "lo' \<le> key" and "key < hi'" and "sorted_wrt (<) ks"
proof -
  have seg: "seg lo ts (ks @ [hi]) hi" using t by simp
  have len: "length ts = Suc (length ks)" using seg_length [OF seg] by simp
  have srt: "sorted_wrt (<) ks" using seg_bounds [OF seg] by (simp add: sorted_wrt_append)
  note ci = child_index_spec [OF srt, of key, folded i]
  obtain y rest where y: "drop i ks @ [hi] = y # rest" by (cases "drop i ks @ [hi]") auto
  have "seg lo (take i ts @ ts ! i # drop (Suc i) ts) (take i ks @ y # rest) hi"
    using seg ci(1) len y by (metis append.assoc append_take_drop_id id_take_nth_drop le_imp_less_Suc)
  then obtain m where m: "seg lo (take i ts) (take i ks) m" "m < y" "ordered m y (ts ! i)" "seg y (drop (Suc i) ts) rest hi"
    using ci(1) len by (subst (asm) seg_append) auto
  have "m \<le> key" using seg_end [OF m(1)] ci(2) key(1) by auto
  moreover have "key < y" using y ci(3) key(2) by (cases "drop i ks") auto
  moreover have "ctx_ord LO HI ((p, take i ts, take i ks, drop i ks, drop (Suc i) ts) # c) m y"
    using c m y ci(1) len by auto
  ultimately show ?thesis using that [of m y] m ci(1) len srt by auto
qed

lemma ctx_entries:
  "ctx_ord LO HI c lo hi \<Longrightarrow> (\<forall>k \<in> fst ` set (lentries c). k < lo) \<and> (\<forall>k \<in> fst ` set (rentries c). hi \<le> k)"
proof (induction c arbitrary: lo hi)
  case (Cons fr c)
  obtain p lts lks rks rts where fr: "fr = (p, lts, lks, rks, rts)" by (cases fr)
  obtain lo' hi' rest where *: "ctx_ord LO HI c lo' hi'" "seg lo' lts lks lo" "seg hi rts rest hi'" "hi \<le> hi'" "lo' \<le> lo"
    using Cons.prems unfolding fr by (rule ctx_ord_frame)
  have "\<forall>k \<in> fst ` set (concat (map entries lts)). k < lo" using ordered_entries(2) [OF *(2)] by blast
  moreover have "\<forall>k \<in> fst ` set (concat (map entries rts)). hi \<le> k" using ordered_entries(2) [OF *(3)] by blast
  ultimately show ?case
    using Cons.IH [OF *(1)] *(4,5) unfolding fr lentries.simps rentries.simps set_append image_Un by fastforce
qed simp

text \<open>What the tree holds for a key of the hole is what the leaf holds.\<close>

lemma map_of_fill:
  assumes "ctx_ord LO HI c lo hi" and "lo \<le> key" and "key < hi"
  shows "map_of (entries (fill c t)) key = map_of (entries t) key"
proof -
  have "key \<notin> fst ` set (lentries c)" "key \<notin> fst ` set (rentries c)"
    using ctx_entries [OF assms(1)] assms(2,3) by auto
  then have "map_of (lentries c) key = None" "map_of (rentries c) key = None"
    by (simp_all add: map_of_eq_None_iff)
  then show ?thesis by (simp add: entries_fill map_add_def split: option.split)
qed

subsection \<open>Steps on the pool\<close>

context page_pool begin

text \<open>A session of the index's pool, with its root and its file.\<close>

definition bsession :: "(page_id \<Rightarrow> nat) \<Rightarrow> nat \<Rightarrow> (u32 \<Rightarrow> u32) \<Rightarrow> (page_id \<Rightarrow> page) \<Rightarrow>
    (page_id \<times> nat) list \<Rightarrow> page_id set \<Rightarrow> page_id option \<Rightarrow> u32 \<Rightarrow> 's btree \<Rightarrow> bool" where
  "bsession base cap tot V held W r fid b \<longleftrightarrow>
     session base cap tot V held W (bt_pool b) \<and> bt_root b = r \<and> bt_file b = fid"

lemma step_fetch:
  assumes "bsession base cap tot V held W r fid b" and "spare base cap n" and "length held < n"
  obtains f b' where "pool_op (pg_fetch P p) b = Some (Ok f, b')" and "bsession base cap tot V ((p, f) # held) W r fid b'"
proof -
  obtain f s' where "pg_fetch P p (bt_pool b) = (Ok f, s')" "session base cap tot V ((p, f) # held) W s'"
    using assms session_fetch unfolding bsession_def by blast
  then show ?thesis using assms(1) by (intro that [of f "b\<lparr>bt_pool := s'\<rparr>"]) (simp_all add: pool_op_def total_def bsession_def)
qed

lemma step_new:
  assumes "bsession base cap tot V held W r fid b" and "spare base cap n" and "length held < n"
    and "p = \<lparr>file_id = g, page_num = tot g\<rparr>"
  obtains f b' where "pool_op (pg_new P g) b = Some (Ok (f, p), b')"
    and "bsession base cap (tot(g := tot g + 1)) V ((p, f) # held) W r fid b'"
proof -
  obtain f s' where "pg_new P g (bt_pool b) = (Ok (f, p), s')"
      "session base cap (tot(g := tot g + 1)) V ((p, f) # held) W s'"
    using assms session_new unfolding bsession_def by blast
  then show ?thesis using assms(1) by (intro that [of f "b\<lparr>bt_pool := s'\<rparr>"]) (simp_all add: pool_op_def total_def bsession_def)
qed

lemma step_unpin:
  assumes "bsession base cap tot V held W r fid b" and "(p, f) \<in> set held" and "dirty \<or> p \<notin> W"
  obtains b' where "pool_op (pg_unpin P p dirty) b = Some (Ok (), b')"
    and "bsession base cap tot V (remove1 (p, f) held) (if dirty then W - {p} else W) r fid b'"
proof -
  obtain s' where "pg_unpin P p dirty (bt_pool b) = (Ok (), s')"
      "session base cap tot V (remove1 (p, f) held) (if dirty then W - {p} else W) s'"
    using assms session_unpin unfolding bsession_def by blast
  then show ?thesis using assms(1) by (intro that [of "b\<lparr>bt_pool := s'\<rparr>"]) (simp_all add: pool_op_def total_def bsession_def)
qed

lemma unpin_ignoring_Ok: "pool_op (pg_unpin P p dirty) b = Some (Ok (), b') \<Longrightarrow> unpin_ignoring P p dirty b = Some (Ok (), b')"
  by (simp add: unpin_ignoring_def act_simps)

lemma step_read:
  "bsession base cap tot V held W r fid b \<Longrightarrow> (p, f) \<in> set held \<Longrightarrow> pool_op (pg_read P f) b = Some (Ok (V p), b)"
  using session_read by (fastforce simp: bsession_def pool_op_def total_def)

lemma step_write:
  assumes "bsession base cap tot V held W r fid b" and "(p, f) \<in> set held" and "length pg = pg_size P"
  obtains b' where "pool_op (pg_write P f pg) b = Some (Ok (), b')"
    and "bsession base cap tot (V(p := pg)) held (insert p W) r fid b'"
proof -
  obtain s' where "pg_write P f pg (bt_pool b) = (Ok (), s')" "session base cap tot (V(p := pg)) held (insert p W) s'"
    using assms session_write unfolding bsession_def by blast
  then show ?thesis using assms(1) by (intro that [of "b\<lparr>bt_pool := s'\<rparr>"]) (simp_all add: pool_op_def total_def bsession_def)
qed

lemma bsession_size: "bsession base cap tot V held W r fid b \<Longrightarrow> length (V p) = pg_size P"
  using session_size by (auto simp: bsession_def)

subsection \<open>The descent and the search\<close>

lemma find_leaf_loop_spec:
  assumes g: "geometry (pg_size P)" and room: "spare base cap 1"
    and "bsession base cap tot V [] {} r fid b" and "tree_rep (pg_size P) V par t"
    and "ctx_ord LO HI c lo hi" and "ordered lo hi t" and "lo \<le> key" and "key < hi"
  shows "\<exists>c' p kvs f b' lo' hi'. find_leaf_loop P key (root t) b = Some (Ok (Some (f, p)), b') \<and>
    bsession base cap tot V [(p, f)] {} r fid b' \<and> fill c' (Lf p kvs) = fill c t \<and>
    ctx_ord LO HI c' lo' hi' \<and> ordered lo' hi' (Lf p kvs) \<and> lo' \<le> key \<and> key < hi'"
  using assms(3-)
proof (induction t arbitrary: par c lo hi b)
  case (Lf p kvs)
  obtain f b' where 1: "pool_op (pg_fetch P p) b = Some (Ok f, b')" "bsession base cap tot V [(p, f)] {} r fid b'"
    by (rule step_fetch [OF Lf(1) room]) simp
  have 2: "pool_op (pg_read P f) b' = Some (Ok (V p), b')" by (rule step_read [OF 1(2)]) simp
  have "node_type (load_header (V p)) = leaf_tag" using Lf(2) by (simp add: leaf_at_def)
  then have "find_leaf_loop P key p b = Some (Ok (Some (f, p)), b')"
    by (subst find_leaf_loop.simps) (simp add: act_simps 1(1) 2)
  with 1(2) Lf show ?case by fastforce
next
  case (Nd p ts ks)
  obtain f b1 where 1: "pool_op (pg_fetch P p) b = Some (Ok f, b1)" "bsession base cap tot V [(p, f)] {} r fid b1"
    by (rule step_fetch [OF Nd.prems(1) room]) simp
  have 2: "pool_op (pg_read P f) b1 = Some (Ok (V p), b1)" by (rule step_read [OF 1(2)]) simp
  obtain b2 where 3: "pool_op (pg_unpin P p False) b1 = Some (Ok (), b2)" "bsession base cap tot V [] {} r fid b2"
    by (rule step_unpin [OF 1(2), of p f False]) auto
  have at: "node_at (pg_size P) V p par ks (map root ts)" using Nd.prems(2) by simp
  define i where "i = child_index ks key"
  obtain lo' hi' where i: "i < length ts" "i \<le> length ks" "length ts = Suc (length ks)"
      "ctx_ord LO HI ((p, take i ts, take i ks, drop i ks, drop (Suc i) ts) # c) lo' hi'"
      "ordered lo' hi' (ts ! i)" "lo' \<le> key" "key < hi'"
    by (rule descend [OF Nd.prems(3,4,5,6) i_def]) blast
  have has: "internal_has (internal_of (V p)) ks (map root ts)" using at by (simp add: node_at_def)
  note h = internal_hasD [OF has]
  have tag: "node_type (load_header (V p)) = internal_tag" using at by (simp add: node_at_def)
  have idx: "index i (in_children (internal_of (V p))) = Ok (root (ts ! i))"
  proof -
    have "in_children (internal_of (V p)) ! i = take (Suc (length ks)) (in_children (internal_of (V p))) ! i"
      using i(2) by simp
    also have "\<dots> = root (ts ! i)" using h(3) i(1) by simp
    finally show ?thesis using h(4,6) i(2) by simp
  qed
  have sl: "slice_to (length ks) (in_keys (internal_of (V p))) = Ok ks" using h(2,4,5) by simp
  have n: "unat (num_keys (load_header (V p))) = length ks" using h(1) by simp
  have "find_leaf_loop P key p b = find_leaf_loop P key (root (ts ! i)) b2"
    by (subst find_leaf_loop.simps)
      (simp add: act_simps 1(1) 2 3(1) tag n sl i_def [symmetric] idx
        node_at_load [OF g bsession_size [OF 1(2)] at])
  moreover have "fill ((p, take i ts, take i ks, drop i ks, drop (Suc i) ts) # c) (ts ! i) = fill c (Nd p ts ks)"
    using i(1) by (simp add: id_take_nth_drop [symmetric])
  moreover have "ts ! i \<in> set ts" "tree_rep (pg_size P) V p (ts ! i)" using i(1) Nd.prems(2) by simp_all
  ultimately show ?case using Nd.IH [OF _ 3(2) _ i(4-7)] by simp
qed

text \<open>From the root, with the invariant spelled out for the leaf that was found.\<close>

lemma find_leaf_page_spec:
  assumes g: "geometry (pg_size P)" and room: "spare base cap 1"
    and b: "bsession base cap tot V [] {} (Some (root t)) fid b" and inv: "tree_inv (pg_size P) fid tot V t"
    and key: "i32_range key"
  obtains c p kvs f b' lo hi where "find_leaf_page P key b = Some (Ok (Some (f, p)), b')"
    and "bsession base cap tot V [(p, f)] {} (Some (root t)) fid b'" and "t = fill c (Lf p kvs)"
    and "ctx_ord (- 2147483648) 2147483648 c lo hi" and "ordered lo hi (Lf p kvs)" and "lo \<le> key" and "key < hi"
    and "leaf_at (pg_size P) V p (hole_parent c) kvs" and "map_of (entries t) key = map_of kvs key"
proof -
  have rep: "tree_rep (pg_size P) V invalid_page_id t" and ord: "ordered (- 2147483648) 2147483648 t"
    using inv by (simp_all add: tree_inv_def)
  have "bt_root b = Some (root t)" using b by (simp add: bsession_def)
  then have fl: "find_leaf_page P key b = find_leaf_loop P key (root t) b" by (simp add: find_leaf_page_def)
  obtain c p kvs f b' lo hi where *: "find_leaf_loop P key (root t) b = Some (Ok (Some (f, p)), b')"
      "bsession base cap tot V [(p, f)] {} (Some (root t)) fid b'" "fill c (Lf p kvs) = fill [] t"
      "ctx_ord (- 2147483648) 2147483648 c lo hi" "ordered lo hi (Lf p kvs)" "lo \<le> key" "key < hi"
    using find_leaf_loop_spec [OF g room b rep, of "- 2147483648" 2147483648 "[]" "- 2147483648" 2147483648 key] ord key
    by (fastforce simp: i32_range_def)
  have t: "t = fill c (Lf p kvs)" using *(3) by simp
  moreover have "leaf_at (pg_size P) V p (hole_parent c) kvs" using rep unfolding t tree_rep_fill by simp
  moreover have "map_of (entries t) key = map_of kvs key" unfolding t by (simp add: map_of_fill [OF *(4,6,7)])
  ultimately show ?thesis using that * fl by metis
qed

lemma tree_search_spec:
  assumes g: "geometry (pg_size P)" and room: "spare base cap 1"
    and b: "bsession base cap tot V [] {} (Some (root t)) fid b" and inv: "tree_inv (pg_size P) fid tot V t"
    and key: "i32_range key"
  shows "\<exists>b'. tree_search P key b = Some (ok_or (map_of (entries t) key) KeyNotFound, b') \<and>
    bsession base cap tot V [] {} (Some (root t)) fid b'"
proof -
  obtain c p kvs f b1 lo hi where 1: "find_leaf_page P key b = Some (Ok (Some (f, p)), b1)"
      "bsession base cap tot V [(p, f)] {} (Some (root t)) fid b1" "ordered lo hi (Lf p kvs)"
      "leaf_at (pg_size P) V p (hole_parent c) kvs" "map_of (entries t) key = map_of kvs key"
    by (rule find_leaf_page_spec [OF assms])
  have 2: "pool_op (pg_read P f) b1 = Some (Ok (V p), b1)" by (rule step_read [OF 1(2)]) simp
  obtain b2 where 3: "pool_op (pg_unpin P p False) b1 = Some (Ok (), b2)" "bsession base cap tot V [] {} (Some (root t)) fid b2"
    by (rule step_unpin [OF 1(2), of p f False]) auto
  have has: "leaf_has (leaf_of (V p)) kvs" using 1(4) by (simp add: leaf_at_def)
  note h = leaf_hasD [OF has]
  have sl: "slice_to (length kvs) (lf_keys (leaf_of (V p))) = Ok (map fst kvs)" using h(2,4,5) by simp
  have n: "unat (num_keys (load_header (V p))) = length kvs" using h(1) by simp
  have srt: "sorted_wrt (<) (map fst kvs)" using 1(3) by simp
  have fv: "(case binary_search (map fst kvs) key of
      Inr idx \<Rightarrow> res_bind (index idx (lf_values (leaf_of (V p)))) (\<lambda>v. Ok (Some v)) | Inl _ \<Rightarrow> Ok None) = Ok (map_of kvs key)"
  proof (cases "binary_search (map fst kvs) key")
    case (Inr i)
    have i: "i < length kvs" using binary_search_Inr [OF srt Inr] by simp
    then have "lf_values (leaf_of (V p)) ! i = snd (kvs ! i)"
      using h(3) by (metis nth_map nth_take)
    with i h(4,6) Inr show ?thesis by (simp add: binary_search_map_of [OF srt])
  qed (simp add: binary_search_map_of [OF srt])
  have "tree_search P key b = Some (ok_or (map_of kvs key) KeyNotFound, b2)"
    by (simp add: tree_search_def act_simps 1(1) 2 3(1) n sl fv
        leaf_at_load [OF g bsession_size [OF 1(2)] 1(4)])
  with 3(2) 1(5) show ?thesis by simp
qed

end

end
