(* ===== verification/BTree_Insert.thy ===== *)
theory BTree_Insert
  imports BTree_Laws
begin

text \<open>
  Insertion into an index: into a leaf with room, and with splits of leaves and internal nodes up
  to a new root.
\<close>

subsection \<open>Contents after a change in the hole\<close>

lemma map_of_fill_upd:
  assumes "ctx_ord LO HI c lo hi" and "lo \<le> key" and "key < hi"
    and "map_of (entries t') = (map_of (entries t))(key := v)"
  shows "map_of (entries (fill c t')) = (map_of (entries (fill c t)))(key := v)"
proof
  fix x
  show "map_of (entries (fill c t')) x = ((map_of (entries (fill c t)))(key := v)) x"
  proof (cases "x = key")
    case True
    then show ?thesis using assms map_of_fill [OF assms(1-3)] by simp
  next
    case False
    then show ?thesis using assms(4) by (simp add: entries_fill map_add_def)
  qed
qed

lemma map_of_insert_at: "key \<notin> set (map fst kvs) \<Longrightarrow> map_of (insert_at i (key, v) kvs) = (map_of kvs)(key \<mapsto> v)"
proof -
  assume key: "key \<notin> set (map fst kvs)"
  then have "key \<notin> fst ` set (take i kvs)" by (auto dest: in_set_takeD)
  then have "map_of (take i kvs) key = None" by (simp add: map_of_eq_None_iff)
  moreover have "map_of kvs = map_of (drop i kvs) ++ map_of (take i kvs)"
    by (metis append_take_drop_id map_of_append)
  ultimately show ?thesis by (auto simp: insert_at_def map_add_def fun_eq_iff split: option.split)
qed

lemma root_fill: "root t = root t' \<Longrightarrow> root (fill c t) = root (fill c t')"
proof (induction c arbitrary: t t')
  case (Cons fr c)
  obtain p lts lks rks rts where fr: "fr = (p, lts, lks, rks, rts)" by (cases fr)
  show ?case unfolding fr fill.simps by (rule Cons.IH) simp
qed simp

lemma insert_at_sorted:
  assumes "sorted_wrt (<) (map fst kvs)" and "binary_search (map fst kvs) key = Inl i"
  shows "sorted_wrt (<) (map fst (insert_at i (key, v) kvs))" and "i \<le> length kvs" and "key \<notin> set (map fst kvs)"
proof -
  note i = binary_search_Inl [OF assms]
  have kvs: "map fst kvs = take i (map fst kvs) @ drop i (map fst kvs)" by simp
  have "\<forall>x \<in> set (take i (map fst kvs)). \<forall>y \<in> set (drop i (map fst kvs)). x < y" using i by fastforce
  then have "sorted_wrt (<) (take i (map fst kvs) @ key # drop i (map fst kvs))"
    using i sorted_wrt_take [OF assms(1)] sorted_wrt_drop [OF assms(1)] by (simp add: sorted_wrt_append)
  then show "sorted_wrt (<) (map fst (insert_at i (key, v) kvs))" by (simp add: insert_at_def take_map drop_map)
  show "i \<le> length kvs" using i by simp
  show "key \<notin> set (map fst kvs)" using i by (subst kvs) (auto simp del: append_take_drop_id)
qed

subsection \<open>Changing one leaf\<close>

lemma tree_inv_leaf_update:
  assumes inv: "tree_inv ps fid tot V (fill c (Lf p kvs))" and c: "ctx_ord (- 2147483648) 2147483648 c lo hi"
    and ord: "ordered lo hi (Lf p kvs')" and at: "leaf_at ps (V(p := pg)) p (hole_parent c) kvs'"
    and nxt: "next_of pg = next_of (V p)"
  shows "tree_inv ps fid tot (V(p := pg)) (fill c (Lf p kvs'))"
proof -
  have pages: "mset (pages (fill c (Lf p kvs'))) = mset (pages (fill c (Lf p kvs)))" by (simp add: mset_pages_fill)
  then have "set (pages (fill c (Lf p kvs'))) = set (pages (fill c (Lf p kvs)))" by (rule mset_eq_setD)
  moreover have d: "distinct (pages (fill c (Lf p kvs')))"
    using inv pages mset_eq_imp_distinct_iff by (fastforce simp: tree_inv_def)
  then have "p \<notin> set (ctx_pages c)" by (simp add: distinct_pages_fill)
  then have "tree_rep ps (V(p := pg)) invalid_page_id (fill c (Lf p kvs'))"
    using inv at by (simp add: tree_inv_def tree_rep_fill ctx_rep_upd)
  moreover have "chain (V(p := pg)) (leaves (fill c (Lf p kvs'))) invalid_page_id"
    using inv nxt chain_cong [of "leaves (fill c (Lf p kvs))" "V(p := pg)" V]
    by (auto simp: tree_inv_def leaves_fill)
  moreover have "balanced (fill c (Lf p kvs'))" using inv by (simp add: tree_inv_def balanced_fill)
  ultimately show ?thesis
    using inv d ordered_fill [OF c ord] by (simp add: tree_inv_def pages_ok_def)
qed

context page_pool begin

lemma insert_into_leaf_room:
  assumes g: "geometry (pg_size P)" and b: "bsession base cap tot V [(p, f)] {} r fid b"
    and inv: "tree_inv (pg_size P) fid tot V (fill c (Lf p kvs))" and c: "ctx_ord (- 2147483648) 2147483648 c lo hi"
    and ord: "ordered lo hi (Lf p kvs)" and at: "leaf_at (pg_size P) V p (hole_parent c) kvs"
    and key: "i32_range key" "lo \<le> key" "key < hi" and new: "binary_search (map fst kvs) key = Inl i"
    and room: "length kvs < unat (leaf_max_keys (pg_size P))"
  shows "\<exists>b' pg. insert_into_leaf P f p key v b = Some (Ok (), b') \<and> bsession base cap tot (V(p := pg)) [] {} r fid b' \<and>
    tree_inv (pg_size P) fid tot (V(p := pg)) (fill c (Lf p (insert_at i (key, v) kvs)))"
proof -
  have 1: "pool_op (pg_read P f) b = Some (Ok (V p), b)" by (rule step_read [OF b]) simp
  have has: "leaf_has (leaf_of (V p)) kvs" and hd: "max_keys (load_header (V p)) = leaf_max_keys (pg_size P)"
      "node_type (load_header (V p)) = leaf_tag" "parent_page_id (load_header (V p)) = hole_parent c"
    using at by (simp_all add: leaf_at_def)
  note h = leaf_hasD [OF has]
  have sl: "slice_to (length kvs) (lf_keys (leaf_of (V p))) = Ok (map fst kvs)" using h(2,4,5) by simp
  have n: "unat (num_keys (load_header (V p))) = length kvs" using h(1) by simp
  have srt: "sorted_wrt (<) (map fst kvs)" using ord by simp
  note ins = insert_at_sorted [OF srt new]
  have "length kvs < unat (max_keys (lf_header (leaf_of (V p))))" using room hd by simp
  then obtain n' where n': "leaf_insert_at i (length kvs) key v (leaf_of (V p)) = (Ok n' :: (tree_error, leaf_node) res)"
      "leaf_has n' (insert_at i (key, v) kvs)"
      "lf_header n' = (lf_header (leaf_of (V p)))\<lparr>num_keys := num_keys (lf_header (leaf_of (V p))) + 1\<rparr>"
    by (rule leaf_insert_at_spec [OF has _ ins(2) key(1), where v = v])
  note st = leaf_at_store(1) [OF g bsession_size [OF b, of p] n'(2), where V = V and p = p]
    leaf_at_store(2,3) [OF g bsession_size [OF b, of p] n'(2)]
  obtain b1 where 2: "pool_op (pg_write P f (store_leaf n' (V p))) b = Some (Ok (), b1)"
      "bsession base cap tot (V(p := store_leaf n' (V p))) [(p, f)] {p} r fid b1"
    by (rule step_write [OF b]) (use st n' hd in auto)
  obtain b2 where 3: "pool_op (pg_unpin P p True) b1 = Some (Ok (), b2)"
      "bsession base cap tot (V(p := store_leaf n' (V p))) [] {} r fid b2"
    by (rule step_unpin [OF 2(2), of p f True]) auto
  have "insert_into_leaf P f p key v b = Some (Ok (), b2)"
    using room by (simp add: insert_into_leaf_def act_simps 1 2(1) 3(1) n sl new n' hd
        leaf_at_load [OF g bsession_size [OF b] at])
  moreover have "tree_inv (pg_size P) fid tot (V(p := store_leaf n' (V p))) (fill c (Lf p (insert_at i (key, v) kvs)))"
  proof (rule tree_inv_leaf_update [OF inv c])
    show "ordered lo hi (Lf p (insert_at i (key, v) kvs))" using ins(1) ord key by auto
    show "leaf_at (pg_size P) (V(p := store_leaf n' (V p))) p (hole_parent c) (insert_at i (key, v) kvs)"
      using st n' hd by simp
    show "next_of (store_leaf n' (V p)) = next_of (V p)" using st n' hd by (simp add: next_of_def)
  qed
  ultimately show ?thesis using 3(2) by blast
qed

subsection \<open>New parents\<close>

lemma step_reparent:
  assumes g: "geometry (pg_size P)" and b: "bsession base cap tot V held W r fid b"
    and room: "spare base cap n" "length held < n" and p: "p \<notin> W"
  obtains f b1 b2 b3 where "pool_op (pg_fetch P p) b = Some (Ok f, b1)" and "pool_op (pg_read P f) b1 = Some (Ok (V p), b1)"
    and "pool_op (pg_write P f (set_parent q (V p))) b1 = Some (Ok (), b2)"
    and "pool_op (pg_unpin P p True) b2 = Some (Ok (), b3)"
    and "bsession base cap tot (V(p := set_parent q (V p))) held W r fid b3"
proof -
  obtain f b1 where 1: "pool_op (pg_fetch P p) b = Some (Ok f, b1)" "bsession base cap tot V ((p, f) # held) W r fid b1"
    by (rule step_fetch [OF b room])
  have 2: "pool_op (pg_read P f) b1 = Some (Ok (V p), b1)" by (rule step_read [OF 1(2)]) simp
  have "24 \<le> length (V p)" using bsession_size [OF b] geometry_fits(1) [OF g] by simp
  then obtain b2 where 3: "pool_op (pg_write P f (set_parent q (V p))) b1 = Some (Ok (), b2)"
      "bsession base cap tot (V(p := set_parent q (V p))) ((p, f) # held) (insert p W) r fid b2"
    by (elim step_write [OF 1(2), of p f "set_parent q (V p)", rotated 2]) (use bsession_size [OF b] in simp_all)
  obtain b3 where "pool_op (pg_unpin P p True) b2 = Some (Ok (), b3)"
      "bsession base cap tot (V(p := set_parent q (V p))) held W r fid b3"
    using step_unpin [OF 3(2), of p f True] p by auto
  with 1 2 3 show ?thesis using that by blast
qed

lemma update_parent_id_spec:
  assumes "geometry (pg_size P)" and "bsession base cap tot V held W r fid b"
    and "spare base cap n" "length held < n" and "p \<notin> W"
  obtains b' where "update_parent_id P p q b = Some (Ok (), b')"
    and "bsession base cap tot (V(p := set_parent q (V p))) held W r fid b'"
proof -
  obtain f b1 b2 b3 where 1: "pool_op (pg_fetch P p) b = Some (Ok f, b1)" "pool_op (pg_read P f) b1 = Some (Ok (V p), b1)"
      "pool_op (pg_write P f (set_parent q (V p))) b1 = Some (Ok (), b2)" "pool_op (pg_unpin P p True) b2 = Some (Ok (), b3)"
      "bsession base cap tot (V(p := set_parent q (V p))) held W r fid b3"
    by (rule step_reparent [OF assms])
  then show ?thesis by (intro that) (simp_all add: update_parent_id_def act_simps flip: set_parent_def)
qed

definition reparented :: "page_id \<Rightarrow> page_id list \<Rightarrow> (page_id \<Rightarrow> page) \<Rightarrow> page_id \<Rightarrow> page" where
  "reparented q cs V = (\<lambda>p. if p \<in> set cs then set_parent q (V p) else V p)"

lemma reparent_spec:
  assumes g: "geometry (pg_size P)" and room: "spare base cap n" "length held < n"
    and "bsession base cap tot V held W r fid b" and "set cs \<inter> W = {}" and "distinct cs"
  shows "\<exists>b'. reparent P q cs b = Some (Ok (), b') \<and> bsession base cap tot (reparented q cs V) held W r fid b'"
  using assms(4-)
proof (induction cs arbitrary: V b)
  case Nil
  then show ?case by (simp add: act_simps reparented_def)
next
  case (Cons p cs)
  obtain f b1 b2 b3 where 1: "pool_op (pg_fetch P p) b = Some (Ok f, b1)" "pool_op (pg_read P f) b1 = Some (Ok (V p), b1)"
      "pool_op (pg_write P f (set_parent q (V p))) b1 = Some (Ok (), b2)" "pool_op (pg_unpin P p True) b2 = Some (Ok (), b3)"
      "bsession base cap tot (V(p := set_parent q (V p))) held W r fid b3"
    by (rule step_reparent [OF g Cons.prems(1) room]) (use Cons.prems in auto)
  obtain b' where 2: "reparent P q cs b3 = Some (Ok (), b')"
      "bsession base cap tot (reparented q cs (V(p := set_parent q (V p)))) held W r fid b'"
    using Cons.IH [OF 1(5)] Cons.prems(2,3) by fastforce
  have "reparent P q (p # cs) b = Some (Ok (), b')"
    by (simp add: act_simps 1 2(1) unpin_ignoring_Ok [OF 1(4)] flip: set_parent_def)
  moreover have "reparented q cs (V(p := set_parent q (V p))) = reparented q (p # cs) V"
    using Cons.prems(3) by (auto simp: reparented_def fun_eq_iff)
  ultimately show ?case using 2(2) by auto
qed

text \<open>The fresh node the code makes on a new page.\<close>

lemma fresh_internal:
  assumes g: "geometry (pg_size P)" and len: "length pg = pg_size P" and h: "max_keys h = internal_max_keys (pg_size P)"
  obtains n where "load_internal (store_header h pg) = (Ok n :: (tree_error, internal_node) res)"
    and "internal_ok n" and "in_header n = h"
proof -
  have 24: "24 \<le> length pg" "24 + 12 * unat (max_keys h) + 8 \<le> length pg" using geometry_fits [OF g] len h by auto
  then have "(load_internal (store_header h pg) :: (tree_error, internal_node) res) = Ok (internal_of (store_header h pg))"
    by (simp add: load_internal_def)
  moreover from load_internal_ok [OF this]
  have "internal_ok (internal_of (store_header h pg))" "in_header (internal_of (store_header h pg)) = h"
    using 24 by simp_all
  ultimately show ?thesis using that by auto
qed

lemma fresh_leaf:
  assumes g: "geometry (pg_size P)" and len: "length pg = pg_size P" and h: "max_keys h = leaf_max_keys (pg_size P)"
  obtains n where "load_leaf (store_header h pg) = (Ok n :: (tree_error, leaf_node) res)"
    and "leaf_ok n" and "lf_header n = h"
proof -
  have 24: "24 \<le> length pg" "24 + 16 * unat (max_keys h) \<le> length pg" using geometry_fits [OF g] len h by auto
  then have "(load_leaf (store_header h pg) :: (tree_error, leaf_node) res) = Ok (leaf_of (store_header h pg))"
    by (simp add: load_leaf_def)
  moreover from load_leaf_ok [OF this]
  have "leaf_ok (leaf_of (store_header h pg))" "lf_header (leaf_of (store_header h pg)) = h"
    using 24 by simp_all
  ultimately show ?thesis using that by auto
qed

lemma create_new_root_spec:
  assumes g: "geometry (pg_size P)" and b: "bsession base cap tot V [] {} r fid b" and room: "spare base cap 2"
    and new: "n = \<lparr>file_id = fid, page_num = tot fid\<rparr>" and left: "file_id left = fid" and key: "i32_range key"
    and d: "distinct [n, left, right]"
  obtains b' pg where "create_new_root P left key right b = Some (Ok (), b')"
    and "bsession base cap (tot(fid := tot fid + 1))
           (V(n := pg, left := set_parent n (V left), right := set_parent n (V right))) [] {} (Some n) fid b'"
    and "node_at (pg_size P) (V(n := pg)) n invalid_page_id [key] [left, right]"
proof -
  obtain f b1 where 1: "pool_op (pg_new P fid) b = Some (Ok (f, n), b1)"
      "bsession base cap (tot(fid := tot fid + 1)) V [(n, f)] {} r fid b1"
    by (rule step_new [OF b room _ new]) simp
  have 2: "pool_op (pg_read P f) b1 = Some (Ok (V n), b1)" by (rule step_read [OF 1(2)]) simp
  define h where "h = (load_header (V n))\<lparr>node_type := internal_tag, max_keys := internal_max_keys (pg_size P),
    num_keys := 1, parent_page_id := invalid_page_id\<rparr>"
  obtain m where m: "load_internal (store_header h (V n)) = (Ok m :: (tree_error, internal_node) res)"
      "internal_ok m" "in_header m = h"
    by (rule fresh_internal [OF g bsession_size [OF b, of n], of h]) (simp_all add: h_def)
  have max: "1 \<le> unat (internal_max_keys (pg_size P))" using g by (simp add: geometry_def)
  then have len: "length (in_keys m) = unat (internal_max_keys (pg_size P))" "0 < length (in_keys m)" "1 < length (in_children m)"
      "length (in_children m) = Suc (unat (internal_max_keys (pg_size P)))"
    using m by (simp_all add: internal_ok_def h_def)
  define m' where "m' = m\<lparr>in_keys := (in_keys m)[0 := key], in_children := (in_children m)[0 := left, 1 := right]\<rparr>"
  have "take 1 ((in_keys m)[0 := key]) = [key]" using len by (cases "in_keys m") auto
  moreover have "take 2 ((in_children m)[0 := left, 1 := right]) = [left, right]"
    using len by (cases "in_children m"; cases "tl (in_children m)") auto
  moreover have "\<forall>k \<in> set ((in_keys m)[0 := key]). i32_range k"
    using m(2) key set_update_subset_insert [of "in_keys m" 0 key] by (auto simp: internal_ok_def)
  ultimately have has: "internal_has m' [key] [left, right]"
    using m(2,3) len max by (simp add: internal_has_def internal_ok_def m'_def h_def numeral_2_eq_2)
  have hd: "max_keys (in_header m') = internal_max_keys (pg_size P)" "node_type (in_header m') = internal_tag"
      "parent_page_id (in_header m') = invalid_page_id"
    by (simp_all add: m'_def m(3) h_def)
  note st = node_at_store(1) [OF g bsession_size [OF b, of n] has, where V = V and p = n]
    node_at_store(2,3) [OF g bsession_size [OF b, of n] has]
  let ?pg = "store_internal m' (V n)"
  obtain b2 where 3: "pool_op (pg_write P f ?pg) b1 = Some (Ok (), b2)"
      "bsession base cap (tot(fid := tot fid + 1)) (V(n := ?pg)) [(n, f)] {n} r fid b2"
    by (rule step_write [OF 1(2)]) (use st hd in auto)
  obtain b3 where 4: "update_parent_id P left n b2 = Some (Ok (), b3)"
      "bsession base cap (tot(fid := tot fid + 1)) (V(n := ?pg, left := set_parent n (V left))) [(n, f)] {n} r fid b3"
    by (rule update_parent_id_spec [OF g 3(2) room, where p = left and q = n]) (use d in auto)
  obtain b4 where 5: "update_parent_id P right n b3 = Some (Ok (), b4)"
      "bsession base cap (tot(fid := tot fid + 1)) (V(n := ?pg, left := set_parent n (V left), right := set_parent n (V right)))
        [(n, f)] {n} r fid b4"
    by (rule update_parent_id_spec [OF g 4(2) room, where p = right and q = n]) (use d in auto)
  obtain b5 where 6: "pool_op (pg_unpin P n True) b4 = Some (Ok (), b5)"
      "bsession base cap (tot(fid := tot fid + 1)) (V(n := ?pg, left := set_parent n (V left), right := set_parent n (V right)))
        [] {} r fid b5"
    by (rule step_unpin [OF 5(2), of n f True]) auto
  have cs: "res_bind (set_index 0 left (in_children m)) (set_index 1 right) = Ok ((in_children m)[0 := left, 1 := right])"
  proof -
    have "in_children m \<noteq> []" using len(3) by auto
    then show ?thesis using len(3) by simp
  qed
  have ks: "set_index 0 key (in_keys m) = Ok ((in_keys m)[0 := key])" using len(2) by (rule set_index_Ok)
  have "create_new_root P left key right b = Some (Ok (), b5\<lparr>bt_root := Some n\<rparr>)"
    by (simp add: create_new_root_def act_simps left 1(1) 2 h_def [symmetric] m(1) ks cs m'_def [symmetric] 3(1) 4(1) 5(1) 6(1)
        set_root_def del: One_nat_def)
  moreover have "bsession base cap (tot(fid := tot fid + 1)) (V(n := ?pg, left := set_parent n (V left), right := set_parent n (V right)))
      [] {} (Some n) fid (b5\<lparr>bt_root := Some n\<rparr>)"
    using 6(2) by (simp add: bsession_def)
  ultimately show ?thesis using that st hd by simp
qed

subsection \<open>Splitting nodes\<close>

lemma split_internal_spec:
  assumes g: "geometry (pg_size P)" and b: "bsession base cap tot V [] {} r fid b" and room: "spare base cap 3"
    and at: "node_at (pg_size P) V p par ks cs" and full: "length ks = unat (internal_max_keys (pg_size P))"
    and p: "file_id p = fid" and q: "q = \<lparr>file_id = fid, page_num = tot fid\<rparr>" and key: "i32_range key"
    and i: "i = search_pos (binary_search ks key)" "i \<le> length ks"
    and ks': "ks' = insert_at i key ks" and cs': "cs' = insert_at (Suc i) c cs" and mid: "mid = Suc (length ks) div 2"
    and d: "distinct (p # q # cs')"
  obtains b' pg rpg where "split_internal P p key c b = Some (Ok (ks' ! mid, q, par), b')"
    and "bsession base cap (tot(fid := tot fid + 1)) (reparented q (drop (Suc mid) cs') (V(p := pg, q := rpg))) [] {} r fid b'"
    and "node_at (pg_size P) (V(p := pg, q := rpg)) p par (take mid ks') (take (Suc mid) cs')"
    and "node_at (pg_size P) (V(p := pg, q := rpg)) q par (drop (Suc mid) ks') (drop (Suc mid) cs')"
proof -
  let ?ps = "pg_size P" and ?tot = "tot(fid := tot fid + 1)"
  obtain f b1 where 1: "pool_op (pg_fetch P p) b = Some (Ok f, b1)" "bsession base cap tot V [(p, f)] {} r fid b1"
    by (rule step_fetch [OF b room]) simp
  obtain rf b2 where 2: "pool_op (pg_new P fid) b1 = Some (Ok (rf, q), b2)"
      "bsession base cap ?tot V [(q, rf), (p, f)] {} r fid b2"
    by (rule step_new [OF 1(2) room _ q]) simp
  have rd: "pool_op (pg_read P f) b2 = Some (Ok (V p), b2)" "pool_op (pg_read P rf) b2 = Some (Ok (V q), b2)"
    by (rule step_read [OF 2(2)]; simp)+
  note len = bsession_size [OF b]
  have has: "internal_has (internal_of (V p)) ks cs" and hd: "max_keys (load_header (V p)) = internal_max_keys ?ps"
      "node_type (load_header (V p)) = internal_tag" "parent_page_id (load_header (V p)) = par"
    using at by (simp_all add: node_at_def)
  define h where "h = right_internal_header (load_header (V p)) (load_header (V q))"
  obtain m where m: "load_internal (store_header h (V q)) = (Ok m :: (tree_error, internal_node) res)"
      "internal_ok m" "in_header m = h"
    by (rule fresh_internal [OF g len [of q], of h]) (simp_all add: h_def right_internal_header_def hd)
  have fl: "unat (max_keys (in_header (internal_of (V p)))) = length ks" "1 \<le> length ks"
    and mx: "max_keys (in_header m) = max_keys (in_header (internal_of (V p)))"
    using g full by (simp_all add: geometry_def hd m(3) h_def right_internal_header_def)
  obtain n' m' where n': "internal_split key c (internal_of (V p)) m = (Ok (n', m', ks' ! mid) :: (tree_error, _) res)"
      "internal_has n' (take mid ks') (take (Suc mid) cs')" "internal_has m' (drop (Suc mid) ks') (drop (Suc mid) cs')"
      "in_header n' = (in_header (internal_of (V p)))\<lparr>num_keys := word_of_nat mid\<rparr>"
      "in_header m' = (in_header m)\<lparr>num_keys := word_of_nat (length ks - mid)\<rparr>"
    by (rule internal_split_spec [OF has fl m(2) mx key i ks' cs' mid])
  have hn: "max_keys (in_header n') = internal_max_keys ?ps" "node_type (in_header n') = internal_tag"
      "parent_page_id (in_header n') = par"
    and hm: "max_keys (in_header m') = internal_max_keys ?ps" "node_type (in_header m') = internal_tag"
      "parent_page_id (in_header m') = par"
    by (simp_all add: n'(4,5) hd m(3) h_def right_internal_header_def)
  let ?pg = "store_internal n' (V p)" and ?rpg = "store_internal m' (V q)"
  let ?V = "V(p := ?pg, q := ?rpg)"
  note sn = node_at_store(1) [OF g len [of p] n'(2) hn(1,2), where V = V and p = p]
    node_at_store(2,3) [OF g len [of p] n'(2) hn(1,2)]
  note sm = node_at_store(1) [OF g len [of q] n'(3) hm(1,2), where V = "V(p := ?pg)" and p = q]
    node_at_store(2,3) [OF g len [of q] n'(3) hm(1,2)]
  have atn: "node_at ?ps ?V p par (take mid ks') (take (Suc mid) cs')"
    using sn(1) d node_at_cong [of ?V p "V(p := ?pg)" ?ps] by (simp add: hn)
  have atm: "node_at ?ps ?V q par (drop (Suc mid) ks') (drop (Suc mid) cs')" using sm(1) by (simp add: hm)
  obtain b3 where 3: "pool_op (pg_write P f ?pg) b2 = Some (Ok (), b3)"
      "bsession base cap ?tot (V(p := ?pg)) [(q, rf), (p, f)] {p} r fid b3"
    by (rule step_write [OF 2(2), of p f ?pg]) (use sn in auto)
  obtain b4 where 4: "pool_op (pg_write P rf ?rpg) b3 = Some (Ok (), b4)"
      "bsession base cap ?tot ?V [(q, rf), (p, f)] {q, p} r fid b4"
    by (rule step_write [OF 3(2), of q rf ?rpg]) (use sm in auto)
  note hs = internal_hasD [OF n'(3)]
  have moved: "take (Suc (unat (num_keys (in_header m')))) (in_children m') = drop (Suc mid) cs'"
    using hs(1,3) by simp
  obtain b5 where 5: "reparent P q (drop (Suc mid) cs') b4 = Some (Ok (), b5)"
      "bsession base cap ?tot (reparented q (drop (Suc mid) cs') ?V) [(q, rf), (p, f)] {q, p} r fid b5"
    using reparent_spec [OF g room _ 4(2), of "drop (Suc mid) cs'" q] d by (auto dest: in_set_dropD)
  have W: "{q, p} - {p} = {q}" using d by auto
  obtain b6 where 6: "pool_op (pg_unpin P p True) b5 = Some (Ok (), b6)"
      "bsession base cap ?tot (reparented q (drop (Suc mid) cs') ?V) [(q, rf)] {q} r fid b6"
    by (rule step_unpin [OF 5(2), of p f True]) (use d W in simp_all)
  obtain b7 where 7: "pool_op (pg_unpin P q True) b6 = Some (Ok (), b7)"
      "bsession base cap ?tot (reparented q (drop (Suc mid) cs') ?V) [] {} r fid b7"
    by (rule step_unpin [OF 6(2), of q rf True]) auto
  have "split_internal P p key c b = Some (Ok (ks' ! mid, q, par), b7)"
    by (simp add: split_internal_def act_simps p 1(1) 2(1) rd node_at_load [OF g len at] h_def [symmetric] m(1) n'(1)
        3(1) 4(1) moved 5(1) unpin_ignoring_Ok [OF 6(1)] unpin_ignoring_Ok [OF 7(1)] hn)
  with 7(2) atn atm show ?thesis by (intro that)
qed

end

end
