(* ===== verification/BTree_Grow.thy ===== *)
theory BTree_Grow
  imports BTree_Insert
begin

text \<open>Splits that reach the parent: the walk of \<open>insert_into_parent\<close> up the tree, and \<open>insert\<close> as a whole.\<close>

subsection \<open>Trees after a split\<close>

lemma ctx_ord_bounds: "ctx_ord LO HI c lo hi \<Longrightarrow> LO \<le> lo \<and> hi \<le> HI"
proof (induction c arbitrary: lo hi)
  case (Cons fr c)
  obtain p lts lks rks rts where fr: "fr = (p, lts, lks, rks, rts)" by (cases fr)
  obtain lo' hi' rest where *: "ctx_ord LO HI c lo' hi'" "hi \<le> hi'" "lo' \<le> lo"
    using Cons.prems unfolding fr by (rule ctx_ord_frame)
  show ?case using Cons.IH [OF *(1)] *(2,3) by linarith
qed simp

lemma ctx_leaves: "set (lleaves c) \<subseteq> set (ctx_pages c)" "set (rleaves c) \<subseteq> set (ctx_pages c)"
proof (induction c)
  case (Cons fr c)
  obtain p lts lks rks rts where fr: "fr = (p, lts, lks, rks, rts)" by (cases fr)
  { case 1 show ?case using Cons leaves_subset by (fastforce simp: fr) }
  { case 2 show ?case using Cons leaves_subset by (fastforce simp: fr) }
qed simp_all

lemma concat_leaves_subset: "set (concat (map leaves ts)) \<subseteq> set (concat (map pages ts))"
  using leaves_subset by auto

lemma frame_not_leaf:
  assumes "distinct (ctx_pages ((p, lts, lks, rks, rts) # c) @ pages t1 @ pages t2)"
  shows "p \<notin> set (lleaves ((p, lts, lks, rks, rts) # c) @ leaves t1 @ leaves t2 @ rleaves ((p, lts, lks, rks, rts) # c))"
proof -
  have "p \<notin> set (concat (map pages lts)) \<union> set (concat (map pages rts)) \<union> set (ctx_pages c) \<union> set (pages t1) \<union> set (pages t2)"
    using assms by simp
  moreover have "set (lleaves ((p, lts, lks, rks, rts) # c) @ leaves t1 @ leaves t2 @ rleaves ((p, lts, lks, rks, rts) # c)) \<subseteq>
      set (concat (map pages lts)) \<union> set (concat (map pages rts)) \<union> set (ctx_pages c) \<union> set (pages t1) \<union> set (pages t2)"
    using concat_leaves_subset [of lts] concat_leaves_subset [of rts] ctx_leaves [of c] leaves_subset [of t1] leaves_subset [of t2]
    unfolding lleaves.simps rleaves.simps set_append by blast
  ultimately show ?thesis by blast
qed

lemma seg_split:
  assumes "seg lo ts (ks @ [hi]) hi" and "m < length ks"
  shows "seg lo (take (Suc m) ts) (take m ks @ [ks ! m]) (ks ! m)" and "seg (ks ! m) (drop (Suc m) ts) (drop (Suc m) ks @ [hi]) hi"
    and "lo < ks ! m" and "ks ! m < hi"
proof -
  have len: "length ts = Suc (length ks)" using seg_length [OF assms(1)] by simp
  have eq: "ks @ [hi] = (take m ks @ [ks ! m]) @ (drop (Suc m) ks @ [hi])"
    using id_take_nth_drop [OF assms(2)] by simp
  have "seg lo (take (Suc m) ts @ drop (Suc m) ts) ((take m ks @ [ks ! m]) @ (drop (Suc m) ks @ [hi])) hi"
    using assms(1) unfolding eq [symmetric] append_take_drop_id .
  then obtain x where x: "seg lo (take (Suc m) ts) (take m ks @ [ks ! m]) x" "seg x (drop (Suc m) ts) (drop (Suc m) ks @ [hi]) hi"
    using len assms(2) by (subst (asm) seg_append) auto
  have "x = ks ! m" by (rule seg_last [OF x(1)])
  with x show "seg lo (take (Suc m) ts) (take m ks @ [ks ! m]) (ks ! m)" "seg (ks ! m) (drop (Suc m) ts) (drop (Suc m) ks @ [hi]) hi"
    by simp_all
  with seg_bounds show "lo < ks ! m" "ks ! m < hi" by fastforce+
qed

lemma pages_ok_grow:
  "pages_ok fid tot ps \<Longrightarrow> unat (tot fid) + 1 < 2 ^ 32 \<Longrightarrow>
   pages_ok fid (tot(fid := tot fid + 1)) (\<lparr>file_id = fid, page_num = tot fid\<rparr> # ps) \<and>
   unat (tot fid + 1) = unat (tot fid) + 1"
proof -
  assume ps: "pages_ok fid tot ps" and b: "unat (tot fid) + 1 < 2 ^ 32"
  have u: "unat (tot fid + 1) = unat (tot fid) + 1"
    using b unat_add_lem [of "tot fid" 1] by simp
  then have "tot fid < tot fid + 1" by (simp add: word_less_nat_alt)
  with ps u show ?thesis by (auto simp: pages_ok_def intro: less_trans)
qed

context page_pool begin

lemma reparented_other: "p \<notin> set cs \<Longrightarrow> reparented q cs V p = V p"
  by (simp add: reparented_def)

lemma tree_rep_reparented_other:
  "set (pages t) \<inter> set cs = {} \<Longrightarrow> tree_rep ps (reparented q cs V) par t = tree_rep ps V par t"
  by (rule tree_rep_cong) (auto simp: reparented_def)

lemma tree_rep_reparented:
  assumes "tree_rep ps V par t" and "24 \<le> length (V (root t))" and "distinct (pages t)"
    and "set (pages t) \<inter> set cs = {root t}"
  shows "tree_rep ps (reparented q cs V) q t"
proof -
  have "tree_rep ps (reparented q cs V) q t = tree_rep ps (V(root t := set_parent q (V (root t)))) q t"
    by (rule tree_rep_cong) (use assms(4) in \<open>auto simp: reparented_def\<close>)
  with tree_rep_set_parent [OF assms(1-3)] show ?thesis by simp
qed

lemma children_disjoint:
  assumes "distinct (concat (map pages ts))" and "u \<in> set ts" and "set us \<subseteq> set ts" and "u \<in> set us"
  shows "set (pages u) \<inter> set (map root us) = {root u}" and "distinct (pages u)"
proof -
  obtain xs ys where ts: "ts = xs @ u # ys" using assms(2) by (meson split_list)
  then have "set (pages u) \<inter> set (concat (map pages (xs @ ys))) = {}" using assms(1) by auto
  then have dj: "set (pages u) \<inter> set (pages w) = {}" if "w \<in> set ts" "w \<noteq> u" for w
    using that unfolding ts by auto
  show "distinct (pages u)" using assms(1) by (simp add: ts)
  show "set (pages u) \<inter> set (map root us) = {root u}"
    using dj assms(3,4) root_in_pages by fastforce
qed

text \<open>What a completed walk leaves behind: a tree with the entries \<open>es\<close> and the leaves \<open>ls\<close>, at most \<open>n\<close> pages
  more, leaf links and other files as before.\<close>

definition grown :: "int \<Rightarrow> int \<Rightarrow> u32 \<Rightarrow> (page_id \<Rightarrow> nat) \<Rightarrow> nat \<Rightarrow> (page_id \<Rightarrow> page) \<Rightarrow> (u32 \<Rightarrow> u32) \<Rightarrow> nat \<Rightarrow>
    (int \<times> ctid) list \<Rightarrow> page_id list \<Rightarrow> 's btree \<Rightarrow> bool" where
  "grown LO HI fid base cap V tot n es ls b' \<longleftrightarrow> (\<exists>V' tot' t'.
     bsession base cap tot' V' [] {} (Some (root t')) fid b' \<and> tree_rep (pg_size P) V' invalid_page_id t' \<and>
     ordered LO HI t' \<and> balanced t' \<and> distinct (pages t') \<and> pages_ok fid tot' (pages t') \<and> entries t' = es \<and> leaves t' = ls \<and>
     (\<forall>q \<in> set ls. next_of (V' q) = next_of (V q)) \<and> (\<forall>q. file_id q \<noteq> fid \<longrightarrow> V' q = V q) \<and>
     unat (tot' fid) \<le> unat (tot fid) + n \<and> (\<forall>g. g \<noteq> fid \<longrightarrow> tot' g = tot g))"

lemma grown_trans:
  assumes "grown LO HI fid base cap V1 tot1 n es ls b'" and "\<And>q. q \<in> set ls \<Longrightarrow> next_of (V1 q) = next_of (V q)"
    and "\<And>q. file_id q \<noteq> fid \<Longrightarrow> V1 q = V q" and "unat (tot1 fid) + n \<le> unat (tot fid) + m"
    and "\<And>g. g \<noteq> fid \<Longrightarrow> tot1 g = tot g"
  shows "grown LO HI fid base cap V tot m es ls b'"
  using assms(1) unfolding grown_def
proof (elim exE conjE, goal_cases)
  case (1 V' tot' t')
  with assms(2-5) show ?case by (intro exI [of _ V'] exI [of _ tot'] exI [of _ t']) fastforce
qed

lemma grow_root:
  assumes g: "geometry (pg_size P)" and room: "spare base cap 2" and b: "bsession base cap tot V [] {} r fid b"
    and rep: "tree_rep (pg_size P) V invalid_page_id t1" "tree_rep (pg_size P) V invalid_page_id t2"
    and ord: "ordered LO k t1" "ordered k HI t2" "LO < k" "k < HI" and k: "i32_range k"
    and bl: "bal t1 h" "bal t2 h"
    and d: "distinct (pages t1 @ pages t2)" and ok: "pages_ok fid tot (pages t1 @ pages t2)"
    and tot: "unat (tot fid) + 1 < 2 ^ 32"
  shows "\<exists>b'. create_new_root P (root t1) k (root t2) b = Some (Ok (), b') \<and>
    grown LO HI fid base cap V tot 1 (entries t1 @ entries t2) (leaves t1 @ leaves t2) b'"
proof -
  define n where "n = \<lparr>file_id = fid, page_num = tot fid\<rparr>"
  note fresh = fresh_page [OF ok, folded n_def]
  have sep: "root t1 \<notin> set (pages t2)" "root t2 \<notin> set (pages t1)"
    using d by (metis disjoint_iff distinct_append root_in_pages)+
  then have "root t1 \<noteq> root t2" by (metis root_in_pages)
  then have roots: "distinct [n, root t1, root t2]" "file_id (root t1) = fid"
    using fresh d root_in_pages ok by (auto simp: pages_ok_def)
  obtain b' pg where 1: "create_new_root P (root t1) k (root t2) b = Some (Ok (), b')"
      "bsession base cap (tot(fid := tot fid + 1))
         (V(n := pg, root t1 := set_parent n (V (root t1)), root t2 := set_parent n (V (root t2)))) [] {} (Some n) fid b'"
      "node_at (pg_size P) (V(n := pg)) n invalid_page_id [k] [root t1, root t2]"
    by (rule create_new_root_spec [OF g b room n_def roots(2) k roots(1)])
  let ?V = "V(n := pg, root t1 := set_parent n (V (root t1)), root t2 := set_parent n (V (root t2)))"
  have len: "24 \<le> length (V p)" for p using bsession_size [OF b] geometry_fits(1) [OF g] by simp
  have "tree_rep (pg_size P) ?V n t1 = tree_rep (pg_size P) (V(root t1 := set_parent n (V (root t1)))) n t1"
    using sep fresh by (intro tree_rep_cong) auto
  moreover have "tree_rep (pg_size P) ?V n t2 = tree_rep (pg_size P) (V(root t2 := set_parent n (V (root t2)))) n t2"
    using sep fresh by (intro tree_rep_cong) auto
  moreover have "node_at (pg_size P) ?V n invalid_page_id [k] [root t1, root t2]"
    using 1(3) roots(1) node_at_cong [of ?V n "V(n := pg)"] by simp
  ultimately have rep': "tree_rep (pg_size P) ?V invalid_page_id (Nd n [t1, t2] [k])"
    using tree_rep_set_parent [OF rep(1) len, of n] tree_rep_set_parent [OF rep(2) len, of n] d by simp
  have "grown LO HI fid base cap V tot 1 (entries t1 @ entries t2) (leaves t1 @ leaves t2) b'"
    unfolding grown_def
  proof (intro exI conjI)
    show "bsession base cap (tot(fid := tot fid + 1)) ?V [] {} (Some (root (Nd n [t1, t2] [k]))) fid b'" using 1(2) by simp
    show "distinct (pages (Nd n [t1, t2] [k]))" using d fresh by simp
    show "balanced (Nd n [t1, t2] [k])" using bl by (auto simp: balanced_def bal_Nd)
    show "pages_ok fid (tot(fid := tot fid + 1)) (pages (Nd n [t1, t2] [k]))"
      using pages_ok_grow [OF ok tot] by (simp add: n_def)
    have "n \<notin> set (leaves t1 @ leaves t2)" using fresh leaves_subset by auto
    then show "\<forall>q \<in> set (leaves t1 @ leaves t2). next_of (?V q) = next_of (V q)" using len by auto
    show "\<forall>q. file_id q \<noteq> fid \<longrightarrow> ?V q = V q" using ok root_in_pages by (auto simp: n_def pages_ok_def)
    show "unat ((tot(fid := tot fid + 1)) fid) \<le> unat (tot fid) + 1" using pages_ok_grow [OF ok tot] by simp
  qed (use rep' ord in simp_all)
  with 1(1) show ?thesis by blast
qed

text \<open>A node has been split into \<open>t1\<close>, which is in its place, and \<open>t2\<close>, which no parent knows yet;
  \<open>k\<close> is the separator to insert into the innermost frame of \<open>c\<close>.\<close>

definition pending :: "u32 \<Rightarrow> (u32 \<Rightarrow> u32) \<Rightarrow> (page_id \<Rightarrow> page) \<Rightarrow> tree_frame list \<Rightarrow> int \<Rightarrow> int \<Rightarrow> tree \<Rightarrow> int \<Rightarrow> tree \<Rightarrow> bool" where
  "pending fid tot V c lo hi t1 k t2 \<longleftrightarrow> ctx_rep (pg_size P) V c (root t1) \<and>
     tree_rep (pg_size P) V (hole_parent c) t1 \<and> tree_rep (pg_size P) V (hole_parent c) t2 \<and>
     (\<exists>h. ctx_bal c h \<and> bal t1 h \<and> bal t2 h) \<and>
     ctx_ord (- 2147483648) 2147483648 c lo hi \<and> lo < k \<and> k < hi \<and> ordered lo k t1 \<and> ordered k hi t2 \<and>
     distinct (ctx_pages c @ pages t1 @ pages t2) \<and> pages_ok fid tot (ctx_pages c @ pages t1 @ pages t2)"

lemma pending_bal:
  assumes "pending fid tot V c lo hi t1 k t2"
  obtains h where "bal t1 h" and "bal t2 h"
  using assms by (auto simp: pending_def)

lemma pending_i32: "pending fid tot V c lo hi t1 k t2 \<Longrightarrow> i32_range k"
  using ctx_ord_bounds [of "- 2147483648" 2147483648 c lo hi] by (auto simp: pending_def i32_range_def)

text \<open>The arrays of the parent around the hole.\<close>

lemma pending_frame:
  assumes "pending fid tot V ((p, lts, lks, rks, rts) # c) lo hi t1 k t2"
  obtains "node_at (pg_size P) V p (hole_parent c) (lks @ rks) (map root lts @ root t1 # map root rts)"
    and "binary_search (lks @ rks) k = Inl (length lks)"
    and "insert_at (length lks) k (lks @ rks) = lks @ k # rks"
    and "insert_at (Suc (length lks)) (root t2) (map root lts @ root t1 # map root rts) = map root (lts @ t1 # t2 # rts)"
    and "p \<noteq> invalid_page_id" and "file_id p = fid" and "length lts = length lks" and "length rts = length rks"
proof -
  have c: "ctx_ord (- 2147483648) 2147483648 ((p, lts, lks, rks, rts) # c) lo hi" and k: "lo < k" "k < hi"
    using assms by (simp_all add: pending_def)
  obtain len: "length lts = length lks" "length rts = length rks" and b: "\<forall>k \<in> set lks. k \<le> lo" "\<forall>k \<in> set rks. hi \<le> k"
    and srt: "sorted_wrt (<) (lks @ rks)"
    by (rule ctx_ord_frame [OF c]) blast
  have "binary_search (lks @ rks) k = Inl (length lks)"
    by (rule binary_search_pos [OF srt]) (use b k in auto)
  moreover have "page_num p < tot fid" "file_id p = fid" using assms by (simp_all add: pending_def pages_ok_def)
  ultimately show ?thesis
    using that len assms page_not_invalid [of p "tot fid"] by (simp add: pending_def insert_at_def)
qed

lemma grow_room:
  assumes g: "geometry (pg_size P)" and room: "spare base cap 1"
    and p: "pending fid tot V ((p, lts, lks, rks, rts) # c) lo hi t1 k t2"
    and b: "bsession base cap tot V [] {} (Some (root (fill ((p, lts, lks, rks, rts) # c) t1))) fid b"
    and free: "length (lks @ rks) < unat (internal_max_keys (pg_size P))"
  shows "\<exists>b'. insert_into_parent P (root t1) k (root t2) p b = Some (Ok (), b') \<and>
    grown (- 2147483648) 2147483648 fid base cap V tot 0
      (lentries ((p, lts, lks, rks, rts) # c) @ entries t1 @ entries t2 @ rentries ((p, lts, lks, rks, rts) # c))
      (lleaves ((p, lts, lks, rks, rts) # c) @ leaves t1 @ leaves t2 @ rleaves ((p, lts, lks, rks, rts) # c)) b'"
proof -
  let ?ps = "pg_size P" and ?fr = "(p, lts, lks, rks, rts)" and ?ks = "lks @ rks" and ?r = "Some (root (fill ((p, lts, lks, rks, rts) # c) t1))"
  obtain at: "node_at ?ps V p (hole_parent c) ?ks (map root lts @ root t1 # map root rts)"
    and bs: "binary_search ?ks k = Inl (length lks)" and ik: "insert_at (length lks) k ?ks = lks @ k # rks"
    and ic: "insert_at (Suc (length lks)) (root t2) (map root lts @ root t1 # map root rts) = map root (lts @ t1 # t2 # rts)"
    and pv: "p \<noteq> invalid_page_id" "file_id p = fid" and len: "length lts = length lks" "length rts = length rks"
    by (rule pending_frame [OF p])
  obtain f b1 where 1: "pool_op (pg_fetch P p) b = Some (Ok f, b1)" "bsession base cap tot V [(p, f)] {} ?r fid b1"
    by (rule step_fetch [OF b room]) simp
  have 2: "pool_op (pg_read P f) b1 = Some (Ok (V p), b1)" by (rule step_read [OF 1(2)]) simp
  have has: "internal_has (internal_of (V p)) ?ks (map root lts @ root t1 # map root rts)"
    and hd: "max_keys (load_header (V p)) = internal_max_keys ?ps" "node_type (load_header (V p)) = internal_tag"
      "parent_page_id (load_header (V p)) = hole_parent c"
    using at by (simp_all add: node_at_def)
  note h = internal_hasD [OF has]
  have n: "unat (num_keys (load_header (V p))) = length ?ks" using h(1) by simp
  have sl: "slice_to (length ?ks) (in_keys (internal_of (V p))) = Ok ?ks" using h(2,4,5) by simp
  have fr: "length ?ks < unat (max_keys (in_header (internal_of (V p))))" "length lks \<le> length ?ks" using free hd by simp_all
  obtain n' where n': "internal_insert_at (length lks) (length ?ks) k (root t2) (internal_of (V p)) = (Ok n' :: (tree_error, _) res)"
      "internal_has n' (lks @ k # rks) (map root (lts @ t1 # t2 # rts))"
      "in_header n' = (in_header (internal_of (V p)))\<lparr>num_keys := num_keys (in_header (internal_of (V p))) + 1\<rparr>"
    by (rule internal_insert_at_spec [OF has fr pending_i32 [OF p], where c = "root t2"]) (simp add: ik ic)
  have hn: "max_keys (in_header n') = internal_max_keys ?ps" "node_type (in_header n') = internal_tag"
      "parent_page_id (in_header n') = hole_parent c"
    by (simp_all add: n'(3) hd)
  let ?pg = "store_internal n' (V p)"
  note st = node_at_store(1) [OF g bsession_size [OF b, of p] n'(2) hn(1,2), where V = V and p = p]
    node_at_store(2,3) [OF g bsession_size [OF b, of p] n'(2) hn(1,2)]
  obtain b2 where 3: "pool_op (pg_write P f ?pg) b1 = Some (Ok (), b2)"
      "bsession base cap tot (V(p := ?pg)) [(p, f)] {p} ?r fid b2"
    by (rule step_write [OF 1(2), of p f ?pg]) (use st in auto)
  obtain b3 where 4: "pool_op (pg_unpin P p True) b2 = Some (Ok (), b3)"
      "bsession base cap tot (V(p := ?pg)) [] {} ?r fid b3"
    by (rule step_unpin [OF 3(2), of p f True]) auto
  have run: "insert_into_parent P (root t1) k (root t2) p b = Some (Ok (), b3)"
    using free by (subst insert_into_parent.simps)
      (simp add: act_simps pv 1(1) 2 node_at_load [OF g bsession_size [OF b] at] hd n sl bs search_pos_def n'(1) 3(1)
        unpin_ignoring_Ok [OF 4(1)] del: length_append)
  let ?t = "fill c (Nd p (lts @ t1 # t2 # rts) (lks @ k # rks))"
  have d: "distinct (ctx_pages (?fr # c) @ pages t1 @ pages t2)" "pages_ok fid tot (ctx_pages (?fr # c) @ pages t1 @ pages t2)"
    using p by (simp_all add: pending_def)
  have ms: "mset (pages ?t) = mset (ctx_pages (?fr # c) @ pages t1 @ pages t2)" by (simp add: mset_pages_fill)
  then have pgs: "distinct (pages ?t)" "set (pages ?t) = set (ctx_pages (?fr # c) @ pages t1 @ pages t2)"
    using d(1) mset_eq_imp_distinct_iff mset_eq_setD by metis+
  have pc: "ctx_ord (- 2147483648) 2147483648 (?fr # c) lo hi" "lo < k" "k < hi" "ordered lo k t1" "ordered k hi t2"
    using p by (simp_all add: pending_def)
  obtain lo' hi' where ord: "ctx_ord (- 2147483648) 2147483648 c lo' hi'"
      "seg lo' (lts @ t1 # t2 # rts) ((lks @ k # rks) @ [hi']) hi'"
    by (rule seg_frame2 [OF pc])
  have rep: "tree_rep ?ps (V(p := ?pg)) invalid_page_id ?t"
  proof -
    have "tree_rep ?ps (V(p := ?pg)) p u = tree_rep ?ps V p u" if "u \<in> set (lts @ t1 # t2 # rts)" for u
      by (rule tree_rep_upd) (use d(1) that in auto)
    moreover have "ctx_rep ?ps (V(p := ?pg)) c p" using p d(1) by (simp add: pending_def ctx_rep_upd)
    ultimately show ?thesis
      using p st hn by (auto simp: tree_rep_fill pending_def)
  qed
  have "p \<notin> set (lleaves (?fr # c) @ leaves t1 @ leaves t2 @ rleaves (?fr # c))"
    by (rule frame_not_leaf [OF d(1)])
  then have nxt: "\<forall>q \<in> set (lleaves (?fr # c) @ leaves t1 @ leaves t2 @ rleaves (?fr # c)). next_of ((V(p := ?pg)) q) = next_of (V q)"
    by auto
  have rt: "fill (?fr # c) t1 = fill c (Nd p (lts @ t1 # rts) ?ks)" by simp
  have "grown (- 2147483648) 2147483648 fid base cap V tot 0
      (lentries (?fr # c) @ entries t1 @ entries t2 @ rentries (?fr # c))
      (lleaves (?fr # c) @ leaves t1 @ leaves t2 @ rleaves (?fr # c)) b3"
    unfolding grown_def
  proof (intro exI conjI)
    show "bsession base cap tot (V(p := ?pg)) [] {} (Some (root ?t)) fid b3"
      using 4(2) unfolding rt by (simp add: root_fill [of "Nd p (lts @ t1 # rts) ?ks" "Nd p (lts @ t1 # t2 # rts) (lks @ k # rks)"])
    show "ordered (- 2147483648) 2147483648 ?t" by (rule ordered_fill [OF ord(1)]) (use ord(2) in simp)
    show "pages_ok fid tot (pages ?t)" using d(2) pgs(2) by (simp add: pages_ok_def)
    show "balanced ?t" using p by (auto simp: balanced_fill pending_def bal_Nd)
  qed (use rep pgs nxt pv(2) in \<open>auto simp: entries_fill leaves_fill\<close>)
  with run show ?thesis by blast
qed

lemma distinct_roots: "distinct (concat (map pages ts)) \<Longrightarrow> distinct (map root ts)"
proof (induction ts)
  case (Cons t ts)
  have "set (map root ts) \<subseteq> set (concat (map pages ts))" by auto
  moreover have "root t \<notin> set (concat (map pages ts))"
    using Cons.prems root_in_pages [of t] unfolding list.map concat.simps distinct_append by blast
  ultimately have "root t \<notin> set (map root ts)" by blast
  with Cons show ?case by simp
qed simp

text \<open>The two halves of a split node, once the moved children point to the new page.\<close>

lemma split_rep:
  assumes at: "node_at ps V1 p par (take m ks) (map root (take (Suc m) ts))"
    "node_at ps V1 q par (drop (Suc m) ks) (map root (drop (Suc m) ts))"
    and rep: "\<And>u. u \<in> set ts \<Longrightarrow> tree_rep ps V1 p u" and d: "distinct (p # q # concat (map pages ts))"
    and len: "\<And>x. 24 \<le> length (V1 x)"
  defines "V2 \<equiv> reparented q (map root (drop (Suc m) ts)) V1"
  shows "tree_rep ps V2 par (Nd p (take (Suc m) ts) (take m ks))" and "tree_rep ps V2 par (Nd q (drop (Suc m) ts) (drop (Suc m) ks))"
proof -
  let ?l = "take (Suc m) ts" and ?r = "drop (Suc m) ts"
  have "concat (map pages ts) = concat (map pages ?l) @ concat (map pages ?r)"
    by (metis append_take_drop_id concat_append map_append)
  then have ts: "distinct (concat (map pages ?l) @ concat (map pages ?r))" using d by simp
  have rts: "set (map root ?r) \<subseteq> set (concat (map pages ?r))" by auto
  have nin: "p \<notin> set (map root ?r)" "q \<notin> set (map root ?r)"
    using d rts by (auto dest: in_set_dropD)
  then have V2: "V2 p = V1 p" "V2 q = V1 q" by (simp_all add: V2_def reparented_other)
  have "tree_rep ps V2 p u" if "u \<in> set ?l" for u
  proof -
    have "set (pages u) \<subseteq> set (concat (map pages ?l))" using that by auto
    moreover have "set (concat (map pages ?l)) \<inter> set (concat (map pages ?r)) = {}"
      using ts unfolding distinct_append by blast
    ultimately have "set (pages u) \<inter> set (map root ?r) = {}" using rts by blast
    then show ?thesis using rep [of u] that by (auto simp: V2_def tree_rep_reparented_other dest: in_set_takeD)
  qed
  with at(1) show "tree_rep ps V2 par (Nd p ?l (take m ks))" using node_at_cong [of V2 p V1, OF V2(1)] by simp
  have "tree_rep ps V2 q u" if u: "u \<in> set ?r" for u
  proof -
    have "distinct (concat (map pages ?r))" using ts by simp
    then have "set (pages u) \<inter> set (map root ?r) = {root u}" "distinct (pages u)"
      using children_disjoint [OF _ u, of ?r] u by blast+
    then show ?thesis
      unfolding V2_def using rep [of u] u len by (intro tree_rep_reparented [of ps V1 p]) (auto dest: in_set_dropD)
  qed
  with at(2) show "tree_rep ps V2 par (Nd q ?r (drop (Suc m) ks))" using node_at_cong [of V2 q V1, OF V2(2)] by simp
qed

lemma grow_split:
  assumes g: "geometry (pg_size P)" and room: "spare base cap 3"
    and p: "pending fid tot V ((p, lts, lks, rks, rts) # c) lo hi t1 k t2"
    and b: "bsession base cap tot V [] {} r fid b"
    and full: "unat (internal_max_keys (pg_size P)) \<le> length (lks @ rks)" and tot: "unat (tot fid) + 1 < 2 ^ 32"
  obtains b2 V2 lo' hi' n1 K n2 where
    "insert_into_parent P (root t1) k (root t2) p b = insert_into_parent P (root n1) K (root n2) (hole_parent c) b2"
    and "bsession base cap (tot(fid := tot fid + 1)) V2 [] {} r fid b2"
    and "pending fid (tot(fid := tot fid + 1)) V2 c lo' hi' n1 K n2" and "root n1 = p"
    and "entries n1 @ entries n2 = concat (map entries (lts @ t1 # t2 # rts))"
    and "leaves n1 @ leaves n2 = concat (map leaves (lts @ t1 # t2 # rts))"
    and "\<And>q. q \<in> set (lleaves ((p, lts, lks, rks, rts) # c) @ leaves t1 @ leaves t2 @ rleaves ((p, lts, lks, rks, rts) # c)) \<Longrightarrow>
          next_of (V2 q) = next_of (V q)"
    and "\<And>q. file_id q \<noteq> fid \<Longrightarrow> V2 q = V q"
proof -
  let ?ps = "pg_size P" and ?fr = "(p, lts, lks, rks, rts)" and ?ks = "lks @ rks"
  let ?ts = "lts @ t1 # t2 # rts" and ?ks' = "lks @ k # rks" and ?tot = "tot(fid := tot fid + 1)"
  define q where "q = \<lparr>file_id = fid, page_num = tot fid\<rparr>"
  obtain at: "node_at ?ps V p (hole_parent c) ?ks (map root lts @ root t1 # map root rts)"
    and bs: "binary_search ?ks k = Inl (length lks)" and ik: "insert_at (length lks) k ?ks = ?ks'"
    and ic: "insert_at (Suc (length lks)) (root t2) (map root lts @ root t1 # map root rts) = map root ?ts"
    and pv: "p \<noteq> invalid_page_id" "file_id p = fid" and len: "length lts = length lks" "length rts = length rks"
    by (rule pending_frame [OF p])
  have sz: "\<And>x. length (V x) = ?ps" using bsession_size [OF b] .
  have sz24: "24 \<le> ?ps" using geometry_fits(1) [OF g] by simp
  have has: "internal_has (internal_of (V p)) ?ks (map root lts @ root t1 # map root rts)"
    and hd: "max_keys (load_header (V p)) = internal_max_keys ?ps"
    using at by (simp_all add: node_at_def)
  have full': "length ?ks = unat (internal_max_keys ?ps)" using internal_hasD(4) [OF has] full hd by simp
  have n: "unat (num_keys (load_header (V p))) = unat (internal_max_keys ?ps)"
    using internal_hasD(1) [OF has] full' by simp
  define mid where "mid = Suc (length ?ks) div 2"
  have "1 \<le> length ?ks" using g full' by (simp add: geometry_def)
  then have mid: "mid < length ?ks'" by (simp add: mid_def)
  have d: "distinct (ctx_pages (?fr # c) @ pages t1 @ pages t2)" and ok: "pages_ok fid tot (ctx_pages (?fr # c) @ pages t1 @ pages t2)"
    using p by (simp_all add: pending_def)
  have qn: "q \<notin> set (ctx_pages (?fr # c) @ pages t1 @ pages t2)" unfolding q_def by (rule fresh_page [OF ok])
  have dts: "distinct (p # q # concat (map pages ?ts))" using d qn by auto
  have "distinct (map root ?ts)" by (rule distinct_roots) (use dts in simp)
  moreover have "set (map root ?ts) \<subseteq> set (concat (map pages ?ts))" by auto
  then have "p \<notin> set (map root ?ts)" "q \<notin> set (map root ?ts)" using dts by fastforce+
  ultimately have drs: "distinct (p # q # map root ?ts)" using dts by simp
  obtain f b0 where 1: "pool_op (pg_fetch P p) b = Some (Ok f, b0)" "bsession base cap tot V [(p, f)] {} r fid b0"
    by (rule step_fetch [OF b room]) simp
  have 2: "pool_op (pg_read P f) b0 = Some (Ok (V p), b0)" by (rule step_read [OF 1(2)]) simp
  obtain b1 where 3: "pool_op (pg_unpin P p False) b0 = Some (Ok (), b1)" "bsession base cap tot V [] {} r fid b1"
    by (rule step_unpin [OF 1(2), of p f False]) auto
  have i: "length lks = search_pos (binary_search ?ks k)" "length lks \<le> length ?ks" by (simp_all add: bs search_pos_def)
  obtain b2 pg rpg where 4: "split_internal P p k (root t2) b1 = Some (Ok (?ks' ! mid, q, hole_parent c), b2)"
      "bsession base cap ?tot (reparented q (drop (Suc mid) (map root ?ts)) (V(p := pg, q := rpg))) [] {} r fid b2"
      "node_at ?ps (V(p := pg, q := rpg)) p (hole_parent c) (take mid ?ks') (take (Suc mid) (map root ?ts))"
      "node_at ?ps (V(p := pg, q := rpg)) q (hole_parent c) (drop (Suc mid) ?ks') (drop (Suc mid) (map root ?ts))"
    by (rule split_internal_spec [OF g 3(2) room at full' pv(2) q_def pending_i32 [OF p] i ik [symmetric] ic [symmetric] mid_def drs])
  define V1 where "V1 = V(p := pg, q := rpg)"
  define V2 where "V2 = reparented q (map root (drop (Suc mid) ?ts)) V1"
  define n1 where "n1 = Nd p (take (Suc mid) ?ts) (take mid ?ks')"
  define n2 where "n2 = Nd q (drop (Suc mid) ?ts) (drop (Suc mid) ?ks')"
  have b2: "bsession base cap ?tot V2 [] {} r fid b2" using 4(2) unfolding V2_def V1_def by (simp only: drop_map)
  have run: "insert_into_parent P (root t1) k (root t2) p b = insert_into_parent P (root n1) (?ks' ! mid) (root n2) (hole_parent c) b2"
    by (subst insert_into_parent.simps)
      (simp add: act_simps pv 1(1) 2 node_at_load [OF g sz at] hd n unpin_ignoring_Ok [OF 3(1)]
        4(1) n1_def n2_def del: length_append)
  have old: "tree_rep ?ps V p u" if "u \<in> set ?ts" for u using p that by (auto simp: pending_def)
  have "tree_rep ?ps V1 p u" if "u \<in> set ?ts" for u
  proof -
    have "tree_rep ?ps V1 p u = tree_rep ?ps V p u"
      by (rule tree_rep_cong) (use dts that in \<open>auto simp: V1_def\<close>)
    with old [OF that] show ?thesis by simp
  qed
  moreover have "24 \<le> length (V1 x)" for x
  proof (cases "x = p \<or> x = q")
    case True
    then have "x \<notin> set (map root ?ts)" using drs unfolding distinct.simps list.set by blast
    then have "x \<notin> set (map root (drop (Suc mid) ?ts))" by (metis drop_map in_set_dropD)
    then have "V2 x = V1 x" unfolding V2_def by (rule reparented_other)
    then show ?thesis using bsession_size [OF b2, of x] sz24 by simp
  qed (use sz sz24 in \<open>simp add: V1_def\<close>)
  ultimately have rep: "tree_rep ?ps V2 (hole_parent c) n1" "tree_rep ?ps V2 (hole_parent c) n2"
    using split_rep [of ?ps V1 p "hole_parent c" mid ?ks' ?ts q] 4(3,4) dts
    unfolding n1_def n2_def V2_def V1_def by (simp_all only: take_map drop_map)
  have rts: "set (map root (drop (Suc mid) ?ts)) \<subseteq> set (concat (map pages ?ts))" 
  proof -
    have "set (map root (drop (Suc mid) ?ts)) \<subseteq> set (map root ?ts)" by (metis drop_map set_drop_subset)
    also have "\<dots> \<subseteq> set (concat (map pages ?ts))" by auto
    finally show ?thesis .
  qed
  have V2: "V2 x = V x" if "x \<noteq> p" "x \<noteq> q" "x \<notin> set (concat (map pages ?ts))" for x
    using that rts by (auto simp: V2_def V1_def reparented_def)
  have "ctx_rep ?ps V2 c p"
  proof -
    have "ctx_rep ?ps V2 c p = ctx_rep ?ps V c p"
      by (rule ctx_rep_cong, rule V2) (use d qn in auto)
    then show ?thesis using p by (simp add: pending_def)
  qed
  have pc: "ctx_ord (- 2147483648) 2147483648 (?fr # c) lo hi" "lo < k" "k < hi" "ordered lo k t1" "ordered k hi t2"
    using p by (simp_all add: pending_def)
  obtain lo' hi' where ord: "ctx_ord (- 2147483648) 2147483648 c lo' hi'" "seg lo' ?ts (?ks' @ [hi']) hi'"
    by (rule seg_frame2 [OF pc])
  note sp = seg_split [OF ord(2) mid]
  have "?ts = take (Suc mid) ?ts @ drop (Suc mid) ?ts" by (rule append_take_drop_id [symmetric])
  then have cc: "concat (map h ?ts) = concat (map h (take (Suc mid) ?ts)) @ concat (map h (drop (Suc mid) ?ts))" for h :: "tree \<Rightarrow> 'z list"
    by (metis concat_append map_append)
  have pgs: "mset (ctx_pages c @ pages n1 @ pages n2) = mset (q # ctx_pages (?fr # c) @ pages t1 @ pages t2)"
  proof -
    have "mset (pages n1) + mset (pages n2) = {#p, q#} + mset (concat (map pages ?ts))"
      unfolding cc [of pages] n1_def n2_def pages.simps by simp
    then show ?thesis by simp
  qed
  have "distinct (q # ctx_pages (?fr # c) @ pages t1 @ pages t2)" using d qn by simp
  then have dn: "distinct (ctx_pages c @ pages n1 @ pages n2)" using pgs mset_eq_imp_distinct_iff by metis
  have "set (ctx_pages c @ pages n1 @ pages n2) = insert q (set (ctx_pages (?fr # c) @ pages t1 @ pages t2))"
    using mset_eq_setD [OF pgs] by simp
  then have okn: "pages_ok fid ?tot (ctx_pages c @ pages n1 @ pages n2)"
    using pages_ok_grow [OF ok tot] by (simp add: pages_ok_def q_def)
  have bl: "\<exists>h. ctx_bal c h \<and> bal n1 h \<and> bal n2 h"
  proof -
    obtain h where h: "\<forall>u \<in> set ?ts. bal u h" "ctx_bal c (Suc h)" using p by (auto simp: pending_def)
    then have "bal n1 (Suc h)" "bal n2 (Suc h)"
      unfolding n1_def n2_def bal.simps by (meson in_set_takeD in_set_dropD)+
    with h(2) show ?thesis by blast
  qed
  have pn: "pending fid ?tot V2 c lo' hi' n1 (?ks' ! mid) n2"
    unfolding pending_def using bl rep \<open>ctx_rep ?ps V2 c p\<close> ord(1) sp dn okn by (simp add: n1_def n2_def)
  show ?thesis
  proof (rule that [OF run b2 pn])
    show "root n1 = p" by (simp add: n1_def)
    show "entries n1 @ entries n2 = concat (map entries ?ts)" "leaves n1 @ leaves n2 = concat (map leaves ?ts)"
      by (simp_all only: cc n1_def n2_def entries.simps leaves.simps)
    fix x :: page_id assume x: "x \<in> set (lleaves (?fr # c) @ leaves t1 @ leaves t2 @ rleaves (?fr # c))"
    have "x \<noteq> p" using x frame_not_leaf [OF d] by blast
    moreover have "x \<noteq> q"
      using x qn ctx_leaves [of "?fr # c"] leaves_subset [of t1] leaves_subset [of t2] unfolding set_append by blast
    ultimately show "next_of (V2 x) = next_of (V x)" using sz sz24 by (simp add: V2_def V1_def reparented_def)
  next
    fix x :: page_id assume "file_id x \<noteq> fid"
    moreover from this have "x \<notin> set (concat (map pages ?ts))" using ok by (auto simp: pages_ok_def)
    ultimately show "V2 x = V x" using pv(2) by (intro V2) (auto simp: q_def)
  qed
qed

lemma insert_into_parent_spec:
  assumes g: "geometry (pg_size P)" and room: "spare base cap 3"
    and "pending fid tot V c lo hi t1 k t2"
    and "bsession base cap tot V [] {} (Some (root (fill c t1))) fid b"
    and "unat (tot fid) + length c + 1 < 2 ^ 32"
  shows "\<exists>b'. insert_into_parent P (root t1) k (root t2) (hole_parent c) b = Some (Ok (), b') \<and>
    grown (- 2147483648) 2147483648 fid base cap V tot (length c + 1)
      (lentries c @ entries t1 @ entries t2 @ rentries c) (lleaves c @ leaves t1 @ leaves t2 @ rleaves c) b'"
  using assms(3-)
proof (induction c arbitrary: V tot lo hi t1 k t2 b)
  case Nil
  have "spare base cap 2" using room by (rule spare_le) simp
  then have "\<exists>b'. create_new_root P (root t1) k (root t2) b = Some (Ok (), b') \<and>
      grown (- 2147483648) 2147483648 fid base cap V tot 1 (entries t1 @ entries t2) (leaves t1 @ leaves t2) b'"
    using Nil pending_i32 [OF Nil(1)] by (elim pending_bal, intro grow_root [OF g _ Nil(2)]) (auto simp: pending_def)
  then show ?case by (subst insert_into_parent.simps) (simp add: One_nat_def)
next
  case (Cons fr c)
  obtain p lts lks rks rts where fr: "fr = (p, lts, lks, rks, rts)" by (cases fr)
  note pend = Cons.prems(1) [unfolded fr] and b = Cons.prems(2) [unfolded fr]
  have room1: "spare base cap 1" using room by (rule spare_le) simp
  show ?case
  proof (cases "length (lks @ rks) < unat (internal_max_keys (pg_size P))")
    case True
    obtain b' where "insert_into_parent P (root t1) k (root t2) p b = Some (Ok (), b')"
        "grown (- 2147483648) 2147483648 fid base cap V tot 0 (lentries (fr # c) @ entries t1 @ entries t2 @ rentries (fr # c))
          (lleaves (fr # c) @ leaves t1 @ leaves t2 @ rleaves (fr # c)) b'"
      using grow_room [OF g room1 pend b True] unfolding fr by blast
    moreover from grown_trans [OF this(2), of V tot "length (fr # c) + 1"]
    have "grown (- 2147483648) 2147483648 fid base cap V tot (length (fr # c) + 1)
        (lentries (fr # c) @ entries t1 @ entries t2 @ rentries (fr # c))
        (lleaves (fr # c) @ leaves t1 @ leaves t2 @ rleaves (fr # c)) b'" by simp
    ultimately show ?thesis unfolding fr hole_parent.simps by blast
  next
    case False
    then have full: "unat (internal_max_keys (pg_size P)) \<le> length (lks @ rks)" by simp
    have t1: "unat (tot fid) + 1 < 2 ^ 32" using Cons.prems(3) by simp
    have okp: "pages_ok fid tot []" by (simp add: pages_ok_def)
    note u = conjunct2 [OF pages_ok_grow [OF okp t1]]
    obtain b2 V2 lo' hi' n1 K n2 where 1:
      "insert_into_parent P (root t1) k (root t2) p b = insert_into_parent P (root n1) K (root n2) (hole_parent c) b2"
      "bsession base cap (tot(fid := tot fid + 1)) V2 [] {} (Some (root (fill ((p, lts, lks, rks, rts) # c) t1))) fid b2"
      "pending fid (tot(fid := tot fid + 1)) V2 c lo' hi' n1 K n2" "root n1 = p"
      "entries n1 @ entries n2 = concat (map entries (lts @ t1 # t2 # rts))"
      "leaves n1 @ leaves n2 = concat (map leaves (lts @ t1 # t2 # rts))"
      "\<And>q. q \<in> set (lleaves ((p, lts, lks, rks, rts) # c) @ leaves t1 @ leaves t2 @ rleaves ((p, lts, lks, rks, rts) # c)) \<Longrightarrow>
          next_of (V2 q) = next_of (V q)"
      "\<And>q. file_id q \<noteq> fid \<Longrightarrow> V2 q = V q"
      by (rule grow_split [OF g room pend b full t1]) (rule that)
    have "root (fill ((p, lts, lks, rks, rts) # c) t1) = root (fill c n1)"
      using root_fill [of "Nd p (lts @ t1 # rts) (lks @ rks)" n1 c] 1(4) by simp
    then have b2: "bsession base cap (tot(fid := tot fid + 1)) V2 [] {} (Some (root (fill c n1))) fid b2" using 1(2) by simp
    have "unat ((tot(fid := tot fid + 1)) fid) + length c + 1 < 2 ^ 32" using Cons.prems(3) u by simp
    from Cons.IH [OF 1(3) b2 this] obtain b' where 2:
      "insert_into_parent P (root n1) K (root n2) (hole_parent c) b2 = Some (Ok (), b')"
      "grown (- 2147483648) 2147483648 fid base cap V2 (tot(fid := tot fid + 1)) (length c + 1)
        (lentries c @ entries n1 @ entries n2 @ rentries c) (lleaves c @ leaves n1 @ leaves n2 @ rleaves c) b'"
      by blast
    have es: "lentries c @ entries n1 @ entries n2 @ rentries c = lentries (fr # c) @ entries t1 @ entries t2 @ rentries (fr # c)"
        "lleaves c @ leaves n1 @ leaves n2 @ rleaves c = lleaves (fr # c) @ leaves t1 @ leaves t2 @ rleaves (fr # c)"
      using 1(5,6) by (simp_all add: fr flip: append_assoc)
    have "grown (- 2147483648) 2147483648 fid base cap V tot (length (fr # c) + 1)
        (lentries (fr # c) @ entries t1 @ entries t2 @ rentries (fr # c)) (lleaves (fr # c) @ leaves t1 @ leaves t2 @ rleaves (fr # c)) b'"
      by (rule grown_trans [OF 2(2) [unfolded es]]) (use 1(7,8) u in \<open>simp_all add: fr\<close>)
    with 1(1) 2(1) show ?thesis by (simp add: fr)
  qed
qed

end

end
