(* ===== verification/BTree_Map.thy ===== *)
theory BTree_Map
  imports BTree_Grow
begin

text \<open>
  An index as a finite map: \<open>insert\<close> adds a key, with a split of the leaf when it is full, or
  refuses a duplicate. \<open>index_rep\<close> relates the pages and the root to the map.
\<close>

definition index_rep :: "nat \<Rightarrow> u32 \<Rightarrow> (u32 \<Rightarrow> u32) \<Rightarrow> (page_id \<Rightarrow> page) \<Rightarrow> page_id option \<Rightarrow> (int \<Rightarrow> ctid option) \<Rightarrow> bool" where
  "index_rep ps fid tot V r m \<longleftrightarrow> (case r of None \<Rightarrow> m = Map.empty
     | Some p \<Rightarrow> \<exists>t. root t = p \<and> tree_inv ps fid tot V t \<and> map_of (entries t) = m)"

lemma pages_bound:
  assumes "distinct ps" and "pages_ok fid tot ps"
  shows "length ps \<le> unat (tot fid)"
proof -
  have "inj_on (\<lambda>p. unat (page_num p)) (set ps)"
  proof (rule inj_onI)
    fix x y assume xy: "x \<in> set ps" "y \<in> set ps" "unat (page_num x) = unat (page_num y)"
    then have "page_num x = page_num y" by (intro unsigned_word_eqI)
    moreover have "file_id x = file_id y" using xy assms(2) by (simp add: pages_ok_def)
    ultimately show "x = y" by simp
  qed
  then have "card (set ps) = card ((\<lambda>p. unat (page_num p)) ` set ps)" by (simp add: card_image)
  also have "\<dots> \<le> card {..<unat (tot fid)}"
    using assms(2) by (intro card_mono) (auto simp: pages_ok_def word_less_nat_alt)
  finally show ?thesis using assms(1) by (simp add: distinct_card)
qed

lemma length_ctx_pages: "length c \<le> length (ctx_pages c)"
proof (induction c)
  case (Cons fr c)
  then show ?case by (cases fr) auto
qed simp

lemma ordered_halves:
  assumes srt: "sorted_wrt (<) (map fst kvs)" and rng: "\<forall>k \<in> set (map fst kvs). lo \<le> k \<and> k < hi"
    and m: "0 < m" "m < length kvs"
  shows "ordered lo (fst (kvs ! m)) (Lf p (take m kvs))" and "ordered (fst (kvs ! m)) hi (Lf q (drop m kvs))"
    and "lo < fst (kvs ! m)" and "fst (kvs ! m) < hi"
proof -
  have lt: "fst (kvs ! i) < fst (kvs ! j)" if "i < j" "j < length kvs" for i j
    using srt that by (simp add: sorted_wrt_iff_nth_less)
  have r: "lo \<le> fst (kvs ! i)" "fst (kvs ! i) < hi" if "i < length kvs" for i
    using rng nth_mem [OF that] by auto
  have "fst x < fst (kvs ! m)" "lo \<le> fst x" if x: "x \<in> set (take m kvs)" for x
  proof -
    obtain i where "i < m" "x = kvs ! i" using x m(2) by (auto simp: in_set_conv_nth)
    then show "fst x < fst (kvs ! m)" "lo \<le> fst x" using lt r(1) m(2) by simp_all
  qed
  then show "ordered lo (fst (kvs ! m)) (Lf p (take m kvs))"
    using sorted_wrt_take [OF srt, of m] by (auto simp: take_map)
  have "fst (kvs ! m) \<le> fst x" "fst x < hi" if x: "x \<in> set (drop m kvs)" for x
  proof -
    obtain i where i: "m \<le> i" "i < length kvs" "x = kvs ! i"
      using x by (metis in_set_conv_nth length_drop less_diff_conv nth_drop add.commute le_add1 m(2) less_imp_le)
    then show "fst (kvs ! m) \<le> fst x" "fst x < hi" using lt [of m i] r(2) by (cases "m = i"; simp)+
  qed
  then show "ordered (fst (kvs ! m)) hi (Lf q (drop m kvs))"
    using sorted_wrt_drop [OF srt, of m] by (auto simp: drop_map)
  show "lo < fst (kvs ! m)" "fst (kvs ! m) < hi"
    using lt [OF m(1,2)] r(1) [OF less_trans [OF m]] r(2) [OF m(2)] by linarith+
qed

context page_pool begin

text \<open>A completed insertion: the index stands for \<open>m\<close>, other files are untouched.\<close>

definition index_done :: "u32 \<Rightarrow> (page_id \<Rightarrow> nat) \<Rightarrow> nat \<Rightarrow> (page_id \<Rightarrow> page) \<Rightarrow> (u32 \<Rightarrow> u32) \<Rightarrow> (int \<Rightarrow> ctid option) \<Rightarrow> 's btree \<Rightarrow> bool" where
  "index_done fid base cap V tot m b' \<longleftrightarrow> (\<exists>V' tot' r'.
     bsession base cap tot' V' [] {} r' fid b' \<and> index_rep (pg_size P) fid tot' V' r' m \<and>
     (\<forall>q. file_id q \<noteq> fid \<longrightarrow> V' q = V q) \<and> (\<forall>g. g \<noteq> fid \<longrightarrow> tot' g = tot g))"

lemma split_leaf_spec:
  assumes g: "geometry (pg_size P)" and room: "spare base cap 3"
    and b: "bsession base cap tot V [] {} (Some (root t)) fid b"
    and inv: "tree_inv (pg_size P) fid tot V t" and t: "t = fill c (Lf p kvs)"
    and c: "ctx_ord (- 2147483648) 2147483648 c lo hi"
    and ord: "ordered lo hi (Lf p kvs)" and key: "i32_range key" "lo \<le> key" "key < hi"
    and new: "binary_search (map fst kvs) key = Inl i"
    and full: "unat (leaf_max_keys (pg_size P)) \<le> length kvs" and tot: "unat (tot fid) < 2147483647"
  shows "\<exists>b'. split_leaf P p key v b = Some (Ok (), b') \<and>
    index_done fid base cap V tot ((map_of (entries t))(key \<mapsto> v)) b'"
proof -
  let ?ps = "pg_size P" and ?tot = "tot(fid := tot fid + 1)"
  define q where "q = \<lparr>file_id = fid, page_num = tot fid\<rparr>"
  have rep: "ctx_rep ?ps V c p" "leaf_at ?ps V p (hole_parent c) kvs" and d: "distinct (ctx_pages c @ [p])"
    and ok: "pages_ok fid tot (ctx_pages c @ [p])" and ch: "chain V (lleaves c @ p # rleaves c) invalid_page_id"
    using inv distinct_pages_fill [of c "Lf p kvs"] unfolding t tree_inv_def tree_rep_fill leaves_fill
    by (simp_all add: pages_ok_def set_pages_fill)
  have qn: "q \<notin> set (ctx_pages c @ [p])" unfolding q_def by (rule fresh_page [OF ok])
  have pf: "file_id p = fid" using ok by (simp add: pages_ok_def)
  have len: "\<And>x. length (V x) = ?ps" using bsession_size [OF b] .
  have has: "leaf_has (leaf_of (V p)) kvs" and hd: "max_keys (load_header (V p)) = leaf_max_keys ?ps"
      "node_type (load_header (V p)) = leaf_tag" "parent_page_id (load_header (V p)) = hole_parent c"
    using rep(2) by (simp_all add: leaf_at_def)
  have srt: "sorted_wrt (<) (map fst kvs)" and rng: "\<forall>k \<in> set (map fst kvs). lo \<le> k \<and> k < hi" using ord by simp_all
  note ins = insert_at_sorted [OF srt new]
  define kvs' where "kvs' = insert_at i (key, v) kvs"
  define mid where "mid = length kvs div 2"
  have full': "length kvs = unat (leaf_max_keys ?ps)" using leaf_hasD(4) [OF has] full hd by simp
  have two: "2 \<le> length kvs" using g full' by (simp add: geometry_def)
  have mid: "0 < mid" "mid < length kvs'" using two by (simp_all add: mid_def kvs'_def)
  have srt': "sorted_wrt (<) (map fst kvs')" using ins(1) by (simp add: kvs'_def)
  have rng': "\<forall>k \<in> set (map fst kvs'). lo \<le> k \<and> k < hi" using rng key by (auto simp: kvs'_def)
  note halves = ordered_halves [OF srt' rng' mid]
  obtain f b1 where 1: "pool_op (pg_fetch P p) b = Some (Ok f, b1)" "bsession base cap tot V [(p, f)] {} (Some (root t)) fid b1"
    by (rule step_fetch [OF b room]) simp
  obtain rf b2 where 2: "pool_op (pg_new P fid) b1 = Some (Ok (rf, q), b2)"
      "bsession base cap ?tot V [(q, rf), (p, f)] {} (Some (root t)) fid b2"
    by (rule step_new [OF 1(2) room _ q_def]) simp
  have rd: "pool_op (pg_read P f) b2 = Some (Ok (V p), b2)" "pool_op (pg_read P rf) b2 = Some (Ok (V q), b2)"
    by (rule step_read [OF 2(2)]; simp)+
  define h where "h = right_leaf_header (load_header (V p)) (load_header (V q))"
  obtain m where m: "load_leaf (store_header h (V q)) = (Ok m :: (tree_error, leaf_node) res)" "leaf_ok m" "lf_header m = h"
    by (rule fresh_leaf [OF g len [of q], of h]) (simp_all add: h_def right_leaf_header_def hd)
  have fl: "unat (max_keys (lf_header (leaf_of (V p)))) = length kvs"
    and mx: "max_keys (lf_header m) = max_keys (lf_header (leaf_of (V p)))"
    using full' by (simp_all add: hd m(3) h_def right_leaf_header_def)
  have si: "i = search_pos (binary_search (map fst kvs) key)" by (simp add: new search_pos_def)
  obtain n' m' where n': "leaf_split key v q (leaf_of (V p)) m = (Ok (n', m', fst (kvs' ! mid)) :: (tree_error, _) res)"
      "leaf_has n' (take mid kvs')" "leaf_has m' (drop mid kvs')"
      "lf_header n' = (lf_header (leaf_of (V p)))\<lparr>num_keys := word_of_nat mid, next_page_id := q\<rparr>"
      "lf_header m' = (lf_header m)\<lparr>num_keys := word_of_nat (length kvs' - mid)\<rparr>"
    by (rule leaf_split_spec [OF has fl two m(2) mx key(1) si ins(2) kvs'_def mid_def refl])
  have hn: "max_keys (lf_header n') = leaf_max_keys ?ps" "node_type (lf_header n') = leaf_tag"
      "parent_page_id (lf_header n') = hole_parent c" "next_page_id (lf_header n') = q"
    and hm: "max_keys (lf_header m') = leaf_max_keys ?ps" "node_type (lf_header m') = leaf_tag"
      "parent_page_id (lf_header m') = hole_parent c" "next_page_id (lf_header m') = next_of (V p)"
    by (simp_all add: n'(4,5) hd m(3) h_def right_leaf_header_def next_of_def)
  let ?pg = "store_leaf n' (V p)" and ?rpg = "store_leaf m' (V q)"
  let ?V = "V(p := ?pg, q := ?rpg)"
  note sn = leaf_at_store(1) [OF g len [of p] n'(2) hn(1,2), where V = V and p = p]
    leaf_at_store(2,3) [OF g len [of p] n'(2) hn(1,2)]
  note sm = leaf_at_store(1) [OF g len [of q] n'(3) hm(1,2), where V = "V(p := ?pg)" and p = q]
    leaf_at_store(2,3) [OF g len [of q] n'(3) hm(1,2)]
  have pq: "p \<noteq> q" using qn by auto
  have atn: "leaf_at ?ps ?V p (hole_parent c) (take mid kvs')" "leaf_at ?ps ?V q (hole_parent c) (drop mid kvs')"
    using sn(1) sm(1) pq leaf_at_cong [of ?V p "V(p := ?pg)" ?ps] by (simp_all add: hn hm)
  obtain b3 where 3: "pool_op (pg_write P f ?pg) b2 = Some (Ok (), b3)"
      "bsession base cap ?tot (V(p := ?pg)) [(q, rf), (p, f)] {p} (Some (root t)) fid b3"
    by (rule step_write [OF 2(2), of p f ?pg]) (use sn in auto)
  obtain b4 where 4: "pool_op (pg_write P rf ?rpg) b3 = Some (Ok (), b4)"
      "bsession base cap ?tot ?V [(q, rf), (p, f)] {q, p} (Some (root t)) fid b4"
    by (rule step_write [OF 3(2), of q rf ?rpg]) (use sm in auto)
  have W: "{q, p} - {p} = {q}" using pq by auto
  obtain b5 where 5: "pool_op (pg_unpin P p True) b4 = Some (Ok (), b5)"
      "bsession base cap ?tot ?V [(q, rf)] {q} (Some (root t)) fid b5"
    by (rule step_unpin [OF 4(2), of p f True]) (use pq W in simp_all)
  obtain b6 where 6: "pool_op (pg_unpin P q True) b5 = Some (Ok (), b6)"
      "bsession base cap ?tot ?V [] {} (Some (root t)) fid b6"
    by (rule step_unpin [OF 5(2), of q rf True]) auto
  have run: "split_leaf P p key v b = insert_into_parent P p (fst (kvs' ! mid)) q (hole_parent c) b6"
    by (simp add: split_leaf_def act_simps pf 1(1) 2(1) rd leaf_at_load [OF g len rep(2)] h_def [symmetric] m(1) n'(1)
        3(1) 4(1) unpin_ignoring_Ok [OF 5(1)] unpin_ignoring_Ok [OF 6(1)] hn)
  let ?t1 = "Lf p (take mid kvs')" and ?t2 = "Lf q (drop mid kvs')"
  have tot1: "unat (tot fid) + 1 < 2 ^ 32" using tot by simp
  note gr = pages_ok_grow [OF ok tot1]
  have "ctx_rep ?ps ?V c p" using rep(1) d qn by (simp add: ctx_rep_upd)
  moreover have "distinct (ctx_pages c @ [p, q])" using d qn pq by auto
  moreover have "pages_ok fid ?tot (ctx_pages c @ [p, q])" using gr by (auto simp: pages_ok_def q_def)
  moreover have "\<exists>h. ctx_bal c h \<and> bal ?t1 h \<and> bal ?t2 h"
    using inv by (simp add: tree_inv_def t balanced_fill)
  ultimately have pend: "pending fid ?tot ?V c lo hi ?t1 (fst (kvs' ! mid)) ?t2"
    unfolding pending_def using atn c halves by simp
  have "length c \<le> unat (tot fid)"
    using length_ctx_pages [of c] pages_bound [of "ctx_pages c" fid tot] d ok by (simp add: pages_ok_def)
  then have cnt: "unat (?tot fid) + length c + 1 < 2 ^ 32" using tot gr by simp
  have rt: "root t = root (fill c ?t1)" unfolding t by (rule root_fill) simp
  obtain b' where 7: "insert_into_parent P p (fst (kvs' ! mid)) q (hole_parent c) b6 = Some (Ok (), b')"
      "grown (- 2147483648) 2147483648 fid base cap ?V ?tot (length c + 1)
        (lentries c @ entries ?t1 @ entries ?t2 @ rentries c) (lleaves c @ leaves ?t1 @ leaves ?t2 @ rleaves c) b'"
    using insert_into_parent_spec [OF g room pend 6(2) [unfolded rt] cnt] unfolding root.simps by blast
  have "chain ?V (lleaves c @ p # q # rleaves c) invalid_page_id"
  proof (rule chain_split [OF ch])
    show "next_of (?V p) = q" "next_of (?V q) = next_of (V p)"
      using pq sn sm by (simp_all add: next_of_def hn hm)
    show "next_of (?V x) = next_of (V x)" if "x \<in> set (lleaves c) \<union> set (rleaves c)" for x
      using that ctx_leaves [of c] d qn by auto
  qed
  then have "index_done fid base cap V tot ((map_of (entries t))(key \<mapsto> v)) b'" using 7(2) unfolding grown_def
  proof (elim exE conjE, goal_cases)
    case (1 V' tot' t')
    have "chain V' (leaves t') invalid_page_id = chain ?V (leaves t') invalid_page_id"
      by (rule chain_cong) (use 1 in metis)
    then have "tree_inv ?ps fid tot' V' t'" using 1 by (simp add: tree_inv_def)
    moreover have "entries t' = entries (fill c (Lf p kvs'))" using 1 by (simp add: entries_fill)
    moreover have "map_of (entries (fill c (Lf p kvs'))) = (map_of (entries t))(key \<mapsto> v)"
      unfolding t using map_of_insert_at [OF ins(3), of i v]
      by (intro map_of_fill_upd [OF c key(2,3)]) (simp add: kvs'_def)
    ultimately have "index_rep ?ps fid tot' V' (Some (root t')) ((map_of (entries t))(key \<mapsto> v))"
      by (auto simp: index_rep_def)
    moreover have "V' x = V x" if "file_id x \<noteq> fid" for x
      using that 1 pf by (auto simp: q_def)
    moreover have "tot' x = tot x" if "x \<noteq> fid" for x using that 1 by simp
    ultimately show ?case using 1 unfolding index_done_def by blast
  qed
  with 7(1) run show ?thesis by auto
qed

lemma create_root_spec:
  assumes g: "geometry (pg_size P)" and room: "spare base cap 1"
    and b: "bsession base cap tot V [] {} None fid b" and key: "i32_range key" and tot: "unat (tot fid) < 2147483647"
  shows "\<exists>b'. create_root_and_insert P key v b = Some (Ok (), b') \<and> index_done fid base cap V tot [key \<mapsto> v] b'"
proof -
  let ?ps = "pg_size P" and ?tot = "tot(fid := tot fid + 1)"
  define q where "q = \<lparr>file_id = fid, page_num = tot fid\<rparr>"
  have len: "\<And>x. length (V x) = ?ps" using bsession_size [OF b] .
  obtain f b1 where 1: "pool_op (pg_new P fid) b = Some (Ok (f, q), b1)" "bsession base cap ?tot V [(q, f)] {} None fid b1"
    by (rule step_new [OF b room _ q_def]) simp
  have 2: "pool_op (pg_read P f) b1 = Some (Ok (V q), b1)" by (rule step_read [OF 1(2)]) simp
  define h where "h = (load_header (V q))\<lparr>node_type := leaf_tag, num_keys := 1, max_keys := leaf_max_keys ?ps,
    parent_page_id := invalid_page_id, next_page_id := invalid_page_id\<rparr>"
  obtain m where m: "load_leaf (store_header h (V q)) = (Ok m :: (tree_error, leaf_node) res)" "leaf_ok m" "lf_header m = h"
    by (rule fresh_leaf [OF g len [of q], of h]) (simp_all add: h_def)
  have "2 \<le> unat (leaf_max_keys ?ps)" using g by (simp add: geometry_def)
  then have max: "1 \<le> unat (leaf_max_keys ?ps)" "lf_keys m \<noteq> []" "lf_values m \<noteq> []"
    using m by (auto simp: leaf_ok_def h_def)
  define m' where "m' = m\<lparr>lf_keys := (lf_keys m)[0 := key], lf_values := (lf_values m)[0 := v]\<rparr>"
  have "take 1 ((lf_keys m)[0 := key]) = [key]" using max(2) by (cases "lf_keys m") simp_all
  moreover have "take 1 ((lf_values m)[0 := v]) = [v]" using max(3) by (cases "lf_values m") simp_all
  moreover have "\<forall>k \<in> set ((lf_keys m)[0 := key]). i32_range k"
    using m(2) key set_update_subset_insert [of "lf_keys m" 0 key] by (auto simp: leaf_ok_def)
  ultimately have has: "leaf_has m' [(key, v)]"
    using m(2,3) max by (simp add: leaf_has_def leaf_ok_def m'_def h_def)
  have hm: "max_keys (lf_header m') = leaf_max_keys ?ps" "node_type (lf_header m') = leaf_tag"
      "parent_page_id (lf_header m') = invalid_page_id" "next_page_id (lf_header m') = invalid_page_id"
    by (simp_all add: m'_def m(3) h_def)
  let ?pg = "store_leaf m' (V q)"
  note st = leaf_at_store(1) [OF g len [of q] has hm(1,2), where V = V and p = q]
    leaf_at_store(2,3) [OF g len [of q] has hm(1,2)]
  obtain b2 where 3: "pool_op (pg_write P f ?pg) b1 = Some (Ok (), b2)"
      "bsession base cap ?tot (V(q := ?pg)) [(q, f)] {q} None fid b2"
    by (rule step_write [OF 1(2), of q f ?pg]) (use st in auto)
  have "bsession base cap ?tot (V(q := ?pg)) [(q, f)] {q} (Some q) fid (b2\<lparr>bt_root := Some q\<rparr>)"
    using 3(2) by (simp add: bsession_def)
  then obtain b3 where 4: "pool_op (pg_unpin P q True) (b2\<lparr>bt_root := Some q\<rparr>) = Some (Ok (), b3)"
      "bsession base cap ?tot (V(q := ?pg)) [] {} (Some q) fid b3"
    by (rule step_unpin [of _ _ _ _ _ _ _ _ _ q f True]) auto
  have "bt_file b = fid" using b by (simp add: bsession_def)
  then have "create_root_and_insert P key v b = Some (Ok (), b3)"
    using max by (simp add: create_root_and_insert_def act_simps 1(1) 2 h_def [symmetric] m(1) m'_def [symmetric] 3(1) 4(1)
        set_root_def)
  moreover have "tree_inv ?ps fid ?tot (V(q := ?pg)) (Lf q [(key, v)])"
    using pages_ok_grow [of fid tot "[]"] tot st key
    by (simp add: tree_inv_def hm next_of_def pages_ok_def q_def i32_range_def)
  then have "index_rep ?ps fid ?tot (V(q := ?pg)) (Some q) [key \<mapsto> v]"
    unfolding index_rep_def by (auto intro!: exI [of _ "Lf q [(key, v)]"])
  then have "index_done fid base cap V tot [key \<mapsto> v] b3"
    unfolding index_done_def
    by (intro exI [of _ "V(q := ?pg)"] exI [of _ ?tot] exI [of _ "Some q"]) (use 4(2) in \<open>auto simp: q_def\<close>)
  ultimately show ?thesis by blast
qed

text \<open>\<open>BTreeIndex::insert\<close> as an operation on a map.\<close>

lemma tree_insert_spec:
  assumes g: "geometry (pg_size P)" and room: "spare base cap 3"
    and b: "bsession base cap tot V [] {} r fid b" and rep: "index_rep (pg_size P) fid tot V r m"
    and key: "i32_range key" and tot: "unat (tot fid) < 2147483647"
  shows "case m key of
      Some _ \<Rightarrow> \<exists>b'. tree_insert P key v b = Some (Err DuplicateKey, b') \<and> bsession base cap tot V [] {} r fid b'
    | None \<Rightarrow> \<exists>b'. tree_insert P key v b = Some (Ok (), b') \<and> index_done fid base cap V tot (m(key \<mapsto> v)) b'"
proof (cases r)
  case None
  have "spare base cap 1" by (rule spare_le [OF room]) simp
  from create_root_spec [OF g this b [unfolded None] key tot, of v] None b rep
  show ?thesis by (auto simp: tree_insert_def index_rep_def bsession_def)
next
  case (Some rt)
  then obtain t where t: "root t = rt" "tree_inv (pg_size P) fid tot V t" "map_of (entries t) = m"
    using rep by (auto simp: index_rep_def)
  have r: "r = Some (root t)" using Some t(1) by simp
  have room1: "spare base cap 1" by (rule spare_le [OF room]) simp
  obtain c p kvs f b1 lo hi where 1: "find_leaf_page P key b = Some (Ok (Some (f, p)), b1)"
      "bsession base cap tot V [(p, f)] {} (Some (root t)) fid b1" "t = fill c (Lf p kvs)"
      "ctx_ord (- 2147483648) 2147483648 c lo hi" "ordered lo hi (Lf p kvs)" "lo \<le> key" "key < hi"
      "leaf_at (pg_size P) V p (hole_parent c) kvs" "map_of (entries t) key = map_of kvs key"
    by (rule find_leaf_page_spec [OF g room1 b [unfolded r] t(2) key])
  have ins: "tree_insert P key v b = insert_into_leaf P f p key v b1"
    using b r by (simp add: tree_insert_def bsession_def act_simps 1(1))
  have srt: "sorted_wrt (<) (map fst kvs)" using 1(5) by simp
  have mk: "m key = map_of kvs key" using 1(9) t(3) by simp
  have 2: "pool_op (pg_read P f) b1 = Some (Ok (V p), b1)" by (rule step_read [OF 1(2)]) simp
  obtain b2 where 3: "pool_op (pg_unpin P p False) b1 = Some (Ok (), b2)" "bsession base cap tot V [] {} (Some (root t)) fid b2"
    by (rule step_unpin [OF 1(2), of p f False]) auto
  have has: "leaf_has (leaf_of (V p)) kvs" and hd: "max_keys (load_header (V p)) = leaf_max_keys (pg_size P)"
    using 1(8) by (simp_all add: leaf_at_def)
  note h = leaf_hasD [OF has]
  have sl: "slice_to (length kvs) (lf_keys (leaf_of (V p))) = Ok (map fst kvs)" using h(2,4,5) by simp
  have n: "unat (num_keys (load_header (V p))) = length kvs" using h(1) by simp
  note ld = leaf_at_load [OF g bsession_size [OF 1(2)] 1(8)]
  show ?thesis
  proof (cases "binary_search (map fst kvs) key")
    case (Inr i)
    then have "m key = Some (snd (kvs ! i))" using mk by (simp add: binary_search_map_of [OF srt])
    moreover have "tree_insert P key v b = Some (Err DuplicateKey, b2)"
      by (simp add: ins insert_into_leaf_def act_simps 2 ld n sl Inr 3(1))
    ultimately show ?thesis using 3(2) r by simp
  next
    case (Inl i)
    then have none: "m key = None" using mk by (simp add: binary_search_map_of [OF srt])
    show ?thesis
    proof (cases "length kvs < unat (leaf_max_keys (pg_size P))")
      case True
      obtain b' pg where 4: "insert_into_leaf P f p key v b1 = Some (Ok (), b')"
          "bsession base cap tot (V(p := pg)) [] {} (Some (root t)) fid b'"
          "tree_inv (pg_size P) fid tot (V(p := pg)) (fill c (Lf p (insert_at i (key, v) kvs)))"
        using insert_into_leaf_room [OF g 1(2) t(2) [unfolded 1(3)] 1(4,5,8) key 1(6,7) Inl True] by blast
      have "root (fill c (Lf p (insert_at i (key, v) kvs))) = root t" unfolding 1(3) by (rule root_fill) simp
      moreover have "map_of (entries (fill c (Lf p (insert_at i (key, v) kvs)))) = m(key \<mapsto> v)"
        using map_of_fill_upd [OF 1(4,6,7), of "Lf p (insert_at i (key, v) kvs)" "Lf p kvs" "Some v"]
          map_of_insert_at [OF insert_at_sorted(3) [OF srt Inl], of i v] t(3) by (simp add: 1(3))
      ultimately have "index_rep (pg_size P) fid tot (V(p := pg)) (Some (root t)) (m(key \<mapsto> v))"
        using 4(3) by (auto simp: index_rep_def)
      moreover have "file_id p = fid" using t(2) by (simp add: 1(3) tree_inv_def pages_ok_def set_pages_fill)
      ultimately have "index_done fid base cap V tot (m(key \<mapsto> v)) b'"
        unfolding index_done_def using 4(2) by (intro exI [of _ "V(p := pg)"] exI [of _ tot] exI [of _ "Some (root t)"]) auto
      then show ?thesis using none ins 4(1) by simp
    next
      case False
      then have "unat (leaf_max_keys (pg_size P)) \<le> length kvs" by simp
      from split_leaf_spec [OF g room 3(2) t(2) 1(3,4,5) key 1(6,7) Inl this tot]
      obtain b' where "split_leaf P p key v b2 = Some (Ok (), b')" "index_done fid base cap V tot (m(key \<mapsto> v)) b'"
        unfolding t(3) by blast
      moreover from this False have "tree_insert P key v b = Some (Ok (), b')"
        by (simp add: ins insert_into_leaf_def act_simps 2 ld n sl Inl 3(1) hd)
      ultimately show ?thesis using none by simp
    qed
  qed
qed

end

end
