(* ===== verification/BTree_Range.thy ===== *)
theory BTree_Range
  imports BTree_Map
begin

text \<open>
  Range scans along the chain of leaves.
\<close>

subsection \<open>Range scans\<close>

text \<open>The leaves of a tree with their entries, from left to right.\<close>

fun leaf_list :: "tree \<Rightarrow> (page_id \<times> (int \<times> ctid) list) list" where
  "leaf_list (Lf p kvs) = [(p, kvs)]"
| "leaf_list (Nd p ts ks) = concat (map leaf_list ts)"

fun lleaf_list :: "tree_frame list \<Rightarrow> (page_id \<times> (int \<times> ctid) list) list" where
  "lleaf_list [] = []"
| "lleaf_list ((p, lts, lks, rks, rts) # c) = lleaf_list c @ concat (map leaf_list lts)"

fun rleaf_list :: "tree_frame list \<Rightarrow> (page_id \<times> (int \<times> ctid) list) list" where
  "rleaf_list [] = []"
| "rleaf_list ((p, lts, lks, rks, rts) # c) = concat (map leaf_list rts) @ rleaf_list c"

lemma leaf_list_fill: "leaf_list (fill c t) = lleaf_list c @ leaf_list t @ rleaf_list c"
  by (induction c t rule: fill.induct) simp_all

lemma leaf_list_entries: "concat (map snd (leaf_list t)) = entries t"
proof (induction t)
  case (Nd p ts ks)
  then show ?case by (induction ts) auto
qed simp

lemma leaf_list_leaves: "map fst (leaf_list t) = leaves t"
proof (induction t)
  case (Nd p ts ks)
  then show ?case by (induction ts) auto
qed simp

lemma rleaf_list_entries: "concat (map snd (rleaf_list c)) = rentries c"
proof (induction c)
  case (Cons fr c)
  obtain p lts lks rks rts where fr: "fr = (p, lts, lks, rks, rts)" by (cases fr)
  have "concat (map snd (concat (map leaf_list rts))) = concat (map entries rts)"
    by (induction rts) (auto simp: leaf_list_entries)
  with Cons show ?case by (simp add: fr)
qed simp

lemma leaf_list_rep: "tree_rep ps V par t \<Longrightarrow> (p, kvs) \<in> set (leaf_list t) \<Longrightarrow> \<exists>par. leaf_at ps V p par kvs"
  by (induction t arbitrary: par) auto

definition in_range :: "int \<Rightarrow> int \<Rightarrow> (int \<times> ctid) list \<Rightarrow> ctid list" where
  "in_range lo hi kvs = map snd (filter (\<lambda>(k, _). lo \<le> k \<and> k \<le> hi) kvs)"

lemma in_range_append [simp]: "in_range lo hi (xs @ ys) = in_range lo hi xs @ in_range lo hi ys"
  by (simp add: in_range_def)

lemma in_range_Nil [simp]: "in_range lo hi [] = []"
  by (simp add: in_range_def)

lemma in_range_none: "\<forall>k \<in> fst ` set kvs. k < lo \<or> hi < k \<Longrightarrow> in_range lo hi kvs = []"
  by (force simp: in_range_def filter_empty_conv)

lemma leaf_scan_spec:
  assumes ks: "take (length kvs) ks = map fst kvs" and vs: "take (length kvs) vs = map snd kvs"
    and srt: "sorted_wrt (<) (map fst kvs)" and i: "i \<le> length kvs"
  shows "(leaf_scan lo hi i (length kvs) ks vs results :: ('e, ctid list \<times> bool) res) =
    Ok (results @ in_range lo hi (drop i kvs), \<exists>k \<in> fst ` set (drop i kvs). hi < k)"
  using i
proof (induction "length kvs - i" arbitrary: i results)
  case 0
  then show ?case by (subst leaf_scan.simps) simp
next
  case (Suc n)
  then have i: "i < length kvs" by simp
  have "length kvs \<le> length ks" "length kvs \<le> length vs"
    using arg_cong [OF ks, of length] arg_cong [OF vs, of length] by simp_all
  then have len: "i < length ks" "i < length vs" using i by simp_all
  have k: "ks ! i = fst (kvs ! i)" and v: "vs ! i = snd (kvs ! i)"
    using i nth_take [of i "length kvs" ks] nth_take [of i "length kvs" vs] by (simp_all add: ks vs)
  have d: "drop i kvs = kvs ! i # drop (Suc i) kvs" using i by (simp add: Cons_nth_drop_Suc)
  have IH: "(leaf_scan lo hi (Suc i) (length kvs) ks vs rs :: ('e, ctid list \<times> bool) res) =
      Ok (rs @ in_range lo hi (drop (Suc i) kvs), \<exists>k \<in> fst ` set (drop (Suc i) kvs). hi < k)" for rs
  proof -
    have "n = length kvs - Suc i" using Suc.hyps(2) by linarith
    then show ?thesis using Suc.hyps(1) [of "Suc i" rs] i by simp
  qed
  obtain x y where xy: "kvs ! i = (x, y)" by (cases "kvs ! i")
  show ?case
  proof (cases "hi < x")
    case True
    have "\<forall>k \<in> fst ` set (drop (Suc i) kvs). hi < k"
    proof
      fix k assume "k \<in> fst ` set (drop (Suc i) kvs)"
      then have "k \<in> set (drop (Suc i) (map fst kvs))" by (simp add: drop_map)
      then have "x < k" using srt i xy sorted_wrt_drop [OF srt, of i] by (simp add: Cons_nth_drop_Suc [symmetric])
      with True show "hi < k" by simp
    qed
    then have "in_range lo hi (drop i kvs) = []" using True xy by (intro in_range_none) (auto simp: d)
    with True xy len k i show ?thesis by (subst leaf_scan.simps) (auto simp: d)
  next
    case False
    then show ?thesis using IH [of results] IH [of "results @ [y]"] xy len k v i
      by (subst leaf_scan.simps) (auto simp: d in_range_def)
  qed
qed

context page_pool begin

lemma range_loop_spec:
  assumes g: "geometry (pg_size P)" and room: "spare base cap n" "length held < n"
    and b: "bsession base cap tot V held {} r fid b"
    and "L \<noteq> []" and "chain V (map fst L) invalid_page_id" and "\<forall>(p, kvs) \<in> set L. \<exists>par. leaf_at (pg_size P) V p par kvs"
    and "sorted_wrt (<) (map fst (concat (map snd L)))" and "invalid_page_id \<notin> set (map fst L)"
  shows "\<exists>b'. range_loop P lo hi results (fst (hd L)) b = Some (Ok (results @ in_range lo hi (concat (map snd L))), b') \<and>
    bsession base cap tot V held {} r fid b'"
  using assms(4-)
proof (induction L arbitrary: results b)
  case (Cons x L)
  obtain p kvs where x: "x = (p, kvs)" by (cases x)
  obtain f b1 where 1: "pool_op (pg_fetch P p) b = Some (Ok f, b1)" "bsession base cap tot V ((p, f) # held) {} r fid b1"
    by (rule step_fetch [OF Cons.prems(1) room])
  have 2: "pool_op (pg_read P f) b1 = Some (Ok (V p), b1)" by (rule step_read [OF 1(2)]) simp
  obtain b2 where 3: "pool_op (pg_unpin P p False) b1 = Some (Ok (), b2)" "bsession base cap tot V held {} r fid b2"
    by (rule step_unpin [OF 1(2), of p f False]) auto
  obtain par where at: "leaf_at (pg_size P) V p par kvs" using Cons.prems(4) x by auto
  have has: "leaf_has (leaf_of (V p)) kvs" using at by (simp add: leaf_at_def)
  note h = leaf_hasD [OF has]
  have srt: "sorted_wrt (<) (map fst kvs)" and srt': "sorted_wrt (<) (map fst (concat (map snd L)))"
    and less: "\<forall>j \<in> fst ` set kvs. \<forall>k \<in> fst ` set (concat (map snd L)). j < k"
    using Cons.prems(5) by (auto simp: x sorted_wrt_append)
  have n: "unat (num_keys (load_header (V p))) = length kvs" using h(1) by simp
  note sc = leaf_scan_spec [OF h(2,3) srt, of 0 lo hi results, simplified]
  have nx: "next_page_id (load_header (V p)) = hd (map fst L @ [invalid_page_id])"
    using Cons.prems(3) by (simp add: x next_of_def)
  let ?stop = "\<exists>k \<in> set kvs. hi < fst k"
  have run: "range_loop P lo hi results p b =
      (if ?stop \<or> hd (map fst L @ [invalid_page_id]) = invalid_page_id then Some (Ok (results @ in_range lo hi kvs), b2)
       else range_loop P lo hi (results @ in_range lo hi kvs) (hd (map fst L @ [invalid_page_id])) b2)"
    by (subst range_loop.simps)
      (simp add: act_simps 1(1) 2 leaf_at_load [OF g bsession_size [OF 1(2)] at] n sc unpin_ignoring_Ok [OF 3(1)] nx)
  show ?case
  proof (cases "?stop \<or> L = []")
    case True
    have "in_range lo hi (concat (map snd L)) = []"
    proof (cases "L = []")
      case False
      with True obtain k where k: "k \<in> fst ` set kvs" "hi < k" by auto
      show ?thesis by (rule in_range_none) (use less k in fastforce)
    qed simp
    with True run 3(2) show ?thesis by (auto simp: x)
  next
    case False
    then have hd: "hd (map fst L @ [invalid_page_id]) = fst (hd L)" "fst (hd L) \<in> set (map fst L)"
      by (cases L; simp)+
    have "invalid_page_id \<notin> set (map fst L)" using Cons.prems(6) by simp
    with hd(2) have "fst (hd L) \<noteq> invalid_page_id" by metis
    moreover obtain b' where "range_loop P lo hi (results @ in_range lo hi kvs) (fst (hd L)) b2 =
          Some (Ok ((results @ in_range lo hi kvs) @ in_range lo hi (concat (map snd L))), b')"
        "bsession base cap tot V held {} r fid b'"
      using Cons.IH [OF 3(2), of "results @ in_range lo hi kvs"] False Cons.prems(3,4,6) srt' by (auto simp: x)
    ultimately show ?thesis using run False by (auto simp: x hd)
  qed
qed simp

text \<open>The leaf of the start key stays pinned: \<open>range_search\<close> pins it in \<open>find_leaf_page\<close>, fetches it
  again and unpins it once.\<close>

lemma index_range_search_spec:
  assumes g: "geometry (pg_size P)" and room: "spare base cap 2"
    and b: "bsession base cap tot V [] {} r fid b" and rep: "index_rep (pg_size P) fid tot V r m" and key: "i32_range lo"
  shows "\<exists>b' kvs held. index_range_search P lo hi b = Some (Ok (in_range lo hi kvs), b') \<and>
    map_of kvs = m \<and> sorted_wrt (<) (map fst kvs) \<and>
    bsession base cap tot V held {} r fid b' \<and> (r = None \<longrightarrow> held = []) \<and> (r \<noteq> None \<longrightarrow> length held = 1)"
proof (cases r)
  case None
  then have "find_leaf_page P lo b = Some (Ok None, b)" using b by (simp add: find_leaf_page_def bsession_def act_simps)
  then have "index_range_search P lo hi b = Some (Ok [], b)" by (simp add: index_range_search_def act_simps)
  with None b rep show ?thesis
    by (intro exI [of _ b] exI [of _ "[]"]) (simp add: index_rep_def)
next
  case (Some rt)
  then obtain t where t: "root t = rt" "tree_inv (pg_size P) fid tot V t" "map_of (entries t) = m"
    using rep by (auto simp: index_rep_def)
  have r: "r = Some (root t)" using Some t(1) by simp
  have room1: "spare base cap 1" by (rule spare_le [OF room]) simp
  obtain c p kvs f b1 lo' hi' where 1: "find_leaf_page P lo b = Some (Ok (Some (f, p)), b1)"
      "bsession base cap tot V [(p, f)] {} (Some (root t)) fid b1" "t = fill c (Lf p kvs)"
      "ctx_ord (- 2147483648) 2147483648 c lo' hi'" "lo' \<le> lo"
    by (rule find_leaf_page_spec [OF g room1 b [unfolded r] t(2) key])
  let ?L = "(p, kvs) # rleaf_list c"
  have srt: "sorted_wrt (<) (map fst (entries t))"
    using t(2) ordered_entries(1) [of "- 2147483648" 2147483648 t] by (simp add: tree_inv_def)
  have L: "leaf_list t = lleaf_list c @ ?L" by (simp add: 1(3) leaf_list_fill)
  have ent: "entries t = lentries c @ concat (map snd ?L)" by (simp add: 1(3) entries_fill rleaf_list_entries)
  have "map fst (leaf_list t) = map fst (lleaf_list c) @ map fst ?L" by (simp add: L)
  then have lv: "leaves t = map fst (lleaf_list c) @ map fst ?L" by (simp add: leaf_list_leaves)
  have "chain V (map fst ?L) invalid_page_id" using t(2) lv by (simp add: tree_inv_def chain_append)
  moreover have "\<forall>(p, kvs) \<in> set ?L. \<exists>par. leaf_at (pg_size P) V p par kvs"
    using leaf_list_rep [of "pg_size P" V invalid_page_id t] t(2) by (fastforce simp: tree_inv_def L)
  moreover have "sorted_wrt (<) (map fst (concat (map snd ?L)))" using srt by (simp add: ent sorted_wrt_append)
  moreover have "invalid_page_id \<notin> set (map fst ?L)"
  proof -
    have "set (map fst ?L) \<subseteq> set (pages t)" using lv leaves_subset [of t] by simp
    moreover have "invalid_page_id \<notin> set (pages t)" using t(2) page_not_invalid by (auto simp: tree_inv_def pages_ok_def)
    ultimately show ?thesis by blast
  qed
  ultimately obtain b2 where 2: "range_loop P lo hi [] p b1 = Some (Ok (in_range lo hi (concat (map snd ?L))), b2)"
      "bsession base cap tot V [(p, f)] {} (Some (root t)) fid b2"
    using range_loop_spec [OF g room _ 1(2), of ?L lo hi "[]"] by auto
  have "in_range lo hi (lentries c) = []"
    by (rule in_range_none) (use ctx_entries [OF 1(4)] 1(5) in fastforce)
  then have "in_range lo hi (entries t) = in_range lo hi (concat (map snd ?L))" by (simp add: ent)
  with 2 have "index_range_search P lo hi b = Some (Ok (in_range lo hi (entries t)), b2)"
    by (simp add: index_range_search_def act_simps 1(1))
  with 2(2) t(3) srt r show ?thesis by (intro exI [of _ b2] exI [of _ "entries t"]) auto
qed

end

end
