(* ===== verification/BTree_Delete.thy ===== *)
theory BTree_Delete
  imports BTree_Range
begin

text \<open>
  Deletion: the key leaves its leaf, and a leaf that is then less than half full is merged with a
  sibling when both fit into one page. A merge drops the right leaf from the chain and from the parent.
\<close>

subsection \<open>Merging two neighbours\<close>

lemma position_append: "x \<notin> set xs \<Longrightarrow> position (\<lambda>y. y = x) (xs @ x # ys) = Some (length xs)"
  by (induction xs) auto

lemma seg_merge:
  assumes "seg lo (xs @ Lf a ka # Lf b kb # ys) ((us @ s # vs) @ [hi]) hi" and "length xs = length us"
  shows "seg lo (xs @ Lf a (ka @ kb) # ys) ((us @ vs) @ [hi]) hi"
proof -
  obtain y rest where y: "vs @ [hi] = y # rest" by (cases "vs @ [hi]") auto
  have eq: "(us @ s # vs) @ [hi] = us @ s # y # rest" "(us @ vs) @ [hi] = us @ y # rest" using y by simp_all
  obtain m where m: "seg lo xs us m" "m < s" "ordered m s (Lf a ka)" "s < y" "ordered s y (Lf b kb)" "seg y ys rest hi"
    using assms unfolding eq by (simp only: seg_append seg.simps) blast
  have "ordered m y (Lf a (ka @ kb))" using m(2-5) by (fastforce simp: sorted_wrt_append)
  with m less_trans [OF m(2,4)] have "seg m (Lf a (ka @ kb) # ys) (y # rest) hi" by (simp only: seg.simps)
  with m(1) show ?thesis unfolding eq seg_append [OF assms(2)] by blast
qed

lemma merge_tree:
  assumes inv: "tree_inv ps fid tot V (fill c (Nd q (xs @ Lf a ka # Lf b kb # ys) (us @ s # vs)))"
    and c: "ctx_ord (- 2147483648) 2147483648 c lo hi" and len: "length xs = length us"
    and ord: "seg lo (xs @ Lf a ka # Lf b kb # ys) ((us @ s # vs) @ [hi]) hi"
    and at: "leaf_at ps V' a q (ka @ kb)" "node_at ps V' q (hole_parent c) (us @ vs) (map root xs @ a # map root ys)"
    and nxt: "next_of (V' a) = next_of (V b)" and same: "\<And>x. x \<noteq> a \<Longrightarrow> x \<noteq> q \<Longrightarrow> V' x = V x"
  shows "tree_inv ps fid tot V' (fill c (Nd q (xs @ Lf a (ka @ kb) # ys) (us @ vs)))" (is "tree_inv _ _ _ _ ?t'")
proof -
  let ?t = "fill c (Nd q (xs @ Lf a ka # Lf b kb # ys) (us @ s # vs))"
  have ms: "mset (pages ?t) = mset (b # pages ?t')" by (simp add: mset_pages_fill)
  have d: "distinct (pages ?t)" using inv by (simp add: tree_inv_def)
  then have d': "distinct (b # pages ?t')" using ms mset_eq_imp_distinct_iff by metis
  have dd: "distinct (ctx_pages c @ q # concat (map pages xs) @ a # b # concat (map pages ys))"
    using d by (simp add: distinct_pages_fill)
  have sub: "set (pages ?t') \<subseteq> set (pages ?t)" using mset_eq_setD [OF ms] by auto
  have rep: "ctx_rep ps V c q" "\<forall>u \<in> set xs \<union> set ys. tree_rep ps V q u"
    using inv by (auto simp: tree_inv_def tree_rep_fill)
  have "ctx_rep ps V' c q = ctx_rep ps V c q" by (rule ctx_rep_cong, rule same) (use dd in auto)
  moreover have "tree_rep ps V' q u = tree_rep ps V q u" if "u \<in> set xs \<union> set ys" for u
    by (rule tree_rep_cong, rule same) (use dd that in auto)
  ultimately have "tree_rep ps V' invalid_page_id ?t'" using rep at by (simp add: tree_rep_fill)
  moreover have "ordered (- 2147483648) 2147483648 ?t'"
    by (rule ordered_fill [OF c]) (use seg_merge [OF ord len] in simp)
  moreover have "balanced ?t'" using inv by (auto simp: tree_inv_def balanced_fill bal_Nd)
  moreover have "chain V' (leaves ?t') invalid_page_id"
  proof -
    let ?l = "lleaves c @ concat (map leaves xs)" and ?r = "concat (map leaves ys) @ rleaves c"
    have "set ?l \<union> set ?r \<subseteq> set (ctx_pages c) \<union> set (concat (map pages xs)) \<union> set (concat (map pages ys))"
      using ctx_leaves [of c] concat_leaves_subset [of xs] concat_leaves_subset [of ys] unfolding set_append by blast
    moreover have "a \<notin> set (ctx_pages c) \<union> set (concat (map pages xs)) \<union> set (concat (map pages ys))"
        "q \<notin> set (ctx_pages c) \<union> set (concat (map pages xs)) \<union> set (concat (map pages ys))"
      using dd by auto
    ultimately have nq: "x \<noteq> a" "x \<noteq> q" if "x \<in> set ?l \<union> set ?r" for x using that by blast+
    have "chain V (?l @ a # b # ?r) invalid_page_id" using inv by (simp add: tree_inv_def leaves_fill)
    then have "chain V' (?l @ a # ?r) invalid_page_id"
    proof (rule chain_merge)
      show "next_of (V' x) = next_of (V x)" if "x \<in> set ?l \<union> set ?r" for x
        using same [OF nq [OF that]] by simp
      show "next_of (V' a) = next_of (V b)" by (rule nxt)
    qed
    then show ?thesis by (simp add: leaves_fill)
  qed
  moreover have "pages_ok fid tot (pages ?t')" using inv sub by (auto simp: tree_inv_def pages_ok_def)
  ultimately show ?thesis using d' by (simp add: tree_inv_def)
qed

context page_pool begin

lemma merge_siblings_spec:
  assumes g: "geometry (pg_size P)" and room: "spare base cap 3"
    and b: "bsession base cap tot V [(q, pf)] {} r fid b"
    and inv: "tree_inv (pg_size P) fid tot V (fill c (Nd q (xs @ Lf x kx # Lf y ky # ys) (us @ s # vs)))"
    and c: "ctx_ord (- 2147483648) 2147483648 c lo hi" and len: "length xs = length us"
    and ord: "seg lo (xs @ Lf x kx # Lf y ky # ys) ((us @ s # vs) @ [hi]) hi"
    and par: "parent = internal_of (V q)" and idx: "idx = Suc (length xs)"
  shows "\<exists>b' V' t'. merge_siblings P q pf (V q) parent x y idx b = Some (Ok (), b') \<and>
    bsession base cap tot V' [] {} r fid b' \<and> tree_inv (pg_size P) fid tot V' t' \<and>
    root t' = root (fill c (Nd q (xs @ Lf x kx # Lf y ky # ys) (us @ s # vs))) \<and>
    entries t' = entries (fill c (Nd q (xs @ Lf x kx # Lf y ky # ys) (us @ s # vs))) \<and>
    (\<forall>p. file_id p \<noteq> fid \<longrightarrow> V' p = V p)"
proof -
  let ?ps = "pg_size P" and ?t = "fill c (Nd q (xs @ Lf x kx # Lf y ky # ys) (us @ s # vs))"
  note sz = bsession_size [OF b]
  have rep: "leaf_at ?ps V x q kx" "leaf_at ?ps V y q ky"
      "node_at ?ps V q (hole_parent c) (us @ s # vs) (map root (xs @ Lf x kx # Lf y ky # ys))"
    using inv by (simp_all add: tree_inv_def tree_rep_fill)
  have d: "distinct [q, x, y]" "file_id q = fid" "file_id x = fid"
    using inv by (auto simp: tree_inv_def distinct_pages_fill set_pages_fill pages_ok_def)
  have xq: "x \<noteq> q" using d(1) by auto
  obtain lf b1 where 1: "pool_op (pg_fetch P x) b = Some (Ok lf, b1)" "bsession base cap tot V [(x, lf), (q, pf)] {} r fid b1"
    by (rule step_fetch [OF b room]) simp
  obtain rf b2 where 2: "pool_op (pg_fetch P y) b1 = Some (Ok rf, b2)" "bsession base cap tot V [(y, rf), (x, lf), (q, pf)] {} r fid b2"
    by (rule step_fetch [OF 1(2) room]) simp
  have rd: "pool_op (pg_read P lf) b2 = Some (Ok (V x), b2)" "pool_op (pg_read P rf) b2 = Some (Ok (V y), b2)"
    by (rule step_read [OF 2(2)]; simp)+
  have has: "leaf_has (leaf_of (V x)) kx" "leaf_has (leaf_of (V y)) ky"
    and hd: "max_keys (load_header (V x)) = leaf_max_keys ?ps" "node_type (load_header (V x)) = leaf_tag"
      "parent_page_id (load_header (V x)) = q"
    using rep by (simp_all add: leaf_at_def)
  have n: "unat (num_keys (load_header (V x))) = length kx" "unat (num_keys (load_header (V y))) = length ky"
    using leaf_hasD(1) [OF has(1)] leaf_hasD(1) [OF has(2)] by simp_all
  note ld = leaf_at_load [OF g sz rep(1)] leaf_at_load [OF g sz rep(2)]
  show ?thesis
  proof (cases "unat (leaf_max_keys ?ps) < length kx + length ky")
    case True
    obtain b3 where 3: "pool_op (pg_unpin P x False) b2 = Some (Ok (), b3)" "bsession base cap tot V [(y, rf), (q, pf)] {} r fid b3"
      by (rule step_unpin [OF 2(2), of x lf False]) (use d in auto)
    obtain b4 where 4: "pool_op (pg_unpin P y False) b3 = Some (Ok (), b4)" "bsession base cap tot V [(q, pf)] {} r fid b4"
      by (rule step_unpin [OF 3(2), of y rf False]) auto
    obtain b5 where 5: "pool_op (pg_unpin P q False) b4 = Some (Ok (), b5)" "bsession base cap tot V [] {} r fid b5"
      by (rule step_unpin [OF 4(2), of q pf False]) auto
    have "merge_siblings P q pf (V q) parent x y idx b = Some (Ok (), b5)"
      using True by (simp add: merge_siblings_def act_simps 1(1) 2(1) rd ld n hd
          unpin_ignoring_Ok [OF 3(1)] unpin_ignoring_Ok [OF 4(1)] unpin_ignoring_Ok [OF 5(1)])
    with 5(2) inv show ?thesis by (intro exI [of _ b5] exI [of _ V] exI [of _ ?t]) simp
  next
    case False
    then have fit: "length kx + length ky \<le> unat (max_keys (lf_header (leaf_of (V x))))" using hd by simp
    obtain l' where l': "leaf_append (leaf_of (V x)) (leaf_of (V y)) = (Ok l' :: (node_error, leaf_node) res)"
        "leaf_has l' (kx @ ky)"
        "lf_header l' = (lf_header (leaf_of (V x)))\<lparr>num_keys := num_keys (lf_header (leaf_of (V x))) + num_keys (lf_header (leaf_of (V y))),
           next_page_id := next_page_id (lf_header (leaf_of (V y)))\<rparr>"
      by (rule leaf_append_spec [OF has fit])
    have hl: "max_keys (lf_header l') = leaf_max_keys ?ps" "node_type (lf_header l') = leaf_tag"
        "parent_page_id (lf_header l') = q" "next_page_id (lf_header l') = next_of (V y)"
      by (simp_all add: l'(3) hd next_of_def)
    let ?pg = "store_leaf l' (V x)"
    note sl = leaf_at_store(1) [OF g sz [of x] l'(2) hl(1,2), where V = V and p = x]
      leaf_at_store(2,3) [OF g sz [of x] l'(2) hl(1,2)]
    have ih: "internal_has parent (us @ s # vs) (map root (xs @ Lf x kx # Lf y ky # ys))"
      and ph: "max_keys (in_header parent) = internal_max_keys ?ps" "node_type (in_header parent) = internal_tag"
        "parent_page_id (in_header parent) = hole_parent c"
      using rep(3) by (simp_all add: node_at_def par)
    have us: "length us < length (us @ s # vs)" by simp
    obtain p' where p': "internal_remove_at (Suc (length us)) (length (us @ s # vs)) parent = (Ok p' :: (node_error, _) res)"
        "internal_has p' (remove_at (length us) (us @ s # vs)) (remove_at (Suc (length us)) (map root (xs @ Lf x kx # Lf y ky # ys)))"
        "in_header p' = (in_header parent)\<lparr>num_keys := num_keys (in_header parent) - 1\<rparr>"
      by (rule internal_remove_at_spec [OF ih us])
    have hp: "max_keys (in_header p') = internal_max_keys ?ps" "node_type (in_header p') = internal_tag"
        "parent_page_id (in_header p') = hole_parent c"
      by (simp_all add: p'(3) ph)
    have rem: "remove_at (length us) (us @ s # vs) = us @ vs"
        "remove_at (Suc (length us)) (map root (xs @ Lf x kx # Lf y ky # ys)) = map root xs @ x # map root ys"
      by (simp_all add: remove_at_def len [symmetric])
    let ?ppg = "store_internal p' (V q)"
    note sp = node_at_store(1) [OF g sz [of q] p'(2) hp(1,2), where V = "V(x := ?pg)" and p = q]
      node_at_store(2,3) [OF g sz [of q] p'(2) hp(1,2)]
    obtain b3 where 3: "pool_op (pg_write P lf ?pg) b2 = Some (Ok (), b3)"
        "bsession base cap tot (V(x := ?pg)) [(y, rf), (x, lf), (q, pf)] {x} r fid b3"
      by (rule step_write [OF 2(2), of x lf ?pg]) (use sl in auto)
    obtain b4 where 4: "pool_op (pg_unpin P x True) b3 = Some (Ok (), b4)"
        "bsession base cap tot (V(x := ?pg)) [(y, rf), (q, pf)] {} r fid b4"
      by (rule step_unpin [OF 3(2), of x lf True]) (use d in auto)
    obtain b5 where 5: "pool_op (pg_unpin P y False) b4 = Some (Ok (), b5)"
        "bsession base cap tot (V(x := ?pg)) [(q, pf)] {} r fid b5"
      by (rule step_unpin [OF 4(2), of y rf False]) auto
    obtain b6 where 6: "pool_op (pg_write P pf ?ppg) b5 = Some (Ok (), b6)"
        "bsession base cap tot (V(x := ?pg, q := ?ppg)) [(q, pf)] {q} r fid b6"
      by (rule step_write [OF 5(2), of q pf ?ppg]) (use sp in auto)
    obtain b7 where 7: "pool_op (pg_unpin P q True) b6 = Some (Ok (), b7)"
        "bsession base cap tot (V(x := ?pg, q := ?ppg)) [] {} r fid b7"
      by (rule step_unpin [OF 6(2), of q pf True]) auto
    have nk: "unat (num_keys (in_header parent)) = length (us @ s # vs)" using internal_hasD(1) [OF ih] .
    have run: "merge_siblings P q pf (V q) parent x y idx b = Some (Ok (), b7)"
      using False by (simp add: merge_siblings_def act_simps 1(1) 2(1) rd ld n hd l'(1) 3(1) 6(1) nk idx len p'(1)
          unpin_ignoring_Ok [OF 4(1)] unpin_ignoring_Ok [OF 5(1)] unpin_ignoring_Ok [OF 7(1)] del: length_append)
    let ?V = "V(x := ?pg, q := ?ppg)" and ?t' = "fill c (Nd q (xs @ Lf x (kx @ ky) # ys) (us @ vs))"
    have "tree_inv ?ps fid tot ?V ?t'"
    proof (rule merge_tree [OF inv c len ord])
      show "leaf_at ?ps ?V x q (kx @ ky)" using sl(1) xq leaf_at_cong [of ?V x "V(x := ?pg)" ?ps] by (simp add: hl)
      show "node_at ?ps ?V q (hole_parent c) (us @ vs) (map root xs @ x # map root ys)" using sp(1) unfolding rem by (simp add: hp)
      show "next_of (?V x) = next_of (V y)" using xq sl by (simp add: next_of_def hl)
    qed auto
    moreover have "root ?t' = root ?t" by (rule root_fill) simp
    moreover have "entries ?t' = entries ?t" by (simp add: entries_fill)
    moreover have "\<forall>p. file_id p \<noteq> fid \<longrightarrow> ?V p = V p" using d by auto
    ultimately show ?thesis using run 7(2) by blast
  qed
qed

lemma merge_leaf_spec:
  assumes g: "geometry (pg_size P)" and room: "spare base cap 3" and b: "bsession base cap tot V [] {} r fid b"
    and inv: "tree_inv (pg_size P) fid tot V (fill ((q, lts, lks, rks, rts) # c) (Lf p kvs))"
    and c: "ctx_ord (- 2147483648) 2147483648 ((q, lts, lks, rks, rts) # c) lo hi" and ord: "ordered lo hi (Lf p kvs)"
  shows "\<exists>b' V' t'. merge_leaf P p q b = Some (Ok (), b') \<and>
    bsession base cap tot V' [] {} r fid b' \<and> tree_inv (pg_size P) fid tot V' t' \<and>
    root t' = root (fill ((q, lts, lks, rks, rts) # c) (Lf p kvs)) \<and>
    entries t' = entries (fill ((q, lts, lks, rks, rts) # c) (Lf p kvs)) \<and> (\<forall>p. file_id p \<noteq> fid \<longrightarrow> V' p = V p)"
proof -
  let ?ps = "pg_size P" and ?t = "fill ((q, lts, lks, rks, rts) # c) (Lf p kvs)" and ?n = "length (lks @ rks)"
  obtain len: "length lts = length lks" "length rts = length rks"
    by (rule ctx_ord_frame [OF c]) blast
  obtain lo' hi' where cc: "ctx_ord (- 2147483648) 2147483648 c lo' hi'" "seg lo' (lts @ Lf p kvs # rts) ((lks @ rks) @ [hi']) hi'"
    by (rule seg_frame1 [OF c ord])
  have at: "node_at ?ps V q (hole_parent c) (lks @ rks) (map root lts @ p # map root rts)"
    using inv by (simp add: tree_inv_def tree_rep_fill)
  have isleaf: "\<exists>a ka. u = Lf a ka" if "u \<in> set lts \<union> set rts" for u
  proof -
    have "bal u 0" using inv that by (auto simp: tree_inv_def balanced_fill bal_Nd)
    then show ?thesis by (cases u) auto
  qed
  have "distinct (pages ?t)" using inv by (simp add: tree_inv_def)
  then have "distinct (concat (map pages (lts @ Lf p kvs # rts)))" by (simp add: distinct_pages_fill)
  from distinct_roots [OF this] have dr: "distinct (map root lts @ p # map root rts)" by simp
  obtain pf b1 where 1: "pool_op (pg_fetch P q) b = Some (Ok pf, b1)" "bsession base cap tot V [(q, pf)] {} r fid b1"
    by (rule step_fetch [OF b room]) simp
  have 2: "pool_op (pg_read P pf) b1 = Some (Ok (V q), b1)" by (rule step_read [OF 1(2)]) simp
  let ?par = "internal_of (V q)"
  have has: "internal_has ?par (lks @ rks) (map root lts @ p # map root rts)" using at by (simp add: node_at_def)
  note h = internal_hasD [OF has]
  have n: "unat (num_keys (load_header (V q))) = ?n" using h(1) by simp
  have "position (\<lambda>x. x = p) (map root lts @ p # map root rts) = Some (length lts)"
    using position_append [of p "map root lts" "map root rts"] dr by simp
  then have fc: "find_child p ?n (in_children ?par) = Ok (length lts)"
    using h(3) by (simp add: find_child_def)
  have nth: "in_children ?par ! i = (map root lts @ p # map root rts) ! i" "i < length (in_children ?par)" if "i \<le> ?n" for i
    using that h(3,4,6) nth_take [of i "Suc ?n" "in_children ?par"] by (simp_all del: length_append)
  note ld = node_at_load [OF g bsession_size [OF b] at]
  show ?thesis
  proof (cases lts rule: rev_cases)
    case (snoc xs u)
    obtain a ka where u: "u = Lf a ka" using isleaf [of u] snoc by auto
    obtain us s where lks: "lks = us @ [s]" "length us = length xs"
      using len(1) snoc by (cases lks rule: rev_cases) auto
    have t: "?t = fill c (Nd q (xs @ Lf a ka # Lf p kvs # rts) (us @ s # rks))" by (simp add: snoc u lks)
    have idx: "index (length lts - 1) (in_children ?par) = (Ok a :: (node_error, page_id) res)"
    proof -
      have "(map root lts @ p # map root rts) ! (length lts - 1) = a" by (simp add: snoc u nth_append)
      then show ?thesis using nth [of "length lts - 1"] len by simp
    qed
    have "merge_leaf P p q b = merge_siblings P q pf (V q) ?par a p (Suc (length xs)) b1"
      using fc n idx by (simp add: merge_leaf_def act_simps 1(1) 2 ld Let_def snoc lks)
    moreover have "seg lo' (xs @ Lf a ka # Lf p kvs # rts) ((us @ s # rks) @ [hi']) hi'" using cc(2) by (simp add: snoc u lks)
    from merge_siblings_spec [OF g room 1(2) inv [unfolded t] cc(1) _ this refl refl] lks(2)
    show ?thesis using calculation unfolding t by simp
  next
    case Nil
    then have lks: "lks = []" using len(1) by simp
    show ?thesis
    proof (cases rts)
      case Nil
      obtain b2 where 3: "pool_op (pg_unpin P q False) b1 = Some (Ok (), b2)" "bsession base cap tot V [] {} r fid b2"
        by (rule step_unpin [OF 1(2), of q pf False]) auto
      have "merge_leaf P p q b = Some (Ok (), b2)"
        using Nil len(2) \<open>lts = []\<close> lks fc n
        by (simp add: merge_leaf_def act_simps 1(1) 2 ld Let_def unpin_ignoring_Ok [OF 3(1)])
      with 3(2) inv show ?thesis by blast
    next
      case (Cons u ys)
      obtain a ka where u: "u = Lf a ka" using isleaf [of u] Cons by auto
      obtain s vs where rks: "rks = s # vs" using len(2) Cons by (cases rks) auto
      have t: "?t = fill c (Nd q ([] @ Lf p kvs # Lf a ka # ys) ([] @ s # vs))" by (simp add: \<open>lts = []\<close> lks Cons u rks)
      have idx: "index 1 (in_children ?par) = (Ok a :: (node_error, page_id) res)"
        using nth [of 1] by (simp add: \<open>lts = []\<close> lks Cons u rks)
      have "merge_leaf P p q b = merge_siblings P q pf (V q) ?par p a (Suc 0) b1"
        using idx fc n by (simp add: merge_leaf_def act_simps 1(1) 2 ld Let_def \<open>lts = []\<close> lks rks)
      moreover have "seg lo' ([] @ Lf p kvs # Lf a ka # ys) (([] @ s # vs) @ [hi']) hi'"
        using cc(2) by (simp add: \<open>lts = []\<close> lks Cons u rks)
      from merge_siblings_spec [OF g room 1(2) inv [unfolded t] cc(1) _ this refl, of "Suc 0"]
      show ?thesis using calculation unfolding t by simp
    qed
  qed
qed

end

subsection \<open>Deleting a key\<close>

lemma remove_at_sorted:
  fixes kvs :: "('k::linorder \<times> 'v) list"
  assumes srt: "sorted_wrt (<) (map fst kvs)" and i: "i < length kvs"
  shows "sorted_wrt (<) (map fst (remove_at i kvs))" and "set (remove_at i kvs) \<subseteq> set kvs"
    and "map_of (remove_at i kvs) = (map_of kvs)(fst (kvs ! i) := None)"
proof -
  have kvs: "kvs = take i kvs @ kvs ! i # drop (Suc i) kvs" by (rule id_take_nth_drop [OF i])
  then show "set (remove_at i kvs) \<subseteq> set kvs" by (auto simp: remove_at_def dest: in_set_takeD in_set_dropD)
  have "map fst kvs = map fst (take i kvs) @ fst (kvs ! i) # map fst (drop (Suc i) kvs)" by (subst kvs) simp
  then have s: "sorted_wrt (<) (map fst (take i kvs) @ fst (kvs ! i) # map fst (drop (Suc i) kvs))" using srt by simp
  then show "sorted_wrt (<) (map fst (remove_at i kvs))"
    by (auto simp: remove_at_def sorted_wrt_append)
  have "fst (kvs ! i) \<notin> set (map fst (take i kvs))" "fst (kvs ! i) \<notin> set (map fst (drop (Suc i) kvs))"
    using s unfolding sorted_wrt_append by fastforce+
  then have none: "map_of (take i kvs) (fst (kvs ! i)) = None" "map_of (drop (Suc i) kvs) (fst (kvs ! i)) = None"
    by (simp_all add: map_of_eq_None_iff)
  obtain k v where kv: "kvs ! i = (k, v)" by (cases "kvs ! i")
  have "map_of kvs = map_of (take i kvs @ (k, v) # drop (Suc i) kvs)" using kvs kv by metis
  then show "map_of (remove_at i kvs) = (map_of kvs)(fst (kvs ! i) := None)"
    using none kv by (auto simp: remove_at_def fun_eq_iff map_add_def split: option.split)
qed

context page_pool begin

lemma index_search_spec:
  assumes g: "geometry (pg_size P)" and room: "spare base cap 1"
    and b: "bsession base cap tot V [] {} r fid b" and rep: "index_rep (pg_size P) fid tot V r m"
    and key: "i32_range key"
  shows "\<exists>b'. index_search P key b = Some (ok_or (m key) NodeKeyNotFound, b') \<and> bsession base cap tot V [] {} r fid b'"
proof (cases r)
  case None
  then have "m = Map.empty" using rep by (simp add: index_rep_def)
  moreover have "find_leaf_page P key b = Some (Ok None, b)" using b None by (simp add: find_leaf_page_def bsession_def act_simps)
  then have "tree_search P key b = Some (Err KeyNotFound, b)" by (simp add: tree_search_def act_simps)
  ultimately show ?thesis using b by (intro exI [of _ b]) (simp add: index_search_def map_err_act_def)
next
  case (Some p)
  then obtain t where t: "root t = p" "map_of (entries t) = m" "tree_inv (pg_size P) fid tot V t"
    using rep by (auto simp: index_rep_def)
  have b': "bsession base cap tot V [] {} (Some (root t)) fid b" using b Some t(1) by simp
  from tree_search_spec [OF g room b' t(3) key] Some t(1,2) show ?thesis
    by (cases "m key") (auto simp: index_search_def map_err_act_def)
qed

lemma index_delete_spec:
  assumes g: "geometry (pg_size P)" and room: "spare base cap 3"
    and b: "bsession base cap tot V [] {} r fid b" and rep: "index_rep (pg_size P) fid tot V r m"
    and key: "i32_range key"
  shows "case m key of
      None \<Rightarrow> \<exists>b'. index_delete P key b = Some (Err NodeKeyNotFound, b') \<and> bsession base cap tot V [] {} r fid b'
    | Some _ \<Rightarrow> \<exists>b'. index_delete P key b = Some (Ok (), b') \<and> index_done fid base cap V tot (m(key := None)) b' \<and> bt_root b' = r"
proof (cases r)
  case None
  then have "find_leaf_page P key b = Some (Ok None, b)" using b by (simp add: find_leaf_page_def bsession_def act_simps)
  then have "index_delete P key b = Some (Err NodeKeyNotFound, b)" by (simp add: index_delete_def act_simps)
  with None b rep show ?thesis by (auto simp: index_rep_def)
next
  case (Some rt)
  let ?ps = "pg_size P"
  obtain t where t: "root t = rt" "tree_inv ?ps fid tot V t" "map_of (entries t) = m"
    using rep Some by (auto simp: index_rep_def)
  have r: "r = Some (root t)" using Some t(1) by simp
  have room1: "spare base cap 1" by (rule spare_le [OF room]) simp
  obtain c p kvs f b1 lo hi where 1: "find_leaf_page P key b = Some (Ok (Some (f, p)), b1)"
      "bsession base cap tot V [(p, f)] {} (Some (root t)) fid b1" "t = fill c (Lf p kvs)"
      "ctx_ord (- 2147483648) 2147483648 c lo hi" "ordered lo hi (Lf p kvs)" "lo \<le> key" "key < hi"
      "leaf_at ?ps V p (hole_parent c) kvs" "map_of (entries t) key = map_of kvs key"
    by (rule find_leaf_page_spec [OF g room1 b [unfolded r] t(2) key])
  note sz = bsession_size [OF b]
  have srt: "sorted_wrt (<) (map fst kvs)" using 1(5) by simp
  have mk: "m key = map_of kvs key" using 1(9) t(3) by simp
  have 2: "pool_op (pg_read P f) b1 = Some (Ok (V p), b1)" by (rule step_read [OF 1(2)]) simp
  have has: "leaf_has (leaf_of (V p)) kvs" and hd: "max_keys (load_header (V p)) = leaf_max_keys ?ps"
      "node_type (load_header (V p)) = leaf_tag" "parent_page_id (load_header (V p)) = hole_parent c"
    using 1(8) by (simp_all add: leaf_at_def)
  note h = leaf_hasD [OF has]
  have sl: "slice_to (length kvs) (lf_keys (leaf_of (V p))) = Ok (map fst kvs)" using h(2,4,5) by simp
  have n: "unat (num_keys (load_header (V p))) = length kvs" using h(1) by simp
  note ld = leaf_at_load [OF g sz 1(8)]
  have rootb: "bt_root b = Some (root t)" using b r by (simp add: bsession_def)
  show ?thesis
  proof (cases "binary_search (map fst kvs) key")
    case (Inl i)
    then have none: "m key = None" using mk by (simp add: binary_search_map_of [OF srt])
    obtain b2 where 3: "pool_op (pg_unpin P p False) b1 = Some (Ok (), b2)" "bsession base cap tot V [] {} (Some (root t)) fid b2"
      by (rule step_unpin [OF 1(2), of p f False]) auto
    have "index_delete P key b = Some (Err NodeKeyNotFound, b2)"
      by (simp add: index_delete_def act_simps 1(1) 2 ld n sl Inl unpin_ignoring_Ok [OF 3(1)])
    with none 3(2) r show ?thesis by simp
  next
    case (Inr i)
    have i: "i < length kvs" "fst (kvs ! i) = key" using binary_search_Inr [OF srt Inr] by auto
    have some: "m key = Some (snd (kvs ! i))" using mk Inr by (simp add: binary_search_map_of [OF srt])
    obtain n' where n': "leaf_remove_at i (length kvs) (leaf_of (V p)) = (Ok n' :: (node_error, leaf_node) res)"
        "leaf_has n' (remove_at i kvs)"
        "lf_header n' = (lf_header (leaf_of (V p)))\<lparr>num_keys := num_keys (lf_header (leaf_of (V p))) - 1\<rparr>"
      by (rule leaf_remove_at_spec [OF has i(1)])
    have hn: "max_keys (lf_header n') = leaf_max_keys ?ps" "node_type (lf_header n') = leaf_tag"
        "parent_page_id (lf_header n') = hole_parent c" "next_page_id (lf_header n') = next_of (V p)"
      by (simp_all add: n'(3) hd next_of_def)
    let ?pg = "store_leaf n' (V p)" and ?t1 = "fill c (Lf p (remove_at i kvs))"
    note st = leaf_at_store(1) [OF g sz [of p] n'(2) hn(1,2), where V = V and p = p]
      leaf_at_store(2,3) [OF g sz [of p] n'(2) hn(1,2)]
    obtain b2 where 3: "pool_op (pg_write P f ?pg) b1 = Some (Ok (), b2)"
        "bsession base cap tot (V(p := ?pg)) [(p, f)] {p} (Some (root t)) fid b2"
      by (rule step_write [OF 1(2), of p f ?pg]) (use st in auto)
    obtain b3 where 4: "pool_op (pg_unpin P p True) b2 = Some (Ok (), b3)"
        "bsession base cap tot (V(p := ?pg)) [] {} (Some (root t)) fid b3"
      by (rule step_unpin [OF 3(2), of p f True]) auto
    have ord': "ordered lo hi (Lf p (remove_at i kvs))"
      using remove_at_sorted(1,2) [OF srt i(1)] 1(5) by auto
    have inv': "tree_inv ?ps fid tot (V(p := ?pg)) ?t1"
      by (rule tree_inv_leaf_update [OF t(2) [unfolded 1(3)] 1(4) ord'])
        (use st hn in \<open>simp_all add: next_of_def\<close>)
    have m': "map_of (entries ?t1) = m(key := None)"
      unfolding t(3) [symmetric] 1(3) by (rule map_of_fill_upd [OF 1(4,6,7)])
        (use remove_at_sorted(3) [OF srt i(1)] i(2) in simp)
    have rt1: "root ?t1 = root t" unfolding 1(3) by (rule root_fill) simp
    have pf: "file_id p = fid" using t(2) by (simp add: 1(3) tree_inv_def pages_ok_def set_pages_fill)
    let ?tail = "\<lambda>b. if Some p \<noteq> Some (root t) \<and> unat (num_keys (lf_header n')) < unat (max_keys (lf_header n')) div 2
       then attempt (merge_leaf P p (hole_parent c)) (\<lambda>_. ret ()) b else ret () b :: ((node_error, unit) res \<times> _) option"
    have run: "index_delete P key b = ?tail b3"
      by (simp add: index_delete_def act_simps 1(1) 2 ld n sl Inr n'(1) 3(1) unpin_ignoring_Ok [OF 4(1)] rootb hn(3))
    have stay: ?thesis if "?tail b3 = Some (Ok (), b3)"
    proof -
      have "index_rep ?ps fid tot (V(p := ?pg)) (Some (root t)) (m(key := None))"
        using inv' m' rt1 by (auto simp: index_rep_def)
      then have "index_done fid base cap V tot (m(key := None)) b3"
        unfolding index_done_def using 4(2) pf by (intro exI [of _ "V(p := ?pg)"] exI [of _ tot] exI [of _ "Some (root t)"]) auto
      moreover have "bt_root b3 = r" using 4(2) r by (simp add: bsession_def)
      moreover have "index_delete P key b = Some (Ok (), b3)" using run that by (rule trans)
      ultimately show ?thesis unfolding some option.case by blast
    qed
    show ?thesis
    proof (cases "Some p \<noteq> Some (root t) \<and> unat (num_keys (lf_header n')) < unat (max_keys (lf_header n')) div 2")
      case False
      then show ?thesis by (intro stay) (auto simp: act_simps)
    next
      case True
      then obtain fr c' where "c = fr # c'" using 1(3) by (cases c) auto
      then obtain q lts lks rks rts where c: "c = (q, lts, lks, rks, rts) # c'" by (cases fr) auto
      obtain b4 V' t' where 5: "merge_leaf P p q b3 = Some (Ok (), b4)"
          "bsession base cap tot V' [] {} (Some (root t)) fid b4" "tree_inv ?ps fid tot V' t'"
          "root t' = root ?t1" "entries t' = entries ?t1" "\<forall>x. file_id x \<noteq> fid \<longrightarrow> V' x = (V(p := ?pg)) x"
        using merge_leaf_spec [OF g room 4(2) inv' [unfolded c] 1(4) [unfolded c] ord'] unfolding c by blast
      have "index_rep ?ps fid tot V' (Some (root t)) (m(key := None))"
        using 5(3,4,5) m' rt1 by (auto simp: index_rep_def)
      then have "index_done fid base cap V tot (m(key := None)) b4"
        unfolding index_done_def using 5(2,6) pf by (intro exI [of _ V'] exI [of _ tot] exI [of _ "Some (root t)"]) auto
      moreover have "bt_root b4 = r" using 5(2) r by (simp add: bsession_def)
      moreover have "index_delete P key b = Some (Ok (), b4)"
        using True run 5(1) by (simp add: c act_simps)
      ultimately show ?thesis using some by simp
    qed
  qed
qed

end

end
