(* ===== verification/Index_Pool.thy ===== *)
theory Index_Pool
  imports Buffer_Pool_Spec BTree_Delete
begin

text \<open>
  The index over the buffer pool: every \<open>buffer_pool\<close> is a \<open>page_pool\<close>, so what \<open>BTree_Laws\<close>,
  \<open>BTree_Map\<close>, \<open>BTree_Range\<close> and \<open>BTree_Delete\<close> prove of an index holds on the stack of buffer
  pool, log and file-system disk manager. An index stands for a finite map from keys to \<open>Ctid\<close>s.
\<close>

definition pool_pager :: "'d disk_ops \<Rightarrow> 'l log_ops \<Rightarrow> nat \<Rightarrow> ('d, 'l) bpm pager" where
  "pool_pager D L ps = \<lparr>pg_size = ps, pg_fetch = fetch_page D L, pg_new = new_page D L,
     pg_unpin = unpin_page, pg_read = read_frame, pg_write = write_frame\<rparr>"

definition pin_counts :: "('d, 'l) bpm \<Rightarrow> page_id \<Rightarrow> nat" where
  "pin_counts s p = unat (pins s p)"

text \<open>A page is marked in the replacer exactly while it is pinned.\<close>

definition marks_pins :: "('d, 'l) bpm \<Rightarrow> bool" where
  "marks_pins s \<longleftrightarrow> (\<forall>p. held s p \<longleftrightarrow> pins s p \<noteq> 0)"

lemma marks_pins_card: "marks_pins s \<Longrightarrow> {q. pin_counts s q \<noteq> 0} = {q. held s q}"
  by (auto simp: marks_pins_def pin_counts_def unat_eq_0)

lemma u32_le_max: "n < 2 ^ 32 \<Longrightarrow> unat (x :: u32) + 1 = n \<Longrightarrow> unat (x + 1) = n"
  by (simp add: unat_word_ariths)

lemma pin_counts_add:
  assumes "pin_counts s p + 1 < 2 ^ 32" and "pins s' = (pins s)(p := pins s p + 1)"
  shows "pin_counts s' = (pin_counts s)(p := pin_counts s p + 1)" and "pins s p + 1 \<noteq> 0"
proof -
  have u: "unat (pins s p + 1) = unat (pins s p) + 1"
    by (rule u32_le_max) (use assms(1) in \<open>simp_all add: pin_counts_def\<close>)
  with assms(2) show "pin_counts s' = (pin_counts s)(p := pin_counts s p + 1)"
    by (simp add: fun_eq_iff pin_counts_def)
  show "pins s p + 1 \<noteq> 0" using u by (metis Zero_not_Suc add.commute plus_1_eq_Suc unat_0)
qed

context buffer_pool
begin

definition good_pool :: "('d, 'l) bpm \<Rightarrow> bool" where
  "good_pool s \<longleftrightarrow> bp_inv page_size dinv dview linv s \<and> bp_healthy healthy lhealthy s \<and> bp_tracked s \<and> marks_pins s"

lemma good_pool_room:
  assumes g: "good_pool s" and room: "pin_counts s p \<noteq> 0 \<or> card {q. pin_counts s q \<noteq> 0} < length (frames s)"
  shows "held s p \<or> (\<exists>f < length (frames s). \<not> lru_pinned (replacer s) f)"
proof (rule ccontr)
  assume "\<not> ?thesis"
  then have a: "\<not> held s p" "\<forall>f < length (frames s). lru_pinned (replacer s) f" by auto
  have inv: "bp_inv page_size dinv dview linv s" and m: "marks_pins s" using g by (simp_all add: good_pool_def)
  have "length (frames s) \<le> card {q. held s q}" by (rule all_pinned_held [OF inv a(2)])
  with room a(1) m show False
    unfolding marks_pins_card [OF m] by (auto simp: marks_pins_def pin_counts_def unat_eq_0)
qed

lemma good_fetch:
  assumes g: "good_pool s" and wrap: "pin_counts s p + 1 < 2 ^ 32"
    and room: "pin_counts s p \<noteq> 0 \<or> card {q. pin_counts s q \<noteq> 0} < length (frames s)"
  shows "\<exists>f s'. fetch_page D L p s = (Ok f, s') \<and> good_pool s' \<and> bview dview s' = bview dview s \<and>
    pin_counts s' = (pin_counts s)(p := pin_counts s p + 1) \<and> length (frames s') = length (frames s) \<and>
    dtotal (disk s') = dtotal (disk s) \<and> page_table s' p = Some f \<and>
    (\<forall>q. pin_counts s q \<noteq> 0 \<longrightarrow> page_table s' q = page_table s q) \<and> (\<forall>q. synced dview s q \<longrightarrow> synced dview s' q)"
proof -
  have inv: "bp_inv page_size dinv dview linv s" and h: "bp_healthy healthy lhealthy s" and tr: "bp_tracked s"
    and m: "marks_pins s" using g by (simp_all add: good_pool_def)
  from fetch_page_progress [OF inv h tr good_pool_room [OF g room]] obtain f s' where
    run: "fetch_page D L p s = (Ok f, s')" and h': "bp_healthy healthy lhealthy s'" by blast
  note f = fetch_page_Ok [OF inv run]
  note pc = pin_counts_add [OF wrap f(4)]
  have "marks_pins s'" using m pc(2) f(4,5) by (simp add: marks_pins_def)
  then have "good_pool s'" using f(1,9) tr h' by (simp add: good_pool_def)
  moreover have "page_table s' q = page_table s q" if "pin_counts s q \<noteq> 0" for q
  proof -
    have "held s q" using that m by (auto simp: marks_pins_def pin_counts_def unat_eq_0)
    then obtain g where "page_table s q = Some g" by (auto simp: held_iff)
    with fetch_page_place [OF inv run \<open>held s q\<close>] show ?thesis by simp
  qed
  ultimately show ?thesis using run f(2,3,6,7,8) pc(1) by blast
qed

lemma good_new:
  assumes g: "good_pool s" and p: "p = \<lparr>file_id = fid, page_num = dtotal (disk s) fid\<rparr>"
    and wrap: "pin_counts s p + 1 < 2 ^ 32" and room: "card {q. pin_counts s q \<noteq> 0} < length (frames s)"
  shows "\<exists>f s'. new_page D L fid s = (Ok (f, p), s') \<and> good_pool s' \<and> bview dview s' = bview dview s \<and>
    pin_counts s' = (pin_counts s)(p := pin_counts s p + 1) \<and> length (frames s') = length (frames s) \<and>
    dtotal (disk s') = (dtotal (disk s))(fid := dtotal (disk s) fid + 1) \<and> page_table s' p = Some f \<and>
    (\<forall>q. pin_counts s q \<noteq> 0 \<longrightarrow> page_table s' q = page_table s q) \<and> (\<forall>q. synced dview s q \<longrightarrow> synced dview s' q)"
proof -
  have inv: "bp_inv page_size dinv dview linv s" and h: "bp_healthy healthy lhealthy s" and tr: "bp_tracked s"
    and m: "marks_pins s" using g by (simp_all add: good_pool_def)
  have "\<exists>f < length (frames s). \<not> lru_pinned (replacer s) f"
  proof (rule ccontr)
    assume "\<not> ?thesis"
    then have "length (frames s) \<le> card {q. held s q}" by (intro all_pinned_held [OF inv]) auto
    with room show False unfolding marks_pins_card [OF m] by simp
  qed
  from new_page_progress [OF inv h tr this, of fid] obtain f q s' where
    run0: "new_page D L fid s = (Ok (f, q), s')" and h': "bp_healthy healthy lhealthy s'" by blast
  have q: "q = p" unfolding p by (rule new_page_Ok(1) [OF inv run0])
  note run = run0 [unfolded q]
  note f = new_page_Ok [OF inv run]
  note pc = pin_counts_add [OF wrap f(5)]
  have "marks_pins s'" using m pc(2) f(5,6) by (simp add: marks_pins_def)
  then have "good_pool s'" using f(2,10) tr h' by (simp add: good_pool_def)
  moreover have "page_table s' q = page_table s q" if "pin_counts s q \<noteq> 0" for q
  proof -
    have "held s q" using that m by (auto simp: marks_pins_def pin_counts_def unat_eq_0)
    then obtain g where "page_table s q = Some g" by (auto simp: held_iff)
    with f(11) [OF \<open>held s q\<close>] show ?thesis by simp
  qed
  ultimately show ?thesis using run f(3,4,7,8,9) pc(1) by blast
qed

lemma good_unpin:
  assumes g: "good_pool s" and pin: "pin_counts s p \<noteq> 0" and ok: "dirty \<or> synced dview s p \<or> pin_counts s p \<noteq> 1"
  shows "\<exists>s'. unpin_page p dirty s = (Ok (), s') \<and> good_pool s' \<and> bview dview s' = bview dview s \<and>
    pin_counts s' = (pin_counts s)(p := pin_counts s p - 1) \<and> length (frames s') = length (frames s) \<and>
    dtotal (disk s') = dtotal (disk s) \<and> page_table s' = page_table s \<and>
    (\<forall>q. synced dview s q \<or> q = p \<and> dirty \<longrightarrow> synced dview s' q)"
proof -
  have inv: "bp_inv page_size dinv dview linv s" and h: "bp_healthy healthy lhealthy s" and tr: "bp_tracked s"
    and m: "marks_pins s" using g by (simp_all add: good_pool_def)
  have p: "pins s p \<noteq> 0" using pin by (auto simp: pin_counts_def)
  have ok': "dirty \<or> synced dview s p \<or> pins s p \<noteq> 1" using ok by (auto simp: pin_counts_def)
  from unpin_page_cases [OF inv p ok'] obtain s' where u: "unpin_page p dirty s = (Ok (), s')"
    "bp_inv page_size dinv dview linv s'" "bview dview s' = bview dview s" "pins s' = (pins s)(p := pins s p - 1)"
    "held s' = (if pins s p = 1 then (held s)(p := False) else held s)"
    "synced dview s' = (synced dview s)(p := dirty \<or> synced dview s p)" "disk s' = disk s" "log_mgr s' = log_mgr s"
    "length (frames s') = length (frames s)" "page_table s' = page_table s" "bp_tracked s'" using tr by blast
  have pc: "pin_counts s' = (pin_counts s)(p := pin_counts s p - 1)"
    using p by (simp add: fun_eq_iff pin_counts_def u(4) unat_minus_one)
  have "pins s p - 1 = 0 \<longleftrightarrow> pins s p = 1" by simp
  then have "marks_pins s'" using m u(4,5) p by (auto simp: marks_pins_def)
  then have "good_pool s'" using u(2,7,8,11) h by (simp add: good_pool_def bp_healthy_def)
  with u pc show ?thesis by (intro exI [of _ s']) auto
qed

end

sublocale buffer_pool \<subseteq> pg: page_pool "pool_pager D L page_size" good_pool "bview dview" page_table
    pin_counts "\<lambda>s. length (frames s)" "synced dview" "\<lambda>s. dtotal (disk s)"
proof (unfold_locales, goal_cases)
  case (1 s p)
  then have inv: "bp_inv page_size dinv dview linv s" by (simp add: good_pool_def)
  show ?case
    using bp_invD(3,5,6) [OF inv] view_length by (auto simp: bview_def pool_pager_def split: option.split)
next
  case (2 s p)
  then show ?case using good_fetch by (simp add: pool_pager_def)
next
  case (3 s p fid)
  then show ?case using good_new [of s p fid] by (simp add: pool_pager_def)
next
  case (4 s p dirty)
  then have "dirty \<or> synced dview s p \<or> pin_counts s p \<noteq> 1" by blast
  from good_unpin [OF 4(1,2) this] show ?case by (simp add: pool_pager_def)
next
  case (5 s p f)
  have inv: "bp_inv page_size dinv dview linv s" using 5(1) by (simp add: good_pool_def)
  have "f < length (frames s)" using bp_invD(6) [OF inv] 5(2) by blast
  then show ?case using 5(2) by (simp add: pool_pager_def read_frame_def bview_def)
next
  case (6 s p f pg)
  then have inv: "bp_inv page_size dinv dview linv s" and h: "held s p" and len: "length pg = page_size"
    by (auto simp: good_pool_def marks_pins_def pin_counts_def pool_pager_def unat_eq_0)
  from write_frame_Ok [OF inv 6(2) h len] 6(1) show ?case
    by (auto simp: pool_pager_def good_pool_def marks_pins_def bp_healthy_def pin_counts_def fun_eq_iff)
qed

text \<open>
  A page that a client holds and writes to, for the operations in between: seen without the pin and
  the frame of that page, the pool is a page pool, whatever the client has not announced yet.
\<close>

lemma card_without: "card {q. (g(p := (n :: nat))) q \<noteq> 0} < c - 1 \<Longrightarrow> card {q. g q \<noteq> 0} < c"
proof -
  assume c: "card {q. (g(p := n)) q \<noteq> 0} < c - 1"
  show ?thesis
  proof (cases "finite {q. g q \<noteq> 0}")
    case True
    have sub: "{q. g q \<noteq> 0} \<subseteq> insert p {q. (g(p := n)) q \<noteq> 0}" by auto
    have fin: "finite {q. (g(p := n)) q \<noteq> 0}" by (rule finite_subset [of _ "insert p {q. g q \<noteq> 0}"]) (use True in auto)
    have "card {q. g q \<noteq> 0} \<le> card (insert p {q. (g(p := n)) q \<noteq> 0})" by (rule card_mono) (use fin sub in auto)
    also have "\<dots> \<le> Suc (card {q. (g(p := n)) q \<noteq> 0})" using fin by (simp add: card_insert_if)
    finally show ?thesis using c by linarith
  next
    case False
    with c show ?thesis by simp
  qed
qed

context buffer_pool
begin

lemma guard_pool:
  "page_pool (pool_pager D L page_size) (\<lambda>s. good_pool s \<and> pin_counts s p \<noteq> 0 \<and> page_table s p = Some f) (bview dview) page_table
     (\<lambda>s. (pin_counts s)(p := pin_counts s p - 1)) (\<lambda>s. length (frames s) - 1) (\<lambda>s q. synced dview s q \<or> q = p) (\<lambda>s. dtotal (disk s))"
proof (rule page_pool.intro, goal_cases)
  case (1 s q)
  then show ?case using pg.view_size by blast
next
  case (2 s q)
  then have g: "good_pool s" and pin: "pin_counts s p \<noteq> 0" and pt: "page_table s p = Some f" by auto
  have wrap: "pin_counts s q + 1 < 2 ^ 32" using 2(2) by (cases "q = p") auto
  have room: "pin_counts s q \<noteq> 0 \<or> card {q. pin_counts s q \<noteq> 0} < length (frames s)"
    using 2(3)
  proof
    assume "((pin_counts s)(p := pin_counts s p - 1)) q \<noteq> 0"
    then show ?thesis using pin by (auto split: if_splits)
  next
    assume "card {q. ((pin_counts s)(p := pin_counts s p - 1)) q \<noteq> 0} < length (frames s) - 1"
    then show ?thesis by (intro disjI2) (rule card_without)
  qed
  from good_fetch [OF g wrap room] obtain h s' where s': "fetch_page D L q s = (Ok h, s')" "good_pool s'"
    "bview dview s' = bview dview s" "pin_counts s' = (pin_counts s)(q := pin_counts s q + 1)" "length (frames s') = length (frames s)"
    "dtotal (disk s') = dtotal (disk s)" "page_table s' q = Some h" "\<forall>q. pin_counts s q \<noteq> 0 \<longrightarrow> page_table s' q = page_table s q"
    "\<forall>q. synced dview s q \<longrightarrow> synced dview s' q" by blast
  have "(pin_counts s')(p := pin_counts s' p - 1) = ((pin_counts s)(p := pin_counts s p - 1))
      (q := ((pin_counts s)(p := pin_counts s p - 1)) q + 1)" using pin by (auto simp: s'(4) fun_eq_iff)
  with s' pin pt show ?case by (intro exI [of _ h] exI [of _ s']) (auto simp: pool_pager_def split: if_splits)
next
  case (3 s q fid)
  then have g: "good_pool s" and pin: "pin_counts s p \<noteq> 0" and pt: "page_table s p = Some f" by auto
  have wrap: "pin_counts s q + 1 < 2 ^ 32" using 3(3) by (cases "q = p") auto
  have room: "card {q. pin_counts s q \<noteq> 0} < length (frames s)"
    by (rule card_without [OF 3(4)])
  from good_new [OF g 3(2) wrap room] obtain h s' where s': "new_page D L fid s = (Ok (h, q), s')" "good_pool s'"
    "bview dview s' = bview dview s" "pin_counts s' = (pin_counts s)(q := pin_counts s q + 1)" "length (frames s') = length (frames s)"
    "dtotal (disk s') = (dtotal (disk s))(fid := dtotal (disk s) fid + 1)" "page_table s' q = Some h"
    "\<forall>q. pin_counts s q \<noteq> 0 \<longrightarrow> page_table s' q = page_table s q"
    "\<forall>q. synced dview s q \<longrightarrow> synced dview s' q" by blast
  have "(pin_counts s')(p := pin_counts s' p - 1) = ((pin_counts s)(p := pin_counts s p - 1))
      (q := ((pin_counts s)(p := pin_counts s p - 1)) q + 1)" using pin by (auto simp: s'(4) fun_eq_iff)
  with s' pin pt show ?case by (intro exI [of _ h] exI [of _ s']) (auto simp: pool_pager_def split: if_splits)
next
  case (4 s q dirty)
  then have g: "good_pool s" and pin: "pin_counts s p \<noteq> 0" and pt: "page_table s p = Some f" by auto
  have q: "pin_counts s q \<noteq> 0" "dirty \<or> synced dview s q \<or> pin_counts s q \<noteq> 1" using 4(2,3) pin by (auto split: if_splits)
  from good_unpin [OF g q] obtain s' where s': "unpin_page q dirty s = (Ok (), s')" "good_pool s'"
    "bview dview s' = bview dview s" "pin_counts s' = (pin_counts s)(q := pin_counts s q - 1)" "length (frames s') = length (frames s)"
    "dtotal (disk s') = dtotal (disk s)" "page_table s' = page_table s" "\<forall>r. synced dview s r \<or> r = q \<and> dirty \<longrightarrow> synced dview s' r" by blast
  have "pin_counts s' p \<noteq> 0" using 4(2) pin by (auto simp: s'(4) split: if_splits)
  moreover have "(pin_counts s')(p := pin_counts s' p - 1) = ((pin_counts s)(p := pin_counts s p - 1))
      (q := ((pin_counts s)(p := pin_counts s p - 1)) q - 1)" by (auto simp: s'(4) fun_eq_iff)
  ultimately show ?case using s' pt by (intro exI [of _ s']) (auto simp: pool_pager_def)
next
  case (5 s q h)
  then show ?case using pg.read_law by blast
next
  case (6 s q h pg)
  then have g: "good_pool s" and pin: "pin_counts s q \<noteq> 0" by (auto split: if_splits)
  from pg.write_law [OF g 6(2) pin 6(4)] 6(1) show ?case by auto
qed

end

end
