(* ===== verification/Index_Spec.thy ===== *)
theory Index_Spec
  imports Index_Pool
begin

text \<open>
  What an index promises its callers (\<open>dml.rs\<close>, \<open>executor/index_scan.rs\<close>), over the pool of
  \<open>Buffer_Pool_Spec\<close>: the operations of the \<open>Index\<close> trait are lookup, insertion, deletion and range
  query of a finite map. \<open>index_holds\<close> is the abstraction relation; a pool is ready when no system call
  fails and nothing is written without being announced; \<open>index_room\<close> asks for frames that are free.
\<close>

definition pool_ready :: "nat \<Rightarrow> pool \<Rightarrow> bool" where
  "pool_ready ps s \<longleftrightarrow> pool_inv ps s \<and> pool_healthy s \<and> bp_tracked s \<and> marks_pins s \<and>
     (\<forall>q. synced (basic_view ps) s q)"

abbreviation index_pager :: "nat \<Rightarrow> pool pager" where
  "index_pager ps \<equiv> pool_pager (basic_disk_ops ps) wal_ops ps"

definition index_holds :: "nat \<Rightarrow> pool btree \<Rightarrow> (int \<Rightarrow> ctid option) \<Rightarrow> bool" where
  "index_holds ps b m \<longleftrightarrow> pool_ready ps (bt_pool b) \<and>
     index_rep ps (bt_file b) (basic_total ps (disk (bt_pool b))) (pool_view ps (bt_pool b)) (bt_root b) m"

definition index_room :: "nat \<Rightarrow> pool btree \<Rightarrow> bool" where
  "index_room n b \<longleftrightarrow> spare (pin_counts (bt_pool b)) (length (frames (bt_pool b))) n"

text \<open>What a change of an index leaves alone: pins, capacity, its file, the pages of other files.\<close>

definition index_frame :: "nat \<Rightarrow> pool btree \<Rightarrow> pool btree \<Rightarrow> bool" where
  "index_frame ps b b' \<longleftrightarrow> bt_file b' = bt_file b \<and> pins (bt_pool b') = pins (bt_pool b) \<and>
     length (frames (bt_pool b')) = length (frames (bt_pool b)) \<and>
     (\<forall>p. file_id p \<noteq> bt_file b \<longrightarrow> pool_view ps (bt_pool b') p = pool_view ps (bt_pool b) p)"

lemma pin_counts_eq: "pin_counts s' = pin_counts s \<longleftrightarrow> pins s' = pins s"
  by (simp add: fun_eq_iff pin_counts_def flip: word_unat_eq_iff)

lemma pager_size [simp]: "pg_size (pool_pager D L ps) = ps"
  by (simp add: pool_pager_def)

lemma holds_session:
  assumes "index_holds ps b m"
  shows "bp.pg.bsession ps (pin_counts (bt_pool b)) (length (frames (bt_pool b)))
      (basic_total ps (disk (bt_pool b))) (pool_view ps (bt_pool b)) [] {} (bt_root b) (bt_file b) b"
  using assms
  by (simp add: index_holds_def pool_ready_def bp.pg.bsession_def bp.pg.session_def bp.good_pool_def)

lemma session_holds:
  assumes s: "bp.pg.bsession ps base cap tot V [] {} r fid b'" and rep: "index_rep ps fid tot V r m"
  shows "index_holds ps b' m" and "bt_file b' = fid" and "pin_counts (bt_pool b') = base"
    and "length (frames (bt_pool b')) = cap" and "pool_view ps (bt_pool b') = V"
  using assms
  by (auto simp: index_holds_def pool_ready_def bp.pg.bsession_def bp.pg.session_def bp.good_pool_def)

lemma done_holds:
  assumes d: "bp.pg.index_done ps fid (pin_counts (bt_pool b)) (length (frames (bt_pool b))) (pool_view ps (bt_pool b)) tot m b'"
    and fid: "fid = bt_file b"
  shows "index_holds ps b' m \<and> index_frame ps b b'"
proof -
  obtain V' tot' r' where s: "bp.pg.bsession ps (pin_counts (bt_pool b)) (length (frames (bt_pool b))) tot' V' [] {} r' fid b'"
    "index_rep ps fid tot' V' r' m" "\<forall>q. file_id q \<noteq> fid \<longrightarrow> V' q = pool_view ps (bt_pool b) q"
    using d unfolding bp.pg.index_done_def pager_size by blast
  from session_holds [OF s(1,2)] s(3) fid show ?thesis by (simp add: index_frame_def pin_counts_eq)
qed

lemma session_frame:
  assumes "bp.pg.bsession ps (pin_counts (bt_pool b)) (length (frames (bt_pool b)))
      (basic_total ps (disk (bt_pool b))) (pool_view ps (bt_pool b)) [] {} (bt_root b) (bt_file b) b'"
    and "index_holds ps b m"
  shows "index_holds ps b' m \<and> index_frame ps b b'"
proof -
  have "index_rep ps (bt_file b) (basic_total ps (disk (bt_pool b))) (pool_view ps (bt_pool b)) (bt_root b) m"
    using assms(2) by (simp add: index_holds_def)
  from session_holds [OF assms(1) this] show ?thesis by (simp add: index_frame_def pin_counts_eq)
qed

lemma insert_holds:
  assumes g: "geometry ps" and h: "index_holds ps b m" and room: "index_room 3 b" and key: "i32_range key"
    and tot: "unat (basic_total ps (disk (bt_pool b)) (bt_file b)) < 2147483647"
  shows "case m key of
      Some _ \<Rightarrow> \<exists>b'. index_insert (index_pager ps) key v b = Some (Err NodeFull, b') \<and>
        index_holds ps b' m \<and> index_frame ps b b'
    | None \<Rightarrow> \<exists>b'. index_insert (index_pager ps) key v b = Some (Ok (), b') \<and>
        index_holds ps b' (m(key \<mapsto> v)) \<and> index_frame ps b b'"
proof -
  note s = holds_session [OF h]
  have rep: "index_rep ps (bt_file b) (basic_total ps (disk (bt_pool b))) (pool_view ps (bt_pool b)) (bt_root b) m"
    using h by (simp add: index_holds_def)
  note sp = bp.pg.tree_insert_spec [where ps = ps, unfolded pager_size,
      OF g room [unfolded index_room_def] s rep key tot, of v]
  show ?thesis
  proof (cases "m key")
    case None
    with sp obtain b' where b': "tree_insert (index_pager ps) key v b = Some (Ok (), b')"
      "bp.pg.index_done ps (bt_file b) (pin_counts (bt_pool b)) (length (frames (bt_pool b)))
        (pool_view ps (bt_pool b)) (basic_total ps (disk (bt_pool b))) (m(key \<mapsto> v)) b'" by auto
    from done_holds [OF b'(2) refl] b'(1) None show ?thesis
      by (simp add: index_insert_def map_err_act_def)
  next
    case (Some c)
    with sp obtain b' where b': "tree_insert (index_pager ps) key v b = Some (Err DuplicateKey, b')"
      "bp.pg.bsession ps (pin_counts (bt_pool b)) (length (frames (bt_pool b)))
      (basic_total ps (disk (bt_pool b))) (pool_view ps (bt_pool b)) [] {} (bt_root b) (bt_file b) b'" by auto
    from session_frame [OF b'(2) h] b'(1) Some show ?thesis
      by (simp add: index_insert_def map_err_act_def)
  qed
qed

lemma search_holds:
  assumes g: "geometry ps" and h: "index_holds ps b m" and room: "index_room 1 b" and key: "i32_range key"
  shows "\<exists>b'. index_search (index_pager ps) key b = Some (ok_or (m key) NodeKeyNotFound, b') \<and>
      index_holds ps b' m \<and> index_frame ps b b'"
proof -
  have rep: "index_rep ps (bt_file b) (basic_total ps (disk (bt_pool b))) (pool_view ps (bt_pool b)) (bt_root b) m"
    using h by (simp add: index_holds_def)
  from bp.pg.index_search_spec [where ps = ps, unfolded pager_size,
      OF g room [unfolded index_room_def] holds_session [OF h] rep key]
  show ?thesis using session_frame [OF _ h] by blast
qed

lemma delete_holds:
  assumes g: "geometry ps" and h: "index_holds ps b m" and room: "index_room 3 b" and key: "i32_range key"
  shows "case m key of
      None \<Rightarrow> \<exists>b'. index_delete (index_pager ps) key b = Some (Err NodeKeyNotFound, b') \<and>
        index_holds ps b' m \<and> index_frame ps b b'
    | Some _ \<Rightarrow> \<exists>b'. index_delete (index_pager ps) key b = Some (Ok (), b') \<and>
        index_holds ps b' (m(key := None)) \<and> index_frame ps b b'"
proof -
  note s = holds_session [OF h]
  have rep: "index_rep ps (bt_file b) (basic_total ps (disk (bt_pool b))) (pool_view ps (bt_pool b)) (bt_root b) m"
    using h by (simp add: index_holds_def)
  note sp = bp.pg.index_delete_spec [where ps = ps, unfolded pager_size,
      OF g room [unfolded index_room_def] s rep key]
  show ?thesis
  proof (cases "m key")
    case None
    with sp obtain b' where "index_delete (index_pager ps) key b = Some (Err NodeKeyNotFound, b')"
      "bp.pg.bsession ps (pin_counts (bt_pool b)) (length (frames (bt_pool b)))
      (basic_total ps (disk (bt_pool b))) (pool_view ps (bt_pool b)) [] {} (bt_root b) (bt_file b) b'" by auto
    with session_frame [OF this(2) h] None show ?thesis by auto
  next
    case (Some c)
    with sp obtain b' where "index_delete (index_pager ps) key b = Some (Ok (), b')"
      "bp.pg.index_done ps (bt_file b) (pin_counts (bt_pool b)) (length (frames (bt_pool b)))
        (pool_view ps (bt_pool b)) (basic_total ps (disk (bt_pool b))) (m(key := None)) b'" by auto
    with done_holds [OF this(2) refl] Some show ?thesis by auto
  qed
qed

lemma in_range_sorted:
  assumes srt: "sorted_wrt (<) (map fst kvs)" and m: "map_of kvs = m"
  shows "in_range lo hi kvs = map (\<lambda>k. the (m k)) (sorted_list_of_set {k \<in> dom m. lo \<le> k \<and> k \<le> hi})"
proof -
  let ?f = "filter (\<lambda>(k, _). lo \<le> k \<and> k \<le> hi) kvs"
  have d: "distinct (map fst kvs)" using srt strict_sorted_iff by blast
  have "map fst ?f = filter (\<lambda>k. lo \<le> k \<and> k \<le> hi) (map fst kvs)"
    by (simp add: filter_map comp_def split_def)
  then have s: "sorted_wrt (<) (map fst ?f)" and "set (map fst ?f) = {k \<in> dom m. lo \<le> k \<and> k \<le> hi}"
    using srt by (auto simp: sorted_wrt_filter dom_map_of_conv_image_fst simp flip: m)
  then have k: "sorted_list_of_set {k \<in> dom m. lo \<le> k \<and> k \<le> hi} = map fst ?f"
    using sorted_list_of_set.idem_if_sorted_distinct [of "map fst ?f"] by (auto simp: strict_sorted_iff)
  have "the (m (fst x)) = snd x" if "x \<in> set ?f" for x
    using that map_of_is_SomeI [OF d, of "fst x" "snd x"] by (auto simp: m)
  then show ?thesis unfolding k in_range_def by simp
qed

lemma range_search_holds:
  assumes g: "geometry ps" and h: "index_holds ps b m" and room: "index_room 2 b" and lo: "i32_range lo"
  shows "\<exists>b'. index_range_search (index_pager ps) lo hi b =
      Some (Ok (map (\<lambda>k. the (m k)) (sorted_list_of_set {k \<in> dom m. lo \<le> k \<and> k \<le> hi})), b') \<and>
      index_holds ps b' m \<and> (\<forall>p. pool_view ps (bt_pool b') p = pool_view ps (bt_pool b) p) \<and>
      (if bt_root b = None then pins (bt_pool b') = pins (bt_pool b)
       else \<exists>p. pins (bt_pool b') = (pins (bt_pool b))(p := pins (bt_pool b) p + 1))"
proof -
  let ?tot = "basic_total ps (disk (bt_pool b))" and ?V = "pool_view ps (bt_pool b)"
  have rep: "index_rep ps (bt_file b) ?tot ?V (bt_root b) m" using h by (simp add: index_holds_def)
  obtain b' kvs held where b': "index_range_search (index_pager ps) lo hi b = Some (Ok (in_range lo hi kvs), b')"
    "map_of kvs = m" "sorted_wrt (<) (map fst kvs)"
    "bp.pg.bsession ps (pin_counts (bt_pool b)) (length (frames (bt_pool b))) ?tot ?V held {} (bt_root b) (bt_file b) b'"
    "bt_root b = None \<longrightarrow> held = []" "bt_root b \<noteq> None \<longrightarrow> length held = 1"
    using bp.pg.index_range_search_spec [where ps = ps, unfolded pager_size,
      OF g room [unfolded index_room_def] holds_session [OF h] rep lo, of hi] by (elim exE conjE) (rule that)
  have p: "pin_counts (bt_pool b') = (\<lambda>q. pin_counts (bt_pool b) q + count_list (map fst held) q)"
    and st: "index_holds ps b' m" "pool_view ps (bt_pool b') = ?V"
    using b'(4) rep
    by (auto simp: index_holds_def pool_ready_def bp.pg.bsession_def bp.pg.session_def bp.good_pool_def)
  have "if bt_root b = None then pins (bt_pool b') = pins (bt_pool b)
       else \<exists>p. pins (bt_pool b') = (pins (bt_pool b))(p := pins (bt_pool b) p + 1)"
  proof (cases "bt_root b = None")
    case True
    with b'(5) p show ?thesis by (simp add: pin_counts_eq [symmetric])
  next
    case False
    then obtain q f where "held = [(q, f)]" using b'(6) by (auto simp: length_Suc_conv)
    with p have pc: "pin_counts (bt_pool b') = (pin_counts (bt_pool b))(q := pin_counts (bt_pool b) q + 1)"
      by (simp add: fun_eq_iff)
    have "pins (bt_pool b') = (pins (bt_pool b))(q := pins (bt_pool b) q + 1)"
    proof
      fix r
      have u: "unat (pins (bt_pool b') r) = (if r = q then unat (pins (bt_pool b) q) + 1 else unat (pins (bt_pool b) r))"
        using fun_cong [OF pc, of r] by (simp add: pin_counts_def split: if_splits)
      show "pins (bt_pool b') r = ((pins (bt_pool b))(q := pins (bt_pool b) q + 1)) r"
      proof (cases "r = q")
        case True
        have "unat (pins (bt_pool b') q) < 2 ^ LENGTH(32)" by (rule unsigned_less)
        then have "unat (pins (bt_pool b) q) + 1 < 2 ^ 32" using u True by simp
        then have "unat (pins (bt_pool b) q + 1) = unat (pins (bt_pool b) q) + 1" by (rule u32_le_max) simp
        with u True show ?thesis by (simp add: word_unat_eq_iff)
      next
        case False
        with u show ?thesis by (simp add: word_unat_eq_iff)
      qed
    qed
    with False show ?thesis by auto
  qed
  with b'(1) st show ?thesis unfolding in_range_sorted [OF b'(3,2)] by auto
qed

text \<open>The index of the witnesses: no page yet, over three frames of 56 bytes and no log.\<close>

definition index0 :: "pool btree" where
  "index0 = new_btree (new_with_log_manager 56 3
     \<lparr>disk_files = (\<lambda>_. None), disk_faults = [], file_handles = (\<lambda>_. None)\<rparr> None) None 1"

definition ctid1 :: ctid where
  "ctid1 = \<lparr>ctid_page = \<lparr>file_id = 2, page_num = 7\<rparr>, slot_idx = 3\<rparr>"

lemma geometry_56: "geometry 56"
  by (simp add: geometry_def leaf_max_keys_def internal_max_keys_def)

lemma index0_holds: "index_holds 56 index0 Map.empty" "index_room 3 index0" "pins (bt_pool index0) = (\<lambda>_. 0)"
  "length (frames (bt_pool index0)) = 3" "basic_total 56 (disk (bt_pool index0)) (bt_file index0) = 0"
  "bt_root index0 = None"
proof -
  let ?d = "\<lparr>disk_files = (\<lambda>_. None), disk_faults = [], file_handles = (\<lambda>_. None)\<rparr>"
  have d: "basic_inv ?d" by (simp add: basic_inv_def)
  have l: "\<forall>l. (None :: wal option) = Some l \<longrightarrow> wal_inv l" by simp
  note n = bp.new_pool_inv [OF d l, of 56 3]
  have p: "pins (bt_pool index0) q = 0" for q using n(4) by (simp add: index0_def new_btree_def)
  then show "pins (bt_pool index0) = (\<lambda>_. 0)" by blast
  show fr: "length (frames (bt_pool index0)) = 3" by (simp add: index0_def new_btree_def new_with_log_manager_def)
  show "basic_total 56 (disk (bt_pool index0)) (bt_file index0) = 0"
    by (simp add: index0_def new_btree_def new_with_log_manager_def basic_total_def file_bytes_def)
  show r: "bt_root index0 = None" by (simp add: index0_def new_btree_def)
  show "index_room 3 index0" using p fr by (simp add: index_room_def spare_def pin_counts_def)
  have "pool_ready 56 (bt_pool index0)"
    using n(1,2,4,5,6)
    by (simp add: pool_ready_def index0_def new_btree_def marks_pins_def new_with_log_manager_def bp_healthy_def basic_healthy_def)
  then show "index_holds 56 index0 Map.empty" using r by (simp add: index_holds_def index_rep_def)
qed

lemma index_room_frame: "index_frame ps b b' \<Longrightarrow> index_room n b \<Longrightarrow> index_room n b'"
  by (simp add: index_room_def index_frame_def pin_counts_def [abs_def])

lemma index1:
  obtains b where "index_insert (index_pager 56) 5 c index0 = Some (Ok (), b)" and "index_holds 56 b [5 \<mapsto> c]"
    and "index_room 3 b" and "index_frame 56 index0 b"
proof -
  have "i32_range 5" by (simp add: i32_range_def)
  from insert_holds [OF geometry_56 index0_holds(1,2) this, of c] index0_holds(5)
  show ?thesis using that index_room_frame [OF _ index0_holds(2)] by auto
qed

subsection \<open>The properties of the index\<close>

text \<open>
  C6: \<open>insert\<close> on an index that stands for the map \<open>m\<close>, on a working pool with three frames to
  spare: a key that is present is refused and the map stays, a new key is added, whatever leaf and
  internal splits that takes; the pins and the pages of all other files are as before.
\<close>

theorem index_insert_refines:
  assumes "geometry ps" and "index_holds ps b m" and "index_room 3 b" and "i32_range key"
    and "unat (basic_total ps (disk (bt_pool b)) (bt_file b)) < 2147483647"
  shows "case m key of
      Some _ \<Rightarrow> \<exists>b'. index_insert (index_pager ps) key v b = Some (Err NodeFull, b') \<and>
        index_holds ps b' m \<and> index_frame ps b b'
    | None \<Rightarrow> \<exists>b'. index_insert (index_pager ps) key v b = Some (Ok (), b') \<and>
        index_holds ps b' (m(key \<mapsto> v)) \<and> index_frame ps b b'"
  by (rule insert_holds [OF assms])

theorem index_insert_refines_witness:
  "\<exists>b. index_insert (index_pager 56) 5 ctid1 index0 = Some (Ok (), b) \<and> index_holds 56 b [5 \<mapsto> ctid1] \<and>
     index_frame 56 index0 b"
  using index_insert_refines [OF geometry_56 index0_holds(1,2), of 5 ctid1] index0_holds(5)
  by (simp add: i32_range_def)

text \<open>
  C8: \<open>search\<close> returns what the map holds for the key, or \<open>KeyNotFound\<close>: the descent from the root
  ends, and leaves the map, the pins and every page as they were.
\<close>

theorem index_search_lookup:
  assumes "geometry ps" and "index_holds ps b m" and "index_room 1 b" and "i32_range key"
  shows "\<exists>b'. index_search (index_pager ps) key b = Some (ok_or (m key) NodeKeyNotFound, b') \<and>
      index_holds ps b' m \<and> index_frame ps b b'"
  by (rule search_holds [OF assms])

theorem index_search_lookup_witness:
  "\<exists>b b' b''. index_insert (index_pager 56) 5 ctid1 index0 = Some (Ok (), b) \<and>
     index_search (index_pager 56) 5 b = Some (Ok ctid1, b') \<and>
     index_search (index_pager 56) 6 b = Some (Err NodeKeyNotFound, b'')"
proof -
  obtain b where b: "index_insert (index_pager 56) 5 ctid1 index0 = Some (Ok (), b)" "index_holds 56 b [5 \<mapsto> ctid1]"
    "index_room 3 b" by (rule index1)
  have "index_room 1 b" using b(3) spare_le [where m = 1 and n = 3] by (simp add: index_room_def)
  then show ?thesis
    using index_search_lookup [OF geometry_56 b(2), of 5] index_search_lookup [OF geometry_56 b(2), of 6] b(1)
    by (auto simp: i32_range_def)
qed

text \<open>
  C7: \<open>delete\<close> removes a key that is present, merging an underfull leaf with a sibling where that
  fits, and refuses an absent one; the map loses exactly that key, and the pins and the pages of
  other files are as before.
\<close>

theorem index_delete_refines:
  assumes "geometry ps" and "index_holds ps b m" and "index_room 3 b" and "i32_range key"
  shows "case m key of
      None \<Rightarrow> \<exists>b'. index_delete (index_pager ps) key b = Some (Err NodeKeyNotFound, b') \<and>
        index_holds ps b' m \<and> index_frame ps b b'
    | Some _ \<Rightarrow> \<exists>b'. index_delete (index_pager ps) key b = Some (Ok (), b') \<and>
        index_holds ps b' (m(key := None)) \<and> index_frame ps b b'"
  by (rule delete_holds [OF assms])

theorem index_delete_refines_witness:
  "\<exists>b b' b''. index_insert (index_pager 56) 5 ctid1 index0 = Some (Ok (), b) \<and>
     index_delete (index_pager 56) 5 b = Some (Ok (), b') \<and> index_holds 56 b' Map.empty \<and>
     index_delete (index_pager 56) 5 b' = Some (Err NodeKeyNotFound, b'')"
proof -
  obtain b where b: "index_insert (index_pager 56) 5 ctid1 index0 = Some (Ok (), b)" "index_holds 56 b [5 \<mapsto> ctid1]"
    "index_room 3 b" by (rule index1)
  have k: "i32_range 5" by (simp add: i32_range_def)
  from index_delete_refines [OF geometry_56 b(2,3) k] obtain b' where
    b': "index_delete (index_pager 56) 5 b = Some (Ok (), b')" "index_holds 56 b' Map.empty" "index_frame 56 b b'" by auto
  from index_delete_refines [OF geometry_56 b'(2) index_room_frame [OF b'(3) b(3)] k] show ?thesis
    using b(1) b'(1,2) by auto
qed

text \<open>
  C9: \<open>range_search\<close> returns the entries between the two keys, both included, in the order of the
  keys, and changes no page; but unless the index is empty it ends with one page pinned once more
  than before: the pin that \<open>find_leaf_page\<close> hands over is never released.
\<close>

theorem index_range_query:
  assumes "geometry ps" and "index_holds ps b m" and "index_room 2 b" and "i32_range lo"
  shows "\<exists>b'. index_range_search (index_pager ps) lo hi b =
      Some (Ok (map (\<lambda>k. the (m k)) (sorted_list_of_set {k \<in> dom m. lo \<le> k \<and> k \<le> hi})), b') \<and>
      index_holds ps b' m \<and> (\<forall>p. pool_view ps (bt_pool b') p = pool_view ps (bt_pool b) p) \<and>
      (if bt_root b = None then pins (bt_pool b') = pins (bt_pool b)
       else \<exists>p. pins (bt_pool b') = (pins (bt_pool b))(p := pins (bt_pool b) p + 1))"
  by (rule range_search_holds [OF assms])

theorem index_range_query_witness:
  "\<exists>b b' p. index_insert (index_pager 56) 5 ctid1 index0 = Some (Ok (), b) \<and>
     index_range_search (index_pager 56) 0 9 b = Some (Ok [ctid1], b') \<and>
     pins (bt_pool b') = (\<lambda>_. 0)(p := 1)"
proof -
  obtain b where b: "index_insert (index_pager 56) 5 ctid1 index0 = Some (Ok (), b)" "index_holds 56 b [5 \<mapsto> ctid1]"
    "index_room 3 b" "index_frame 56 index0 b" by (rule index1)
  have p: "pins (bt_pool b) = (\<lambda>_. 0)" using b(4) index0_holds(3) by (simp add: index_frame_def)
  have r: "index_room 2 b" using b(3) spare_le [where m = 2 and n = 3] by (simp add: index_room_def)
  have "bt_root b \<noteq> None" using b(2) by (auto simp: index_holds_def index_rep_def fun_eq_iff split: option.splits if_splits)
  moreover have "{k \<in> dom [5 \<mapsto> ctid1]. 0 \<le> k \<and> k \<le> 9} = {5 :: int}" by auto
  ultimately show ?thesis
    using index_range_query [OF geometry_56 b(2) r, of 0 9] b(1) p by (auto simp: i32_range_def)
qed

end
