(* ===== verification/Tuple.thy ===== *)
theory Tuple
  imports Prelude
begin

unbundle bit_operations_syntax

text \<open>
  Values, schemas and the binary tuple format of \<open>crates/wackdb_tuple\<close>: \<open>DataType\<close>, \<open>Value\<close>,
  \<open>Column\<close>, \<open>Schema\<close>, \<open>Tuple::from_values\<close> and \<open>Tuple::to_values\<close>. A tuple is a null bitmap,
  a section of fixed width per column (a varchar stores a 16-bit offset and length there) and the
  bytes of the varchars. The main result is the round trip.
\<close>

subsection \<open>Values and schemas\<close>

datatype data_type = IntegerT | BooleanT | VarcharT

datatype sql_value = Null | Integer int | Boolean bool | Varchar string

record column =
  col_name :: string
  data_type :: data_type
  is_nullable :: bool

record schema =
  columns :: "column list"

datatype tuple_error =
    ColumnCountMismatch nat nat
  | NullNotAllowed string
  | DeserializationError string

type_synonym tuple = bytes

definition value_data_type :: "sql_value \<Rightarrow> data_type option" where
  "value_data_type v = (case v of Null \<Rightarrow> None | Integer _ \<Rightarrow> Some IntegerT
     | Boolean _ \<Rightarrow> Some BooleanT | Varchar _ \<Rightarrow> Some VarcharT)"

definition is_fixed_length :: "data_type \<Rightarrow> bool" where
  "is_fixed_length dt = (case dt of IntegerT \<Rightarrow> True | BooleanT \<Rightarrow> True | VarcharT \<Rightarrow> False)"

definition fixed_length_size :: "data_type \<Rightarrow> nat" where
  "fixed_length_size dt = (case dt of IntegerT \<Rightarrow> 4 | BooleanT \<Rightarrow> 1 | VarcharT \<Rightarrow> 0)"

definition column_count :: "schema \<Rightarrow> nat" where
  "column_count s = length (columns s)"

definition bitmap_size :: "schema \<Rightarrow> nat" where
  "bitmap_size s = (length (columns s) + 7) div 8"

subsection \<open>Strings as bytes\<close>

definition as_bytes :: "string \<Rightarrow> bytes" where
  "as_bytes s = map (\<lambda>c. word_of_nat (of_char c)) s"

definition of_bytes :: "bytes \<Rightarrow> string" where
  "of_bytes bs = map (\<lambda>b. char_of (unat b)) bs"

definition utf8_cont :: "u8 \<Rightarrow> bool" where
  "utf8_cont b \<longleftrightarrow> 0x80 \<le> b \<and> b \<le> 0xBF"

text \<open>The well-formed byte sequences of the Unicode standard, as \<open>String::from_utf8\<close> checks them.\<close>

fun valid_utf8 :: "bytes \<Rightarrow> bool" where
  "valid_utf8 [] = True"
| "valid_utf8 (a # r1) =
     (if a < 0x80 then valid_utf8 r1
      else case r1 of [] \<Rightarrow> False | b # r2 \<Rightarrow>
        if 0xC2 \<le> a \<and> a \<le> 0xDF then utf8_cont b \<and> valid_utf8 r2
        else case r2 of [] \<Rightarrow> False | c # r3 \<Rightarrow>
          if 0xE0 \<le> a \<and> a \<le> 0xEF
          then utf8_cont b \<and> (a = 0xE0 \<longrightarrow> 0xA0 \<le> b) \<and> (a = 0xED \<longrightarrow> b \<le> 0x9F) \<and>
               utf8_cont c \<and> valid_utf8 r3
          else case r3 of [] \<Rightarrow> False | d # r4 \<Rightarrow>
            0xF0 \<le> a \<and> a \<le> 0xF4 \<and> utf8_cont b \<and> (a = 0xF0 \<longrightarrow> 0x90 \<le> b) \<and>
            (a = 0xF4 \<longrightarrow> b \<le> 0x8F) \<and> utf8_cont c \<and> utf8_cont d \<and> valid_utf8 r4)"

subsection \<open>\<open>Tuple::from_values\<close>\<close>

text \<open>\<open>usize::try_into::<u16>().unwrap_or(0)\<close>\<close>

definition u16_or_0 :: "nat \<Rightarrow> nat" where
  "u16_or_0 n = (if n < 65536 then n else 0)"

text \<open>The bytes a column takes in the fixed section: a null is written as that many zeros.\<close>

definition fixed_width :: "data_type \<Rightarrow> nat" where
  "fixed_width dt = (case dt of IntegerT \<Rightarrow> 4 | BooleanT \<Rightarrow> 1 | VarcharT \<Rightarrow> 4)"

fun write_columns :: "nat \<Rightarrow> (column \<times> sql_value) list \<Rightarrow> bytes \<Rightarrow> bytes \<Rightarrow> bytes \<Rightarrow>
    (tuple_error, bytes \<times> bytes \<times> bytes) res" where
  "write_columns i [] bitmap fixed var = Ok (bitmap, fixed, var)"
| "write_columns i ((col, val) # rest) bitmap fixed var = (case val of
       Null \<Rightarrow>
         if \<not> is_nullable col then Err (NullNotAllowed (col_name col))
         else write_columns (Suc i) rest
           (bitmap[i div 8 := bitmap ! (i div 8) OR push_bit (i mod 8) 1])
           (fixed @ replicate (fixed_width (data_type col)) 0) var
     | Integer v \<Rightarrow> write_columns (Suc i) rest bitmap (fixed @ i32_to_le v) var
     | Boolean v \<Rightarrow> write_columns (Suc i) rest bitmap (fixed @ [if v then 1 else 0]) var
     | Varchar s \<Rightarrow>
         let bytes = as_bytes s;
             offset = u16_or_0 (length var);
             len = u16_or_0 (length bytes)
         in write_columns (Suc i) rest bitmap (fixed @ to_le 2 offset @ to_le 2 len) (var @ bytes))"

text \<open>The second pass makes the varchar offsets absolute; the sum is a \<open>u16\<close> and wraps.\<close>

fun adjust_offsets :: "nat \<Rightarrow> column list \<Rightarrow> bytes \<Rightarrow> nat \<Rightarrow> nat \<Rightarrow> bytes \<Rightarrow> (tuple_error, bytes) res" where
  "adjust_offsets i [] bitmap base cursor fixed = Ok fixed"
| "adjust_offsets i (col # cols) bitmap base cursor fixed =
     res_bind
       (if bitmap ! (i div 8) AND push_bit (i mod 8) 1 = 0 \<and> data_type col = VarcharT
        then if length fixed < cursor + 2 then Panic
             else Ok (overwrite cursor (to_le 2 ((of_le (peek cursor 2 fixed) + base mod 65536) mod 65536)) fixed)
        else Ok fixed)
       (adjust_offsets (Suc i) cols bitmap base (cursor + fixed_width (data_type col)))"

definition from_values :: "schema \<Rightarrow> sql_value list \<Rightarrow> (tuple_error, tuple) res" where
  "from_values schema vals =
     (if column_count schema \<noteq> length vals
      then Err (ColumnCountMismatch (column_count schema) (length vals))
      else res_bind (write_columns 0 (zip (columns schema) vals) (replicate (bitmap_size schema) 0) [] [])
        (\<lambda>(bitmap, fixed, var).
          res_bind (adjust_offsets 0 (columns schema) bitmap (length bitmap + length fixed) 0 fixed)
            (\<lambda>fixed'. Ok (bitmap @ fixed' @ var))))"

subsection \<open>\<open>Tuple::to_values\<close>\<close>

definition bitmap_null :: "bytes \<Rightarrow> nat \<Rightarrow> bool" where
  "bitmap_null bitmap i \<longleftrightarrow>
     (if i div 8 < length bitmap then bitmap ! (i div 8) AND push_bit (i mod 8) 1 \<noteq> 0 else False)"

fun read_columns :: "nat \<Rightarrow> column list \<Rightarrow> bytes \<Rightarrow> bytes \<Rightarrow> nat \<Rightarrow> (tuple_error, sql_value list) res" where
  "read_columns i [] bitmap data cursor = Ok []"
| "read_columns i (col # cols) bitmap data cursor =
     (if bitmap_null bitmap i
      then res_bind (read_columns (Suc i) cols bitmap data (cursor + fixed_width (data_type col)))
             (\<lambda>vs. Ok (Null # vs))
      else case data_type col of
        IntegerT \<Rightarrow>
          if length data < cursor + 4 then Err (DeserializationError ''Out of bounds integer'')
          else let val = i32_of_le (peek cursor 4 data) in
            res_bind (read_columns (Suc i) cols bitmap data (cursor + 4)) (\<lambda>vs. Ok (Integer val # vs))
      | BooleanT \<Rightarrow>
          if length data < cursor + 1 then Err (DeserializationError ''Out of bounds boolean'')
          else let val = (data ! cursor \<noteq> 0) in
            res_bind (read_columns (Suc i) cols bitmap data (cursor + 1)) (\<lambda>vs. Ok (Boolean val # vs))
      | VarcharT \<Rightarrow>
          if length data < cursor + 4 then Err (DeserializationError ''Out of bounds varchar pointer'')
          else let offset = of_le (peek cursor 2 data);
                   len = of_le (peek (cursor + 2) 2 data)
            in if length data < offset + len then Err (DeserializationError ''Out of bounds varchar payload'')
               else let str_bytes = peek offset len data in
                 if \<not> valid_utf8 str_bytes then Err (DeserializationError ''Invalid UTF-8'')
                 else res_bind (read_columns (Suc i) cols bitmap data (cursor + 4))
                        (\<lambda>vs. Ok (Varchar (of_bytes str_bytes) # vs)))"

definition to_values :: "tuple \<Rightarrow> schema \<Rightarrow> (tuple_error, sql_value list) res" where
  "to_values data schema =
     (if length data < bitmap_size schema then Err (DeserializationError ''Data too short for bitmap'')
      else read_columns 0 (columns schema) (take (bitmap_size schema) data) data (bitmap_size schema))"

subsection \<open>Conversions\<close>

lemma length_as_bytes [simp]: "length (as_bytes s) = length s"
  by (simp add: as_bytes_def)

lemma of_bytes_as_bytes [simp]: "of_bytes (as_bytes s) = s"
proof -
  have "char_of (unat (word_of_nat (of_char c) :: u8)) = c" for c :: char
  proof -
    have "of_char c < (256 :: nat)" by (metis mod_less_divisor of_char_mod_256 zero_less_numeral)
    then have "unat (word_of_nat (of_char c) :: u8) = of_char c"
      by (simp add: unat_of_nat)
    then show ?thesis by simp
  qed
  then show ?thesis
    by (simp add: of_bytes_def as_bytes_def comp_def)
qed

subsection \<open>The layout\<close>

text \<open>
  What \<open>from_values\<close> writes for values that fit their columns: \<open>enc_fixed base voff\<close> is the fixed
  section when the first varchar starts at \<open>base + voff\<close>.
\<close>

definition value_fits :: "column \<Rightarrow> sql_value \<Rightarrow> bool" where
  "value_fits col v = (case v of Null \<Rightarrow> is_nullable col
     | Integer i \<Rightarrow> data_type col = IntegerT \<and> i32_range i
     | Boolean b \<Rightarrow> data_type col = BooleanT
     | Varchar s \<Rightarrow> data_type col = VarcharT \<and> valid_utf8 (as_bytes s))"

definition payload :: "sql_value \<Rightarrow> bytes" where
  "payload v = (case v of Varchar s \<Rightarrow> as_bytes s | _ \<Rightarrow> [])"

definition var_section :: "sql_value list \<Rightarrow> bytes" where
  "var_section vs = concat (map payload vs)"

definition enc_cell :: "nat \<Rightarrow> column \<Rightarrow> sql_value \<Rightarrow> bytes" where
  "enc_cell off col v = (case v of Null \<Rightarrow> replicate (fixed_width (data_type col)) 0
     | Integer i \<Rightarrow> i32_to_le i | Boolean b \<Rightarrow> [if b then 1 else 0]
     | Varchar s \<Rightarrow> to_le 2 off @ to_le 2 (length s))"

fun enc_fixed :: "nat \<Rightarrow> (column \<times> sql_value) list \<Rightarrow> bytes" where
  "enc_fixed off [] = []"
| "enc_fixed off ((col, v) # rest) = enc_cell off col v @ enc_fixed (off + length (payload v)) rest"

abbreviation all_fit :: "(column \<times> sql_value) list \<Rightarrow> bool" where
  "all_fit cvs \<equiv> \<forall>(c, v) \<in> set cvs. value_fits c v"

definition null_bit :: "bytes \<Rightarrow> nat \<Rightarrow> bool" where
  "null_bit bm k \<longleftrightarrow> bit (bm ! (k div 8)) (k mod 8)"

fun set_nulls :: "nat \<Rightarrow> sql_value list \<Rightarrow> bytes \<Rightarrow> bytes" where
  "set_nulls i [] bm = bm"
| "set_nulls i (v # vs) bm = set_nulls (Suc i) vs
     (if v = Null then bm[i div 8 := bm ! (i div 8) OR push_bit (i mod 8) 1] else bm)"

lemma var_section_simps [simp]:
  "var_section [] = []" "var_section (v # vs) = payload v @ var_section vs"
  by (simp_all add: var_section_def)

lemma payload_simps [simp]:
  "payload Null = []" "payload (Integer i) = []" "payload (Boolean b) = []"
  "payload (Varchar s) = as_bytes s"
  by (simp_all add: payload_def)

lemma length_enc_cell: "value_fits col v \<Longrightarrow> length (enc_cell off col v) = fixed_width (data_type col)"
  by (auto simp: enc_cell_def value_fits_def fixed_width_def split: sql_value.splits data_type.splits)

lemma length_enc_fixed:
  "all_fit cvs \<Longrightarrow> length (enc_fixed off cvs) = sum_list (map (fixed_width \<circ> data_type \<circ> fst) cvs)"
  by (induction cvs arbitrary: off) (auto simp: length_enc_cell)

subsection \<open>The null bitmap\<close>

lemma null_bit_mask [simp]: "bm ! (i div 8) AND 2 ^ (i mod 8) = 0 \<longleftrightarrow> \<not> null_bit bm i"
  by (simp add: null_bit_def bit_iff_and_push_bit_not_eq_0)

lemma bitmap_null_eq: "i div 8 < length bm \<Longrightarrow> bitmap_null bm i \<longleftrightarrow> null_bit bm i"
  by (simp add: bitmap_null_def)

lemma length_set_nulls [simp]: "length (set_nulls i vs bm) = length bm"
  by (induction vs arbitrary: i bm) auto

lemma null_bit_update:
  assumes "i div 8 < length bm" and "k div 8 < length bm"
  shows "null_bit (bm[i div 8 := bm ! (i div 8) OR push_bit (i mod 8) 1]) k \<longleftrightarrow> k = i \<or> null_bit bm k"
proof (cases "k div 8 = i div 8")
  case True
  have "k mod 8 < 8" "i mod 8 < 8" by simp_all
  moreover have "k = i \<longleftrightarrow> k mod 8 = i mod 8" using True by (metis div_mult_mod_eq)
  ultimately show ?thesis
    using assms True by (auto simp: null_bit_def bit_simps)
next
  case False
  then show ?thesis
    using assms by (auto simp: null_bit_def)
qed

lemma null_bit_set_nulls:
  assumes "(i + length vs + 7) div 8 \<le> length bm" and "k div 8 < length bm"
  shows "null_bit (set_nulls i vs bm) k \<longleftrightarrow> null_bit bm k \<or> i \<le> k \<and> k < i + length vs \<and> vs ! (k - i) = Null"
  using assms
proof (induction vs arbitrary: i bm)
  case Nil
  then show ?case by auto
next
  case (Cons v vs)
  have i: "i div 8 < length bm" using Cons.prems(1) by simp
  let ?bm = "if v = Null then bm[i div 8 := bm ! (i div 8) OR push_bit (i mod 8) 1] else bm"
  have "null_bit (set_nulls (Suc i) vs ?bm) k \<longleftrightarrow>
      null_bit ?bm k \<or> Suc i \<le> k \<and> k < Suc i + length vs \<and> vs ! (k - Suc i) = Null"
    using Cons.prems by (intro Cons.IH) auto
  moreover have "null_bit ?bm k \<longleftrightarrow> (v = Null \<and> k = i) \<or> null_bit bm k"
    using null_bit_update [OF i Cons.prems(2)] by simp
  ultimately show ?case
    by (cases "k \<le> i") (auto simp: nth_Cons')
qed

subsection \<open>The three passes\<close>

lemma write_columns_ok:
  assumes "all_fit cvs" and "length var + length (var_section (map snd cvs)) < 65536"
  shows "write_columns i cvs bm fixed var =
    Ok (set_nulls i (map snd cvs) bm, fixed @ enc_fixed (length var) cvs, var @ var_section (map snd cvs))"
  using assms
proof (induction cvs arbitrary: i bm fixed var)
  case (Cons cv cvs)
  obtain c v where cv: "cv = (c, v)" by fastforce
  then have fit: "value_fits c v" "all_fit cvs" using Cons.prems(1) by auto
  show ?case
    using Cons.prems(2) fit
    by (cases v) (simp_all add: cv Cons.IH enc_cell_def value_fits_def u16_or_0_def)
qed simp

lemma adjust_offsets_ok:
  assumes "all_fit cvs" and "\<forall>k < length cvs. null_bit bm (i + k) \<longleftrightarrow> snd (cvs ! k) = Null"
    and "base + off + length (var_section (map snd cvs)) < 65536"
  shows "adjust_offsets i (map fst cvs) bm base (length pre) (pre @ enc_fixed off cvs) =
    Ok (pre @ enc_fixed (base + off) cvs)"
  using assms
proof (induction cvs arbitrary: i off pre)
  case (Cons cv cvs)
  obtain c v where cv: "cv = (c, v)" by fastforce
  then have fit: "value_fits c v" "all_fit cvs" using Cons.prems(1) by auto
  have nb: "null_bit bm i \<longleftrightarrow> v = Null" using Cons.prems(2) [rule_format, of 0] cv by simp
  have nb': "\<forall>k < length cvs. null_bit bm (Suc i + k) \<longleftrightarrow> snd (cvs ! k) = Null"
    using Cons.prems(2) by (auto dest: spec [of _ "Suc _"])
  have bounds: "base + (off + length (payload v)) + length (var_section (map snd cvs)) < 65536"
    using Cons.prems(3) cv by simp
  note IH = Cons.IH [OF fit(2) nb' bounds, of "pre @ enc_cell (base + off) c v"]
  have len: "length (pre @ enc_cell (base + off) c v) = length pre + fixed_width (data_type c)"
    using fit(1) by (simp add: length_enc_cell)
  have step: "(if bm ! (i div 8) AND push_bit (i mod 8) 1 = 0 \<and> data_type c = VarcharT
        then if length (pre @ enc_fixed off (cv # cvs)) < length pre + 2 then Panic
             else Ok (overwrite (length pre) (to_le 2 ((of_le (peek (length pre) 2 (pre @ enc_fixed off (cv # cvs)))
               + base mod 65536) mod 65536)) (pre @ enc_fixed off (cv # cvs)))
        else Ok (pre @ enc_fixed off (cv # cvs))) =
      (Ok (pre @ enc_cell (base + off) c v @ enc_fixed (off + length (payload v)) cvs) :: (tuple_error, bytes) res)"
  proof (cases v)
    case (Varchar s)
    have "of_le (to_le 2 off) = off"
      using Cons.prems(3) by (simp add: of_le_to_le)
    with Varchar nb fit(1) Cons.prems(3) show ?thesis
      by (simp add: cv) (simp add: enc_cell_def value_fits_def peek_def overwrite_def add.commute)
  qed (use nb fit(1) in \<open>simp_all add: cv value_fits_def enc_cell_def\<close>)
  show ?case
    unfolding list.map cv fst_conv adjust_offsets.simps step [unfolded cv] res_bind.simps
    using IH len by (simp add: add.assoc)
qed simp

lemma read_columns_ok:
  assumes "all_fit cvs" and "\<forall>k < length cvs. bitmap_null bitmap (i + k) \<longleftrightarrow> snd (cvs ! k) = Null"
    and "cursor + length (enc_fixed off cvs) \<le> length data"
    and "peek cursor (length (enc_fixed off cvs)) data = enc_fixed off cvs"
    and "off + length (var_section (map snd cvs)) \<le> length data"
    and "peek off (length (var_section (map snd cvs))) data = var_section (map snd cvs)"
    and "off + length (var_section (map snd cvs)) < 65536"
  shows "read_columns i (map fst cvs) bitmap data cursor = Ok (map snd cvs)"
  using assms
proof (induction cvs arbitrary: i off cursor)
  case (Cons cv cvs)
  obtain c v where cv: "cv = (c, v)" by fastforce
  then have fit: "value_fits c v" "all_fit cvs" using Cons.prems(1) by auto
  have nb: "bitmap_null bitmap i \<longleftrightarrow> v = Null" using Cons.prems(2) [rule_format, of 0] cv by simp
  have nb': "\<forall>k < length cvs. bitmap_null bitmap (Suc i + k) \<longleftrightarrow> snd (cvs ! k) = Null"
    using Cons.prems(2) by (auto dest: spec [of _ "Suc _"])
  note w = length_enc_cell [OF fit(1)]
  have cell: "peek cursor (fixed_width (data_type c)) data = enc_cell off c v"
    and rest: "peek (cursor + fixed_width (data_type c)) (length (enc_fixed (off + length (payload v)) cvs)) data
      = enc_fixed (off + length (payload v)) cvs"
    using Cons.prems(3,4) peek_append_iff [of cursor "enc_cell off c v" "enc_fixed (off + length (payload v)) cvs" data]
    by (simp_all add: cv w)
  have str: "peek off (length (payload v)) data = payload v"
    and rest': "peek (off + length (payload v)) (length (var_section (map snd cvs))) data = var_section (map snd cvs)"
    using Cons.prems(5,6) peek_append_iff [of off "payload v" "var_section (map snd cvs)" data]
    by (simp_all add: cv)
  have IH: "read_columns (Suc i) (map fst cvs) bitmap data (cursor + fixed_width (data_type c)) = Ok (map snd cvs)"
    using Cons.prems(3,5,7) rest rest' w
    by (intro Cons.IH [OF fit(2) nb', where off = "off + length (payload v)"]) (simp_all add: cv)
  have room: "cursor + fixed_width (data_type c) \<le> length data" using Cons.prems(3) w by (simp add: cv)
  show ?case
  proof (cases v)
    case Null
    with nb IH show ?thesis by (simp add: cv)
  next
    case (Integer x)
    with nb IH cell room fit(1) show ?thesis
      by (simp add: cv value_fits_def enc_cell_def fixed_width_def i32_of_le_to_le)
  next
    case (Boolean b)
    have "peek cursor 1 data = [data ! cursor]"
      using room Boolean fit(1) by (simp add: peek_def value_fits_def fixed_width_def take_Suc_conv_app_nth hd_drop_conv_nth take_Suc Cons_nth_drop_Suc)
    with Boolean nb IH cell room fit(1) show ?thesis
      by (simp add: cv value_fits_def enc_cell_def fixed_width_def split: if_splits)
  next
    case (Varchar s)
    then have c: "data_type c = VarcharT" and u: "valid_utf8 (as_bytes s)"
      using fit(1) by (simp_all add: value_fits_def)
    have b: "off < 65536" "length s < 65536" "off + length s \<le> length data"
      using Cons.prems(5,7) Varchar by (simp_all add: cv)
    have "peek cursor 4 data = to_le 2 off @ to_le 2 (length s)"
      using cell Varchar c by (simp add: enc_cell_def fixed_width_def)
    then have "peek cursor 2 data = to_le 2 off" "peek (cursor + 2) 2 data = to_le 2 (length s)"
      using peek_append_iff [of cursor "to_le 2 off" "to_le 2 (length s)" data] room c
      by (simp_all add: fixed_width_def)
    with Varchar nb IH room b c u str show ?thesis
      by (simp add: cv fixed_width_def of_le_to_le Let_def)
  qed
qed simp

subsection \<open>Round trip\<close>

definition tuple_len :: "schema \<Rightarrow> sql_value list \<Rightarrow> nat" where
  "tuple_len sch vals = bitmap_size sch + sum_list (map (fixed_width \<circ> data_type) (columns sch))
     + length (var_section vals)"

lemma set_nulls_zero:
  assumes "k < length vs"
  shows "null_bit (set_nulls 0 vs (replicate ((length vs + 7) div 8) 0)) k \<longleftrightarrow> vs ! k = Null"
proof -
  have k: "k div 8 < (length vs + 7) div 8" using assms by linarith
  then have "\<not> null_bit (replicate ((length vs + 7) div 8) 0) k" by (simp add: null_bit_def)
  with k assms show ?thesis by (simp add: null_bit_set_nulls)
qed

lemma from_values_ok:
  fixes sch vals base bm cvs
  assumes fit: "list_all2 value_fits (columns sch) vals" and small: "tuple_len sch vals < 65536"
  defines "base \<equiv> bitmap_size sch + sum_list (map (fixed_width \<circ> data_type) (columns sch))"
    and "bm \<equiv> set_nulls 0 vals (replicate (bitmap_size sch) 0)"
    and "cvs \<equiv> zip (columns sch) vals"
  shows "from_values sch vals = Ok (bm @ enc_fixed base cvs @ var_section vals)"
    and "length bm = bitmap_size sch" and "bitmap_size sch + length (enc_fixed off cvs) = base"
    and "all_fit cvs" and "\<forall>k < length cvs. null_bit bm k \<longleftrightarrow> snd (cvs ! k) = Null"
    and "map fst cvs = columns sch" and "map snd cvs = vals"
proof -
  have len: "length (columns sch) = length vals" using fit by (rule list_all2_lengthD)
  show maps: "map fst cvs = columns sch" "map snd cvs = vals" using len by (simp_all add: cvs_def)
  show af: "all_fit cvs" using fit by (simp add: cvs_def list_all2_iff)
  show nb: "\<forall>k < length cvs. null_bit bm k \<longleftrightarrow> snd (cvs ! k) = Null"
    using len by (auto simp: bm_def cvs_def bitmap_size_def set_nulls_zero)
  show lb: "length bm = bitmap_size sch" by (simp add: bm_def)
  show eb: "bitmap_size sch + length (enc_fixed off cvs) = base" for off
    using length_enc_fixed [OF af, of off] by (simp add: base_def comp_assoc flip: maps(1))
  have small': "base + length (var_section vals) < 65536"
    using small by (simp add: tuple_len_def base_def)
  have w: "write_columns 0 cvs (replicate (bitmap_size sch) 0) [] [] = Ok (bm, enc_fixed 0 cvs, var_section vals)"
    using write_columns_ok [OF af, of "[]"] small' by (simp add: maps bm_def)
  have a: "adjust_offsets 0 (columns sch) bm base 0 (enc_fixed 0 cvs) = Ok (enc_fixed base cvs)"
    using adjust_offsets_ok [OF af, of bm 0 base 0 "[]"] nb small' by (simp add: maps)
  show "from_values sch vals = Ok (bm @ enc_fixed base cvs @ var_section vals)"
    using len lb eb [of 0] by (simp add: from_values_def column_count_def w [unfolded cvs_def] cvs_def)
       (simp add: a [unfolded cvs_def])
qed

lemma from_values_to_values:
  assumes "list_all2 value_fits (columns sch) vals" and "tuple_len sch vals < 65536"
  shows "\<exists>t. from_values sch vals = Ok t \<and> length t = tuple_len sch vals \<and> to_values t sch = Ok vals"
proof -
  note f = from_values_ok [OF assms]
  define cvs where "cvs = zip (columns sch) vals"
  define bm where "bm = set_nulls 0 vals (replicate (bitmap_size sch) 0)"
  define base where "base = bitmap_size sch + sum_list (map (fixed_width \<circ> data_type) (columns sch))"
  note f = f [folded cvs_def bm_def base_def]
  define t where "t = bm @ enc_fixed base cvs @ var_section vals"
  have lt: "length t = base + length (var_section vals)" using f(2,3) by (simp add: t_def)
  have len: "length cvs = length (columns sch)" using f(6) by (metis length_map)
  have "read_columns 0 (map fst cvs) bm t (bitmap_size sch) = Ok (map snd cvs)"
  proof (rule read_columns_ok [OF f(4), where off = base])
    show "\<forall>k < length cvs. bitmap_null bm (0 + k) \<longleftrightarrow> snd (cvs ! k) = Null"
      using f(5) f(2) len by (auto simp: bitmap_null_eq bitmap_size_def)
    show "peek (bitmap_size sch) (length (enc_fixed base cvs)) t = enc_fixed base cvs"
      using peek_middle [of bm "enc_fixed base cvs" "var_section vals"] f(2) by (simp add: t_def)
    show "peek base (length (var_section (map snd cvs))) t = var_section (map snd cvs)"
      using peek_middle [of "bm @ enc_fixed base cvs" "var_section vals" "[]"] f(2,3,7) by (simp add: t_def)
  qed (use f(3) [of base] f(7) lt assms(2) in \<open>simp_all add: tuple_len_def base_def\<close>)
  moreover have "take (bitmap_size sch) t = bm" "bitmap_size sch \<le> length t"
    using f(2) by (simp_all add: t_def)
  ultimately have "to_values t sch = Ok vals"
    using f(6,7) by (simp add: to_values_def)
  with f(1) lt show ?thesis
    by (simp add: t_def tuple_len_def base_def)
qed

text \<open>
  C22: Every row that fits its schema and takes less than 64 KB is serialised by \<open>from_values\<close> to
  exactly \<open>tuple_len\<close> bytes, and \<open>to_values\<close> reads those bytes back to the same row.
\<close>

theorem tuple_round_trip:
  assumes "list_all2 value_fits (columns sch) vals" and "tuple_len sch vals < 65536"
  shows "\<exists>t. from_values sch vals = Ok t \<and> length t = tuple_len sch vals \<and> to_values t sch = Ok vals"
  by (rule from_values_to_values [OF assms])

theorem tuple_round_trip_witness:
  "\<exists>t. from_values \<lparr>columns = [\<lparr>col_name = ''id'', data_type = IntegerT, is_nullable = False\<rparr>,
        \<lparr>col_name = ''ok'', data_type = BooleanT, is_nullable = True\<rparr>,
        \<lparr>col_name = ''name'', data_type = VarcharT, is_nullable = True\<rparr>]\<rparr>
      [Integer (-7), Null, Varchar ''Al''] = Ok t \<and> length t = 12 \<and>
    to_values t \<lparr>columns = [\<lparr>col_name = ''id'', data_type = IntegerT, is_nullable = False\<rparr>,
        \<lparr>col_name = ''ok'', data_type = BooleanT, is_nullable = True\<rparr>,
        \<lparr>col_name = ''name'', data_type = VarcharT, is_nullable = True\<rparr>]\<rparr>
      = Ok [Integer (-7), Null, Varchar ''Al'']"
proof -
  let ?s = "\<lparr>columns = [\<lparr>col_name = ''id'', data_type = IntegerT, is_nullable = False\<rparr>,
        \<lparr>col_name = ''ok'', data_type = BooleanT, is_nullable = True\<rparr>,
        \<lparr>col_name = ''name'', data_type = VarcharT, is_nullable = True\<rparr>]\<rparr>"
  let ?v = "[Integer (-7), Null, Varchar ''Al'']"
  have "list_all2 value_fits (columns ?s) ?v"
    by (simp add: value_fits_def i32_range_def as_bytes_def of_char_def utf8_cont_def)
  moreover have "tuple_len ?s ?v = 12"
    by (simp add: tuple_len_def bitmap_size_def fixed_width_def)
  ultimately show ?thesis
    using tuple_round_trip [of ?s ?v] by simp
qed

subsection \<open>Errors\<close>

lemma write_columns_null:
  assumes "list_all2 (\<lambda>c v. value_fits c v) (map fst pre) (map snd pre)"
    and "\<not> is_nullable col"
  shows "write_columns i (pre @ (col, Null) # rest) bm fixed var = Err (NullNotAllowed (col_name col))"
  using assms(1)
proof (induction pre arbitrary: i bm fixed var)
  case Nil
  with assms(2) show ?case by simp
next
  case (Cons cv pre)
  obtain c v where cv: "cv = (c, v)" by fastforce
  with Cons.prems Cons.IH show ?case
    by (cases v) (simp_all add: Let_def value_fits_def)
qed

text \<open>
  C31: A row with the wrong number of values is refused with both counts; a row of the right length
  whose first unfitting value is a null in a non-nullable column is refused with that column's name.
\<close>

theorem from_values_errors:
  assumes "length (columns sch) = length vals \<longrightarrow>
    list_all2 value_fits (take k (columns sch)) (take k vals) \<and> k < length vals \<and>
    vals ! k = Null \<and> \<not> is_nullable (columns sch ! k)"
  shows "from_values sch vals = Err (if length (columns sch) = length vals
    then NullNotAllowed (col_name (columns sch ! k))
    else ColumnCountMismatch (length (columns sch)) (length vals))"
proof (cases "length (columns sch) = length vals")
  case True
  with assms have a: "list_all2 value_fits (take k (columns sch)) (take k vals)" "k < length vals"
    "vals ! k = Null" "\<not> is_nullable (columns sch ! k)" by simp_all
  let ?pre = "zip (take k (columns sch)) (take k vals)"
  have "zip (columns sch) vals = ?pre @ (columns sch ! k, Null) # drop (Suc k) (zip (columns sch) vals)"
    using a True id_take_nth_drop [of k "zip (columns sch) vals"] by (simp add: take_zip)
  moreover have "list_all2 value_fits (map fst ?pre) (map snd ?pre)"
    using a True by simp
  ultimately have "write_columns i (zip (columns sch) vals) bm f v = Err (NullNotAllowed (col_name (columns sch ! k)))"
    for i bm f v
    using write_columns_null [OF _ a(4)] by metis
  with True show ?thesis by (simp add: from_values_def column_count_def)
qed (simp add: from_values_def column_count_def)

theorem from_values_errors_witness:
  "from_values \<lparr>columns = [\<lparr>col_name = ''id'', data_type = IntegerT, is_nullable = False\<rparr>]\<rparr> [Null]
    = Err (NullNotAllowed ''id'')"
  using from_values_errors [of "\<lparr>columns = [\<lparr>col_name = ''id'', data_type = IntegerT, is_nullable = False\<rparr>]\<rparr>"
      "[Null]" 0]
  by simp

subsection \<open>Decoding arbitrary bytes\<close>

definition value_has_type :: "column \<Rightarrow> sql_value \<Rightarrow> bool" where
  "value_has_type col v = (case v of Null \<Rightarrow> True
     | Integer i \<Rightarrow> data_type col = IntegerT \<and> i32_range i
     | Boolean b \<Rightarrow> data_type col = BooleanT
     | Varchar s \<Rightarrow> data_type col = VarcharT \<and> valid_utf8 (as_bytes s))"

lemma value_has_type_simps [simp]:
  "value_has_type col Null"
  "value_has_type col (Integer i) \<longleftrightarrow> data_type col = IntegerT \<and> i32_range i"
  "value_has_type col (Boolean b) \<longleftrightarrow> data_type col = BooleanT"
  "value_has_type col (Varchar s) \<longleftrightarrow> data_type col = VarcharT \<and> valid_utf8 (as_bytes s)"
  by (simp_all add: value_has_type_def)

lemma as_bytes_of_bytes [simp]: "as_bytes (of_bytes bs) = bs"
proof -
  have "word_of_nat (of_char (char_of (unat b) :: char)) = b" for b :: u8
  proof (rule unsigned_word_eqI)
    have "unat b < 256" using unsigned_less [of b] by simp
    then show "unat (word_of_nat (of_char (char_of (unat b) :: char)) :: u8) = unat b"
      by (simp add: unat_of_nat)
  qed
  then show ?thesis by (simp add: as_bytes_def of_bytes_def comp_def)
qed

lemma read_columns_typed:
  "read_columns i cols bitmap data cursor = Ok vs \<Longrightarrow> list_all2 value_has_type cols vs"
proof (induction cols arbitrary: i cursor vs)
  case (Cons col cols)
  show ?case
    using Cons.prems
    by (auto simp: res_bind_eq_Ok Let_def i32_range_of_le length_peek
        split: if_splits data_type.splits dest!: Cons.IH)
qed simp

lemma read_columns_no_panic: "read_columns i cols bitmap data cursor \<noteq> Panic"
proof (induction cols arbitrary: i cursor)
  case (Cons col cols)
  then show ?case
    by (simp add: Let_def res_bind_eq_Panic split: data_type.split)
qed simp

text \<open>
  C30: Whatever the bytes, \<open>to_values\<close> does not panic, and a row it returns has one value per column,
  each a null or a value of the column's type (an integer in the \<open>i32\<close> range, a string of valid
  UTF-8).
\<close>

theorem to_values_typed:
  shows "to_values t sch \<noteq> Panic \<and>
    (\<forall>vs. to_values t sch = Ok vs \<longrightarrow> list_all2 value_has_type (columns sch) vs)"
  using read_columns_typed read_columns_no_panic by (auto simp: to_values_def)

theorem to_values_typed_witness:
  "list_all2 value_has_type [\<lparr>col_name = ''b'', data_type = BooleanT, is_nullable = True\<rparr>] [Boolean True] \<and>
   to_values [0, 9] \<lparr>columns = [\<lparr>col_name = ''b'', data_type = BooleanT, is_nullable = True\<rparr>]\<rparr> = Ok [Boolean True]"
proof -
  let ?s = "\<lparr>columns = [\<lparr>col_name = ''b'', data_type = BooleanT, is_nullable = True\<rparr>]\<rparr>"
  have "to_values [0, 9] ?s = Ok [Boolean True]"
    by (simp add: to_values_def bitmap_size_def bitmap_null_def)
  then show ?thesis using to_values_typed [of "[0, 9]" ?s] by simp
qed

subsection \<open>Strings of 64 KB\<close>

text \<open>
  C40: A varchar of 64 KB or more is accepted, but its length is stored as 0: the row written for
  it reads back as the empty string.
\<close>

theorem long_varchar_lost:
  assumes "65536 \<le> length s"
  shows "\<exists>t. from_values \<lparr>columns = [\<lparr>col_name = n, data_type = VarcharT, is_nullable = b\<rparr>]\<rparr> [Varchar s] = Ok t \<and>
    to_values t \<lparr>columns = [\<lparr>col_name = n, data_type = VarcharT, is_nullable = b\<rparr>]\<rparr> = Ok [Varchar []]"
proof -
  let ?s = "\<lparr>columns = [\<lparr>col_name = n, data_type = VarcharT, is_nullable = b\<rparr>]\<rparr>"
  have w: "to_le 2 0 = [0, 0]" "to_le 2 5 = [5, 0]"
    by (simp_all add: numeral_2_eq_2)
  have r: "of_le [5, 0] = 5" "of_le [0, 0] = 0"
    by simp_all
  have "from_values ?s [Varchar s] = Ok ([0, 5, 0, 0, 0] @ as_bytes s)"
    using assms by (simp add: from_values_def column_count_def bitmap_size_def u16_or_0_def Let_def
        w overwrite_def peek_def)
  moreover have "to_values ([0, 5, 0, 0, 0] @ as_bytes s) ?s = Ok [Varchar []]"
    by (simp add: to_values_def bitmap_size_def bitmap_null_def peek_def Let_def of_bytes_def r del: of_le.simps)
  ultimately show ?thesis by blast
qed

theorem long_varchar_lost_witness:
  "\<exists>t. from_values \<lparr>columns = [\<lparr>col_name = ''c'', data_type = VarcharT, is_nullable = False\<rparr>]\<rparr>
      [Varchar (replicate 65536 (CHR ''x''))] = Ok t \<and>
    to_values t \<lparr>columns = [\<lparr>col_name = ''c'', data_type = VarcharT, is_nullable = False\<rparr>]\<rparr> = Ok [Varchar []]"
  by (rule long_varchar_lost) simp

end
