(* ===== verification/Where_Clause.thy ===== *)
theory Where_Clause
  imports Tuple
begin

text \<open>
  The conditions of a statement (\<open>Operator\<close>, \<open>LogicOp\<close> and \<open>WhereCondition\<close> of
  \<open>crates/wackdb_sql/src/parser.rs\<close>) and their evaluation on a row
  (\<open>crates/wackdb_query/src/executor/predicate.rs\<close>). A clause is a flat list whose entries name
  the connective to the next one; it stands for a disjunction of conjunctions.
\<close>

datatype operator = Eq | Neq | Gt | Gte | Lt | Lte

datatype logic_op = And | Or

record where_condition =
  left_col :: string
  cond_op :: operator
  right_val :: string
  next_logic :: "logic_op option"

subsection \<open>Parsing scalars\<close>

text \<open>\<open>str::parse::<i32>\<close>: an optional sign and decimal digits, within range.\<close>

definition digit_value :: "char \<Rightarrow> nat option" where
  "digit_value c = (if 48 \<le> (of_char c :: nat) \<and> (of_char c :: nat) \<le> 57 then Some (of_char c - 48) else None)"

fun parse_digits :: "string \<Rightarrow> nat \<Rightarrow> nat option" where
  "parse_digits [] acc = Some acc"
| "parse_digits (c # cs) acc = (case digit_value c of None \<Rightarrow> None | Some d \<Rightarrow> parse_digits cs (10 * acc + d))"

definition parse_nat :: "string \<Rightarrow> nat option" where
  "parse_nat s = (if s = [] then None else parse_digits s 0)"

definition parse_i32 :: "string \<Rightarrow> int option" where
  "parse_i32 s = Option.bind
     (case s of
        CHR ''-'' # cs \<Rightarrow> map_option (\<lambda>n. - int n) (parse_nat cs)
      | CHR ''+'' # cs \<Rightarrow> map_option int (parse_nat cs)
      | _ \<Rightarrow> map_option int (parse_nat s))
     (\<lambda>i. if i32_range i then Some i else None)"

text \<open>\<open>str::parse::<bool>\<close>\<close>

definition parse_bool :: "string \<Rightarrow> bool option" where
  "parse_bool s = (if s = ''true'' then Some True else if s = ''false'' then Some False else None)"

subsection \<open>Conditions\<close>

definition evaluate_int_cond :: "int \<Rightarrow> string \<Rightarrow> operator \<Rightarrow> bool" where
  "evaluate_int_cond v r_val op = (case parse_i32 r_val of None \<Rightarrow> False
     | Some rv \<Rightarrow> (case op of Eq \<Rightarrow> v = rv | Neq \<Rightarrow> v \<noteq> rv | Gt \<Rightarrow> rv < v | Gte \<Rightarrow> rv \<le> v
                    | Lt \<Rightarrow> v < rv | Lte \<Rightarrow> v \<le> rv))"

definition evaluate_bool_cond :: "bool \<Rightarrow> string \<Rightarrow> operator \<Rightarrow> bool" where
  "evaluate_bool_cond v r_val op = (case parse_bool r_val of None \<Rightarrow> False
     | Some rv \<Rightarrow> (case op of Eq \<Rightarrow> v = rv | Neq \<Rightarrow> v \<noteq> rv | _ \<Rightarrow> False))"

definition evaluate_str_cond :: "string \<Rightarrow> string \<Rightarrow> operator \<Rightarrow> bool" where
  "evaluate_str_cond v r_val op = (case op of Eq \<Rightarrow> v = r_val | Neq \<Rightarrow> v \<noteq> r_val | Gt \<Rightarrow> r_val < v
     | Gte \<Rightarrow> r_val \<le> v | Lt \<Rightarrow> v < r_val | Lte \<Rightarrow> v \<le> r_val)"

definition evaluate_cond :: "where_condition \<Rightarrow> sql_value \<Rightarrow> bool" where
  "evaluate_cond cond val = (case val of
       Null \<Rightarrow> False
     | Integer v \<Rightarrow> evaluate_int_cond v (right_val cond) (cond_op cond)
     | Boolean v \<Rightarrow> evaluate_bool_cond v (right_val cond) (cond_op cond)
     | Varchar v \<Rightarrow> evaluate_str_cond v (right_val cond) (cond_op cond))"

definition col_position :: "string \<Rightarrow> schema \<Rightarrow> nat option" where
  "col_position name schema = position (\<lambda>c. col_name c = name) (columns schema)"

text \<open>A condition on an unknown column is skipped together with its connective.\<close>

fun where_loop :: "schema \<Rightarrow> sql_value list \<Rightarrow> where_condition list \<Rightarrow> bool \<Rightarrow> bool \<Rightarrow> ('e, bool) res" where
  "where_loop schema vals [] final_result current_and_group = Ok final_result"
| "where_loop schema vals (cond # conds) final_result current_and_group =
     (case col_position (left_col cond) schema of
        None \<Rightarrow> where_loop schema vals conds final_result current_and_group
      | Some col_idx \<Rightarrow> res_bind (index col_idx vals) (\<lambda>val.
          let current_and_group = (current_and_group \<and> evaluate_cond cond val) in
          if next_logic cond = Some Or
          then where_loop schema vals conds (final_result \<or> current_and_group) True
          else if conds = []
          then where_loop schema vals conds (final_result \<or> current_and_group) current_and_group
          else where_loop schema vals conds final_result current_and_group))"

definition evaluate_where_clause :: "where_condition list \<Rightarrow> schema \<Rightarrow> sql_value list \<Rightarrow> ('e, bool) res" where
  "evaluate_where_clause where_clause schema vals =
     (if where_clause = [] then Ok True else where_loop schema vals where_clause False True)"

subsection \<open>What a clause means\<close>

text \<open>The value a condition looks at, and whether the row satisfies it.\<close>

definition cond_holds :: "schema \<Rightarrow> sql_value list \<Rightarrow> where_condition \<Rightarrow> bool" where
  "cond_holds schema vals cond = (case col_position (left_col cond) schema of
     None \<Rightarrow> False | Some i \<Rightarrow> i < length vals \<and> evaluate_cond cond (vals ! i))"

text \<open>The conjunctions of a clause: \<open>OR\<close> separates, everything else joins.\<close>

fun and_groups :: "where_condition list \<Rightarrow> where_condition list list" where
  "and_groups [] = []"
| "and_groups (c # cs) = (if next_logic c = Some Or \<or> cs = [] then [c] # and_groups cs
     else (case and_groups cs of [] \<Rightarrow> [[c]] | g # gs \<Rightarrow> (c # g) # gs))"

definition where_holds :: "schema \<Rightarrow> where_condition list \<Rightarrow> sql_value list \<Rightarrow> bool" where
  "where_holds schema cs vals \<longleftrightarrow> cs = [] \<or> (\<exists>g \<in> set (and_groups cs). \<forall>c \<in> set g. cond_holds schema vals c)"

definition known_cols :: "schema \<Rightarrow> where_condition list \<Rightarrow> bool" where
  "known_cols schema cs \<longleftrightarrow> (\<forall>c \<in> set cs. col_position (left_col c) schema \<noteq> None)"

lemma col_position_bound: "col_position name schema = Some i \<Longrightarrow> i < length (columns schema)"
  by (simp add: col_position_def position_Some)

lemma and_groups_nonempty: "cs \<noteq> [] \<Longrightarrow> and_groups cs \<noteq> []"
  by (cases cs) (auto split: list.split)

lemma where_loop_groups:
  assumes "known_cols schema cs" and "length (columns schema) \<le> length vals" and "cs \<noteq> []"
  shows "where_loop schema vals cs fin grp = Ok (fin \<or>
    (case and_groups cs of [] \<Rightarrow> False
     | g # gs \<Rightarrow> grp \<and> (\<forall>c \<in> set g. cond_holds schema vals c) \<or> (\<exists>g \<in> set gs. \<forall>c \<in> set g. cond_holds schema vals c)))"
  using assms
proof (induction cs arbitrary: fin grp)
  case (Cons c cs)
  obtain i where i: "col_position (left_col c) schema = Some i" using Cons.prems(1) by (auto simp: known_cols_def)
  have il: "i < length vals" using col_position_bound [OF i] Cons.prems(2) by simp
  have k: "known_cols schema cs" using Cons.prems(1) by (simp add: known_cols_def)
  have ch: "cond_holds schema vals c \<longleftrightarrow> evaluate_cond c (vals ! i)" using i il by (simp add: cond_holds_def)
  show ?case
  proof (cases "cs = []")
    case True
    then show ?thesis using i il ch by (auto simp: Let_def)
  next
    case False
    note IH = Cons.IH [OF k Cons.prems(2) False]
    obtain g gs where g: "and_groups cs = g # gs" using and_groups_nonempty [OF False] by (cases "and_groups cs") auto
    show ?thesis using False i il ch IH g by (auto simp: Let_def)
  qed
qed simp

lemma evaluate_where_known:
  assumes "known_cols schema cs" and "length (columns schema) \<le> length vals"
  shows "evaluate_where_clause cs schema vals = Ok (where_holds schema cs vals)"
proof (cases "cs = []")
  case True
  then show ?thesis by (simp add: evaluate_where_clause_def where_holds_def)
next
  case False
  then obtain g gs where "and_groups cs = g # gs" using and_groups_nonempty [OF False] by (cases "and_groups cs") auto
  then show ?thesis using where_loop_groups [OF assms False, of False True] False
    by (simp add: evaluate_where_clause_def where_holds_def)
qed

lemma and_groups_no_or: "\<forall>c \<in> set cs. next_logic c \<noteq> Some Or \<Longrightarrow> cs \<noteq> [] \<Longrightarrow> and_groups cs = [cs]"
proof (induction cs)
  case (Cons c cs)
  then show ?case by (cases "cs = []") simp_all
qed simp

lemma where_holds_no_or:
  "\<forall>c \<in> set cs. next_logic c \<noteq> Some Or \<Longrightarrow> where_holds schema cs vals \<longleftrightarrow> (\<forall>c \<in> set cs. cond_holds schema vals c)"
  by (cases "cs = []") (auto simp: where_holds_def and_groups_no_or)

text \<open>
  C25: When every column of a clause is known, evaluating it on a row decides the disjunction of the
  conjunctions between its \<open>OR\<close>s; no row makes it panic.
\<close>

theorem where_clause_dnf:
  assumes "known_cols schema cs" and "length vals = column_count schema"
  shows "evaluate_where_clause cs schema vals = Ok (cs = [] \<or>
    (\<exists>g \<in> set (and_groups cs). \<forall>c \<in> set g. cond_holds schema vals c))"
  using assms(2) by (simp add: evaluate_where_known [OF assms(1)] where_holds_def column_count_def)

definition cond_of :: "string \<Rightarrow> operator \<Rightarrow> string \<Rightarrow> logic_op option \<Rightarrow> where_condition" where
  "cond_of col op val next_op = \<lparr>left_col = col, cond_op = op, right_val = val, next_logic = next_op\<rparr>"

definition ab_schema :: schema where
  "ab_schema = \<lparr>columns = [\<lparr>col_name = ''a'', data_type = IntegerT, is_nullable = False\<rparr>,
     \<lparr>col_name = ''b'', data_type = VarcharT, is_nullable = False\<rparr>]\<rparr>"

theorem where_clause_dnf_witness:
  "evaluate_where_clause [cond_of ''a'' Eq ''7'' (Some And), cond_of ''b'' Lt ''m'' (Some Or), cond_of ''a'' Gt ''-1'' None]
     ab_schema [Integer 7, Varchar ''x''] = (Ok True :: (nat, bool) res)"
proof -
  let ?cs = "[cond_of ''a'' Eq ''7'' (Some And), cond_of ''b'' Lt ''m'' (Some Or), cond_of ''a'' Gt ''-1'' None]"
  have "known_cols ab_schema ?cs" by (simp add: known_cols_def col_position_def cond_of_def ab_schema_def)
  moreover have "length [Integer 7, Varchar ''x''] = column_count ab_schema"
    by (simp add: column_count_def ab_schema_def)
  moreover have "\<exists>g \<in> set (and_groups ?cs). \<forall>c \<in> set g. cond_holds ab_schema [Integer 7, Varchar ''x''] c"
    by code_simp
  ultimately show ?thesis by (simp only: where_clause_dnf) simp
qed

text \<open>
  C34: A condition on an unknown column is skipped with its connective: the clause
  \<open>a = x AND nosuch = y OR b = z\<close> is evaluated as \<open>a = x AND b = z\<close>.
\<close>

theorem unknown_column_swallows_or:
  assumes "col_position a schema = Some i" and "col_position b schema = Some j"
    and "col_position nosuch schema = None" and "length vals = column_count schema"
  shows "evaluate_where_clause [cond_of a Eq x (Some And), cond_of nosuch Eq y (Some Or), cond_of b Eq z None] schema vals =
    evaluate_where_clause [cond_of a Eq x (Some And), cond_of b Eq z None] schema vals"
  using assms by (simp add: evaluate_where_clause_def cond_of_def)

theorem unknown_column_swallows_or_witness:
  "evaluate_where_clause [cond_of ''a'' Eq ''1'' (Some And), cond_of ''c'' Eq ''2'' (Some Or), cond_of ''b'' Eq ''x'' None]
     ab_schema [Integer 7, Varchar ''x''] = (Ok False :: (nat, bool) res)"
proof -
  have p: "col_position ''a'' ab_schema = Some 0" "col_position ''b'' ab_schema = Some 1" "col_position ''c'' ab_schema = None"
    by (simp_all add: col_position_def ab_schema_def)
  have l: "length [Integer 7, Varchar ''x''] = column_count ab_schema" by (simp add: column_count_def ab_schema_def)
  have "evaluate_where_clause [cond_of ''a'' Eq ''1'' (Some And), cond_of ''b'' Eq ''x'' None]
      ab_schema [Integer 7, Varchar ''x''] = (Ok False :: (nat, bool) res)" by code_simp
  then show ?thesis unfolding unknown_column_swallows_or [OF p l] .
qed

end
