(* ===== verification/Sql.thy ===== *)
theory Sql
  imports Where_Clause
begin

text \<open>The statements of the SQL dialect (\<open>crates/wackdb_sql/src/parser.rs\<close>), as the parser hands them to the commands.\<close>

record column_def =
  cd_name :: string
  cd_type :: string

record join_clause =
  jc_table :: string
  jc_alias :: "string option"
  jc_left_col :: string
  jc_right_col :: string

datatype ast =
    SelectStmt "string list" string "string option" "join_clause list" "where_condition list" "string option"
  | InsertStmt string "string list"
  | CreateTableStmt string "column_def list" bool
  | DropTableStmt string bool
  | DeleteStmt string "where_condition list"

end
