(* ===== verification/Catalog.thy ===== *)
theory Catalog
  imports Tuple
begin

text \<open>
  The catalog (\<open>crates/wackdb_catalog\<close>): a map from table names to their metadata, kept in memory
  and written to \<open>catalog.json\<close> after every change by way of a temporary file that is renamed.

  \<open>serde_json\<close> is not part of the repository: \<open>to_json\<close> and \<open>from_json\<close> are parameters. So is how
  much of the text the \<open>BufWriter\<close> has passed on while serialising (\<open>early\<close>: it keeps up to 8 KB);
  the rest goes out when the writer is dropped, and a failure there is not reported. However often the
  buffer fills up, what it passes on early is one write of the model. \<open>catalog.json\<close>
  and the temporary file are two optional byte strings; system calls consume one fault each.
  A \<open>HashMap\<close> is a HOL map; \<open>list_tables\<close> has no order, so its result is a set.
\<close>

datatype catalog_error =
    CatalogIo
  | CatalogSerde
  | TableExists string
  | TableNotFound string

record table_metadata =
  tm_name :: string
  heap_relation_id :: u32
  index_relation_id :: u32
  root_page_num :: "u32 option"
  tm_schema :: schema
  num_records :: nat

record catalog_data =
  next_relation_id :: u32
  tables :: "string \<Rightarrow> table_metadata option"

record serde =
  to_json :: "catalog_data \<Rightarrow> bytes"
  from_json :: "bytes \<Rightarrow> catalog_data option"
  early :: "bytes \<Rightarrow> nat"

record catalog =
  ca_data :: catalog_data
  ca_json :: "bytes option"
  ca_tmp :: "bytes option"
  ca_faults :: faults

definition default_data :: catalog_data where
  "default_data = \<lparr>next_relation_id = 0, tables = (\<lambda>_. None)\<rparr>"

subsection \<open>Writing the file\<close>

definition cat_call :: "catalog \<Rightarrow> bool \<times> catalog" where
  "cat_call c = (case next_call (ca_faults c) of
       (None, flt) \<Rightarrow> (True, c\<lparr>ca_faults := flt\<rparr>)
     | (Some _, flt) \<Rightarrow> (False, c\<lparr>ca_faults := flt\<rparr>))"

text \<open>Writing to the temporary file; a failed write leaves a prefix.\<close>

definition tmp_write :: "bytes \<Rightarrow> catalog \<Rightarrow> bool \<times> catalog" where
  "tmp_write bs c =
     (if bs = [] then (True, c)
      else case next_call (ca_faults c) of
          (None, flt) \<Rightarrow> (True, c\<lparr>ca_tmp := map_option (\<lambda>t. t @ bs) (ca_tmp c), ca_faults := flt\<rparr>)
        | (Some n, flt) \<Rightarrow> (False, c\<lparr>ca_tmp := map_option (\<lambda>t. t @ take n bs) (ca_tmp c), ca_faults := flt\<rparr>))"

definition flush_catalog :: "serde \<Rightarrow> catalog \<Rightarrow> (catalog_error, unit) res \<times> catalog" where
  "flush_catalog J c =
     (let content = to_json J (ca_data c); k = early J content in
      case cat_call c of
        (False, c) \<Rightarrow> (Err CatalogIo, c)
      | (True, c) \<Rightarrow>
          (case tmp_write (take k content) (c\<lparr>ca_tmp := Some []\<rparr>) of
             (False, c) \<Rightarrow> (Err CatalogSerde, c)
           | (True, c) \<Rightarrow>
               (case tmp_write (drop k content) c of (_, c) \<Rightarrow>
                 (case cat_call c of
                    (False, c) \<Rightarrow> (Err CatalogIo, c)
                  | (True, c) \<Rightarrow> (Ok (), c\<lparr>ca_json := ca_tmp c, ca_tmp := None\<rparr>)))))"

definition open_catalog :: "serde \<Rightarrow> bytes option \<Rightarrow> bytes option \<Rightarrow> faults \<Rightarrow> (catalog_error, unit) res \<times> catalog" where
  "open_catalog J json tmp flt =
     (let c = \<lparr>ca_data = default_data, ca_json = json, ca_tmp = tmp, ca_faults = flt\<rparr> in
      case json of
        None \<Rightarrow> flush_catalog J c
      | Some bs \<Rightarrow>
          (case cat_call c of
             (False, c) \<Rightarrow> (Err CatalogIo, c)
           | (True, c) \<Rightarrow>
               (case cat_call c of
                  (False, c) \<Rightarrow> (Err CatalogSerde, c)
                | (True, c) \<Rightarrow>
                    (case from_json J bs of
                       None \<Rightarrow> (Err CatalogSerde, c)
                     | Some data \<Rightarrow> (Ok (), c\<lparr>ca_data := data\<rparr>)))))"

subsection \<open>Operations\<close>

definition set_tables :: "(string \<Rightarrow> table_metadata option) \<Rightarrow> catalog \<Rightarrow> catalog" where
  "set_tables ts c = c\<lparr>ca_data := (ca_data c)\<lparr>tables := ts\<rparr>\<rparr>"

definition create_table_with_schema :: "serde \<Rightarrow> string \<Rightarrow> schema \<Rightarrow> catalog \<Rightarrow>
    (catalog_error, table_metadata) res \<times> catalog" where
  "create_table_with_schema J name schema c =
     (if tables (ca_data c) name \<noteq> None then (Err (TableExists name), c)
      else let heap_id = next_relation_id (ca_data c); index_id = heap_id + 1;
               meta = \<lparr>tm_name = name, heap_relation_id = heap_id, index_relation_id = index_id,
                 root_page_num = None, tm_schema = schema, num_records = 0\<rparr>;
               c = c\<lparr>ca_data := \<lparr>next_relation_id = index_id + 1, tables = (tables (ca_data c))(name \<mapsto> meta)\<rparr>\<rparr>
        in and_then (flush_catalog J c) (\<lambda>_ c. (ok_or (tables (ca_data c) name) (TableNotFound name), c)))"

definition create_table :: "serde \<Rightarrow> string \<Rightarrow> catalog \<Rightarrow> (catalog_error, table_metadata) res \<times> catalog" where
  "create_table J name = create_table_with_schema J name \<lparr>columns = []\<rparr>"

definition get_table :: "string \<Rightarrow> catalog \<Rightarrow> (catalog_error, table_metadata) res" where
  "get_table name c = ok_or (tables (ca_data c) name) (TableNotFound name)"

definition get_schema :: "string \<Rightarrow> catalog \<Rightarrow> (catalog_error, schema) res" where
  "get_schema name c = res_bind (get_table name c) (\<lambda>meta. Ok (tm_schema meta))"

definition update_root_page :: "serde \<Rightarrow> string \<Rightarrow> u32 option \<Rightarrow> catalog \<Rightarrow> (catalog_error, unit) res \<times> catalog" where
  "update_root_page J name r c = (case tables (ca_data c) name of
       Some meta \<Rightarrow> flush_catalog J (set_tables ((tables (ca_data c))(name \<mapsto> meta\<lparr>root_page_num := r\<rparr>)) c)
     | None \<Rightarrow> (Err (TableNotFound name), c))"

text \<open>Saturating arithmetic on a 64-bit \<open>usize\<close>.\<close>

definition saturating_add_i32 :: "nat \<Rightarrow> int \<Rightarrow> nat" where
  "saturating_add_i32 n delta =
     (if 0 < delta then min (n + nat delta) (2 ^ 64 - 1) else if delta < 0 then n - nat (- delta) else n)"

definition update_num_records :: "serde \<Rightarrow> string \<Rightarrow> int \<Rightarrow> catalog \<Rightarrow> (catalog_error, unit) res \<times> catalog" where
  "update_num_records J name delta c = (case tables (ca_data c) name of
       Some meta \<Rightarrow> flush_catalog J (set_tables ((tables (ca_data c))(name \<mapsto>
           meta\<lparr>num_records := saturating_add_i32 (num_records meta) delta\<rparr>)) c)
     | None \<Rightarrow> (Err (TableNotFound name), c))"

definition drop_table :: "serde \<Rightarrow> string \<Rightarrow> catalog \<Rightarrow> (catalog_error, table_metadata) res \<times> catalog" where
  "drop_table J name c = (case tables (ca_data c) name of
       Some meta \<Rightarrow> and_then (flush_catalog J (set_tables ((tables (ca_data c))(name := None)) c)) (\<lambda>_ c. (Ok meta, c))
     | None \<Rightarrow> (Err (TableNotFound name), c))"

definition list_tables :: "catalog \<Rightarrow> table_metadata set" where
  "list_tables c = ran (tables (ca_data c))"

subsection \<open>Flushing\<close>

text \<open>A flush changes no data. It ends with the old file, the new text, or a prefix of the new text.\<close>

lemma tmp_write_data:
  assumes "tmp_write bs c = (ok, c')"
  shows "ca_data c' = ca_data c \<and> ca_json c' = ca_json c"
  using assms by (auto simp: tmp_write_def split: if_splits prod.splits option.splits)

lemma cat_call_data:
  assumes "cat_call c = (ok, c')"
  shows "ca_data c' = ca_data c \<and> ca_json c' = ca_json c \<and> ca_tmp c' = ca_tmp c"
  using assms by (auto simp: cat_call_def split: prod.splits option.splits)

lemma flush_data: "flush_catalog J c = (r, c') \<Longrightarrow> ca_data c' = ca_data c"
  unfolding flush_catalog_def Let_def
  by (auto split: prod.splits bool.splits dest!: tmp_write_data cat_call_data)

lemma flush_not_panic: "flush_catalog J c = (r, c') \<Longrightarrow> r \<noteq> Panic"
  unfolding flush_catalog_def Let_def by (auto split: prod.splits bool.splits)

definition no_faults :: "catalog \<Rightarrow> bool" where
  "no_faults c \<longleftrightarrow> set (ca_faults c) \<subseteq> {None}"

lemma next_call_no_fault: "set flt \<subseteq> {None} \<Longrightarrow> \<exists>flt'. next_call flt = (None, flt') \<and> set flt' \<subseteq> {None}"
  by (cases flt) auto

lemma cat_call_ok: "no_faults c \<Longrightarrow> \<exists>flt. cat_call c = (True, c\<lparr>ca_faults := flt\<rparr>) \<and> set flt \<subseteq> {None}"
  using next_call_no_fault [of "ca_faults c"] by (auto simp: cat_call_def no_faults_def)

lemma tmp_write_ok:
  assumes "no_faults c" and "ca_tmp c = Some t"
  shows "\<exists>flt. tmp_write bs c = (True, c\<lparr>ca_tmp := Some (t @ bs), ca_faults := flt\<rparr>) \<and> set flt \<subseteq> {None}"
proof (cases "bs = []")
  case True
  then show ?thesis using assms by (intro exI [of _ "ca_faults c"]) (simp add: tmp_write_def no_faults_def)
next
  case False
  then show ?thesis using assms next_call_no_fault [of "ca_faults c"] by (auto simp: tmp_write_def no_faults_def)
qed

lemma flush_ok:
  assumes "no_faults c"
  shows "\<exists>c'. flush_catalog J c = (Ok (), c') \<and> ca_data c' = ca_data c \<and> no_faults c' \<and>
    ca_json c' = Some (to_json J (ca_data c))"
proof -
  let ?b = "to_json J (ca_data c)" and ?k = "early J (to_json J (ca_data c))"
  obtain f1 where 1: "cat_call c = (True, c\<lparr>ca_faults := f1\<rparr>)" "set f1 \<subseteq> {None}" using cat_call_ok [OF assms] by blast
  let ?c1 = "c\<lparr>ca_faults := f1, ca_tmp := Some []\<rparr>"
  obtain f2 where 2: "tmp_write (take ?k ?b) ?c1 = (True, ?c1\<lparr>ca_tmp := Some ([] @ take ?k ?b), ca_faults := f2\<rparr>)"
    "set f2 \<subseteq> {None}" using tmp_write_ok [of ?c1 "[]" "take ?k ?b"] 1(2) by (auto simp: no_faults_def)
  let ?c2 = "?c1\<lparr>ca_tmp := Some ([] @ take ?k ?b), ca_faults := f2\<rparr>"
  obtain f3 where 3: "tmp_write (drop ?k ?b) ?c2 = (True, ?c2\<lparr>ca_tmp := Some (take ?k ?b @ drop ?k ?b), ca_faults := f3\<rparr>)"
    "set f3 \<subseteq> {None}" using tmp_write_ok [of ?c2 "take ?k ?b" "drop ?k ?b"] 2(2) by (auto simp: no_faults_def)
  let ?c3 = "?c2\<lparr>ca_tmp := Some (take ?k ?b @ drop ?k ?b), ca_faults := f3\<rparr>"
  obtain f4 where 4: "cat_call ?c3 = (True, ?c3\<lparr>ca_faults := f4\<rparr>)" "set f4 \<subseteq> {None}"
    using cat_call_ok [of ?c3] 3(2) by (auto simp: no_faults_def)
  have "flush_catalog J c = (Ok (), ?c3\<lparr>ca_faults := f4, ca_json := Some ?b, ca_tmp := None\<rparr>)"
    using 1(1) 2(1) 3(1) 4(1) by (simp add: flush_catalog_def Let_def)
  with 4(2) show ?thesis by (intro exI conjI) (assumption, simp_all add: no_faults_def)
qed

subsection \<open>The invariant\<close>

text \<open>Every table is stored under its name, and no file id serves two purposes or is yet to be given out.\<close>

definition meta_ids :: "table_metadata \<Rightarrow> u32 set" where
  "meta_ids t = {heap_relation_id t, index_relation_id t}"

definition catalog_inv :: "catalog_data \<Rightarrow> bool" where
  "catalog_inv d \<longleftrightarrow>
     (\<forall>n t. tables d n = Some t \<longrightarrow> tm_name t = n \<and> heap_relation_id t \<noteq> index_relation_id t \<and>
        (\<forall>i \<in> meta_ids t. i < next_relation_id d)) \<and>
     (\<forall>n n' t t'. tables d n = Some t \<longrightarrow> tables d n' = Some t' \<longrightarrow> n \<noteq> n' \<longrightarrow> meta_ids t \<inter> meta_ids t' = {})"

lemma catalog_inv_subset:
  assumes "catalog_inv d" and "\<And>n t'. ts n = Some t' \<Longrightarrow> \<exists>t. tables d n = Some t \<and> tm_name t' = tm_name t \<and>
      heap_relation_id t' = heap_relation_id t \<and> index_relation_id t' = index_relation_id t"
  shows "catalog_inv (d\<lparr>tables := ts\<rparr>)"
  unfolding catalog_inv_def
proof (intro conjI allI impI)
  fix n t' assume "tables (d\<lparr>tables := ts\<rparr>) n = Some t'"
  with assms(2) obtain t where "tables d n = Some t" "tm_name t' = tm_name t"
      "heap_relation_id t' = heap_relation_id t" "index_relation_id t' = index_relation_id t" by fastforce
  with assms(1) show "tm_name t' = n" "heap_relation_id t' \<noteq> index_relation_id t'"
    "\<forall>i \<in> meta_ids t'. i < next_relation_id (d\<lparr>tables := ts\<rparr>)"
    by (auto simp: catalog_inv_def meta_ids_def)
next
  fix n n' t t' assume t: "tables (d\<lparr>tables := ts\<rparr>) n = Some t" "tables (d\<lparr>tables := ts\<rparr>) n' = Some t'" "n \<noteq> n'"
  from assms(2) t obtain u where u: "tables d n = Some u" "meta_ids t = meta_ids u" by (fastforce simp: meta_ids_def)
  from assms(2) t obtain u' where u': "tables d n' = Some u'" "meta_ids t' = meta_ids u'" by (fastforce simp: meta_ids_def)
  from assms(1) u u' t(3) show "meta_ids t \<inter> meta_ids t' = {}" by (auto simp: catalog_inv_def)
qed

lemma create_catalog_inv:
  assumes inv: "catalog_inv d" and room: "unat (next_relation_id d) + 2 < 2 ^ 32"
    and t: "tm_name t = name" "heap_relation_id t = next_relation_id d" "index_relation_id t = next_relation_id d + 1"
  shows "catalog_inv \<lparr>next_relation_id = next_relation_id d + 1 + 1, tables = (tables d)(name \<mapsto> t)\<rparr>"
    and "tables d n = Some t' \<Longrightarrow> meta_ids t \<inter> meta_ids t' = {}"
proof -
  let ?i = "next_relation_id d"
  have u: "unat (?i + 1) = unat ?i + 1" using room by (simp add: unat_word_ariths)
  have u2: "unat (2 + ?i) = unat ?i + 2" using room by (simp add: unat_word_ariths)
  have lt: "?i < ?i + 1" "?i + 1 < ?i + 1 + 1" "?i < ?i + 1 + 1" using u u2 by (simp_all add: word_less_nat_alt)
  have old: "j < ?i" if "tables d n = Some t'" "j \<in> meta_ids t'" for n t' j
    using inv that unfolding catalog_inv_def by blast
  have fresh: "meta_ids t \<inter> meta_ids t' = {}" if "tables d n = Some t'" for n t'
    using old [OF that] lt(1) by (fastforce simp: meta_ids_def t)
  then show "tables d n = Some t' \<Longrightarrow> meta_ids t \<inter> meta_ids t' = {}" .
  show "catalog_inv \<lparr>next_relation_id = ?i + 1 + 1, tables = (tables d)(name \<mapsto> t)\<rparr>"
    unfolding catalog_inv_def
  proof (intro conjI allI impI)
    fix n t' assume n: "tables \<lparr>next_relation_id = ?i + 1 + 1, tables = (tables d)(name \<mapsto> t)\<rparr> n = Some t'"
    show "tm_name t' = n" "heap_relation_id t' \<noteq> index_relation_id t'"
      using n inv lt(1) t by (auto simp: catalog_inv_def split: if_splits)
    have "i < ?i + 1 + 1" if "i \<in> meta_ids t'" for i
    proof (cases "n = name")
      case True
      then show ?thesis using n that t lt by (auto simp: meta_ids_def)
    next
      case False
      with n have "i < ?i" using old that by simp
      with lt(3) show ?thesis by simp
    qed
    then show "\<forall>i \<in> meta_ids t'. i < next_relation_id \<lparr>next_relation_id = ?i + 1 + 1, tables = (tables d)(name \<mapsto> t)\<rparr>"
      by simp
  next
    fix n n' u u' assume a: "tables \<lparr>next_relation_id = ?i + 1 + 1, tables = (tables d)(name \<mapsto> t)\<rparr> n = Some u"
      "tables \<lparr>next_relation_id = ?i + 1 + 1, tables = (tables d)(name \<mapsto> t)\<rparr> n' = Some u'" "n \<noteq> n'"
    have both: "meta_ids v \<inter> meta_ids v' = {}" if "tables d m = Some v" "tables d m' = Some v'" "m \<noteq> m'" for m m' v v'
      using inv that unfolding catalog_inv_def by blast
    show "meta_ids u \<inter> meta_ids u' = {}"
      using a fresh both by (auto split: if_splits)
  qed
qed

subsection \<open>Sequences of operations\<close>

datatype catalog_op =
    CreateTableOp string schema
  | UpdateRootOp string "u32 option"
  | UpdateNumOp string int
  | DropTableOp string

definition run_op :: "serde \<Rightarrow> catalog_op \<Rightarrow> catalog \<Rightarrow> catalog" where
  "run_op J op c = (case op of
       CreateTableOp n s \<Rightarrow> snd (create_table_with_schema J n s c)
     | UpdateRootOp n r \<Rightarrow> snd (update_root_page J n r c)
     | UpdateNumOp n i \<Rightarrow> snd (update_num_records J n i c)
     | DropTableOp n \<Rightarrow> snd (drop_table J n c))"

definition on_disk :: "serde \<Rightarrow> catalog \<Rightarrow> bool" where
  "on_disk J c \<longleftrightarrow> no_faults c \<and> ca_json c = Some (to_json J (ca_data c))"

lemma flush_on_disk: "no_faults c \<Longrightarrow> flush_catalog J c = (r, c') \<Longrightarrow> on_disk J c'"
  using flush_ok [of c J] by (auto simp: on_disk_def)

lemma set_tables_faults: "no_faults (set_tables ts c) = no_faults c"
  by (simp add: no_faults_def set_tables_def)

lemma run_op_on_disk:
  assumes "on_disk J c"
  shows "on_disk J (run_op J op c)"
proof -
  have n: "no_faults c" using assms by (simp add: on_disk_def)
  have f: "on_disk J (snd (and_then (flush_catalog J c1) (\<lambda>x s. (k x s, s))))" if "no_faults c1" for c1 and k :: "unit \<Rightarrow> catalog \<Rightarrow> (catalog_error, 'a) res"
    using flush_ok [OF that, of J] by (auto simp: on_disk_def)
  have s: "on_disk J (snd (flush_catalog J c1))" if "no_faults c1" for c1
    using flush_ok [OF that, of J] by (auto simp: on_disk_def)
  show ?thesis
  proof (cases op)
    case (CreateTableOp nm sch)
    then show ?thesis using assms n f [of _ "\<lambda>_ c. ok_or (tables (ca_data c) nm) (TableNotFound nm)"]
      by (simp add: run_op_def create_table_with_schema_def Let_def no_faults_def)
  next
    case (DropTableOp nm)
    show ?thesis
    proof (cases "tables (ca_data c) nm")
      case (Some t)
      then show ?thesis using DropTableOp n f [of _ "\<lambda>_ _. Ok t"] by (simp add: run_op_def drop_table_def set_tables_faults)
    qed (use DropTableOp assms in \<open>simp add: run_op_def drop_table_def\<close>)
  qed (use assms n s in \<open>simp_all add: run_op_def update_root_page_def update_num_records_def set_tables_faults split: option.split\<close>)
qed

subsection \<open>Properties\<close>

text \<open>
  C18: Creating a table whose name is not taken gives it two file ids that no other table has, and
  keeps the invariant of the catalog, also when writing the file fails: then an error is returned
  and the table is in memory all the same.
\<close>

theorem create_table_fresh:
  assumes inv: "catalog_inv (ca_data c)" and new: "tables (ca_data c) name = None"
    and room: "unat (next_relation_id (ca_data c)) + 2 < 2 ^ 32"
  shows "\<exists>t c' r. create_table_with_schema J name sch c = (r, c') \<and> (r = Ok t \<or> (\<exists>e. r = Err e)) \<and>
    (no_faults c \<longrightarrow> r = Ok t) \<and> tables (ca_data c') = (tables (ca_data c))(name \<mapsto> t) \<and>
    tm_schema t = sch \<and> root_page_num t = None \<and> num_records t = 0 \<and> catalog_inv (ca_data c') \<and>
    (\<forall>n t'. tables (ca_data c) n = Some t' \<longrightarrow> meta_ids t \<inter> meta_ids t' = {})"
proof -
  let ?i = "next_relation_id (ca_data c)"
  let ?t = "\<lparr>tm_name = name, heap_relation_id = ?i, index_relation_id = ?i + 1, root_page_num = None,
    tm_schema = sch, num_records = 0\<rparr>"
  let ?d = "\<lparr>next_relation_id = ?i + 1 + 1, tables = (tables (ca_data c))(name \<mapsto> ?t)\<rparr>"
  obtain r c1 where f: "flush_catalog J (c\<lparr>ca_data := ?d\<rparr>) = (r, c1)" by fastforce
  have d: "ca_data c1 = ?d" using flush_data [OF f] by simp
  have np: "r \<noteq> Panic" by (rule flush_not_panic [OF f])
  have ok: "r = Ok ()" if "no_faults c" using flush_ok [of "c\<lparr>ca_data := ?d\<rparr>" J] f that by (auto simp: no_faults_def)
  note i = create_catalog_inv [OF inv room, of ?t name]
  have run: "create_table_with_schema J name sch c =
      and_then (r, c1) (\<lambda>_ c. (ok_or (tables (ca_data c) name) (TableNotFound name), c))"
    using new f by (simp add: create_table_with_schema_def Let_def)
  have "create_table_with_schema J name sch c = (res_bind r (\<lambda>_. Ok ?t), c1)"
    unfolding run using np by (cases r) (simp_all add: d)
  moreover have "res_bind r (\<lambda>_. Ok ?t) = Ok ?t \<or> (\<exists>e. res_bind r (\<lambda>_. Ok ?t) = Err e)" using np by (cases r) simp_all
  ultimately show ?thesis using i d ok
    by (intro exI [of _ ?t] exI [of _ c1] exI [of _ "res_bind r (\<lambda>_. Ok ?t)"]) simp
qed

text \<open>
  C19: Round trip: after any sequence of operations on a catalog, with no I/O error, opening
  \<open>catalog.json\<close> again gives the catalog that was in memory, given that the JSON library reads
  back what it wrote.
\<close>

theorem catalog_reopen:
  assumes "on_disk J c" and "c' = foldl (\<lambda>c op. run_op J op c) c ops"
    and "from_json J (to_json J (ca_data c')) = Some (ca_data c')" and "set flt \<subseteq> {None}"
  shows "\<exists>c''. open_catalog J (ca_json c') tmp flt = (Ok (), c'') \<and> ca_data c'' = ca_data c'"
proof -
  have "on_disk J (foldl (\<lambda>c op. run_op J op c) c ops)"
    using assms(1) by (induction ops arbitrary: c) (simp_all add: run_op_on_disk)
  then have j: "ca_json c' = Some (to_json J (ca_data c'))" using assms(2) by (simp add: on_disk_def)
  obtain f1 where 1: "next_call flt = (None, f1)" "set f1 \<subseteq> {None}" using next_call_no_fault [OF assms(4)] by blast
  obtain f2 where 2: "next_call f1 = (None, f2)" using next_call_no_fault [OF 1(2)] by blast
  show ?thesis using 1(1) 2 assms(3) by (simp add: open_catalog_def j cat_call_def)
qed

text \<open>
  C37: A failure of the last write is lost: while the catalog is smaller than the buffer of the
  writer, its text goes out when the writer is dropped, which reports no error. \<open>flush\<close> returns
  \<open>Ok\<close> and renames a truncated file over \<open>catalog.json\<close>.
\<close>

theorem flush_swallows_write_error:
  assumes "ca_faults c = None # Some n # None # flt" and "early J (to_json J (ca_data c)) = 0"
    and "to_json J (ca_data c) \<noteq> []"
  shows "\<exists>c'. flush_catalog J c = (Ok (), c') \<and> ca_json c' = Some (take n (to_json J (ca_data c)))"
  using assms by (simp add: flush_catalog_def Let_def cat_call_def tmp_write_def)

definition catalog0 :: "serde \<Rightarrow> faults \<Rightarrow> catalog" where
  "catalog0 J flt = \<lparr>ca_data = default_data, ca_json = Some (to_json J default_data), ca_tmp = None, ca_faults = flt\<rparr>"

definition serde0 :: "catalog_data \<Rightarrow> serde" where
  "serde0 d = \<lparr>to_json = (\<lambda>_. [123, 10, 125]), from_json = (\<lambda>bs. if bs = [123, 10, 125] then Some d else None),
     early = (\<lambda>_. 0)\<rparr>"

lemma catalog0_inv: "catalog_inv (ca_data (catalog0 J flt))"
  by (simp add: catalog_inv_def catalog0_def default_data_def)

theorem create_table_fresh_witness:
  "\<exists>t c'. create_table_with_schema (serde0 default_data) ''t'' \<lparr>columns = []\<rparr> (catalog0 (serde0 default_data) []) = (Ok t, c') \<and>
     tables (ca_data c') = [''t'' \<mapsto> t]"
  using create_table_fresh [OF catalog0_inv, of "serde0 default_data" "[]" "''t''" "serde0 default_data" "\<lparr>columns = []\<rparr>"]
  by (fastforce simp: catalog0_def default_data_def no_faults_def)

theorem catalog_reopen_witness:
  "\<exists>d c''. (\<exists>t. tables d = [''t'' \<mapsto> t] \<and> root_page_num t = Some 4) \<and>
     open_catalog (serde0 d) (Some [123, 10, 125]) None [] = (Ok (), c'') \<and> ca_data c'' = d"
proof -
  let ?ops = "[CreateTableOp ''t'' \<lparr>columns = []\<rparr>, UpdateRootOp ''t'' (Some 4)]"
  let ?t = "\<lparr>tm_name = ''t'', heap_relation_id = 0, index_relation_id = 1, root_page_num = Some 4,
    tm_schema = \<lparr>columns = []\<rparr>, num_records = 0\<rparr>"
  let ?d = "\<lparr>next_relation_id = 2, tables = [''t'' \<mapsto> ?t]\<rparr>"
  let ?c = "foldl (\<lambda>c op. run_op (serde0 ?d) op c) (catalog0 (serde0 ?d) []) ?ops"
  have c: "ca_data ?c = ?d" "ca_json ?c = Some [123, 10, 125]"
    by (simp_all add: run_op_def create_table_with_schema_def update_root_page_def flush_catalog_def Let_def cat_call_def
        tmp_write_def catalog0_def serde0_def default_data_def set_tables_def)
  have "on_disk (serde0 ?d) (catalog0 (serde0 ?d) [])" by (simp add: on_disk_def no_faults_def catalog0_def)
  from catalog_reopen [OF this refl, of ?ops "[]" None] c
  have "\<exists>c''. open_catalog (serde0 ?d) (Some [123, 10, 125]) None [] = (Ok (), c'') \<and> ca_data c'' = ?d"
    by (simp add: serde0_def)
  then show ?thesis by (intro exI [of _ ?d]) auto
qed

theorem flush_swallows_write_error_witness:
  "\<exists>c'. flush_catalog (serde0 default_data) (catalog0 (serde0 default_data) [None, Some 1, None]) = (Ok (), c') \<and>
     ca_json c' = Some [123]"
  using flush_swallows_write_error [of "catalog0 (serde0 default_data) [None, Some 1, None]" 1 "[]" "serde0 default_data"]
  by (simp add: catalog0_def serde0_def)

end
