(* ===== verification/Executor.thy ===== *)
theory Executor
  imports Where_Clause BTree
begin

text \<open>
  The Volcano-style operators of \<open>crates/wackdb_query\<close>: the trait \<open>Executor\<close> (\<open>lib.rs\<close>),
  \<open>Select\<close> and \<open>Project\<close>. An operator over states \<open>'s\<close> in a world \<open>'w\<close> (the buffer pool, which
  all operators of a pipeline share) is a record of its two methods; \<open>Box<dyn Executor>\<close> is the
  codatatype \<open>boxed\<close>. The contract of the trait is the locale \<open>executor\<close>: calling \<open>next\<close> repeatedly
  in a good world hands out the tuples of a list one by one, and then \<open>None\<close>.
\<close>

datatype query_error =
    Execution string
  | QueryTuple tuple_error
  | QueryBuffer buffer_error
  | QueryIndex node_error
  | QueryIo

record ('s, 'w) executor =
  ex_next :: "('s \<times> 'w, query_error, tuple option) act"
  ex_schema :: "'s \<Rightarrow> schema"

text \<open>Running an operator that is a field of another one's state.\<close>

definition zoom :: "('s \<Rightarrow> 'a) \<Rightarrow> ('a \<Rightarrow> 's \<Rightarrow> 's) \<Rightarrow> ('a \<times> 'w, 'e, 'b) act \<Rightarrow> ('s \<times> 'w, 'e, 'b) act" where
  "zoom get put m = (\<lambda>(s, w). map_option (\<lambda>(r, (x, w')). (r, (put x s, w'))) (m (get s, w)))"

lemma zoom_app [act_simps]: "m (get s, w) = Some (r, (x, w')) \<Longrightarrow> zoom get put m (s, w) = Some (r, (put x s, w'))"
  by (simp add: zoom_def)

text \<open>\<open>while let Some(t) = child.next()? { v.push(t) }\<close>\<close>

partial_function (option) drain :: "('s, 'w) executor \<Rightarrow> tuple list \<Rightarrow> ('s \<times> 'w, query_error, tuple list) act" where
  "drain E acc s = bnd (ex_next E) (\<lambda>r. case r of
       None \<Rightarrow> ret acc
     | Some t \<Rightarrow> (\<lambda>s. drain E (acc @ [t]) s)) s"

subsection \<open>Boxed operators\<close>

codatatype 'w boxed = Boxed (bx_schema: schema)
  (bx_next: "'w \<Rightarrow> ((query_error, tuple option) res \<times> 'w \<times> 'w boxed) option")

primcorec box :: "('s, 'w) executor \<Rightarrow> 's \<Rightarrow> 'w boxed" where
  "bx_schema (box E s) = ex_schema E s"
| "bx_next (box E s) = (\<lambda>w. map_option (\<lambda>(r, (s', w')). (r, w', box E s')) (ex_next E (s, w)))"

definition dyn_executor :: "('w boxed, 'w) executor" where
  "dyn_executor = \<lparr>ex_next = (\<lambda>(b, w). map_option (\<lambda>(r, w', b'). (r, (b', w'))) (bx_next b w)),
     ex_schema = bx_schema\<rparr>"

subsection \<open>\<open>Select\<close>\<close>

partial_function (option) select_loop :: "('s, 'w) executor \<Rightarrow> (tuple \<Rightarrow> schema \<Rightarrow> bool) \<Rightarrow>
    ('s \<times> 'w, query_error, tuple option) act" where
  "select_loop E predicate s = bnd (ex_next E) (\<lambda>r. case r of
       None \<Rightarrow> ret None
     | Some t \<Rightarrow> (\<lambda>s. if predicate t (ex_schema E (fst s)) then ret (Some t) s
                      else select_loop E predicate s)) s"

definition select_executor :: "('s, 'w) executor \<Rightarrow> (tuple \<Rightarrow> schema \<Rightarrow> bool) \<Rightarrow> ('s, 'w) executor" where
  "select_executor E predicate = \<lparr>ex_next = (\<lambda>s. select_loop E predicate s), ex_schema = ex_schema E\<rparr>"

subsection \<open>\<open>Project\<close>\<close>

lemma to_values_length: "to_values t sch = Ok vs \<Longrightarrow> length vs = length (columns sch)"
  using list_all2_lengthD [OF read_columns_typed] by (fastforce simp: to_values_def split: if_splits)

fun pick_values :: "sql_value list \<Rightarrow> nat list \<Rightarrow> ('e, sql_value list) res" where
  "pick_values vals [] = Ok []"
| "pick_values vals (i # is) = res_bind (index i vals) (\<lambda>v. res_bind (pick_values vals is) (\<lambda>vs. Ok (v # vs)))"

definition project_tuple :: "schema \<Rightarrow> schema \<Rightarrow> nat list \<Rightarrow> tuple \<Rightarrow> (query_error, tuple) res" where
  "project_tuple child_schema output_schema projection_indices t =
     res_bind (map_err QueryTuple (to_values t child_schema)) (\<lambda>vals.
     res_bind (pick_values vals projection_indices) (\<lambda>projected.
       map_err QueryTuple (from_values output_schema projected)))"

definition project_executor :: "('s, 'w) executor \<Rightarrow> schema \<Rightarrow> nat list \<Rightarrow> ('s, 'w) executor" where
  "project_executor E output_schema projection_indices = \<lparr>
     ex_next = bnd (ex_next E) (\<lambda>r. case r of
         None \<Rightarrow> ret None
       | Some t \<Rightarrow> (\<lambda>s. bnd (of_res (project_tuple (ex_schema E (fst s)) output_schema projection_indices t))
           (\<lambda>t'. ret (Some t')) s)),
     ex_schema = (\<lambda>_. output_schema)\<rparr>"

subsection \<open>The contract of the trait\<close>

definition hd_opt :: "'a list \<Rightarrow> 'a option" where
  "hd_opt xs = (case xs of [] \<Rightarrow> None | x # _ \<Rightarrow> Some x)"

lemma hd_opt_simps [simp]: "hd_opt [] = None" "hd_opt (x # xs) = Some x"
  by (simp_all add: hd_opt_def)

locale executor =
  fixes E :: "('s, 'w) executor" and good :: "'w \<Rightarrow> bool" and gives :: "'s \<Rightarrow> tuple list \<Rightarrow> bool" and sch :: schema
  assumes next_law: "good w \<Longrightarrow> gives s ts \<Longrightarrow>
      \<exists>s' w'. ex_next E (s, w) = Some (Ok (hd_opt ts), (s', w')) \<and> good w' \<and> gives s' (tl ts)"
    and schema_law: "gives s ts \<Longrightarrow> ex_schema E s = sch"
begin

lemma next_None:
  assumes "good w" and "gives s []"
  obtains s' w' where "ex_next E (s, w) = Some (Ok None, (s', w'))" and "good w'" and "gives s' []"
  using next_law [OF assms] by auto

lemma next_Some:
  assumes "good w" and "gives s (t # ts)"
  obtains s' w' where "ex_next E (s, w) = Some (Ok (Some t), (s', w'))" and "good w'" and "gives s' ts"
  using next_law [OF assms] by auto

lemma drain_law:
  "good w \<Longrightarrow> gives s ts \<Longrightarrow> \<exists>s' w'. drain E acc (s, w) = Some (Ok (acc @ ts), (s', w')) \<and> good w' \<and> gives s' []"
proof (induction ts arbitrary: s w acc)
  case Nil
  obtain s' w' where "ex_next E (s, w) = Some (Ok None, (s', w'))" "good w'" "gives s' []"
    by (rule next_None [OF Nil])
  then show ?case by (subst drain.simps) (simp add: act_simps)
next
  case (Cons t ts)
  obtain s' w' where 1: "ex_next E (s, w) = Some (Ok (Some t), (s', w'))" "good w'" "gives s' ts"
    by (rule next_Some [OF Cons.prems])
  have "drain E acc (s, w) = drain E (acc @ [t]) (s', w')"
    by (subst drain.simps) (simp add: act_simps 1(1))
  with Cons.IH [OF 1(2,3), of "acc @ [t]"] show ?case by simp
qed

lemma select_law:
  "good w \<Longrightarrow> gives s ts \<Longrightarrow> \<exists>s' w' ts'. select_loop E p (s, w) =
      Some (Ok (hd_opt (filter (\<lambda>t. p t sch) ts)), (s', w')) \<and> good w' \<and> gives s' ts' \<and>
      filter (\<lambda>t. p t sch) ts' = tl (filter (\<lambda>t. p t sch) ts)"
proof (induction ts arbitrary: s w)
  case Nil
  obtain s' w' where "ex_next E (s, w) = Some (Ok None, (s', w'))" "good w'" "gives s' []"
    by (rule next_None [OF Nil])
  then show ?case by (intro exI [of _ s'] exI [of _ w'] exI [of _ "[]"], subst select_loop.simps) (simp add: act_simps)
next
  case (Cons t ts)
  obtain s' w' where 1: "ex_next E (s, w) = Some (Ok (Some t), (s', w'))" "good w'" "gives s' ts"
    by (rule next_Some [OF Cons.prems])
  have step: "select_loop E p (s, w) = (if p t sch then Some (Ok (Some t), (s', w')) else select_loop E p (s', w'))"
    by (subst select_loop.simps) (simp add: act_simps 1(1) schema_law [OF 1(3)])
  show ?case
  proof (cases "p t sch")
    case True
    with step 1(2,3) show ?thesis by auto
  next
    case False
    with Cons.IH [OF 1(2,3)] step show ?thesis by simp
  qed
qed

text \<open>The operators over an operator that meets the contract meet it.\<close>

lemma select_executor:
  "executor (select_executor E p) good (\<lambda>s ys. \<exists>ts. gives s ts \<and> ys = filter (\<lambda>t. p t sch) ts) sch"
proof
  fix w s ys assume w: "good w" and "\<exists>ts. gives s ts \<and> ys = filter (\<lambda>t. p t sch) ts"
  then obtain ts where ts: "gives s ts" "ys = filter (\<lambda>t. p t sch) ts" by blast
  from select_law [OF w ts(1), of p] ts(2)
  show "\<exists>s' w'. ex_next (select_executor E p) (s, w) = Some (Ok (hd_opt ys), (s', w')) \<and> good w' \<and>
      (\<exists>ts. gives s' ts \<and> tl ys = filter (\<lambda>t. p t sch) ts)"
    by (auto simp: select_executor_def) metis
next
  fix s ys assume "\<exists>ts. gives s ts \<and> ys = filter (\<lambda>t. p t sch) ts"
  then show "ex_schema (select_executor E p) s = sch" using schema_law by (auto simp: select_executor_def)
qed

lemma project_executor:
  "executor (project_executor E out idx) good
     (\<lambda>s ys. \<exists>ts. gives s ts \<and> list_all2 (\<lambda>t y. project_tuple sch out idx t = Ok y) ts ys) out"
proof
  fix w s ys assume w: "good w" and "\<exists>ts. gives s ts \<and> list_all2 (\<lambda>t y. project_tuple sch out idx t = Ok y) ts ys"
  then obtain ts where ts: "gives s ts" "list_all2 (\<lambda>t y. project_tuple sch out idx t = Ok y) ts ys" by blast
  show "\<exists>s' w'. ex_next (project_executor E out idx) (s, w) = Some (Ok (hd_opt ys), (s', w')) \<and> good w' \<and>
      (\<exists>ts. gives s' ts \<and> list_all2 (\<lambda>t y. project_tuple sch out idx t = Ok y) ts (tl ys))"
  proof (cases ts)
    case Nil
    obtain s' w' where "ex_next E (s, w) = Some (Ok None, (s', w'))" "good w'" "gives s' []"
      by (rule next_None [OF w ts(1) [unfolded Nil]])
    then show ?thesis using ts(2) Nil by (auto simp: project_executor_def act_simps)
  next
    case (Cons t ts')
    obtain s' w' where 1: "ex_next E (s, w) = Some (Ok (Some t), (s', w'))" "good w'" "gives s' ts'"
      by (rule next_Some [OF w ts(1) [unfolded Cons]])
    obtain y ys' where y: "ys = y # ys'" "project_tuple sch out idx t = Ok y"
      "list_all2 (\<lambda>t y. project_tuple sch out idx t = Ok y) ts' ys'"
      using ts(2) Cons by (cases ys) auto
    have "ex_next (project_executor E out idx) (s, w) = Some (Ok (Some y), (s', w'))"
      by (simp add: project_executor_def act_simps 1(1) schema_law [OF 1(3)] y(2))
    with 1 y show ?thesis by auto
  qed
qed (simp add: project_executor_def)

end

subsection \<open>Boxing\<close>

text \<open>\<open>yields good sch ts b\<close>: the boxed operator hands out \<open>ts\<close> in every good world.\<close>

coinductive yields :: "('w \<Rightarrow> bool) \<Rightarrow> schema \<Rightarrow> tuple list \<Rightarrow> 'w boxed \<Rightarrow> bool" for good sch where
  yieldsI: "bx_schema b = sch \<Longrightarrow>
    (\<And>w. good w \<Longrightarrow> \<exists>w' b'. bx_next b w = Some (Ok (hd_opt ts), w', b') \<and> good w' \<and> yields good sch (tl ts) b') \<Longrightarrow>
    yields good sch ts b"

context executor begin

lemma yields_box: "gives s ts \<Longrightarrow> yields good sch ts (box E s)"
proof (coinduction arbitrary: s ts)
  case yields
  from next_law [OF _ yields] schema_law [OF yields] show ?case by fastforce
qed

end

lemma yieldsD:
  assumes "yields good sch ts b"
  shows "bx_schema b = sch"
    and "good w \<Longrightarrow> \<exists>w' b'. bx_next b w = Some (Ok (hd_opt ts), w', b') \<and> good w' \<and> yields good sch (tl ts) b'"
  using assms by (auto elim: yields.cases)

lemma dyn_executor: "executor dyn_executor good (\<lambda>b ts. yields good sch ts b) sch"
proof
  fix w b ts assume w: "good w" and y: "yields good sch ts b"
  from yieldsD(2) [OF y w] show "\<exists>b' w'. ex_next dyn_executor (b, w) = Some (Ok (hd_opt ts), (b', w')) \<and>
      good w' \<and> yields good sch (tl ts) b'"
    by (auto simp: dyn_executor_def)
next
  fix b ts assume "yields good sch ts b"
  then show "ex_schema dyn_executor b = sch" by (simp add: dyn_executor_def yieldsD(1))
qed

interpretation dyn: executor dyn_executor good "\<lambda>b ts. yields good sch ts b" sch for good sch
  by (rule dyn_executor)

text \<open>A source of given tuples, for concrete inputs.\<close>

definition list_executor :: "schema \<Rightarrow> (tuple list, 'w) executor" where
  "list_executor sch = \<lparr>ex_next = (\<lambda>(ts, w). Some (Ok (hd_opt ts), (tl ts, w))), ex_schema = (\<lambda>_. sch)\<rparr>"

interpretation src: executor "list_executor sch" good "\<lambda>s ts. s = ts" sch for good sch
  by unfold_locales (simp_all add: list_executor_def)

definition key_schema :: "string \<Rightarrow> schema" where
  "key_schema c = \<lparr>columns = [\<lparr>col_name = c, data_type = IntegerT, is_nullable = True\<rparr>]\<rparr>"

end
