(* ===== verification/Scans.thy ===== *)
theory Scans
  imports Executor BTree_Range
begin

text \<open>
  The operators that read tables (\<open>executor/seq_scan.rs\<close>, \<open>executor/index_scan.rs\<close>) and the choice
  between them (\<open>executor/optimizer.rs\<close>), over any page pool. The world of the operators is the
  pool. What a sequential scan hands out is \<open>heap_rows\<close>, the live records of a file page by page;
  an index scan hands out the records of a list of \<open>ctid\<close>s that the index has found.
\<close>

text \<open>A call of the pool with \<open>?\<close>, from an operator.\<close>

definition pool_call :: "('s \<Rightarrow> (buffer_error, 'a) res \<times> 's) \<Rightarrow> ('x \<times> 's, query_error, 'a) act" where
  "pool_call m = total (\<lambda>(x, w). let (r, w') = m w in (map_err QueryBuffer r, (x, w')))"

text \<open>\<open>let _ = self.buffer_pool.unpin_page(page_id, false)\<close>\<close>

definition release_page :: "'s pager \<Rightarrow> page_id \<Rightarrow> ('x \<times> 's, query_error, unit) act" where
  "release_page P p = attempt (pool_call (pg_unpin P p False)) (\<lambda>_. ret ())"

subsection \<open>\<open>SeqScan\<close>\<close>

text \<open>The slot counter never exceeds the number of slots, a \<open>u16\<close>.\<close>

record seq_scan =
  ss_file_id :: u32
  ss_schema :: schema
  ss_page_num :: u32
  ss_slot :: nat
  ss_max_pages :: u32

definition new_seq_scan :: "u32 \<Rightarrow> schema \<Rightarrow> u32 \<Rightarrow> seq_scan" where
  "new_seq_scan fid schema max_pages = \<lparr>ss_file_id = fid, ss_schema = schema, ss_page_num = 0,
     ss_slot = 0, ss_max_pages = max_pages\<rparr>"

text \<open>The next live record of a page from a slot on, and the slot after it.\<close>

function scan_slots :: "page \<Rightarrow> nat \<Rightarrow> nat \<Rightarrow> (query_error, tuple option \<times> nat) res" where
  "scan_slots data max_slots slot =
     (if slot < max_slots then
        res_bind (get_record_from_bytes data slot) (\<lambda>r. case r of
            Some (_, rec) \<Rightarrow> Ok (Some rec, slot + 1)
          | None \<Rightarrow> scan_slots data max_slots (slot + 1))
      else Ok (None, slot))"
  by pat_completeness auto
termination by (relation "measure (\<lambda>(_, max_slots, slot). max_slots - slot)") auto

declare scan_slots.simps [simp del]

definition scan_page :: "page \<Rightarrow> (seq_scan \<times> 's, query_error, tuple option) act" where
  "scan_page data = (\<lambda>(s, w). case scan_slots data (get_total_slots_from_bytes data) (ss_slot s) of
       Ok (found, slot) \<Rightarrow> Some (Ok found, (s\<lparr>ss_slot := slot\<rparr>, w))
     | Err e \<Rightarrow> Some (Err e, (s, w))
     | Panic \<Rightarrow> Some (Panic, (s, w)))"

definition next_page :: "seq_scan \<Rightarrow> seq_scan" where
  "next_page s = s\<lparr>ss_page_num := ss_page_num s + 1, ss_slot := 0\<rparr>"

definition current_page :: "seq_scan \<Rightarrow> page_id" where
  "current_page s = \<lparr>file_id = ss_file_id s, page_num = ss_page_num s\<rparr>"

text \<open>A page that cannot be fetched is passed over.\<close>

partial_function (option) seq_scan_loop :: "'s pager \<Rightarrow> (seq_scan \<times> 's, query_error, tuple option) act" where
  "seq_scan_loop P sw =
     (if ss_page_num (fst sw) \<le> ss_max_pages (fst sw)
      then attempt (pool_call (pg_fetch P (current_page (fst sw)))) (\<lambda>r. case r of
          Inl _ \<Rightarrow> (\<lambda>sw. seq_scan_loop P (next_page (fst sw), snd sw))
        | Inr frame_id \<Rightarrow>
            bnd (pool_call (pg_read P frame_id)) (\<lambda>data.
            bnd (scan_page data) (\<lambda>found.
            bnd (release_page P (current_page (fst sw))) (\<lambda>_. case found of
                Some t \<Rightarrow> ret (Some t)
              | None \<Rightarrow> (\<lambda>sw. seq_scan_loop P (next_page (fst sw), snd sw)))))) sw
      else ret None sw)"

definition seq_scan_executor :: "'s pager \<Rightarrow> (seq_scan, 's) executor" where
  "seq_scan_executor P = \<lparr>ex_next = (\<lambda>s. seq_scan_loop P s), ex_schema = ss_schema\<rparr>"

subsection \<open>\<open>IndexScan\<close>\<close>

record index_scan =
  is_schema :: schema
  is_ctids :: "ctid list"

text \<open>The pages the range search touches are those of the same pool; it pins and unpins there.\<close>

definition new_index_scan :: "'s pager \<Rightarrow> schema \<Rightarrow> page_id option \<Rightarrow> u32 \<Rightarrow> int \<Rightarrow> int \<Rightarrow>
    ('s, query_error, index_scan) act" where
  "new_index_scan P schema index_root index_file start_key end_key = (\<lambda>w.
     map_option (\<lambda>(r, b). (res_bind (map_err QueryIndex r) (\<lambda>ctids. Ok \<lparr>is_schema = schema, is_ctids = ctids\<rparr>), bt_pool b))
       (index_range_search P start_key end_key (new_btree w index_root index_file)))"

text \<open>When the record is not there the page stays pinned.\<close>

definition index_scan_next :: "'s pager \<Rightarrow> (index_scan \<times> 's, query_error, tuple option) act" where
  "index_scan_next P = (\<lambda>(s, w). case is_ctids s of
       [] \<Rightarrow> ret None (s, w)
     | c # cs \<Rightarrow>
         bnd (pool_call (pg_fetch P (ctid_page c))) (\<lambda>frame_id.
         bnd (pool_call (pg_read P frame_id)) (\<lambda>data.
         bnd (of_res (get_record_from_bytes data (unat (slot_idx c)))) (\<lambda>r. case r of
             None \<Rightarrow> throw (Execution ''CTID not found'')
           | Some (_, rec) \<Rightarrow> bnd (release_page P (ctid_page c)) (\<lambda>_. ret (Some rec)))))
           (s\<lparr>is_ctids := cs\<rparr>, w))"

definition index_scan_executor :: "'s pager \<Rightarrow> (index_scan, 's) executor" where
  "index_scan_executor P = \<lparr>ex_next = index_scan_next P, ex_schema = is_schema\<rparr>"

subsection \<open>\<open>Optimizer\<close>\<close>

definition optimize :: "'s pager \<Rightarrow> u32 \<Rightarrow> schema \<Rightarrow> u32 \<Rightarrow> ((page_id option \<times> u32) \<times> int \<times> int) option \<Rightarrow>
    ('s, query_error, 's boxed) act" where
  "optimize P fid schema max_pages index_opt = (case index_opt of
       Some ((index_root, index_file), start_key, end_key) \<Rightarrow>
         bnd (new_index_scan P schema index_root index_file start_key end_key) (\<lambda>s. ret (box (index_scan_executor P) s))
     | None \<Rightarrow> ret (box (seq_scan_executor P) (new_seq_scan fid schema max_pages)))"

subsection \<open>The records of a file\<close>

text \<open>\<open>row_at\<close> is the live record of a slot; a page is \<open>readable\<close> when the raw reader stays inside it.\<close>

definition row_at :: "page \<Rightarrow> nat \<Rightarrow> tuple option" where
  "row_at pg i = (case get_record_from_bytes pg i :: (query_error, _) res of Ok (Some (_, rec)) \<Rightarrow> Some rec | _ \<Rightarrow> None)"

definition readable :: "page \<Rightarrow> bool" where
  "readable pg \<longleftrightarrow> (\<forall>i. (get_record_from_bytes pg i :: (query_error, _) res) \<noteq> Panic)"

definition rows_from :: "nat \<Rightarrow> page \<Rightarrow> tuple list" where
  "rows_from i pg = List.map_filter (row_at pg) [i..<get_total_slots_from_bytes pg]"

definition heap_page :: "u32 \<Rightarrow> nat \<Rightarrow> page_id" where
  "heap_page fid n = \<lparr>file_id = fid, page_num = of_nat n\<rparr>"

definition heap_rows :: "(page_id \<Rightarrow> page) \<Rightarrow> u32 \<Rightarrow> nat \<Rightarrow> nat \<Rightarrow> tuple list" where
  "heap_rows V fid a b = concat (map (\<lambda>n. rows_from 0 (V (heap_page fid n))) [a..<b])"

lemma readable_record:
  "readable pg \<Longrightarrow> (get_record_from_bytes pg i :: (query_error, _) res) = Ok None \<and> row_at pg i = None \<or>
    (\<exists>h rec. (get_record_from_bytes pg i :: (query_error, _) res) = Ok (Some (h, rec)) \<and> row_at pg i = Some rec)"
proof -
  assume r: "readable pg"
  have "(get_record_from_bytes pg i :: (query_error, _) res) \<noteq> Err e" for e
    by (simp add: get_record_from_bytes_def Let_def)
  with r show ?thesis
    by (cases "get_record_from_bytes pg i :: (query_error, (tuple_header \<times> bytes) option) res")
       (auto simp: readable_def row_at_def split: option.splits)
qed

lemma readable_wf: "page_wf pg \<Longrightarrow> readable pg"
  by (simp add: readable_def get_record_from_bytes_wf)

lemma row_at_wf: "page_wf pg \<Longrightarrow>
    row_at pg i = (if i < slot_count pg \<and> xmax (fst (record_at i pg)) = 0 then Some (snd (record_at i pg)) else None)"
  by (simp add: row_at_def get_record_from_bytes_wf split: prod.split)

lemma rows_from_Suc:
  "rows_from i pg = (if i < get_total_slots_from_bytes pg
     then (case row_at pg i of None \<Rightarrow> [] | Some t \<Rightarrow> [t]) @ rows_from (Suc i) pg else [])"
  by (simp add: rows_from_def upt_conv_Cons map_filter_simps split: option.split)

lemma scan_slots_law:
  assumes "readable pg"
  shows "\<exists>slot. scan_slots pg (get_total_slots_from_bytes pg) i = Ok (hd_opt (rows_from i pg), slot) \<and>
    (rows_from i pg \<noteq> [] \<longrightarrow> rows_from slot pg = tl (rows_from i pg))"
proof (induction "get_total_slots_from_bytes pg - i" arbitrary: i)
  case 0
  then show ?case by (subst scan_slots.simps, subst (1 2 3) rows_from_Suc) simp
next
  case (Suc n)
  then have i: "i < get_total_slots_from_bytes pg" by simp
  from readable_record [OF assms, of i] show ?case
  proof (elim disjE exE conjE)
    assume n: "(get_record_from_bytes pg i :: (query_error, _) res) = Ok None" "row_at pg i = None"
    have "rows_from i pg = rows_from (Suc i) pg" using i n(2) by (subst rows_from_Suc) simp
    moreover have "scan_slots pg (get_total_slots_from_bytes pg) i = scan_slots pg (get_total_slots_from_bytes pg) (Suc i)"
      using i n(1) by (subst scan_slots.simps) simp
    ultimately show ?thesis using Suc(1) [of "Suc i"] Suc(2) by simp
  next
    fix h rec assume n: "(get_record_from_bytes pg i :: (query_error, _) res) = Ok (Some (h, rec))" "row_at pg i = Some rec"
    have "rows_from i pg = rec # rows_from (Suc i) pg" using i n(2) by (subst rows_from_Suc) simp
    moreover have "scan_slots pg (get_total_slots_from_bytes pg) i = Ok (Some rec, Suc i)"
      using i n(1) by (subst scan_slots.simps) simp
    ultimately show ?thesis by simp
  qed
qed

subsection \<open>The contracts\<close>

definition seq_gives :: "schema \<Rightarrow> (page_id \<Rightarrow> page) \<Rightarrow> seq_scan \<Rightarrow> tuple list \<Rightarrow> bool" where
  "seq_gives sch V s ts \<longleftrightarrow> ss_schema s = sch \<and> unat (ss_max_pages s) + 1 < 2 ^ 32 \<and>
     (\<forall>n \<le> unat (ss_max_pages s). readable (V (heap_page (ss_file_id s) n))) \<and>
     ts = (if ss_page_num s \<le> ss_max_pages s
           then rows_from (ss_slot s) (V (current_page s)) @
             heap_rows V (ss_file_id s) (unat (ss_page_num s) + 1) (unat (ss_max_pages s) + 1)
           else [])"

definition record_of :: "(page_id \<Rightarrow> page) \<Rightarrow> ctid \<Rightarrow> tuple option" where
  "record_of V c = row_at (V (ctid_page c)) (unat (slot_idx c))"

definition index_gives :: "schema \<Rightarrow> (page_id \<Rightarrow> page) \<Rightarrow> index_scan \<Rightarrow> tuple list \<Rightarrow> bool" where
  "index_gives sch V s ts \<longleftrightarrow> is_schema s = sch \<and> (\<forall>c \<in> set (is_ctids s). record_of V c \<noteq> None) \<and>
     ts = map (\<lambda>c. the (record_of V c)) (is_ctids s)"

lemma heap_page_current: "heap_page (ss_file_id s) (unat (ss_page_num s)) = current_page s"
  by (simp add: heap_page_def current_page_def)

lemma heap_rows_Cons:
  "a < b \<Longrightarrow> heap_rows V fid a b = rows_from 0 (V (heap_page fid a)) @ heap_rows V fid (Suc a) b"
  by (simp add: heap_rows_def upt_conv_Cons)

lemma next_page_rows:
  assumes "ss_page_num s \<le> ss_max_pages s" and "unat (ss_max_pages s) + 1 < 2 ^ 32"
  shows "heap_rows V (ss_file_id s) (unat (ss_page_num s) + 1) (unat (ss_max_pages s) + 1) =
    (if ss_page_num (next_page s) \<le> ss_max_pages s
     then rows_from 0 (V (current_page (next_page s))) @
       heap_rows V (ss_file_id s) (unat (ss_page_num (next_page s)) + 1) (unat (ss_max_pages s) + 1)
     else [])"
    and "unat (ss_page_num (next_page s)) = unat (ss_page_num s) + 1"
proof -
  have le: "unat (ss_page_num s) \<le> unat (ss_max_pages s)" using assms(1) by (simp add: word_le_nat_alt)
  show n: "unat (ss_page_num (next_page s)) = unat (ss_page_num s) + 1"
    using le assms(2) by (simp add: next_page_def unat_word_ariths)
  let ?n = "unat (ss_page_num s) + 1" and ?m = "unat (ss_max_pages s) + 1"
  have c: "current_page (next_page s) = heap_page (ss_file_id s) ?n"
    by (simp add: current_page_def heap_page_def next_page_def)
  have iff: "ss_page_num (next_page s) \<le> ss_max_pages s \<longleftrightarrow> ?n < ?m" by (simp add: word_le_nat_alt n Suc_le_eq)
  show "heap_rows V (ss_file_id s) ?n ?m =
    (if ss_page_num (next_page s) \<le> ss_max_pages s
     then rows_from 0 (V (current_page (next_page s))) @
       heap_rows V (ss_file_id s) (unat (ss_page_num (next_page s)) + 1) ?m else [])"
    unfolding iff c n using heap_rows_Cons [of ?n ?m] by (simp add: heap_rows_def)
qed

context page_pool begin

text \<open>A pool that shows \<open>V\<close> and has \<open>n\<close> frames to spare. The pins of its other users stay as they are.\<close>

definition reads :: "nat \<Rightarrow> (u32 \<Rightarrow> u32) \<Rightarrow> (page_id \<Rightarrow> page) \<Rightarrow> 's \<Rightarrow> bool" where
  "reads n tot V w \<longleftrightarrow> (\<exists>base cap. spare base cap n \<and> session base cap tot V [] {} w)"

lemma visit_page:
  assumes "reads n tot V w" and "1 \<le> n"
  obtains f w1 w2 where "pg_fetch P p w = (Ok f, w1)" and "pg_read P f w1 = (Ok (V p), w1)"
    and "pg_unpin P p False w1 = (Ok (), w2)" and "reads n tot V w2"
proof -
  obtain base cap where s: "spare base cap n" "session base cap tot V [] {} w" using assms(1) by (auto simp: reads_def)
  obtain f w1 where 1: "pg_fetch P p w = (Ok f, w1)" "session base cap tot V [(p, f)] {} w1"
    by (rule session_fetch [OF s(2,1), of p]) (use assms(2) in simp_all)
  obtain w2 where 2: "pg_unpin P p False w1 = (Ok (), w2)" "session base cap tot V [] {} w2"
    by (rule session_unpin [OF 1(2), of p f False]) simp_all
  have "pg_read P f w1 = (Ok (V p), w1)" by (rule session_read [OF 1(2)]) simp
  with 1(1) 2 s(1) show thesis by (intro that) (auto simp: reads_def)
qed

lemma seq_scan_loop_law:
  assumes "reads n tot V w" and "1 \<le> n" and "seq_gives sch V s ts"
  shows "\<exists>s' w'. seq_scan_loop P (s, w) = Some (Ok (hd_opt ts), (s', w')) \<and> reads n tot V w' \<and> seq_gives sch V s' (tl ts)"
  using assms
proof (induction "unat (ss_max_pages s) + 1 - unat (ss_page_num s)" arbitrary: s w ts rule: less_induct)
  case less
  show ?case
  proof (cases "ss_page_num s \<le> ss_max_pages s")
    case False
    then have "ts = []" using less.prems(3) by (simp add: seq_gives_def)
    moreover have "seq_scan_loop P (s, w) = Some (Ok None, (s, w))"
      using False by (subst seq_scan_loop.simps) (simp add: act_simps)
    ultimately show ?thesis using less.prems by (intro exI [of _ s] exI [of _ w]) simp
  next
    case True
    let ?p = "current_page s" and ?V = "V (current_page s)"
    obtain f w1 w2 where v: "pg_fetch P ?p w = (Ok f, w1)" "pg_read P f w1 = (Ok ?V, w1)"
      "pg_unpin P ?p False w1 = (Ok (), w2)" "reads n tot V w2"
      by (rule visit_page [OF less.prems(1,2), of ?p])
    have m: "unat (ss_max_pages s) + 1 < 2 ^ 32" using less.prems(3) by (simp add: seq_gives_def)
    have "unat (ss_page_num s) \<le> unat (ss_max_pages s)" using True by (simp add: word_le_nat_alt)
    then have "readable ?V"
      using less.prems(3) unfolding seq_gives_def heap_page_current [symmetric] by blast
    from scan_slots_law [OF this, of "ss_slot s"] obtain slot where
      sc: "scan_slots ?V (get_total_slots_from_bytes ?V) (ss_slot s) = Ok (hd_opt (rows_from (ss_slot s) ?V), slot)"
        "rows_from (ss_slot s) ?V \<noteq> [] \<longrightarrow> rows_from slot ?V = tl (rows_from (ss_slot s) ?V)" by blast
    let ?s1 = "s\<lparr>ss_slot := slot\<rparr>"
    have c: "current_page ?s1 = ?p" by (simp add: current_page_def)
    let ?rest = "heap_rows V (ss_file_id s) (unat (ss_page_num s) + 1) (unat (ss_max_pages s) + 1)"
    have ts: "ts = rows_from (ss_slot s) ?V @ ?rest" using True less.prems(3) by (simp add: seq_gives_def)
    have run: "seq_scan_loop P (s, w) = (case hd_opt (rows_from (ss_slot s) ?V) of
        Some t \<Rightarrow> Some (Ok (Some t), (?s1, w2)) | None \<Rightarrow> seq_scan_loop P (next_page ?s1, w2))"
      using True
      by (subst seq_scan_loop.simps)
         (simp add: act_simps pool_call_def release_page_def scan_page_def v sc(1) c split: option.split)
    show ?thesis
    proof (cases "rows_from (ss_slot s) ?V")
      case Nil
      have "unat (ss_max_pages (next_page ?s1)) + 1 - unat (ss_page_num (next_page ?s1))
          < unat (ss_max_pages s) + 1 - unat (ss_page_num s)"
        using next_page_rows(2) [of ?s1] True m by (simp add: next_page_def word_le_nat_alt)
      moreover have "seq_gives sch V (next_page ?s1) ts"
        using less.prems(3) next_page_rows(1) [of ?s1 V] True m ts Nil
        by (simp add: seq_gives_def next_page_def)
      ultimately show ?thesis using less.hyps [of "next_page ?s1" w2 ts] v(4) less.prems(2) run Nil by simp
    next
      case (Cons t rs)
      have "seq_gives sch V ?s1 (tl ts)" using less.prems(3) True ts sc(2) Cons c by (simp add: seq_gives_def)
      then show ?thesis using run Cons ts v(4) by (intro exI [of _ ?s1] exI [of _ w2]) simp
    qed
  qed
qed

lemma seq_scan_executor: "1 \<le> n \<Longrightarrow> executor (seq_scan_executor P) (reads n tot V) (seq_gives sch V) sch"
proof
  fix w s ts assume "1 \<le> n" and "reads n tot V w" and "seq_gives sch V s ts"
  then show "\<exists>s' w'. ex_next (seq_scan_executor P) (s, w) = Some (Ok (hd_opt ts), (s', w')) \<and> reads n tot V w' \<and>
      seq_gives sch V s' (tl ts)"
    using seq_scan_loop_law by (simp add: seq_scan_executor_def)
next
  fix s ts assume "seq_gives sch V s ts"
  then show "ex_schema (seq_scan_executor P) s = sch" by (simp add: seq_scan_executor_def seq_gives_def)
qed

lemma index_scan_executor: "1 \<le> n \<Longrightarrow> executor (index_scan_executor P) (reads n tot V) (index_gives sch V) sch"
proof
  fix w s ts assume n: "1 \<le> n" and w: "reads n tot V w" and g: "index_gives sch V s ts"
  show "\<exists>s' w'. ex_next (index_scan_executor P) (s, w) = Some (Ok (hd_opt ts), (s', w')) \<and> reads n tot V w' \<and>
      index_gives sch V s' (tl ts)"
  proof (cases "is_ctids s")
    case Nil
    then show ?thesis using g w
      by (intro exI [of _ s] exI [of _ w]) (simp add: index_scan_executor_def index_scan_next_def index_gives_def act_simps)
  next
    case (Cons c cs)
    let ?s' = "s\<lparr>is_ctids := cs\<rparr>"
    obtain f w1 w2 where v: "pg_fetch P (ctid_page c) w = (Ok f, w1)" "pg_read P f w1 = (Ok (V (ctid_page c)), w1)"
      "pg_unpin P (ctid_page c) False w1 = (Ok (), w2)" "reads n tot V w2"
      by (rule visit_page [OF w n, of "ctid_page c"])
    have "record_of V c \<noteq> None" using g Cons by (simp add: index_gives_def)
    then obtain h t where t: "(get_record_from_bytes (V (ctid_page c)) (unat (slot_idx c)) :: (query_error, _) res) = Ok (Some (h, t))"
      "record_of V c = Some t"
      by (auto simp: record_of_def row_at_def split: res.splits option.splits prod.splits)
    have ts: "ts = t # map (\<lambda>c. the (record_of V c)) cs" using g Cons t(2) by (simp add: index_gives_def)
    have "ex_next (index_scan_executor P) (s, w) = Some (Ok (Some t), (?s', w2))"
      by (simp add: index_scan_executor_def index_scan_next_def Cons act_simps pool_call_def release_page_def v t(1))
    moreover have "index_gives sch V ?s' (tl ts)" using g Cons ts by (simp add: index_gives_def)
    ultimately show ?thesis using v(4) ts by (intro exI [of _ ?s'] exI [of _ w2]) simp
  qed
next
  fix s ts assume "index_gives sch V s ts"
  then show "ex_schema (index_scan_executor P) s = sch" by (simp add: index_scan_executor_def index_gives_def)
qed

lemma reads_le: "reads n tot V w \<Longrightarrow> m \<le> n \<Longrightarrow> reads m tot V w"
  unfolding reads_def using spare_le by blast

lemma spare_pin:
  assumes "spare base cap (Suc n)" and "length held \<le> 1"
  shows "spare (\<lambda>q. base q + count_list (map fst held) q) cap n"
proof (cases held)
  case Nil
  then show ?thesis using spare_le [OF assms(1), of n] by simp
next
  case (Cons h hs)
  with assms(2) have h: "held = [h]" by simp
  have s: "{q. base q + count_list (map fst held) q \<noteq> 0} = insert (fst h) {q. base q \<noteq> 0}" by (auto simp: h)
  have f: "finite {q. base q \<noteq> 0}" "card {q. base q \<noteq> 0} + Suc n \<le> cap" "\<forall>q. base q + Suc n + 1 < 2 ^ 32"
    using assms(1) by (simp_all add: spare_def)
  have c: "card (insert (fst h) {q. base q \<noteq> 0}) \<le> Suc (card {q. base q \<noteq> 0})"
    using f(1) by (simp add: card_insert_if)
  have "base q + count_list (map fst held) q + n + 1 < 2 ^ 32" for q using f(3) [rule_format, of q] by (simp add: h)
  with c f(1,2) show ?thesis unfolding spare_def s by auto
qed

lemma new_index_scan_law:
  assumes g: "geometry (pg_size P)" and rd: "reads (Suc n) tot V w" and n: "1 \<le> n" and lo: "i32_range lo"
    and rep: "index_rep (pg_size P) ifid tot V r m"
  shows "\<exists>kvs w'. new_index_scan P sch r ifid lo hi w = Some (Ok \<lparr>is_schema = sch, is_ctids = in_range lo hi kvs\<rparr>, w') \<and>
    map_of kvs = m \<and> sorted_wrt (<) (map fst kvs) \<and> reads n tot V w'"
proof -
  obtain base cap where s: "spare base cap (Suc n)" "session base cap tot V [] {} w"
    using rd by (auto simp: reads_def)
  have room: "spare base cap 2" by (rule spare_le [OF s(1)]) (use n in simp)
  have b: "bsession base cap tot V [] {} r ifid (new_btree w r ifid)" using s(2) by (simp add: bsession_def new_btree_def)
  obtain b' kvs held where run: "index_range_search P lo hi (new_btree w r ifid) = Some (Ok (in_range lo hi kvs), b')"
    "map_of kvs = m" "sorted_wrt (<) (map fst kvs)" "bsession base cap tot V held {} r ifid b'"
    "r = None \<longrightarrow> held = []" "r \<noteq> None \<longrightarrow> length held = 1"
    using index_range_search_spec [OF g room b rep lo, of hi] by (elim exE conjE) (rule that)
  have "length held \<le> 1" using run(5,6) by (cases r) simp_all
  from spare_pin [OF s(1) this] run(4) have "reads n tot V (bt_pool b')"
    by (fastforce simp: reads_def bsession_def session_def)
  with run(1-3) show ?thesis
    by (intro exI [of _ kvs] exI [of _ "bt_pool b'"]) (simp add: new_index_scan_def)
qed

text \<open>What the optimizer returns.\<close>

lemma optimize_seq:
  assumes "1 \<le> n" and "unat mx + 1 < 2 ^ 32" and "\<forall>k \<le> unat mx. readable (V (heap_page fid k))"
  shows "\<exists>b. optimize P fid sch mx None w = Some (Ok b, w) \<and> yields (reads n tot V) sch (heap_rows V fid 0 (unat mx + 1)) b"
proof -
  have "heap_rows V fid 0 (unat mx + 1) = rows_from 0 (V (heap_page fid 0)) @ heap_rows V fid 1 (unat mx + 1)"
    using heap_rows_Cons [of 0 "unat mx + 1"] by simp
  then have "seq_gives sch V (new_seq_scan fid sch mx) (heap_rows V fid 0 (unat mx + 1))"
    using assms(2,3) by (simp add: seq_gives_def new_seq_scan_def current_page_def heap_page_def)
  from executor.yields_box [OF seq_scan_executor [OF assms(1)] this] show ?thesis
    by (simp add: optimize_def act_simps)
qed

lemma optimize_index:
  assumes "geometry (pg_size P)" and "reads (Suc n) tot V w" and "1 \<le> n" and "i32_range lo"
    and "index_rep (pg_size P) ifid tot V r m"
    and "\<forall>k c. m k = Some c \<longrightarrow> record_of V c \<noteq> None"
  shows "\<exists>b w' kvs. optimize P fid sch mx (Some ((r, ifid), lo, hi)) w = Some (Ok b, w') \<and> reads n tot V w' \<and>
    map_of kvs = m \<and> sorted_wrt (<) (map fst kvs) \<and>
    yields (reads n tot V) sch (map (\<lambda>c. the (record_of V c)) (in_range lo hi kvs)) b"
proof -
  obtain kvs w' where run: "new_index_scan P sch r ifid lo hi w = Some (Ok \<lparr>is_schema = sch, is_ctids = in_range lo hi kvs\<rparr>, w')"
    "map_of kvs = m" "sorted_wrt (<) (map fst kvs)" "reads n tot V w'"
    using new_index_scan_law [OF assms(1-5), of sch hi] by blast
  have "distinct (map fst kvs)" using run(3) strict_sorted_iff by blast
  then have "m k = Some c" if "(k, c) \<in> set kvs" for k c using that run(2) by auto
  then have "record_of V c \<noteq> None" if "(k, c) \<in> set kvs" for k c using that assms(6) by blast
  then have "index_gives sch V \<lparr>is_schema = sch, is_ctids = in_range lo hi kvs\<rparr>
      (map (\<lambda>c. the (record_of V c)) (in_range lo hi kvs))"
    using assms(6) by (auto simp: index_gives_def in_range_def)
  from executor.yields_box [OF index_scan_executor [OF assms(3)] this] run show ?thesis
    by (intro exI [of _ "box (index_scan_executor P) \<lparr>is_schema = sch, is_ctids = in_range lo hi kvs\<rparr>"] exI [of _ w']
        exI [of _ kvs]) (simp add: optimize_def act_simps)
qed

end

end
