(* ===== verification/Joins.thy ===== *)
theory Joins
  imports Executor
begin

text \<open>
  The join operators: \<open>NestedLoopJoin\<close> (\<open>executor/join.rs\<close>) and \<open>HashJoin\<close>
  (\<open>executor/hash_join.rs\<close>). Both keep the right input in memory. Their contracts say which pairs of
  rows they combine and in which order; the main result is that they agree when no key is null.
\<close>

definition joined_schema :: "schema \<Rightarrow> schema \<Rightarrow> schema" where
  "joined_schema ls rs = \<lparr>columns = columns ls @ columns rs\<rparr>"

definition combine_tuples :: "schema \<Rightarrow> schema \<Rightarrow> schema \<Rightarrow> tuple \<Rightarrow> tuple \<Rightarrow> (query_error, tuple) res" where
  "combine_tuples left_schema right_schema schema lt rt =
     res_bind (map_err QueryTuple (to_values lt left_schema)) (\<lambda>left_vals.
     res_bind (map_err QueryTuple (to_values rt right_schema)) (\<lambda>right_vals.
       map_err QueryTuple (from_values schema (left_vals @ right_vals))))"

subsection \<open>\<open>NestedLoopJoin\<close>\<close>

type_synonym join_predicate = "tuple \<Rightarrow> schema \<Rightarrow> tuple \<Rightarrow> schema \<Rightarrow> bool"

record ('l, 'r) nested_loop_join =
  nl_left :: 'l
  nl_right :: 'r
  nl_schema :: schema
  nl_tuple :: "tuple option"
  nl_tuples :: "tuple list option"
  nl_index :: nat

definition new_nested_loop_join :: "('l, 'w) executor \<Rightarrow> ('r, 'w) executor \<Rightarrow> 'l \<Rightarrow> 'r \<Rightarrow> ('l, 'r) nested_loop_join" where
  "new_nested_loop_join L R left right = \<lparr>nl_left = left, nl_right = right,
     nl_schema = joined_schema (ex_schema L left) (ex_schema R right),
     nl_tuple = None, nl_tuples = None, nl_index = 0\<rparr>"

definition nl_next_left :: "('l, 'w) executor \<Rightarrow> (('l, 'r) nested_loop_join \<times> 'w, query_error, unit) act" where
  "nl_next_left L = bnd (zoom nl_left (\<lambda>x s. s\<lparr>nl_left := x\<rparr>) (ex_next L)) (\<lambda>t (s, w). ret () (s\<lparr>nl_tuple := t\<rparr>, w))"

definition nl_init :: "('l, 'w) executor \<Rightarrow> ('r, 'w) executor \<Rightarrow> (('l, 'r) nested_loop_join \<times> 'w, query_error, unit) act" where
  "nl_init L R = (\<lambda>(s, w). if nl_tuples s \<noteq> None then ret () (s, w)
     else bnd (zoom nl_right (\<lambda>x s. s\<lparr>nl_right := x\<rparr>) (drain R []))
       (\<lambda>rt (s, w). nl_next_left L (s\<lparr>nl_tuples := Some rt\<rparr>, w)) (s, w))"

partial_function (option) nl_loop :: "('l, 'w) executor \<Rightarrow> ('r, 'w) executor \<Rightarrow> join_predicate \<Rightarrow> tuple list \<Rightarrow>
    (('l, 'r) nested_loop_join \<times> 'w, query_error, tuple option) act" where
  "nl_loop L R predicate right_tuples sw = (case nl_tuple (fst sw) of
       None \<Rightarrow> ret None sw
     | Some lt \<Rightarrow>
         if nl_index (fst sw) < length right_tuples
         then let rt = right_tuples ! nl_index (fst sw);
                  sw' = ((fst sw)\<lparr>nl_index := nl_index (fst sw) + 1\<rparr>, snd sw);
                  ls = ex_schema L (nl_left (fst sw)); rs = ex_schema R (nl_right (fst sw))
              in if predicate lt ls rt rs
                 then bnd (of_res (combine_tuples ls rs (nl_schema (fst sw)) lt rt)) (\<lambda>t. ret (Some t)) sw'
                 else nl_loop L R predicate right_tuples sw'
         else bnd (nl_next_left L) (\<lambda>_ sw'.
           nl_loop L R predicate right_tuples ((fst sw')\<lparr>nl_index := 0\<rparr>, snd sw')) sw)"

definition nested_loop_executor :: "('l, 'w) executor \<Rightarrow> ('r, 'w) executor \<Rightarrow> join_predicate \<Rightarrow>
    (('l, 'r) nested_loop_join, 'w) executor" where
  "nested_loop_executor L R predicate = \<lparr>
     ex_next = bnd (nl_init L R) (\<lambda>_ (s, w). case nl_tuples s of
         None \<Rightarrow> ret None (s, w)
       | Some right_tuples \<Rightarrow> nl_loop L R predicate right_tuples (s, w)),
     ex_schema = nl_schema\<rparr>"

subsection \<open>\<open>HashJoin\<close>\<close>

record ('l, 'r) hash_join =
  hj_left :: 'l
  hj_right :: 'r
  hj_left_col :: string
  hj_right_col :: string
  hj_schema :: schema
  hj_table :: "(sql_value \<Rightarrow> tuple list option) option"
  hj_tuple :: "tuple option"
  hj_matches :: "tuple list"
  hj_index :: nat

definition new_hash_join :: "('l, 'w) executor \<Rightarrow> ('r, 'w) executor \<Rightarrow> 'l \<Rightarrow> 'r \<Rightarrow> string \<Rightarrow> string \<Rightarrow> ('l, 'r) hash_join" where
  "new_hash_join L R left right lcol rcol = \<lparr>hj_left = left, hj_right = right,
     hj_left_col = lcol, hj_right_col = rcol,
     hj_schema = joined_schema (ex_schema L left) (ex_schema R right),
     hj_table = None, hj_tuple = None, hj_matches = [], hj_index = 0\<rparr>"

text \<open>\<open>hash_table.entry(val).or_default().push(t)\<close>\<close>

definition push_entry :: "sql_value \<Rightarrow> tuple \<Rightarrow> (sql_value \<Rightarrow> tuple list option) \<Rightarrow> sql_value \<Rightarrow> tuple list option" where
  "push_entry val t ht = ht(val \<mapsto> (case ht val of None \<Rightarrow> [] | Some ts \<Rightarrow> ts) @ [t])"

partial_function (option) hash_rows :: "('r, 'w) executor \<Rightarrow> schema \<Rightarrow> nat \<Rightarrow> (sql_value \<Rightarrow> tuple list option) \<Rightarrow>
    ('r \<times> 'w, query_error, sql_value \<Rightarrow> tuple list option) act" where
  "hash_rows R right_schema right_idx ht s = bnd (ex_next R) (\<lambda>r. case r of
       None \<Rightarrow> ret ht
     | Some t \<Rightarrow> bnd (of_res (map_err QueryTuple (to_values t right_schema))) (\<lambda>vals s.
         hash_rows R right_schema right_idx
           (if right_idx < length vals then push_entry (vals ! right_idx) t ht else ht) s)) s"

definition build_hash_table :: "('r, 'w) executor \<Rightarrow> (('l, 'r) hash_join \<times> 'w, query_error, unit) act" where
  "build_hash_table R = (\<lambda>(s, w).
     let right_schema = ex_schema R (hj_right s) in
     bnd (of_res (ok_or (col_position (hj_right_col s) right_schema)
            (Execution (''Right column '' @ hj_right_col s @ '' not found'')))) (\<lambda>right_idx.
     bnd (zoom hj_right (\<lambda>x s. s\<lparr>hj_right := x\<rparr>) (hash_rows R right_schema right_idx Map.empty)) (\<lambda>ht (s, w).
       ret () (s\<lparr>hj_table := Some ht\<rparr>, w))) (s, w))"

text \<open>The matches of a left row: those of its key in the table.\<close>

definition lookup_matches :: "('l, 'w) executor \<Rightarrow> ('l, 'r) hash_join \<Rightarrow> tuple \<Rightarrow> (query_error, tuple list) res" where
  "lookup_matches L s lt =
     (let left_schema = ex_schema L (hj_left s) in
      res_bind (ok_or (col_position (hj_left_col s) left_schema)
        (Execution (''Left column '' @ hj_left_col s @ '' not found''))) (\<lambda>left_idx.
      res_bind (map_err QueryTuple (to_values lt left_schema)) (\<lambda>vals.
        Ok (if left_idx < length vals
            then (case Option.bind (hj_table s) (\<lambda>ht. ht (vals ! left_idx)) of None \<Rightarrow> [] | Some ts \<Rightarrow> ts)
            else []))))"

partial_function (option) hj_loop :: "('l, 'w) executor \<Rightarrow> ('r, 'w) executor \<Rightarrow>
    (('l, 'r) hash_join \<times> 'w, query_error, tuple option) act" where
  "hj_loop L R sw =
     (case (if hj_index (fst sw) < length (hj_matches (fst sw)) then hj_tuple (fst sw) else None) of
        Some lt \<Rightarrow>
          bnd (of_res (combine_tuples (ex_schema L (hj_left (fst sw))) (ex_schema R (hj_right (fst sw)))
                 (hj_schema (fst sw)) lt (hj_matches (fst sw) ! hj_index (fst sw)))) (\<lambda>t. ret (Some t))
            ((fst sw)\<lparr>hj_index := hj_index (fst sw) + 1\<rparr>, snd sw)
      | None \<Rightarrow>
          bnd (zoom hj_left (\<lambda>x s. s\<lparr>hj_left := x\<rparr>) (ex_next L)) (\<lambda>r. case r of
              None \<Rightarrow> ret None
            | Some lt \<Rightarrow> (\<lambda>sw. bnd (of_res (lookup_matches L (fst sw) lt)) (\<lambda>ts sw.
                hj_loop L R ((fst sw)\<lparr>hj_matches := ts, hj_tuple := Some lt\<rparr>, snd sw)) sw))
            ((fst sw)\<lparr>hj_matches := [], hj_index := 0\<rparr>, snd sw))"

definition hash_join_executor :: "('l, 'w) executor \<Rightarrow> ('r, 'w) executor \<Rightarrow> (('l, 'r) hash_join, 'w) executor" where
  "hash_join_executor L R = \<lparr>
     ex_next = (\<lambda>(s, w). bnd (if hj_table s = None then build_hash_table R else ret ()) (\<lambda>_. hj_loop L R) (s, w)),
     ex_schema = hj_schema\<rparr>"

subsection \<open>The contracts\<close>

text \<open>The rows a join hands out: the combinations of the matching pairs, left rows outermost.\<close>

definition match_pairs :: "(tuple \<Rightarrow> tuple \<Rightarrow> bool) \<Rightarrow> tuple list \<Rightarrow> tuple list \<Rightarrow> (tuple \<times> tuple) list" where
  "match_pairs mt xs ys = concat (map (\<lambda>x. map (Pair x) (filter (mt x) ys)) xs)"

definition combines :: "schema \<Rightarrow> schema \<Rightarrow> (tuple \<times> tuple) list \<Rightarrow> tuple list \<Rightarrow> bool" where
  "combines sl sr ps zs \<longleftrightarrow> list_all2 (\<lambda>(x, y) z. combine_tuples sl sr (joined_schema sl sr) x y = Ok z) ps zs"

lemma match_pairs_simps [simp]:
  "match_pairs mt [] ys = []"
  "match_pairs mt (x # xs) ys = map (Pair x) (filter (mt x) ys) @ match_pairs mt xs ys"
  by (simp_all add: match_pairs_def)

lemma combines_Nil [simp]: "combines sl sr [] zs \<longleftrightarrow> zs = []"
  by (simp add: combines_def)

lemma combines_Cons:
  "combines sl sr ((x, y) # ps) zs \<longleftrightarrow>
     (\<exists>z zs'. zs = z # zs' \<and> combine_tuples sl sr (joined_schema sl sr) x y = Ok z \<and> combines sl sr ps zs')"
  by (auto simp: combines_def list_all2_Cons1)

definition decodable :: "schema \<Rightarrow> tuple list \<Rightarrow> bool" where
  "decodable sch ts \<longleftrightarrow> (\<forall>t \<in> set ts. \<exists>vs. to_values t sch = Ok vs)"

definition key_at :: "schema \<Rightarrow> nat \<Rightarrow> tuple \<Rightarrow> sql_value" where
  "key_at sch i t = (case to_values t sch of Ok vs \<Rightarrow> vs ! i | _ \<Rightarrow> Null)"

definition bucket :: "(sql_value \<Rightarrow> tuple list option) \<Rightarrow> sql_value \<Rightarrow> tuple list" where
  "bucket ht v = (case ht v of None \<Rightarrow> [] | Some ts \<Rightarrow> ts)"

lemma bucket_push: "bucket (push_entry k t ht) v = bucket ht v @ (if v = k then [t] else [])"
  by (auto simp: bucket_def push_entry_def)

locale join_inputs = L: executor L good givesl sl + R: executor R good givesr sr
  for L :: "('l, 'w) executor" and R :: "('r, 'w) executor" and good givesl givesr sl sr
begin

subsubsection \<open>Nested loops\<close>

definition nl_state :: "join_predicate \<Rightarrow> tuple list \<Rightarrow> tuple list \<Rightarrow> ('l, 'r) nested_loop_join \<Rightarrow> tuple list \<Rightarrow> bool" where
  "nl_state p rts xs s zs \<longleftrightarrow> nl_schema s = joined_schema sl sr \<and> (\<exists>rs. givesr (nl_right s) rs) \<and>
     givesl (nl_left s) xs \<and> nl_index s \<le> length rts \<and> (case nl_tuple s of None \<Rightarrow> zs = []
       | Some lt \<Rightarrow> combines sl sr (map (Pair lt) (filter (\<lambda>y. p lt sl y sr) (drop (nl_index s) rts)) @
           match_pairs (\<lambda>x y. p x sl y sr) xs rts) zs)"

definition nl_gives :: "join_predicate \<Rightarrow> ('l, 'r) nested_loop_join \<Rightarrow> tuple list \<Rightarrow> bool" where
  "nl_gives p s zs \<longleftrightarrow> (case nl_tuples s of
       Some rts \<Rightarrow> \<exists>xs. nl_state p rts xs s zs
     | None \<Rightarrow> nl_schema s = joined_schema sl sr \<and> nl_index s = 0 \<and>
         (\<exists>xs ys. givesl (nl_left s) xs \<and> givesr (nl_right s) ys \<and>
           combines sl sr (match_pairs (\<lambda>x y. p x sl y sr) xs ys) zs))"

lemma nl_next_left_law:
  assumes w: "good w" and xs: "givesl (nl_left s) xs"
  shows "\<exists>l w'. nl_next_left L (s, w) = Some (Ok (), (s\<lparr>nl_left := l, nl_tuple := hd_opt xs\<rparr>, w')) \<and> good w' \<and> givesl l (tl xs)"
proof -
  obtain l w' where 1: "ex_next L (nl_left s, w) = Some (Ok (hd_opt xs), (l, w'))" "good w'" "givesl l (tl xs)"
    using L.next_law [OF w xs] by blast
  have "zoom nl_left (\<lambda>x s. s\<lparr>nl_left := x\<rparr>) (ex_next L) (s, w) = Some (Ok (hd_opt xs), (s\<lparr>nl_left := l\<rparr>, w'))"
    by (rule zoom_app) (rule 1)
  with 1 show ?thesis by (auto simp: nl_next_left_def act_simps)
qed

lemma nl_scan:
  assumes lt: "nl_tuple s = Some lt" and l: "givesl (nl_left s) xs" and r: "givesr (nl_right s) rs"
    and idx: "nl_index s \<le> length rts"
  shows "case filter (\<lambda>y. p lt sl y sr) (drop (nl_index s) rts) of
      [] \<Rightarrow> nl_loop L R p rts (s, w) = nl_loop L R p rts (s\<lparr>nl_index := length rts\<rparr>, w)
    | y # ys \<Rightarrow> \<exists>j \<le> length rts. ys = filter (\<lambda>y. p lt sl y sr) (drop j rts) \<and>
        nl_loop L R p rts (s, w) = bnd (of_res (combine_tuples sl sr (nl_schema s) lt y)) (\<lambda>t. ret (Some t)) (s\<lparr>nl_index := j\<rparr>, w)"
  using assms
proof (induction "length rts - nl_index s" arbitrary: s)
  case 0
  then show ?case by simp
next
  case (Suc n)
  let ?i = "nl_index s" and ?s = "s\<lparr>nl_index := nl_index s + 1\<rparr>"
  have i: "?i < length rts" using Suc.hyps(2) by simp
  have d: "drop ?i rts = rts ! ?i # drop (Suc ?i) rts" by (simp add: Cons_nth_drop_Suc i)
  have step: "nl_loop L R p rts (s, w) =
      (if p lt sl (rts ! ?i) sr
       then bnd (of_res (combine_tuples sl sr (nl_schema s) lt (rts ! ?i))) (\<lambda>t. ret (Some t)) (?s, w)
       else nl_loop L R p rts (?s, w))"
    by (subst nl_loop.simps) (simp add: Suc.prems(1) i L.schema_law [OF Suc.prems(2)] R.schema_law [OF Suc.prems(3)] Let_def)
  show ?case
  proof (cases "p lt sl (rts ! ?i) sr")
    case True
    then show ?thesis using step i by (simp add: d) (intro exI [of _ "Suc ?i"], simp)
  next
    case False
    have "n = length rts - nl_index ?s" using Suc.hyps(2) by simp
    note IH = Suc.hyps(1) [OF this, simplified, OF Suc.prems(1-3)]
    show ?thesis
      using IH i False step by (cases "filter (\<lambda>y. p lt sl y sr) (drop (Suc ?i) rts)") (simp_all add: d)
  qed
qed

text \<open>One run of the loop: a row of the current left tuple, the end, or the next left tuple.\<close>

lemma nl_loop_cases:
  assumes w: "good w" and st: "nl_state p rts xs s zs"
  obtains (row) s' where "nl_loop L R p rts (s, w) = Some (Ok (hd_opt zs), (s', w))" "nl_state p rts xs s' (tl zs)"
      "nl_tuples s' = nl_tuples s"
  | (stop) "nl_loop L R p rts (s, w) = Some (Ok None, (s, w))" "zs = []"
  | (next_left) s' w' where "nl_loop L R p rts (s, w) = nl_loop L R p rts (s', w')" "good w'"
      "nl_state p rts (tl xs) s' zs" "nl_tuples s' = nl_tuples s" "nl_tuple s' = hd_opt xs"
proof (cases "nl_tuple s")
  case None
  then show thesis using st by (intro stop) (subst nl_loop.simps, simp_all add: act_simps nl_state_def)
next
  case (Some lt)
  obtain rs where s: "nl_schema s = joined_schema sl sr" "givesr (nl_right s) rs" "givesl (nl_left s) xs"
    "nl_index s \<le> length rts" "combines sl sr (map (Pair lt) (filter (\<lambda>y. p lt sl y sr) (drop (nl_index s) rts)) @
           match_pairs (\<lambda>x y. p x sl y sr) xs rts) zs"
    using st Some by (auto simp: nl_state_def)
  note scan = nl_scan [OF Some s(3,2,4), of p w]
  show thesis
  proof (cases "filter (\<lambda>y. p lt sl y sr) (drop (nl_index s) rts)")
    case Nil
    let ?s = "s\<lparr>nl_index := length rts\<rparr>"
    have "givesl (nl_left ?s) xs" using s(3) by simp
    from nl_next_left_law [OF w this] obtain l w' where
      n: "nl_next_left L (?s, w) = Some (Ok (), (?s\<lparr>nl_left := l, nl_tuple := hd_opt xs\<rparr>, w'))" "good w'" "givesl l (tl xs)" by blast
    let ?s' = "s\<lparr>nl_left := l, nl_tuple := hd_opt xs, nl_index := 0\<rparr>"
    have "nl_loop L R p rts (s, w) = nl_loop L R p rts (?s, w)" using scan Nil by simp
    also have "\<dots> = nl_loop L R p rts (?s', w')"
      by (subst nl_loop.simps) (simp add: Some act_simps n(1))
    finally have "nl_loop L R p rts (s, w) = nl_loop L R p rts (?s', w')" .
    moreover have "nl_state p rts (tl xs) ?s' zs"
      using s n(3) Nil by (cases xs) (auto simp: nl_state_def)
    ultimately show thesis using n(2) by (intro next_left [of ?s' w']) simp_all
  next
    case (Cons y ys)
    then obtain j where j: "j \<le> length rts" "ys = filter (\<lambda>y. p lt sl y sr) (drop j rts)"
      "nl_loop L R p rts (s, w) = bnd (of_res (combine_tuples sl sr (nl_schema s) lt y)) (\<lambda>t. ret (Some t)) (s\<lparr>nl_index := j\<rparr>, w)"
      using scan by auto
    obtain z zs' where z: "zs = z # zs'" "combine_tuples sl sr (joined_schema sl sr) lt y = Ok z"
      "combines sl sr (map (Pair lt) ys @ match_pairs (\<lambda>x y. p x sl y sr) xs rts) zs'"
      using s(5) Cons by (auto simp: combines_Cons)
    have "nl_state p rts xs (s\<lparr>nl_index := j\<rparr>) zs'" using s z(3) j(1,2) Some by (auto simp: nl_state_def)
    then show thesis using j(3) z(1,2) s(1) by (intro row [of "s\<lparr>nl_index := j\<rparr>"]) (simp_all add: act_simps)
  qed
qed

lemma nl_loop_law:
  assumes "good w" and "nl_state p rts xs s zs"
  shows "\<exists>s' w' xs'. nl_loop L R p rts (s, w) = Some (Ok (hd_opt zs), (s', w')) \<and> good w' \<and>
      nl_state p rts xs' s' (tl zs) \<and> nl_tuples s' = nl_tuples s"
  using assms
proof (induction xs arbitrary: s w)
  case (Nil s w)
  from Nil show ?case
  proof (cases rule: nl_loop_cases)
    case (next_left s' w')
    have "nl_loop L R p rts (s', w') = Some (Ok None, (s', w'))"
      by (subst nl_loop.simps) (simp add: next_left(5) act_simps)
    moreover have "zs = []" using next_left(3,5) by (simp add: nl_state_def)
    ultimately show ?thesis using next_left by auto
  qed (use Nil in fastforce)+
next
  case (Cons x xs s w)
  from Cons.prems show ?case
  proof (cases rule: nl_loop_cases)
    case (next_left s' w')
    from Cons.IH [OF next_left(2), of s'] next_left(1,3,4) show ?thesis by simp
  qed (use Cons.prems in fastforce)+
qed

lemma nested_loop_executor: "executor (nested_loop_executor L R p) good (nl_gives p) (joined_schema sl sr)"
proof
  fix w s zs assume w: "good w" and g: "nl_gives p s zs"
  show "\<exists>s' w'. ex_next (nested_loop_executor L R p) (s, w) = Some (Ok (hd_opt zs), (s', w')) \<and> good w' \<and> nl_gives p s' (tl zs)"
  proof (cases "nl_tuples s")
    case (Some rts)
    then obtain xs where "nl_state p rts xs s zs" using g by (auto simp: nl_gives_def)
    from nl_loop_law [OF w this] obtain s' w' xs' where 1: "nl_loop L R p rts (s, w) = Some (Ok (hd_opt zs), (s', w'))"
      "good w'" "nl_state p rts xs' s' (tl zs)" "nl_tuples s' = nl_tuples s" by blast
    have "nl_init L R (s, w) = Some (Ok (), (s, w))" by (simp add: nl_init_def Some act_simps)
    then have "ex_next (nested_loop_executor L R p) (s, w) = Some (Ok (hd_opt zs), (s', w'))"
      by (simp add: nested_loop_executor_def act_simps Some 1(1))
    with 1 Some show ?thesis by (auto simp: nl_gives_def)
  next
    case None
    then obtain xs ys where s: "nl_schema s = joined_schema sl sr" "nl_index s = 0" "givesl (nl_left s) xs"
      "givesr (nl_right s) ys" "combines sl sr (match_pairs (\<lambda>x y. p x sl y sr) xs ys) zs"
      using g by (auto simp: nl_gives_def)
    obtain r w1 where r: "drain R [] (nl_right s, w) = Some (Ok ys, (r, w1))" "good w1" "givesr r []"
      using R.drain_law [OF w s(4), of "[]"] by auto
    let ?s1 = "s\<lparr>nl_right := r, nl_tuples := Some ys\<rparr>"
    have z: "zoom nl_right (\<lambda>x s. s\<lparr>nl_right := x\<rparr>) (drain R []) (s, w) = Some (Ok ys, (s\<lparr>nl_right := r\<rparr>, w1))"
      by (rule zoom_app) (rule r)
    have "givesl (nl_left ?s1) xs" using s(3) by simp
    from nl_next_left_law [OF r(2) this] obtain l w2 where
      n: "nl_next_left L (?s1, w1) = Some (Ok (), (?s1\<lparr>nl_left := l, nl_tuple := hd_opt xs\<rparr>, w2))" "good w2" "givesl l (tl xs)" by blast
    let ?s2 = "?s1\<lparr>nl_left := l, nl_tuple := hd_opt xs\<rparr>"
    have i: "nl_init L R (s, w) = Some (Ok (), (?s2, w2))" by (simp add: nl_init_def None act_simps z n(1))
    have "nl_state p ys (tl xs) ?s2 zs"
      using s r(3) n(3) by (cases xs) (auto simp: nl_state_def)
    from nl_loop_law [OF n(2) this] obtain s' w' xs' where 1: "nl_loop L R p ys (?s2, w2) = Some (Ok (hd_opt zs), (s', w'))"
      "good w'" "nl_state p ys xs' s' (tl zs)" "nl_tuples s' = nl_tuples ?s2" by blast
    have "ex_next (nested_loop_executor L R p) (s, w) = Some (Ok (hd_opt zs), (s', w'))"
      by (simp add: nested_loop_executor_def act_simps i 1(1))
    with 1 show ?thesis by (auto simp: nl_gives_def)
  qed
next
  fix s zs assume "nl_gives p s zs"
  then show "ex_schema (nested_loop_executor L R p) s = joined_schema sl sr"
    by (auto simp: nl_gives_def nl_state_def nested_loop_executor_def split: option.splits)
qed

lemma new_nested_loop_gives:
  assumes "givesl l xs" and "givesr r ys" and "combines sl sr (match_pairs (\<lambda>x y. p x sl y sr) xs ys) zs"
  shows "nl_gives p (new_nested_loop_join L R l r) zs"
  using assms L.schema_law [OF assms(1)] R.schema_law [OF assms(2)]
  by (auto simp: nl_gives_def new_nested_loop_join_def)

subsubsection \<open>Hash join\<close>

definition hj_state :: "nat \<Rightarrow> nat \<Rightarrow> tuple list \<Rightarrow> tuple list \<Rightarrow> ('l, 'r) hash_join \<Rightarrow> tuple list \<Rightarrow> bool" where
  "hj_state i j ys xs s zs \<longleftrightarrow> hj_schema s = joined_schema sl sr \<and> (\<exists>rs. givesr (hj_right s) rs) \<and>
     givesl (hj_left s) xs \<and> col_position (hj_left_col s) sl = Some i \<and> decodable sl xs \<and>
     (\<exists>ht. hj_table s = Some ht \<and> (\<forall>v. bucket ht v = filter (\<lambda>y. key_at sr j y = v) ys)) \<and>
     combines sl sr ((case hj_tuple s of None \<Rightarrow> [] | Some lt \<Rightarrow> map (Pair lt) (drop (hj_index s) (hj_matches s))) @
        match_pairs (\<lambda>x y. key_at sl i x = key_at sr j y) xs ys) zs"

definition hj_gives :: "('l, 'r) hash_join \<Rightarrow> tuple list \<Rightarrow> bool" where
  "hj_gives s zs \<longleftrightarrow> (if hj_table s \<noteq> None then \<exists>i j ys xs. hj_state i j ys xs s zs
     else hj_schema s = joined_schema sl sr \<and> hj_tuple s = None \<and> hj_matches s = [] \<and>
       (\<exists>i j xs ys. col_position (hj_left_col s) sl = Some i \<and> col_position (hj_right_col s) sr = Some j \<and>
         givesl (hj_left s) xs \<and> givesr (hj_right s) ys \<and> decodable sl xs \<and> decodable sr ys \<and>
         combines sl sr (match_pairs (\<lambda>x y. key_at sl i x = key_at sr j y) xs ys) zs))"

lemma hash_rows_law:
  assumes "good w" and "givesr r ys" and "decodable sr ys" and "j < length (columns sr)"
  shows "\<exists>ht' r' w'. hash_rows R sr j ht (r, w) = Some (Ok ht', (r', w')) \<and> good w' \<and> givesr r' [] \<and>
      (\<forall>v. bucket ht' v = bucket ht v @ filter (\<lambda>y. key_at sr j y = v) ys)"
  using assms(1-3)
proof (induction ys arbitrary: r w ht)
  case (Nil r w ht)
  obtain r' w' where "ex_next R (r, w) = Some (Ok None, (r', w'))" "good w'" "givesr r' []"
    by (rule R.next_None [OF Nil(1,2)])
  then show ?case by (subst hash_rows.simps) (simp add: act_simps)
next
  case (Cons y ys r w ht)
  obtain r' w' where 1: "ex_next R (r, w) = Some (Ok (Some y), (r', w'))" "good w'" "givesr r' ys"
    by (rule R.next_Some [OF Cons.prems(1,2)])
  obtain vs where vs: "to_values y sr = Ok vs" using Cons.prems(3) by (auto simp: decodable_def)
  have jl: "j < length vs" using to_values_length [OF vs] assms(4) by simp
  have k: "key_at sr j y = vs ! j" using vs by (simp add: key_at_def)
  have "decodable sr ys" using Cons.prems(3) by (simp add: decodable_def)
  from Cons.IH [OF 1(2,3) this, of "push_entry (vs ! j) y ht"] obtain ht' r2 w2 where
    2: "hash_rows R sr j (push_entry (vs ! j) y ht) (r', w') = Some (Ok ht', (r2, w2))" "good w2" "givesr r2 []"
    "\<forall>v. bucket ht' v = bucket (push_entry (vs ! j) y ht) v @ filter (\<lambda>y. key_at sr j y = v) ys" by blast
  have "hash_rows R sr j ht (r, w) = Some (Ok ht', (r2, w2))"
    by (subst hash_rows.simps) (simp add: act_simps 1(1) vs jl 2(1))
  moreover have "bucket ht' v = bucket ht v @ filter (\<lambda>y. key_at sr j y = v) (y # ys)" for v
    using 2(4) k by (simp add: bucket_push)
  ultimately show ?case using 2(2,3) by blast
qed

lemma hj_loop_cases:
  assumes w: "good w" and st: "hj_state i j ys xs s zs"
  obtains (row) s' where "hj_loop L R (s, w) = Some (Ok (hd_opt zs), (s', w))" "hj_state i j ys xs s' (tl zs)"
  | (stop) s' w' where "hj_loop L R (s, w) = Some (Ok None, (s', w'))" "good w'" "zs = []" "hj_state i j ys [] s' []"
  | (next_left) s' w' where "hj_loop L R (s, w) = hj_loop L R (s', w')" "good w'" "xs \<noteq> []" "hj_state i j ys (tl xs) s' zs"
proof -
  let ?mt = "\<lambda>x y. key_at sl i x = key_at sr j y"
  obtain rs ht where s: "hj_schema s = joined_schema sl sr" "givesr (hj_right s) rs" "givesl (hj_left s) xs"
    "col_position (hj_left_col s) sl = Some i" "decodable sl xs"
    and ht: "hj_table s = Some ht" "\<forall>v. bucket ht v = filter (\<lambda>y. key_at sr j y = v) ys"
    and zs: "combines sl sr ((case hj_tuple s of None \<Rightarrow> [] | Some lt \<Rightarrow> map (Pair lt) (drop (hj_index s) (hj_matches s))) @
        match_pairs ?mt xs ys) zs"
    using st by (auto simp: hj_state_def)
  show thesis
  proof (cases "if hj_index s < length (hj_matches s) then hj_tuple s else None")
    case (Some lt)
    then have lt: "hj_index s < length (hj_matches s)" "hj_tuple s = Some lt" by (simp_all split: if_splits)
    let ?k = "hj_index s" and ?s = "s\<lparr>hj_index := hj_index s + 1\<rparr>"
    have "drop ?k (hj_matches s) = hj_matches s ! ?k # drop (Suc ?k) (hj_matches s)" by (simp add: Cons_nth_drop_Suc lt(1))
    then obtain z zs' where z: "zs = z # zs'" "combine_tuples sl sr (joined_schema sl sr) lt (hj_matches s ! ?k) = Ok z"
      "combines sl sr (map (Pair lt) (drop (Suc ?k) (hj_matches s)) @ match_pairs ?mt xs ys) zs'"
      using zs lt(2) by (auto simp: combines_Cons)
    have "hj_loop L R (s, w) = Some (Ok (Some z), (?s, w))"
      by (subst hj_loop.simps)
        (simp add: lt act_simps L.schema_law [OF s(3)] R.schema_law [OF s(2)] s(1) z(2))
    moreover have "hj_state i j ys xs ?s zs'" using s ht z(3) lt by (auto simp: hj_state_def)
    ultimately show thesis using z(1) by (intro row [of ?s]) simp_all
  next
    case None
    then have none: "(case hj_tuple s of None \<Rightarrow> [] | Some lt \<Rightarrow> map (Pair lt) (drop (hj_index s) (hj_matches s))) = []"
      by (auto split: option.split if_splits)
    let ?s = "s\<lparr>hj_matches := [], hj_index := 0\<rparr>"
    obtain l w' where l: "ex_next L (hj_left s, w) = Some (Ok (hd_opt xs), (l, w'))" "good w'" "givesl l (tl xs)"
      using L.next_law [OF w s(3)] by blast
    have "ex_next L (hj_left ?s, w) = Some (Ok (hd_opt xs), (l, w'))" using l(1) by simp
    then have zm: "zoom hj_left (\<lambda>x s. s\<lparr>hj_left := x\<rparr>) (ex_next L) (?s, w) = Some (Ok (hd_opt xs), (?s\<lparr>hj_left := l\<rparr>, w'))"
      by (rule zoom_app)
    show thesis
    proof (cases xs)
      case Nil
      have "hj_loop L R (s, w) = Some (Ok None, (?s\<lparr>hj_left := l\<rparr>, w'))"
        by (subst hj_loop.simps, unfold fst_conv snd_conv None option.case) (simp add: act_simps zm [unfolded Nil])
      moreover have "zs = []" using zs none Nil by simp
      moreover have "hj_state i j ys [] (?s\<lparr>hj_left := l\<rparr>) []"
        using s ht l(3) Nil by (auto simp: hj_state_def decodable_def split: option.split)
      ultimately show thesis using l(2) by (intro stop)
    next
      case (Cons x xs')
      obtain vs where vs: "to_values x sl = Ok vs" using s(5) Cons by (auto simp: decodable_def)
      have il: "i < length vs" using to_values_length [OF vs] col_position_bound [OF s(4)] by simp
      let ?s1 = "?s\<lparr>hj_left := l\<rparr>" and ?ms = "filter (?mt x) ys"
      have "bucket ht (vs ! i) = ?ms" using ht(2) vs by (auto simp: key_at_def intro: filter_cong)
      then have lk: "lookup_matches L ?s1 x = Ok ?ms"
        using s(4) vs il ht(1) L.schema_law [OF l(3)] by (simp add: lookup_matches_def bucket_def Let_def)
      let ?s2 = "?s1\<lparr>hj_matches := ?ms, hj_tuple := Some x\<rparr>"
      have "hj_loop L R (s, w) = hj_loop L R (?s2, w')"
        by (subst hj_loop.simps, unfold fst_conv snd_conv None option.case) (simp add: act_simps zm [unfolded Cons] lk)
      moreover have "hj_state i j ys (tl xs) ?s2 zs"
        using s ht l(3) Cons zs none by (auto simp: hj_state_def decodable_def)
      ultimately show thesis using l(2) Cons by (intro next_left [of ?s2 w']) simp_all
    qed
  qed
qed

lemma hj_loop_law:
  assumes "good w" and "hj_state i j ys xs s zs"
  shows "\<exists>s' w' xs'. hj_loop L R (s, w) = Some (Ok (hd_opt zs), (s', w')) \<and> good w' \<and> hj_state i j ys xs' s' (tl zs)"
  using assms
proof (induction xs arbitrary: s w)
  case (Nil s w)
  from Nil show ?case by (cases rule: hj_loop_cases) (use Nil in fastforce)+
next
  case (Cons x xs s w)
  from Cons.prems show ?case
  proof (cases rule: hj_loop_cases)
    case (next_left s' w')
    from Cons.IH [OF next_left(2), of s'] next_left(1,4) show ?thesis by simp
  qed (use Cons.prems in fastforce)+
qed

lemma hj_state_table: "hj_state i j ys xs s zs \<Longrightarrow> hj_table s \<noteq> None"
  by (auto simp: hj_state_def)

lemma hash_join_executor: "executor (hash_join_executor L R) good hj_gives (joined_schema sl sr)"
proof
  fix w s zs assume w: "good w" and g: "hj_gives s zs"
  show "\<exists>s' w'. ex_next (hash_join_executor L R) (s, w) = Some (Ok (hd_opt zs), (s', w')) \<and> good w' \<and> hj_gives s' (tl zs)"
  proof (cases "hj_table s = None")
    case False
    then obtain i j ys xs where "hj_state i j ys xs s zs" using g by (auto simp: hj_gives_def)
    from hj_loop_law [OF w this] obtain s' w' xs' where 1: "hj_loop L R (s, w) = Some (Ok (hd_opt zs), (s', w'))" "good w'"
      "hj_state i j ys xs' s' (tl zs)" by blast
    have "ex_next (hash_join_executor L R) (s, w) = Some (Ok (hd_opt zs), (s', w'))"
      using False 1(1) by (auto simp: hash_join_executor_def act_simps)
    with 1 hj_state_table [OF 1(3)] show ?thesis by (auto simp: hj_gives_def)
  next
    case True
    then obtain i j xs ys where s: "hj_schema s = joined_schema sl sr" "hj_tuple s = None" "hj_matches s = []"
      "col_position (hj_left_col s) sl = Some i" "col_position (hj_right_col s) sr = Some j"
      "givesl (hj_left s) xs" "givesr (hj_right s) ys" "decodable sl xs" "decodable sr ys"
      "combines sl sr (match_pairs (\<lambda>x y. key_at sl i x = key_at sr j y) xs ys) zs"
      using g by (auto simp: hj_gives_def)
    from hash_rows_law [OF w s(7,9) col_position_bound [OF s(5)], of Map.empty] obtain ht r w1 where
      r: "hash_rows R sr j Map.empty (hj_right s, w) = Some (Ok ht, (r, w1))" "good w1" "givesr r []"
      "\<forall>v. bucket ht v = filter (\<lambda>y. key_at sr j y = v) ys" by (auto simp: bucket_def)
    let ?s1 = "s\<lparr>hj_right := r, hj_table := Some ht\<rparr>"
    have "zoom hj_right (\<lambda>x s. s\<lparr>hj_right := x\<rparr>) (hash_rows R sr j Map.empty) (s, w) = Some (Ok ht, (s\<lparr>hj_right := r\<rparr>, w1))"
      by (rule zoom_app) (rule r)
    then have b: "build_hash_table R (s, w) = Some (Ok (), (?s1, w1))"
      by (simp add: build_hash_table_def R.schema_law [OF s(7)] s(5) act_simps Let_def)
    have "hj_state i j ys xs ?s1 zs" using s r by (auto simp: hj_state_def)
    from hj_loop_law [OF r(2) this] obtain s' w' xs' where 1: "hj_loop L R (?s1, w1) = Some (Ok (hd_opt zs), (s', w'))" "good w'"
      "hj_state i j ys xs' s' (tl zs)" by blast
    have "ex_next (hash_join_executor L R) (s, w) = Some (Ok (hd_opt zs), (s', w'))"
      using True 1(1) b by (simp add: hash_join_executor_def act_simps)
    with 1 hj_state_table [OF 1(3)] show ?thesis by (auto simp: hj_gives_def)
  qed
next
  fix s zs assume "hj_gives s zs"
  then show "ex_schema (hash_join_executor L R) s = joined_schema sl sr"
    by (auto simp: hj_gives_def hj_state_def hash_join_executor_def split: if_splits)
qed

lemma new_hash_join_gives:
  assumes "givesl l xs" and "givesr r ys" and "decodable sl xs" and "decodable sr ys"
    and "col_position lcol sl = Some i" and "col_position rcol sr = Some j"
    and "combines sl sr (match_pairs (\<lambda>x y. key_at sl i x = key_at sr j y) xs ys) zs"
  shows "hj_gives (new_hash_join L R l r lcol rcol) zs"
  using assms L.schema_law [OF assms(1)] R.schema_law [OF assms(2)]
  by (auto simp: hj_gives_def new_hash_join_def)

end

text \<open>Joins of boxed operators, as \<open>build_join_pipeline\<close> makes them.\<close>

interpretation bj: join_inputs dyn_executor dyn_executor good "\<lambda>b ts. yields good sl ts b" "\<lambda>b ts. yields good sr ts b" sl sr
  for good sl sr
  by (rule join_inputs.intro) (rule dyn_executor)+

subsection \<open>The two joins compared\<close>

text \<open>The predicate \<open>build_join_pipeline\<close> (\<open>commands/query.rs\<close>) gives to the nested loop join.\<close>

definition equi_predicate :: "string \<Rightarrow> string \<Rightarrow> join_predicate" where
  "equi_predicate lcol rcol lt ls rt rs = (case to_values lt ls of
       Ok l_vals \<Rightarrow> (case to_values rt rs of
           Ok r_vals \<Rightarrow> (case col_position lcol ls of
               None \<Rightarrow> False
             | Some l_idx \<Rightarrow> (case col_position rcol rs of
                   None \<Rightarrow> False
                 | Some r_idx \<Rightarrow> (case (l_vals ! l_idx, r_vals ! r_idx) of
                       (Integer a, Integer b) \<Rightarrow> a = b
                     | (Varchar a, Varchar b) \<Rightarrow> a = b
                     | (Boolean a, Boolean b) \<Rightarrow> a = b
                     | _ \<Rightarrow> False)))
         | _ \<Rightarrow> False)
     | _ \<Rightarrow> False)"

lemma equi_predicate_key:
  assumes "decodable sl [x]" and "decodable sr [y]" and "col_position lcol sl = Some i" and "col_position rcol sr = Some j"
  shows "equi_predicate lcol rcol x sl y sr \<longleftrightarrow> key_at sl i x = key_at sr j y \<and> key_at sl i x \<noteq> Null"
proof -
  obtain lv rv where v: "to_values x sl = Ok lv" "to_values y sr = Ok rv" using assms(1,2) by (auto simp: decodable_def)
  show ?thesis
    using assms(3,4) v by (auto simp: equi_predicate_def key_at_def split: sql_value.split)
qed

lemma match_pairs_cong:
  "(\<And>x y. x \<in> set xs \<Longrightarrow> y \<in> set ys \<Longrightarrow> m x y = m' x y) \<Longrightarrow> match_pairs m xs ys = match_pairs m' xs ys"
  by (induction xs) (auto cong: filter_cong)

lemma combines_exists:
  assumes "\<forall>(x, y) \<in> set ps. \<exists>z. combine_tuples sl sr (joined_schema sl sr) x y = Ok z"
  shows "\<exists>zs. combines sl sr ps zs"
  using assms
proof (induction ps)
  case (Cons xy ps)
  then obtain zs where "combines sl sr ps zs" by auto
  moreover obtain x y z where "xy = (x, y)" "combine_tuples sl sr (joined_schema sl sr) x y = Ok z"
    using Cons.prems by (cases xy) auto
  ultimately show ?case by (intro exI [of _ "z # zs"]) (simp add: combines_Cons)
qed (intro exI [of _ "[]"], simp)

definition hash_join_box :: "string \<Rightarrow> string \<Rightarrow> 'w boxed \<Rightarrow> 'w boxed \<Rightarrow> 'w boxed" where
  "hash_join_box lcol rcol l r = box (hash_join_executor dyn_executor dyn_executor)
     (new_hash_join dyn_executor dyn_executor l r lcol rcol)"

definition nested_loop_box :: "join_predicate \<Rightarrow> 'w boxed \<Rightarrow> 'w boxed \<Rightarrow> 'w boxed" where
  "nested_loop_box p l r = box (nested_loop_executor dyn_executor dyn_executor p)
     (new_nested_loop_join dyn_executor dyn_executor l r)"

lemma hash_join_yields:
  assumes "yields good sl xs l" and "yields good sr ys r" and "decodable sl xs" and "decodable sr ys"
    and "col_position lcol sl = Some i" and "col_position rcol sr = Some j"
    and "combines sl sr (match_pairs (\<lambda>x y. key_at sl i x = key_at sr j y) xs ys) zs"
  shows "yields good (joined_schema sl sr) zs (hash_join_box lcol rcol l r)"
  unfolding hash_join_box_def
  by (rule executor.yields_box [OF bj.hash_join_executor bj.new_hash_join_gives [OF assms]])

lemma nested_loop_yields:
  assumes "yields good sl xs l" and "yields good sr ys r"
    and "combines sl sr (match_pairs (\<lambda>x y. p x sl y sr) xs ys) zs"
  shows "yields good (joined_schema sl sr) zs (nested_loop_box p l r)"
  unfolding nested_loop_box_def
  by (rule executor.yields_box [OF bj.nested_loop_executor bj.new_nested_loop_gives [where p = p, OF assms]])

text \<open>
  C24: Over inputs whose rows decode and whose join keys are not null, the hash join and the nested
  loop join with the equality predicate hand out the same rows in the same order: the choice
  between them by the size of the right table changes nothing.
\<close>

theorem hash_join_equals_nested_loop:
  assumes "yields good sl xs l" and "yields good sr ys r" and "decodable sl xs" and "decodable sr ys"
    and "col_position lcol sl = Some i" and "col_position rcol sr = Some j"
    and "\<forall>x \<in> set xs. key_at sl i x \<noteq> Null"
    and "\<forall>x \<in> set xs. \<forall>y \<in> set ys. \<exists>z. combine_tuples sl sr (joined_schema sl sr) x y = Ok z"
  shows "\<exists>zs. combines sl sr (match_pairs (\<lambda>x y. key_at sl i x = key_at sr j y) xs ys) zs \<and>
    yields good (joined_schema sl sr) zs (hash_join_box lcol rcol l r) \<and>
    yields good (joined_schema sl sr) zs (nested_loop_box (equi_predicate lcol rcol) l r)"
proof -
  let ?ps = "match_pairs (\<lambda>x y. key_at sl i x = key_at sr j y) xs ys"
  have "set ?ps \<subseteq> set xs \<times> set ys" by (auto simp: match_pairs_def)
  then have "\<exists>zs. combines sl sr ?ps zs" using assms(8) by (intro combines_exists) auto
  then obtain zs where zs: "combines sl sr ?ps zs" by blast
  have "match_pairs (\<lambda>x y. equi_predicate lcol rcol x sl y sr) xs ys = ?ps"
  proof (rule match_pairs_cong)
    fix x y assume xy: "x \<in> set xs" "y \<in> set ys"
    have "decodable sl [x]" "decodable sr [y]" using xy assms(3,4) by (auto simp: decodable_def)
    from equi_predicate_key [OF this assms(5,6)] assms(7) xy(1)
    show "equi_predicate lcol rcol x sl y sr = (key_at sl i x = key_at sr j y)" by blast
  qed
  with zs hash_join_yields [OF assms(1-6) zs] nested_loop_yields [OF assms(1,2)] show ?thesis by metis
qed

text \<open>
  C33: On null keys the two joins differ: where both inputs have one row with a null key, the hash
  join combines the two rows and the nested loop join returns nothing.
\<close>

theorem joins_differ_on_null:
  assumes "yields good sl [x] l" and "yields good sr [y] r" and "decodable sl [x]" and "decodable sr [y]"
    and "col_position lcol sl = Some i" and "col_position rcol sr = Some j"
    and "key_at sl i x = Null" and "key_at sr j y = Null"
    and "combine_tuples sl sr (joined_schema sl sr) x y = Ok z"
  shows "yields good (joined_schema sl sr) [z] (hash_join_box lcol rcol l r) \<and>
    yields good (joined_schema sl sr) [] (nested_loop_box (equi_predicate lcol rcol) l r)"
proof
  show "yields good (joined_schema sl sr) [z] (hash_join_box lcol rcol l r)"
    by (rule hash_join_yields [OF assms(1-6)]) (use assms(7-9) in \<open>simp add: combines_Cons\<close>)
  show "yields good (joined_schema sl sr) [] (nested_loop_box (equi_predicate lcol rcol) l r)"
    by (rule nested_loop_yields [OF assms(1,2)]) (use equi_predicate_key [OF assms(3-6)] assms(7) in simp)
qed

lemma key_rows:
  "from_values (key_schema c) [Integer 7] = Ok [0, 7, 0, 0, 0]"
  "to_values [0, 7, 0, 0, 0] (key_schema c) = Ok [Integer 7]"
  "to_values [1, 0, 0, 0, 0] (key_schema c) = Ok [Null]"
  "combine_tuples (key_schema c) (key_schema d) (joined_schema (key_schema c) (key_schema d)) [0, 7, 0, 0, 0] [0, 7, 0, 0, 0] =
     Ok [0, 7, 0, 0, 0, 7, 0, 0, 0]"
  "combine_tuples (key_schema c) (key_schema d) (joined_schema (key_schema c) (key_schema d)) [1, 0, 0, 0, 0] [1, 0, 0, 0, 0] =
     Ok [3, 0, 0, 0, 0, 0, 0, 0, 0]"
  by code_simp+

theorem hash_join_equals_nested_loop_witness:
  "\<exists>zs. combines (key_schema ''a'') (key_schema ''b'') [([0, 7, 0, 0, 0], [0, 7, 0, 0, 0])] zs \<and>
    yields (\<lambda>_ :: unit. True) (joined_schema (key_schema ''a'') (key_schema ''b'')) zs
      (nested_loop_box (equi_predicate ''a'' ''b'') (box (list_executor (key_schema ''a'')) [[0, 7, 0, 0, 0]])
        (box (list_executor (key_schema ''b'')) [[0, 7, 0, 0, 0]]))"
proof -
  let ?t = "[0, 7, 0, 0, 0] :: tuple"
  have y: "yields (\<lambda>_ :: unit. True) (key_schema c) [?t] (box (list_executor (key_schema c)) [?t])" for c
    by (rule src.yields_box) simp
  have p: "col_position c (key_schema c) = Some 0" for c by (simp add: col_position_def key_schema_def)
  have k: "key_at (key_schema c) 0 ?t = Integer 7" for c by (simp add: key_at_def key_rows(2))
  have d: "decodable (key_schema c) [?t]" for c by (simp add: decodable_def key_rows(2))
  show ?thesis
    using hash_join_equals_nested_loop [OF y [of "''a''"] y [of "''b''"] d d p p] k key_rows(4)
    by auto
qed

theorem joins_differ_on_null_witness:
  "yields (\<lambda>_ :: unit. True) (joined_schema (key_schema ''a'') (key_schema ''b'')) [[3, 0, 0, 0, 0, 0, 0, 0, 0]]
     (hash_join_box ''a'' ''b'' (box (list_executor (key_schema ''a'')) [[1, 0, 0, 0, 0]])
        (box (list_executor (key_schema ''b'')) [[1, 0, 0, 0, 0]])) \<and>
   yields (\<lambda>_ :: unit. True) (joined_schema (key_schema ''a'') (key_schema ''b'')) []
     (nested_loop_box (equi_predicate ''a'' ''b'') (box (list_executor (key_schema ''a'')) [[1, 0, 0, 0, 0]])
        (box (list_executor (key_schema ''b'')) [[1, 0, 0, 0, 0]]))"
proof -
  let ?t = "[1, 0, 0, 0, 0] :: tuple"
  have y: "yields (\<lambda>_ :: unit. True) (key_schema c) [?t] (box (list_executor (key_schema c)) [?t])" for c
    by (rule src.yields_box) simp
  have p: "col_position c (key_schema c) = Some 0" for c by (simp add: col_position_def key_schema_def)
  have k: "key_at (key_schema c) 0 ?t = Null" for c by (simp add: key_at_def key_rows(3))
  have d: "decodable (key_schema c) [?t]" for c by (simp add: decodable_def key_rows(3))
  show ?thesis by (rule joins_differ_on_null [OF y y d d p p k k key_rows(5)])
qed

end
