(* ===== verification/External_Sort.thy ===== *)
theory External_Sort
  imports Executor "HOL-Library.Multiset"
begin

text \<open>
  \<open>ExternalMergeSort\<close> (\<open>executor/sort.rs\<close>): the child's rows are sorted in chunks, all but a single
  chunk are spilled to temporary files, and the files are merged row by row. \<open>sort_by\<close> of the
  standard library is a stable sort for a comparison that orders its inputs; for one that does
  not, such as rows of which some have a null key, the library leaves the order open and may panic.

  The operating system is a list of faults, one entry per call on a temporary file, as in \<open>Storage\<close>.
\<close>

subsection \<open>Comparing rows\<close>

datatype ordering = Less | Equal | Greater

definition compare :: "'a :: linorder \<Rightarrow> 'a \<Rightarrow> ordering" where
  "compare a b = (if a < b then Less else if a = b then Equal else Greater)"

definition compare_values :: "sql_value \<Rightarrow> sql_value \<Rightarrow> ordering" where
  "compare_values va vb = (case (va, vb) of
       (Integer na, Integer nb) \<Rightarrow> compare na nb
     | (Varchar na, Varchar nb) \<Rightarrow> compare na nb
     | (Boolean na, Boolean nb) \<Rightarrow> compare na nb
     | _ \<Rightarrow> Equal)"

definition compare_rows :: "nat \<Rightarrow> schema \<Rightarrow> tuple \<Rightarrow> tuple \<Rightarrow> ordering" where
  "compare_rows idx schema a b = (case (to_values a schema, to_values b schema) of
       (Ok va, Ok vb) \<Rightarrow> (if idx < length va \<and> idx < length vb then compare_values (va ! idx) (vb ! idx) else Equal)
     | _ \<Rightarrow> Equal)"

fun insert_by :: "('a \<Rightarrow> 'a \<Rightarrow> ordering) \<Rightarrow> 'a \<Rightarrow> 'a list \<Rightarrow> 'a list" where
  "insert_by cmp x [] = [x]"
| "insert_by cmp x (y # ys) = (if cmp y x = Less then y # insert_by cmp x ys else x # y # ys)"

definition sort_by :: "('a \<Rightarrow> 'a \<Rightarrow> ordering) \<Rightarrow> 'a list \<Rightarrow> 'a list" where
  "sort_by cmp xs = foldr (insert_by cmp) xs []"

subsection \<open>The operator\<close>

record 's merge_sort =
  so_child :: 's
  so_runs :: "bytes list"
  so_active :: "(bytes \<times> tuple option) list"
  so_in_memory :: "tuple list option"
  so_initialized :: bool
  so_sort_col_idx :: nat
  so_chunk_size :: nat
  so_faults :: faults

definition new_merge_sort :: "'s \<Rightarrow> nat \<Rightarrow> nat \<Rightarrow> faults \<Rightarrow> 's merge_sort" where
  "new_merge_sort child idx chunk flt = \<lparr>so_child = child, so_runs = [], so_active = [], so_in_memory = None,
     so_initialized = False, so_sort_col_idx = idx, so_chunk_size = chunk, so_faults = flt\<rparr>"

definition sort_buffer :: "nat \<Rightarrow> schema \<Rightarrow> tuple list \<Rightarrow> tuple list" where
  "sort_buffer idx schema buffer = sort_by (compare_rows idx schema) buffer"

text \<open>One call on a temporary file.\<close>

definition file_call :: "string \<Rightarrow> ('s merge_sort \<times> 'w, query_error, unit) act" where
  "file_call msg = (\<lambda>(s, w). case next_call (so_faults s) of
       (None, flt) \<Rightarrow> ret () (s\<lparr>so_faults := flt\<rparr>, w)
     | (Some _, flt) \<Rightarrow> throw (Execution msg) (s\<lparr>so_faults := flt\<rparr>, w))"

fun write_tuples :: "tuple list \<Rightarrow> bytes \<Rightarrow> ('s merge_sort \<times> 'w, query_error, bytes) act" where
  "write_tuples [] file = ret file"
| "write_tuples (t # ts) file =
     bnd (file_call ''Write failed'') (\<lambda>_. bnd (file_call ''Write failed'') (\<lambda>_.
       write_tuples ts (file @ to_le 4 (length t mod 2 ^ 32) @ t)))"

definition spill_to_disk :: "tuple list \<Rightarrow> ('s merge_sort \<times> 'w, query_error, unit) act" where
  "spill_to_disk buffer = bnd (file_call ''Tempfile creation failed'') (\<lambda>_.
     bnd (write_tuples buffer []) (\<lambda>file (s, w). ret () (s\<lparr>so_runs := so_runs s @ [file]\<rparr>, w)))"

text \<open>Read from the position of the file; \<open>None\<close> at the end of the file.\<close>

definition read_tuple :: "bytes \<Rightarrow> faults \<Rightarrow> (query_error, tuple option) res \<times> bytes \<times> faults" where
  "read_tuple file flt = (case next_call flt of
       (Some _, flt) \<Rightarrow> (Err (Execution ''Read failed''), file, flt)
     | (None, flt) \<Rightarrow>
         if length file < 4 then (Ok None, [], flt)
         else let len = of_le (take 4 file); rest = drop 4 file in
           (case next_call flt of
              (Some _, flt) \<Rightarrow> (Err (Execution ''Read failed''), rest, flt)
            | (None, flt) \<Rightarrow>
                if length rest < len then (Err (Execution ''Read failed''), [], flt)
                else (Ok (Some (take len rest)), drop len rest, flt)))"

partial_function (option) init_loop :: "('s, 'w) executor \<Rightarrow> schema \<Rightarrow> tuple list \<Rightarrow>
    ('s merge_sort \<times> 'w, query_error, tuple list) act" where
  "init_loop E schema buffer sw =
     bnd (zoom so_child (\<lambda>x s. s\<lparr>so_child := x\<rparr>) (ex_next E)) (\<lambda>r. case r of
         None \<Rightarrow> ret buffer
       | Some t \<Rightarrow> (\<lambda>sw. if so_chunk_size (fst sw) \<le> length (buffer @ [t])
           then bnd (spill_to_disk (sort_buffer (so_sort_col_idx (fst sw)) schema (buffer @ [t])))
                  (\<lambda>_ sw. init_loop E schema [] sw) sw
           else init_loop E schema (buffer @ [t]) sw)) sw"

fun open_runs :: "bytes list \<Rightarrow> ('s merge_sort \<times> 'w, query_error, unit) act" where
  "open_runs [] = ret ()"
| "open_runs (file # files) = bnd (file_call ''Seek failed'') (\<lambda>_ (s, w).
     case read_tuple file (so_faults s) of (r, file', flt) \<Rightarrow>
       bnd (of_res r) (\<lambda>t (s, w). open_runs files (s\<lparr>so_active := so_active s @ [(file', t)]\<rparr>, w))
         (s\<lparr>so_faults := flt\<rparr>, w))"

definition sort_init :: "('s, 'w) executor \<Rightarrow> ('s merge_sort \<times> 'w, query_error, unit) act" where
  "sort_init E = (\<lambda>(s, w). let schema = ex_schema E (so_child s); idx = so_sort_col_idx s in
     bnd (init_loop E schema []) (\<lambda>buffer (s, w).
     bnd (if so_runs s = []
          then (\<lambda>(s, w). ret () (s\<lparr>so_in_memory := Some (sort_buffer idx schema buffer)\<rparr>, w))
          else bnd (if buffer \<noteq> [] then spill_to_disk (sort_buffer idx schema buffer) else ret ())
            (\<lambda>_ (s, w). open_runs (so_runs s) (s\<lparr>so_runs := []\<rparr>, w)))
       (\<lambda>_ (s, w). ret () (s\<lparr>so_initialized := True\<rparr>, w)) (s, w)) (s, w))"

text \<open>The first active run with the least row.\<close>

fun best_run :: "(tuple \<Rightarrow> tuple \<Rightarrow> ordering) \<Rightarrow> nat \<Rightarrow> (bytes \<times> tuple option) list \<Rightarrow> (nat \<times> tuple) option \<Rightarrow>
    (nat \<times> tuple) option" where
  "best_run cmp i [] best = best"
| "best_run cmp i ((_, tuple_opt) # runs) best = best_run cmp (Suc i) runs
     (case tuple_opt of
        None \<Rightarrow> best
      | Some t \<Rightarrow> (case best of
            None \<Rightarrow> Some (i, t)
          | Some (_, best_tuple) \<Rightarrow> if cmp t best_tuple = Less then Some (i, t) else best))"

definition merge_next :: "('s, 'w) executor \<Rightarrow> ('s merge_sort \<times> 'w, query_error, tuple option) act" where
  "merge_next E = (\<lambda>(s, w).
     case best_run (compare_rows (so_sort_col_idx s) (ex_schema E (so_child s))) 0 (so_active s) None of
       None \<Rightarrow> ret None (s, w)
     | Some (b_idx, t) \<Rightarrow> (case read_tuple (fst (so_active s ! b_idx)) (so_faults s) of (r, file', flt) \<Rightarrow>
         bnd (of_res r) (\<lambda>next_tuple (s, w). ret (Some t) (s\<lparr>so_active := (so_active s)[b_idx := (file', next_tuple)]\<rparr>, w))
           (s\<lparr>so_active := (so_active s)[b_idx := (file', None)], so_faults := flt\<rparr>, w)))"

definition sort_executor :: "('s, 'w) executor \<Rightarrow> ('s merge_sort, 'w) executor" where
  "sort_executor E = \<lparr>
     ex_next = (\<lambda>(s, w). bnd (if so_initialized s then ret () else sort_init E) (\<lambda>_ (s, w).
       case so_in_memory s of
         Some in_mem \<Rightarrow> ret (hd_opt in_mem) (s\<lparr>so_in_memory := Some (tl in_mem)\<rparr>, w)
       | None \<Rightarrow> merge_next E (s, w)) (s, w)),
     ex_schema = (\<lambda>s. ex_schema E (so_child s))\<rparr>"

subsection \<open>The order on keys\<close>

text \<open>A key that orders the values of one type as \<open>compare_values\<close> does.\<close>

definition value_key :: "sql_value \<Rightarrow> int list" where
  "value_key v = (case v of Integer i \<Rightarrow> [i] | Boolean b \<Rightarrow> [if b then 1 else 0]
     | Varchar s \<Rightarrow> map (\<lambda>c. int (of_char c)) s | Null \<Rightarrow> [])"

definition row_key :: "schema \<Rightarrow> nat \<Rightarrow> tuple \<Rightarrow> int list" where
  "row_key schema idx t = (case to_values t schema of Ok vs \<Rightarrow> value_key (vs ! idx) | _ \<Rightarrow> [])"

text \<open>Rows that decode and have a key: the sort column exists and is not null.\<close>

definition sortable :: "schema \<Rightarrow> nat \<Rightarrow> tuple list \<Rightarrow> bool" where
  "sortable schema idx ts \<longleftrightarrow> idx < column_count schema \<and> (\<forall>t \<in> set ts. length t < 2 ^ 32 \<and>
     (\<exists>vs. to_values t schema = Ok vs \<and> vs ! idx \<noteq> Null))"

lemma string_key_less: "map (\<lambda>c. int (of_char c)) s < map (\<lambda>c. int (of_char c)) t \<longleftrightarrow> s < t"
proof (induction s arbitrary: t)
  case Nil
  show ?case by (cases t) simp_all
next
  case (Cons c s)
  have "int (of_char c) < int (of_char d) \<longleftrightarrow> c < d" for d :: char by (simp add: less_char_def)
  moreover have "int (of_char c) = int (of_char d) \<longleftrightarrow> c = d" for d :: char by (simp add: of_char_eq_iff)
  ultimately show ?case using Cons by (cases t) auto
qed

lemma compare_Less [simp]: "compare a b = Less \<longleftrightarrow> a < b"
  by (simp add: compare_def)

end
