(* ===== verification/Sort_Laws.thy ===== *)
theory Sort_Laws
  imports External_Sort
begin

text \<open>
  The external merge sort is a stable sort: over rows with a key it hands out \<open>sort_key\<close> of the
  child's rows, whatever the size of the chunks.
\<close>

subsection \<open>Sorting and merging lists\<close>

lemma insert_by_key:
  "\<forall>y \<in> set ys. cmp y x = Less \<longleftrightarrow> f y < f x \<Longrightarrow> insert_by cmp x ys = insort_key f x ys"
  by (induction ys) auto

lemma sort_by_key:
  assumes "\<forall>a \<in> set xs. \<forall>b \<in> set xs. cmp a b = Less \<longleftrightarrow> f a < f b"
  shows "sort_by cmp xs = sort_key f xs"
  using assms
proof (induction xs)
  case (Cons x xs)
  then have IH: "sort_by cmp xs = sort_key f xs" by simp
  have "sort_by cmp (x # xs) = insert_by cmp x (sort_by cmp xs)" by (simp add: sort_by_def)
  also have "\<dots> = insort_key f x (sort_key f xs)" unfolding IH by (rule insert_by_key) (use Cons.prems in simp)
  finally show ?case by simp
qed (simp add: sort_by_def)

lemma sort_key_stable': "filter (\<lambda>x. k = f x) (sort_key f xs) = filter (\<lambda>x. k = f x) xs"
proof -
  have "(\<lambda>x. k = f x) = (\<lambda>x. f x = k)" by auto
  then show ?thesis by (simp only: sort_key_stable)
qed

lemma sort_key_first:
  assumes "\<forall>x \<in> set xs. f t < f x" and "\<forall>y \<in> set ys. f t \<le> f y"
  shows "sort_key f (xs @ t # ys) = t # sort_key f (xs @ ys)"
proof (rule properties_for_sort_key)
  show "sorted (map f (t # sort_key f (xs @ ys)))" using assms by (auto simp: less_imp_le)
next
  fix k
  note st = sort_key_stable' [where f = f and k = "f k" and xs = "xs @ ys"]
  have "filter (\<lambda>x. f t = f x) xs = []" using assms(1) by (auto simp: filter_empty_conv)
  then show "filter (\<lambda>x. f k = f x) (t # sort_key f (xs @ ys)) = filter (\<lambda>x. f k = f x) (xs @ t # ys)"
    using st by auto
qed simp

lemma sort_key_chunks: "sort_key f (concat (map (sort_key f) cs)) = sort_key f (concat cs)"
proof (rule properties_for_sort_key)
  show "mset (sort_key f (concat cs)) = mset (concat (map (sort_key f) cs))"
    by (induction cs) simp_all
next
  fix k
  show "filter (\<lambda>x. f k = f x) (sort_key f (concat cs)) = filter (\<lambda>x. f k = f x) (concat (map (sort_key f) cs))"
    by (induction cs) (simp_all add: sort_key_stable')
qed simp

subsection \<open>Keys of rows\<close>

lemma compare_values_key:
  assumes "value_has_type col a" and "value_has_type col b" and "a \<noteq> Null" and "b \<noteq> Null"
  shows "compare_values a b = Less \<longleftrightarrow> value_key a < value_key b"
  using assms by (cases a; cases b) (auto simp: compare_values_def value_key_def string_key_less)

lemma sortable_key:
  assumes "sortable sch idx ts" and "a \<in> set ts" and "b \<in> set ts"
  shows "compare_rows idx sch a b = Less \<longleftrightarrow> row_key sch idx a < row_key sch idx b"
proof -
  obtain va vb where v: "to_values a sch = Ok va" "va ! idx \<noteq> Null" "to_values b sch = Ok vb" "vb ! idx \<noteq> Null"
    using assms unfolding sortable_def by blast
  have ty: "to_values t sch = Ok vs \<Longrightarrow> list_all2 value_has_type (columns sch) vs" for t vs
    using read_columns_typed by (auto simp: to_values_def split: if_splits)
  have idx: "idx < length (columns sch)" using assms(1) by (simp add: sortable_def column_count_def)
  note t = ty [OF v(1)] ty [OF v(3)]
  have l: "idx < length va" "idx < length vb" using idx t by (simp_all add: list_all2_lengthD [symmetric])
  have "value_has_type (columns sch ! idx) (va ! idx)" "value_has_type (columns sch ! idx) (vb ! idx)"
    using t idx by (simp_all add: list_all2_nthD)
  from compare_values_key [OF this v(2,4)] show ?thesis
    using v(1,3) l by (simp add: compare_rows_def row_key_def)
qed

lemma sortable_subset: "sortable sch idx ts \<Longrightarrow> set us \<subseteq> set ts \<Longrightarrow> sortable sch idx us"
  by (auto simp: sortable_def)

lemma sort_buffer_key:
  "sortable sch idx ts \<Longrightarrow> sort_buffer idx sch ts = sort_key (row_key sch idx) ts"
  unfolding sort_buffer_def by (rule sort_by_key) (auto simp: sortable_key)

subsection \<open>Runs\<close>

definition calm :: "faults \<Rightarrow> bool" where
  "calm flt \<longleftrightarrow> (\<forall>f \<in> set flt. f = None)"

lemma next_call_calm:
  assumes "calm flt"
  obtains flt' where "next_call flt = (None, flt')" and "calm flt'"
  using assms by (cases flt) (auto simp: calm_def)

definition enc_row :: "tuple \<Rightarrow> bytes" where
  "enc_row t = to_le 4 (length t) @ t"

definition enc_rows :: "tuple list \<Rightarrow> bytes" where
  "enc_rows ts = concat (map enc_row ts)"

lemma enc_rows_simps [simp]:
  "enc_rows [] = []" "enc_rows (t # ts) = to_le 4 (length t) @ t @ enc_rows ts"
  "enc_rows (ts @ us) = enc_rows ts @ enc_rows us"
  by (simp_all add: enc_rows_def enc_row_def)

lemma read_tuple_rows:
  assumes "calm flt" and "\<forall>t \<in> set ts. length t < 2 ^ 32"
  obtains flt' where "read_tuple (enc_rows ts) flt = (Ok (hd_opt ts), enc_rows (tl ts), flt')" and "calm flt'"
proof -
  obtain f1 where f1: "next_call flt = (None, f1)" "calm f1" by (rule next_call_calm [OF assms(1)])
  obtain f2 where f2: "next_call f1 = (None, f2)" "calm f2" by (rule next_call_calm [OF f1(2)])
  show thesis
  proof (cases ts)
    case Nil
    then show thesis using f1 by (intro that [of f1]) (simp_all add: read_tuple_def)
  next
    case (Cons t us)
    then have "of_le (to_le 4 (length t)) = length t" using assms(2) by (simp add: of_le_to_le)
    then show thesis using f1 f2 Cons by (intro that [of f2]) (simp_all add: read_tuple_def Let_def)
  qed
qed

definition run_holds :: "bytes \<times> tuple option \<Rightarrow> tuple list \<Rightarrow> bool" where
  "run_holds run ts \<longleftrightarrow> snd run = hd_opt ts \<and> fst run = enc_rows (tl ts)"

text \<open>What \<open>best_run\<close> has found among the runs seen so far.\<close>

definition is_best :: "(tuple \<Rightarrow> 'k :: linorder) \<Rightarrow> tuple list list \<Rightarrow> (nat \<times> tuple) option \<Rightarrow> bool" where
  "is_best f Rs best \<longleftrightarrow> (case best of None \<Rightarrow> (\<forall>R \<in> set Rs. R = [])
     | Some (b, t) \<Rightarrow> b < length Rs \<and> Rs ! b \<noteq> [] \<and> t = hd (Rs ! b) \<and>
         (\<forall>j < b. Rs ! j \<noteq> [] \<longrightarrow> f t < f (hd (Rs ! j))) \<and> (\<forall>R \<in> set Rs. R \<noteq> [] \<longrightarrow> f t \<le> f (hd R)))"

lemma is_best_snoc:
  assumes best: "is_best f Rs best"
    and cmp: "\<And>t u. t \<in> set (concat (Rs @ [R])) \<Longrightarrow> u \<in> set (concat (Rs @ [R])) \<Longrightarrow> cmp t u = Less \<longleftrightarrow> f t < f u"
  shows "is_best f (Rs @ [R]) (case hd_opt R of None \<Rightarrow> best
     | Some t \<Rightarrow> (case best of None \<Rightarrow> Some (length Rs, t)
          | Some (_, best_tuple) \<Rightarrow> if cmp t best_tuple = Less then Some (length Rs, t) else best))"
proof (cases R)
  case Nil
  then show ?thesis using best by (auto simp: is_best_def nth_append split: option.splits)
next
  case (Cons t R')
  show ?thesis
  proof (cases best)
    case None
    then show ?thesis using best Cons by (auto simp: is_best_def nth_append)
  next
    case (Some bu)
    obtain b u where bu: "bu = (b, u)" by (cases bu)
    have b: "b < length Rs" "Rs ! b \<noteq> []" "u = hd (Rs ! b)" "\<forall>j < b. Rs ! j \<noteq> [] \<longrightarrow> f u < f (hd (Rs ! j))"
      "\<forall>R \<in> set Rs. R \<noteq> [] \<longrightarrow> f u \<le> f (hd R)"
      using best Some bu by (auto simp: is_best_def)
    have "u \<in> set (Rs ! b)" "Rs ! b \<in> set Rs" using b(1-3) by simp_all
    then have "u \<in> set (concat (Rs @ [R]))" by auto
    moreover have "t \<in> set (concat (Rs @ [R]))" using Cons by simp
    ultimately have c: "cmp t u = Less \<longleftrightarrow> f t < f u" using cmp by blast
    show ?thesis
    proof (cases "f t < f u")
      case True
      have "f t < f (hd (Rs ! j))" if "j < length Rs" "Rs ! j \<noteq> []" for j
        using b(5) that True by (meson nth_mem less_le_trans)
      moreover have "f t \<le> f (hd S)" if "S \<in> set Rs" "S \<noteq> []" for S
        using b(5) that True by (meson less_imp_le less_le_trans)
      ultimately show ?thesis using True c Cons Some bu by (auto simp: is_best_def nth_append)
    next
      case False
      then show ?thesis using b c Cons Some bu by (auto simp: is_best_def nth_append)
    qed
  qed
qed

lemma best_run_spec:
  assumes "list_all2 run_holds runs Rs" and "is_best f pre best"
    and "\<And>t u. t \<in> set (concat (pre @ Rs)) \<Longrightarrow> u \<in> set (concat (pre @ Rs)) \<Longrightarrow> cmp t u = Less \<longleftrightarrow> f t < f u"
  shows "is_best f (pre @ Rs) (best_run cmp (length pre) runs best)"
  using assms
proof (induction runs arbitrary: pre Rs best)
  case (Cons run runs)
  obtain R Rs' where Rs: "Rs = R # Rs'" "run_holds run R" "list_all2 run_holds runs Rs'"
    using Cons.prems(1) by (cases Rs) auto
  obtain fl topt where run: "run = (fl, topt)" by (cases run)
  have topt: "topt = hd_opt R" using Rs(2) run by (simp add: run_holds_def)
  have "is_best f (pre @ [R]) (case topt of None \<Rightarrow> best
     | Some t \<Rightarrow> (case best of None \<Rightarrow> Some (length pre, t)
          | Some (_, best_tuple) \<Rightarrow> if cmp t best_tuple = Less then Some (length pre, t) else best))"
    unfolding topt by (rule is_best_snoc [OF Cons.prems(2)]) (rule Cons.prems(3); auto simp: Rs(1))
  from Cons.IH [OF Rs(3) this] Cons.prems(3) show ?case by (simp add: Rs(1) run)
qed simp

lemma merge_step:
  assumes b: "is_best f Rs (Some (b, t))" and srt: "\<forall>R \<in> set Rs. sorted (map f R)"
  shows "sort_key f (concat Rs) = t # sort_key f (concat (Rs[b := tl (Rs ! b)]))"
proof -
  have b: "b < length Rs" "Rs ! b = t # tl (Rs ! b)" "\<forall>j < b. Rs ! j \<noteq> [] \<longrightarrow> f t < f (hd (Rs ! j))"
      "\<forall>R \<in> set Rs. R \<noteq> [] \<longrightarrow> f t \<le> f (hd R)"
    using b by (auto simp: is_best_def)
  let ?xs = "concat (take b Rs)" and ?ys = "tl (Rs ! b) @ concat (drop (Suc b) Rs)"
  have hd: "f (hd R) \<le> f x" if "R \<in> set Rs" "x \<in> set R" for R x
    using srt that by (cases R) auto
  have "f t < f x" if x: "x \<in> set ?xs" for x
  proof -
    obtain R where R: "R \<in> set (take b Rs)" "x \<in> set R" using x by auto
    then obtain j where "j < b" "Rs ! j = R" using b(1) by (auto simp: in_set_conv_nth)
    with R(2) have j: "j < b" "x \<in> set (Rs ! j)" by simp_all
    then have "Rs ! j \<in> set Rs" "Rs ! j \<noteq> []" using b(1) by auto
    with b(3) j hd [of "Rs ! j" x] show ?thesis by fastforce
  qed
  moreover have "f t \<le> f y" if "y \<in> set ?ys" for y
  proof -
    have "y \<in> set (tl (Rs ! b)) \<or> (\<exists>R \<in> set (drop (Suc b) Rs). y \<in> set R)" using that by auto
    then obtain R where R: "R \<in> set Rs" "y \<in> set R"
      using b(1) by (metis in_set_dropD list.set_sel(2) nth_mem tl_Nil list.set_intros(2) b(2))
    then have "f t \<le> f (hd R)" using b(4) by auto
    with hd [OF R] show ?thesis by simp
  qed
  moreover have "concat Rs = ?xs @ t # ?ys"
  proof -
    have "Rs = take b Rs @ Rs ! b # drop (Suc b) Rs" by (rule id_take_nth_drop [OF b(1)])
    then have "concat Rs = concat (take b Rs @ Rs ! b # drop (Suc b) Rs)" by simp
    also have "\<dots> = ?xs @ (t # tl (Rs ! b)) @ concat (drop (Suc b) Rs)" unfolding b(2) [symmetric] by simp
    finally show ?thesis by simp
  qed
  moreover have "concat (Rs[b := tl (Rs ! b)]) = ?xs @ ?ys" using b(1) by (simp add: upd_conv_take_nth_drop)
  ultimately show ?thesis using sort_key_first [of ?xs f t ?ys] by simp
qed

subsection \<open>The operator\<close>

lemma file_call_calm:
  "calm (so_faults s) \<Longrightarrow> \<exists>flt. file_call msg (s, w) = Some (Ok (), (s\<lparr>so_faults := flt\<rparr>, w)) \<and> calm flt"
  by (cases "so_faults s") (auto simp: calm_def file_call_def act_simps)

lemma write_tuples_law:
  assumes "calm (so_faults s)" and "\<forall>t \<in> set ts. length t < 2 ^ 32"
  shows "\<exists>flt. write_tuples ts bs (s, w) = Some (Ok (bs @ enc_rows ts), (s\<lparr>so_faults := flt\<rparr>, w)) \<and> calm flt"
  using assms
proof (induction ts arbitrary: s bs)
  case Nil
  then show ?case by (intro exI [of _ "so_faults s"]) (simp add: act_simps)
next
  case (Cons t ts)
  from file_call_calm [OF Cons.prems(1), of "''Write failed''" w] obtain f1 where 1: "file_call ''Write failed'' (s, w) = Some (Ok (), (s\<lparr>so_faults := f1\<rparr>, w))" "calm f1" by (elim exE conjE)
  have "calm (so_faults (s\<lparr>so_faults := f1\<rparr>))" using 1(2) by simp
  from file_call_calm [OF this, of "''Write failed''" w] obtain f2 where
    2: "file_call ''Write failed'' (s\<lparr>so_faults := f1\<rparr>, w) = Some (Ok (), (s\<lparr>so_faults := f2\<rparr>, w))" "calm f2"
    by (elim exE conjE) simp
  have "calm (so_faults (s\<lparr>so_faults := f2\<rparr>))" using 2(2) by simp
  from Cons.IH [OF this, of "bs @ to_le 4 (length t) @ t"] Cons.prems(2) obtain f3 where
    "write_tuples ts (bs @ to_le 4 (length t) @ t) (s\<lparr>so_faults := f2\<rparr>, w) =
      Some (Ok ((bs @ to_le 4 (length t) @ t) @ enc_rows ts), (s\<lparr>so_faults := f3\<rparr>, w))" "calm f3" by auto
  then show ?case using Cons.prems(2) by (intro exI [of _ f3]) (simp add: act_simps 1(1) 2(1))
qed

lemma spill_law:
  assumes "calm (so_faults s)" and "\<forall>t \<in> set ts. length t < 2 ^ 32"
  shows "\<exists>flt. spill_to_disk ts (s, w) =
    Some (Ok (), (s\<lparr>so_faults := flt, so_runs := so_runs s @ [enc_rows ts]\<rparr>, w)) \<and> calm flt"
proof -
  from file_call_calm [OF assms(1), of "''Tempfile creation failed''" w] obtain f1 where 1: "file_call ''Tempfile creation failed'' (s, w) = Some (Ok (), (s\<lparr>so_faults := f1\<rparr>, w))" "calm f1" by (elim exE conjE)
  have "calm (so_faults (s\<lparr>so_faults := f1\<rparr>))" using 1(2) by simp
  from write_tuples_law [OF this assms(2), of "[]" w] obtain f2 where
    "write_tuples ts [] (s\<lparr>so_faults := f1\<rparr>, w) = Some (Ok ([] @ enc_rows ts), (s\<lparr>so_faults := f1, so_faults := f2\<rparr>, w))" "calm f2" by blast
  then show ?thesis by (intro exI [of _ f2]) (simp add: spill_to_disk_def act_simps 1(1))
qed

lemma open_runs_law:
  assumes "calm (so_faults s)" and "\<forall>R \<in> set Rs. \<forall>t \<in> set R. length t < 2 ^ 32"
  shows "\<exists>flt act. open_runs (map enc_rows Rs) (s, w) =
    Some (Ok (), (s\<lparr>so_faults := flt, so_active := so_active s @ act\<rparr>, w)) \<and> calm flt \<and> list_all2 run_holds act Rs"
  using assms
proof (induction Rs arbitrary: s)
  case Nil
  then show ?case by (intro exI [of _ "so_faults s"] exI [of _ "[]"]) (simp add: act_simps)
next
  case (Cons R Rs)
  from file_call_calm [OF Cons.prems(1), of "''Seek failed''" w] obtain f1 where 1: "file_call ''Seek failed'' (s, w) = Some (Ok (), (s\<lparr>so_faults := f1\<rparr>, w))" "calm f1" by (elim exE conjE)
  obtain f2 where 2: "read_tuple (enc_rows R) f1 = (Ok (hd_opt R), enc_rows (tl R), f2)" "calm f2"
    by (rule read_tuple_rows [OF 1(2), of R]) (use Cons.prems(2) in simp)
  let ?s = "s\<lparr>so_faults := f2, so_active := so_active s @ [(enc_rows (tl R), hd_opt R)]\<rparr>"
  have "calm (so_faults ?s)" "\<forall>R \<in> set Rs. \<forall>t \<in> set R. length t < 2 ^ 32" using 2(2) Cons.prems(2) by simp_all
  from Cons.IH [OF this] obtain f3 acts where 3: "open_runs (map enc_rows Rs) (?s, w) =
      Some (Ok (), (?s\<lparr>so_faults := f3, so_active := so_active ?s @ acts\<rparr>, w))" "calm f3" "list_all2 run_holds acts Rs" by blast
  have "open_runs (map enc_rows (R # Rs)) (s, w) = open_runs (map enc_rows Rs) (?s, w)"
    by (simp add: act_simps 1(1) 2(1))
  also have "\<dots> = Some (Ok (), (s\<lparr>so_faults := f3, so_active := so_active s @ (enc_rows (tl R), hd_opt R) # acts\<rparr>, w))"
    using 3(1) by simp
  finally have fin: "open_runs (map enc_rows (R # Rs)) (s, w) =
      Some (Ok (), (s\<lparr>so_faults := f3, so_active := so_active s @ (enc_rows (tl R), hd_opt R) # acts\<rparr>, w))" .
  have rh: "run_holds (enc_rows (tl R), hd_opt R) R" by (simp add: run_holds_def)
  show ?case
    by (intro exI [of _ f3] exI [of _ "(enc_rows (tl R), hd_opt R) # acts"] conjI fin 3(2)) (simp add: rh 3(3))
qed

context executor begin

definition so_gives :: "'s merge_sort \<Rightarrow> tuple list \<Rightarrow> bool" where
  "so_gives s ts \<longleftrightarrow> calm (so_faults s) \<and>
     (if \<not> so_initialized s
      then so_runs s = [] \<and> so_active s = [] \<and> so_in_memory s = None \<and>
        (\<exists>xs. gives (so_child s) xs \<and> sortable sch (so_sort_col_idx s) xs \<and> ts = sort_key (row_key sch (so_sort_col_idx s)) xs)
      else (\<exists>xs. gives (so_child s) xs) \<and> (case so_in_memory s of
          Some m \<Rightarrow> ts = m
        | None \<Rightarrow> \<exists>Rs. list_all2 run_holds (so_active s) Rs \<and> sortable sch (so_sort_col_idx s) (concat Rs) \<and>
            (\<forall>R \<in> set Rs. sorted (map (row_key sch (so_sort_col_idx s)) R)) \<and>
            ts = sort_key (row_key sch (so_sort_col_idx s)) (concat Rs)))"

lemma init_loop_law:
  assumes "good w" and "gives (so_child s) xs" and "calm (so_faults s)" and "sortable sch (so_sort_col_idx s) (buf @ xs)"
  shows "\<exists>c flt cs buf' w'. init_loop E sch buf (s, w) =
      Some (Ok buf', (s\<lparr>so_child := c, so_faults := flt,
        so_runs := so_runs s @ map (\<lambda>c. enc_rows (sort_key (row_key sch (so_sort_col_idx s)) c)) cs\<rparr>, w')) \<and>
    good w' \<and> gives c [] \<and> calm flt \<and> concat cs @ buf' = buf @ xs"
  using assms
proof (induction xs arbitrary: s w buf)
  case (Nil s w buf)
  obtain c w' where 1: "ex_next E (so_child s, w) = Some (Ok None, (c, w'))" "good w'" "gives c []"
    by (rule next_None [OF Nil(1,2)])
  have "zoom so_child (\<lambda>x s. s\<lparr>so_child := x\<rparr>) (ex_next E) (s, w) = Some (Ok None, (s\<lparr>so_child := c\<rparr>, w'))"
    by (rule zoom_app) (rule 1)
  then have "init_loop E sch buf (s, w) = Some (Ok buf, (s\<lparr>so_child := c\<rparr>, w'))"
    by (subst init_loop.simps) (simp add: act_simps)
  with 1 Nil(3) show ?case
    by (intro exI [of _ c] exI [of _ "so_faults s"] exI [of _ "[]"] exI [of _ buf] exI [of _ w']) simp
next
  case (Cons x xs s w buf)
  let ?idx = "so_sort_col_idx s" and ?f = "row_key sch (so_sort_col_idx s)"
  obtain c w' where 1: "ex_next E (so_child s, w) = Some (Ok (Some x), (c, w'))" "good w'" "gives c xs"
    by (rule next_Some [OF Cons.prems(1,2)])
  let ?s = "s\<lparr>so_child := c\<rparr>"
  have z: "zoom so_child (\<lambda>x s. s\<lparr>so_child := x\<rparr>) (ex_next E) (s, w) = Some (Ok (Some x), (?s, w'))"
    by (rule zoom_app) (rule 1)
  show ?case
  proof (cases "so_chunk_size s \<le> length (buf @ [x])")
    case False
    then have step: "init_loop E sch buf (s, w) = init_loop E sch (buf @ [x]) (?s, w')"
      by (subst init_loop.simps) (simp add: act_simps z)
    have "gives (so_child ?s) xs" "calm (so_faults ?s)" "sortable sch (so_sort_col_idx ?s) ((buf @ [x]) @ xs)"
      using 1(3) Cons.prems(3,4) by simp_all
    from Cons.IH [OF 1(2) this] obtain c2 flt cs buf' w2 where
      "init_loop E sch (buf @ [x]) (?s, w') = Some (Ok buf', (?s\<lparr>so_child := c2, so_faults := flt,
        so_runs := so_runs ?s @ map (\<lambda>c. enc_rows (sort_key (row_key sch (so_sort_col_idx ?s)) c)) cs\<rparr>, w2))"
      "good w2" "gives c2 []" "calm flt" "concat cs @ buf' = (buf @ [x]) @ xs"
      by (elim exE conjE) (rule that)
    then show ?thesis unfolding step
      by (intro exI [of _ c2] exI [of _ flt] exI [of _ cs] exI [of _ buf'] exI [of _ w2]) simp
  next
    case True
    have so: "sortable sch ?idx (buf @ [x])" by (rule sortable_subset [OF Cons.prems(4)]) auto
    have sb: "sort_buffer ?idx sch (buf @ [x]) = sort_key ?f (buf @ [x])" by (rule sort_buffer_key [OF so])
    have calm: "calm (so_faults ?s)" using Cons.prems(3) by simp
    have small: "\<forall>t \<in> set (sort_key ?f (buf @ [x])). length t < 2 ^ 32"
      using so unfolding sortable_def set_sort by blast
    from spill_law [OF calm small, of w'] obtain f1 where
      2: "spill_to_disk (sort_key ?f (buf @ [x])) (?s, w') =
        Some (Ok (), (?s\<lparr>so_faults := f1, so_runs := so_runs ?s @ [enc_rows (sort_key ?f (buf @ [x]))]\<rparr>, w'))" "calm f1"
      by (elim exE conjE) (rule that)
    let ?s2 = "?s\<lparr>so_faults := f1, so_runs := so_runs ?s @ [enc_rows (sort_key ?f (buf @ [x]))]\<rparr>"
    have step: "init_loop E sch buf (s, w) = init_loop E sch [] (?s2, w')"
      using True by (subst init_loop.simps) (simp add: act_simps z sb 2(1) del: sort_key_simps)
    have sx: "sortable sch ?idx xs" by (rule sortable_subset [OF Cons.prems(4)]) auto
    have "gives (so_child ?s2) xs" "calm (so_faults ?s2)" "sortable sch (so_sort_col_idx ?s2) ([] @ xs)"
      using 1(3) 2(2) sx by simp_all
    from Cons.IH [OF 1(2) this] obtain c2 flt cs buf' w2 where
      "init_loop E sch [] (?s2, w') = Some (Ok buf', (?s2\<lparr>so_child := c2, so_faults := flt,
        so_runs := so_runs ?s2 @ map (\<lambda>c. enc_rows (sort_key (row_key sch (so_sort_col_idx ?s2)) c)) cs\<rparr>, w2))"
      "good w2" "gives c2 []" "calm flt" "concat cs @ buf' = [] @ xs"
      by (elim exE conjE) (rule that)
    then show ?thesis unfolding step
      by (intro exI [of _ c2] exI [of _ flt] exI [of _ "(buf @ [x]) # cs"] exI [of _ buf'] exI [of _ w2]) simp
  qed
qed

lemma merge_law:
  assumes calm: "calm (so_faults s)" and act: "list_all2 run_holds (so_active s) Rs"
    and so: "sortable sch (so_sort_col_idx s) (concat Rs)" and c: "gives (so_child s) xs"
    and srt: "\<forall>R \<in> set Rs. sorted (map (row_key sch (so_sort_col_idx s)) R)"
  shows "\<exists>flt act' Rs'. merge_next E (s, w) =
      Some (Ok (hd_opt (sort_key (row_key sch (so_sort_col_idx s)) (concat Rs))), (s\<lparr>so_active := act', so_faults := flt\<rparr>, w)) \<and>
    calm flt \<and> list_all2 run_holds act' Rs' \<and> set (concat Rs') \<subseteq> set (concat Rs) \<and>
    (\<forall>R \<in> set Rs'. sorted (map (row_key sch (so_sort_col_idx s)) R)) \<and>
    sort_key (row_key sch (so_sort_col_idx s)) (concat Rs') = tl (sort_key (row_key sch (so_sort_col_idx s)) (concat Rs))"
proof -
  let ?f = "row_key sch (so_sort_col_idx s)" and ?cmp = "compare_rows (so_sort_col_idx s) sch"
  have sc: "ex_schema E (so_child s) = sch" by (rule schema_law [OF c])
  have best: "is_best ?f Rs (best_run ?cmp 0 (so_active s) None)"
    using best_run_spec [OF act, where pre = "[]" and best = None and f = ?f and cmp = ?cmp] sortable_key [OF so]
    by (simp add: is_best_def)
  show ?thesis
  proof (cases "best_run ?cmp 0 (so_active s) None")
    case None
    then have "concat Rs = []" using best by (simp add: is_best_def)
    then have "sort_key ?f (concat Rs) = []" by (simp only: sort_key_simps)
    moreover have "merge_next E (s, w) = Some (Ok None, (s\<lparr>so_active := so_active s, so_faults := so_faults s\<rparr>, w))"
      by (simp add: merge_next_def sc None act_simps)
    ultimately show ?thesis using calm act srt
      by (intro exI [of _ "so_faults s"] exI [of _ "so_active s"] exI [of _ Rs]) simp
  next
    case (Some bt)
    obtain b t where bt: "bt = (b, t)" by (cases bt)
    note ib = best [unfolded Some bt]
    have b: "b < length Rs" "Rs ! b = t # tl (Rs ! b)" using ib by (auto simp: is_best_def)
    have ba: "b < length (so_active s)" using b(1) act by (simp add: list_all2_lengthD)
    have "run_holds (so_active s ! b) (Rs ! b)" by (rule list_all2_nthD [OF act ba])
    then have fs: "fst (so_active s ! b) = enc_rows (tl (Rs ! b))" by (simp add: run_holds_def)
    have "set (Rs ! b) \<subseteq> set (concat Rs)" using nth_mem [OF b(1)] by auto
    then have "\<forall>u \<in> set (tl (Rs ! b)). length u < 2 ^ 32"
      using so b(2) unfolding sortable_def by (metis list.set_intros(2) subsetD)
    from read_tuple_rows [OF calm this] obtain flt where
      rd: "read_tuple (enc_rows (tl (Rs ! b))) (so_faults s) = (Ok (hd_opt (tl (Rs ! b))), enc_rows (tl (tl (Rs ! b))), flt)"
        "calm flt" .
    let ?run = "(enc_rows (tl (tl (Rs ! b))), hd_opt (tl (Rs ! b)))" and ?Rs = "Rs[b := tl (Rs ! b)]"
    have run: "merge_next E (s, w) = Some (Ok (Some t), (s\<lparr>so_active := (so_active s)[b := ?run], so_faults := flt\<rparr>, w))"
      by (simp add: merge_next_def sc Some bt fs rd(1) act_simps)
    have m: "sort_key ?f (concat Rs) = t # sort_key ?f (concat ?Rs)" by (rule merge_step [OF ib srt])
    have "list_all2 run_holds ((so_active s)[b := ?run]) ?Rs"
      by (rule list_all2_update_cong [OF act]) (simp add: run_holds_def)
    moreover have "set (concat ?Rs) \<subseteq> set (concat Rs)"
    proof -
      have "set (tl (Rs ! b)) \<subseteq> set (concat Rs)" using b by (metis UN_upper nth_mem order_trans set_concat set_subset_Cons)
      then show ?thesis using set_update_subset_insert [of Rs b "tl (Rs ! b)"] by fastforce
    qed
    moreover have "\<forall>R \<in> set ?Rs. sorted (map ?f R)"
    proof
      fix R assume "R \<in> set ?Rs"
      then have "R = tl (Rs ! b) \<or> R \<in> set Rs" using set_update_subset_insert [of Rs b "tl (Rs ! b)"] by auto
      moreover have "sorted (map ?f (tl (Rs ! b)))" using srt b by (metis map_tl nth_mem sorted_tl)
      ultimately show "sorted (map ?f R)" using srt by blast
    qed
    ultimately show ?thesis using run rd(2) m
      by (intro exI [of _ flt] exI [of _ "(so_active s)[b := ?run]"] exI [of _ ?Rs]) simp
  qed
qed

lemma sort_init_law:
  assumes w: "good w" and g: "so_gives s ts" and i: "\<not> so_initialized s"
  shows "\<exists>s' w'. sort_init E (s, w) = Some (Ok (), (s', w')) \<and> good w' \<and> so_initialized s' \<and> so_gives s' ts"
proof -
  let ?idx = "so_sort_col_idx s" and ?f = "row_key sch (so_sort_col_idx s)"
  obtain xs where s: "calm (so_faults s)" "so_runs s = []" "so_active s = []" "so_in_memory s = None"
    "gives (so_child s) xs" "sortable sch ?idx xs" "ts = sort_key ?f xs"
    using g i by (auto simp: so_gives_def)
  have sc: "ex_schema E (so_child s) = sch" by (rule schema_law [OF s(5)])
  have "sortable sch ?idx ([] @ xs)" using s(6) by simp
  from init_loop_law [OF w s(5,1) this] obtain c flt cs buf w1 where
    1: "init_loop E sch [] (s, w) = Some (Ok buf, (s\<lparr>so_child := c, so_faults := flt,
        so_runs := so_runs s @ map (\<lambda>c. enc_rows (sort_key ?f c)) cs\<rparr>, w1))" "good w1" "gives c []" "calm flt"
      "concat cs @ buf = [] @ xs" by (elim exE conjE) (rule that)
  let ?s1 = "s\<lparr>so_child := c, so_faults := flt, so_runs := map (\<lambda>c. enc_rows (sort_key ?f c)) cs\<rparr>"
  have l: "init_loop E sch [] (s, w) = Some (Ok buf, (?s1, w1))" using 1(1) s(2) by simp
  have xs: "xs = concat cs @ buf" using 1(5) by simp
  have sob: "sortable sch ?idx buf" by (rule sortable_subset [OF s(6)]) (simp add: xs)
  show ?thesis
  proof (cases "cs = []")
    case True
    let ?s' = "?s1\<lparr>so_in_memory := Some (sort_key ?f buf), so_initialized := True\<rparr>"
    have "sort_init E (s, w) = Some (Ok (), (?s', w1))"
      using True by (simp add: sort_init_def sc Let_def l act_simps sort_buffer_key [OF sob])
    moreover have "so_gives ?s' ts" using 1(3,4) True xs s(7) by (auto simp: so_gives_def)
    ultimately show ?thesis using 1(2) by (intro exI [of _ ?s'] exI [of _ w1]) simp
  next
    case False
    define cs' where "cs' = (if buf = [] then cs else cs @ [buf])"
    have xs': "xs = concat cs'" by (simp add: cs'_def xs)
    have small: "\<forall>R \<in> set (map (sort_key ?f) cs'). \<forall>t \<in> set R. length t < 2 ^ 32"
      using s(6) unfolding sortable_def xs' by auto
    have sp: "\<exists>flt2. (if buf \<noteq> [] then spill_to_disk (sort_buffer ?idx sch buf) else ret ()) (?s1, w1) =
        Some (Ok (), (?s1\<lparr>so_faults := flt2, so_runs := map enc_rows (map (sort_key ?f) cs')\<rparr>, w1)) \<and> calm flt2"
    proof (cases "buf = []")
      case True
      then show ?thesis using 1(4) by (intro exI [of _ flt]) (simp add: cs'_def act_simps comp_def)
    next
      case False
      have "\<forall>t \<in> set (sort_key ?f buf). length t < 2 ^ 32" using sob unfolding sortable_def set_sort by blast
      from spill_law [OF _ this, of ?s1 w1] 1(4) obtain flt2 where
        "spill_to_disk (sort_key ?f buf) (?s1, w1) = Some (Ok (), (?s1\<lparr>so_faults := flt2,
          so_runs := so_runs ?s1 @ [enc_rows (sort_key ?f buf)]\<rparr>, w1))" "calm flt2" by auto
      then show ?thesis using False
        by (intro exI [of _ flt2]) (simp add: cs'_def sort_buffer_key [OF sob] comp_def)
    qed
    then obtain flt2 where sp: "(if buf \<noteq> [] then spill_to_disk (sort_buffer ?idx sch buf) else ret ()) (?s1, w1) =
        Some (Ok (), (?s1\<lparr>so_faults := flt2, so_runs := map enc_rows (map (sort_key ?f) cs')\<rparr>, w1))" "calm flt2" by blast
    let ?s2 = "?s1\<lparr>so_faults := flt2, so_runs := []\<rparr>"
    have "calm (so_faults ?s2)" using sp(2) by simp
    from open_runs_law [OF this small, of w1] obtain flt3 acts where
      op: "open_runs (map enc_rows (map (sort_key ?f) cs')) (?s2, w1) =
        Some (Ok (), (?s2\<lparr>so_faults := flt3, so_active := so_active ?s2 @ acts\<rparr>, w1))" "calm flt3"
        "list_all2 run_holds acts (map (sort_key ?f) cs')" by (elim exE conjE) (rule that)
    let ?s' = "?s2\<lparr>so_faults := flt3, so_active := acts, so_initialized := True\<rparr>"
    have "sort_init E (s, w) = Some (Ok (), (?s', w1))"
    proof -
      let ?spill = "if buf \<noteq> [] then spill_to_disk (sort_buffer ?idx sch buf) else ret ()"
      let ?K = "\<lambda>_ (s, w). open_runs (so_runs s) (s\<lparr>so_runs := []\<rparr>, w)"
      have "bnd ?spill ?K (?s1, w1) = Some (Ok (), (?s'\<lparr>so_initialized := so_initialized s\<rparr>, w1))"
        by (subst bnd_Ok [where m = ?spill, OF sp(1)]) (use op(1) s(3) in simp)
      then have "bnd (if so_runs ?s1 = []
          then (\<lambda>(s, w). ret () (s\<lparr>so_in_memory := Some (sort_buffer ?idx sch buf)\<rparr>, w)) else bnd ?spill ?K)
        (\<lambda>_ (s, w). ret () (s\<lparr>so_initialized := True\<rparr>, w)) (?s1, w1) = Some (Ok (), (?s', w1))"
        using False by (subst if_not_P) (simp, simp add: bnd_Ok ret_def)
      then show ?thesis unfolding sort_init_def Let_def prod.case sc by (subst bnd_Ok [where m = "init_loop E sch []", OF l]) simp
    qed
    moreover have "so_gives ?s' ts"
    proof -
      have "sortable sch ?idx (concat (map (sort_key ?f) cs'))" by (rule sortable_subset [OF s(6)]) (auto simp: xs')
      moreover have "ts = sort_key ?f (concat (map (sort_key ?f) cs'))" by (simp only: sort_key_chunks s(7) xs')
      moreover have "\<forall>R \<in> set (map (sort_key ?f) cs'). sorted (map ?f R)" by auto
      ultimately have "\<exists>Rs. list_all2 run_holds acts Rs \<and> sortable sch ?idx (concat Rs) \<and>
          (\<forall>R \<in> set Rs. sorted (map ?f R)) \<and> ts = sort_key ?f (concat Rs)"
        using op(3) by (intro exI [of _ "map (sort_key ?f) cs'"] conjI) assumption+
      then show ?thesis using exI [of "gives c", OF 1(3)] op(2) s(4) by (simp add: so_gives_def)
    qed
    ultimately show ?thesis using 1(2) by (intro exI [of _ ?s'] exI [of _ w1]) simp
  qed
qed

lemma sort_executor: "executor (sort_executor E) good so_gives sch"
proof
  fix w s ts assume w: "good w" and g: "so_gives s ts"
  have "\<exists>s1 w1. (if so_initialized s then ret () else sort_init E) (s, w) = Some (Ok (), (s1, w1)) \<and> good w1 \<and>
      so_initialized s1 \<and> so_gives s1 ts"
  proof (cases "so_initialized s")
    case True
    then show ?thesis using w g by (simp add: act_simps)
  next
    case False
    with sort_init_law [OF w g] show ?thesis by simp
  qed
  then obtain s1 w1 where 1: "(if so_initialized s then ret () else sort_init E) (s, w) = Some (Ok (), (s1, w1))" "good w1"
      "so_initialized s1" "so_gives s1 ts" by blast
  show "\<exists>s' w'. ex_next (sort_executor E) (s, w) = Some (Ok (hd_opt ts), (s', w')) \<and> good w' \<and> so_gives s' (tl ts)"
  proof (cases "so_in_memory s1")
    case (Some m)
    let ?s' = "s1\<lparr>so_in_memory := Some (tl m)\<rparr>"
    have "ts = m" using 1(3,4) Some by (simp add: so_gives_def)
    then have "ex_next (sort_executor E) (s, w) = Some (Ok (hd_opt ts), (?s', w1))"
      by (simp add: sort_executor_def act_simps 1(1) Some)
    moreover have "so_gives ?s' (tl ts)" using 1(3,4) Some \<open>ts = m\<close> by (simp add: so_gives_def)
    ultimately show ?thesis using 1(2) by (intro exI [of _ ?s'] exI [of _ w1]) simp
  next
    case None
    let ?f = "row_key sch (so_sort_col_idx s1)"
    obtain xs Rs where g1: "calm (so_faults s1)" "gives (so_child s1) xs" "list_all2 run_holds (so_active s1) Rs"
      "sortable sch (so_sort_col_idx s1) (concat Rs)" "\<forall>R \<in> set Rs. sorted (map ?f R)" "ts = sort_key ?f (concat Rs)"
      using 1(3,4) None by (auto simp: so_gives_def)
    obtain flt act' Rs' where m: "merge_next E (s1, w1) =
      Some (Ok (hd_opt (sort_key ?f (concat Rs))), (s1\<lparr>so_active := act', so_faults := flt\<rparr>, w1))"
      "calm flt" "list_all2 run_holds act' Rs'" "set (concat Rs') \<subseteq> set (concat Rs)" "\<forall>R \<in> set Rs'. sorted (map ?f R)"
      "sort_key ?f (concat Rs') = tl (sort_key ?f (concat Rs))"
      using merge_law [OF g1(1,3,4,2,5), of w1] by (elim exE conjE) (rule that)
    let ?s' = "s1\<lparr>so_active := act', so_faults := flt\<rparr>"
    have "ex_next (sort_executor E) (s, w) = Some (Ok (hd_opt ts), (?s', w1))"
      by (simp add: sort_executor_def act_simps 1(1) None m(1) g1(6))
    moreover have "so_gives ?s' (tl ts)"
      using 1(3) None g1(2,6) m(2,3,5,6) sortable_subset [OF g1(4) m(4)] by (auto simp: so_gives_def)
    ultimately show ?thesis using 1(2) by (intro exI [of _ ?s'] exI [of _ w1]) simp
  qed
next
  fix s ts assume "so_gives s ts"
  then show "ex_schema (sort_executor E) s = sch" using schema_law by (auto simp: so_gives_def sort_executor_def split: if_splits)
qed

lemma new_merge_sort_gives:
  assumes "gives c xs" and "sortable sch idx xs" and "calm flt"
  shows "so_gives (new_merge_sort c idx n flt) (sort_key (row_key sch idx) xs)"
  using assms by (auto simp: so_gives_def new_merge_sort_def)

end

subsection \<open>The sort over a boxed operator\<close>

definition sort_box :: "nat \<Rightarrow> nat \<Rightarrow> faults \<Rightarrow> 'w boxed \<Rightarrow> 'w boxed" where
  "sort_box idx chunk flt b = box (sort_executor dyn_executor) (new_merge_sort b idx chunk flt)"

lemma sort_yields:
  assumes "yields good sch xs b" and "sortable sch idx xs" and "calm flt"
  shows "yields good sch (sort_key (row_key sch idx) xs) (sort_box idx chunk flt b)"
  unfolding sort_box_def
  by (rule executor.yields_box [OF dyn.sort_executor dyn.new_merge_sort_gives [where n = chunk, OF assms]])

text \<open>
  C23: Draining the external sort ends. The rows it hands out are the child's, stably sorted by the
  sort column, whatever the chunk size, as long as every row decodes, has a key that is not null
  and no call on a temporary file fails.
\<close>

theorem external_sort_sorts:
  assumes "yields good sch xs b" and "sortable sch idx xs" and "calm flt" and "good w"
  shows "\<exists>b' w'. drain dyn_executor [] (sort_box idx chunk flt b, w) =
      Some (Ok (sort_key (row_key sch idx) xs), (b', w')) \<and> good w'"
  using dyn.drain_law [OF assms(4) sort_yields [OF assms(1-3), of chunk], of "[]"] by auto

text \<open>
  C35: The comparison is no order on null keys: a row with a null key compares \<open>Equal\<close> to two rows
  of which one is \<open>Less\<close> than the other, so \<open>sort_by\<close> and the merge have no sorted result to reach.
\<close>

theorem null_keys_break_the_order:
  assumes "to_values a sch = Ok va" and "to_values n sch = Ok vn" and "to_values b sch = Ok vb"
    and "idx < column_count sch" and "va ! idx = Integer i" and "vb ! idx = Integer j" and "i < j" and "vn ! idx = Null"
  shows "compare_rows idx sch a n = Equal \<and> compare_rows idx sch n b = Equal \<and> compare_rows idx sch a b = Less"
proof -
  have "idx < length va" "idx < length vn" "idx < length vb"
    using assms(4) to_values_length [OF assms(1)] to_values_length [OF assms(2)] to_values_length [OF assms(3)]
    by (simp_all add: column_count_def)
  with assms show ?thesis by (simp add: compare_rows_def compare_values_def)
qed

lemma sort_rows:
  "sortable (key_schema ''a'') 0 [[0, 9, 0, 0, 0], [0, 7, 0, 0, 0], [0, 8, 0, 0, 0]]"
  "sort_key (row_key (key_schema ''a'') 0) [[0, 9, 0, 0, 0], [0, 7, 0, 0, 0], [0, 8, 0, 0, 0]] =
     [[0, 7, 0, 0, 0], [0, 8, 0, 0, 0], [0, 9, 0, 0, 0]]"
proof -
  have v: "to_values [0, 9, 0, 0, 0] (key_schema ''a'') = Ok [Integer 9]"
    "to_values [0, 7, 0, 0, 0] (key_schema ''a'') = Ok [Integer 7]"
    "to_values [0, 8, 0, 0, 0] (key_schema ''a'') = Ok [Integer 8]" by code_simp+
  have c: "column_count (key_schema ''a'') = 1" by (simp add: column_count_def key_schema_def)
  show "sortable (key_schema ''a'') 0 [[0, 9, 0, 0, 0], [0, 7, 0, 0, 0], [0, 8, 0, 0, 0]]"
    by (simp add: sortable_def v c)
  show "sort_key (row_key (key_schema ''a'') 0) [[0, 9, 0, 0, 0], [0, 7, 0, 0, 0], [0, 8, 0, 0, 0]] =
     [[0, 7, 0, 0, 0], [0, 8, 0, 0, 0], [0, 9, 0, 0, 0]]"
    by (simp add: row_key_def v value_key_def)
qed

theorem external_sort_sorts_witness:
  "\<exists>b' w'. drain dyn_executor [] (sort_box 0 2 (replicate 50 None) (box (list_executor (key_schema ''a''))
      [[0, 9, 0, 0, 0], [0, 7, 0, 0, 0], [0, 8, 0, 0, 0]]), ()) =
    Some (Ok [[0, 7, 0, 0, 0], [0, 8, 0, 0, 0], [0, 9, 0, 0, 0]], (b', w'))"
proof -
  let ?ts = "[[0, 9, 0, 0, 0], [0, 7, 0, 0, 0], [0, 8, 0, 0, 0]] :: tuple list"
  have y: "yields (\<lambda>_ :: unit. True) (key_schema ''a'') ?ts (box (list_executor (key_schema ''a'')) ?ts)"
    by (rule src.yields_box) simp
  have "calm (replicate 50 None)" by (simp add: calm_def)
  from external_sort_sorts [OF y sort_rows(1) this, where w = "()" and chunk = 2] show ?thesis unfolding sort_rows(2) by auto
qed

theorem null_keys_break_the_order_witness:
  "compare_rows 0 (key_schema ''a'') [0, 7, 0, 0, 0] [1, 0, 0, 0, 0] = Equal \<and>
   compare_rows 0 (key_schema ''a'') [1, 0, 0, 0, 0] [0, 9, 0, 0, 0] = Equal \<and>
   compare_rows 0 (key_schema ''a'') [0, 7, 0, 0, 0] [0, 9, 0, 0, 0] = Less"
proof -
  have v: "to_values [0, 7, 0, 0, 0] (key_schema ''a'') = Ok [Integer 7]"
    "to_values [1, 0, 0, 0, 0] (key_schema ''a'') = Ok [Null]"
    "to_values [0, 9, 0, 0, 0] (key_schema ''a'') = Ok [Integer 9]" by code_simp+
  have c: "0 < column_count (key_schema ''a'')" by (simp add: column_count_def key_schema_def)
  show ?thesis using null_keys_break_the_order [OF v c, of 7 9] by simp
qed

end
