(* ===== verification/Query_Plan.thy ===== *)
theory Query_Plan
  imports Sql Catalog Scans Joins Sort_Laws
begin

text \<open>
  \<open>SELECT\<close> (\<open>crates/wackdb_cli/src/commands/query.rs\<close>): the plan of boxed operators that is built
  from a statement and the catalog, and its execution. The pool is the world of the operators; \<open>P\<close>
  are its operations and \<open>T\<close> is its \<open>get_total_pages\<close>. The rows that \<open>print_results\<close> lays out as a
  table are returned as lists of values next to the text of the plan.
\<close>

datatype cli_error =
    Message string
  | CliCatalog catalog_error
  | CliQuery query_error
  | CliBuffer buffer_error
  | CliTuple tuple_error
  | CliIndex node_error
  | CliParse

type_synonym 's totals = "u32 \<Rightarrow> 's \<Rightarrow> (buffer_error, u32) res \<times> 's"

definition quoted :: "string \<Rightarrow> string" where
  "quoted s = CHR 0x27 # s @ [CHR 0x27]"

subsection \<open>Scans\<close>

text \<open>The range of the index that a single condition on a column named \<open>id\<close> asks for.\<close>

definition i32_saturate :: "int \<Rightarrow> int" where
  "i32_saturate i = max (- (2 ^ 31)) (min i (2 ^ 31 - 1))"

definition key_range :: "operator \<Rightarrow> int \<Rightarrow> (int \<times> int) option" where
  "key_range p v = (case p of
       Eq \<Rightarrow> Some (v, v)
     | Gt \<Rightarrow> Some (i32_saturate (v + 1), 2 ^ 31 - 1)
     | Gte \<Rightarrow> Some (v, 2 ^ 31 - 1)
     | Lt \<Rightarrow> Some (- (2 ^ 31), i32_saturate (v - 1))
     | Lte \<Rightarrow> Some (- (2 ^ 31), v)
     | Neq \<Rightarrow> None)"

definition index_bounds :: "table_metadata \<Rightarrow> where_condition list \<Rightarrow> ((page_id option \<times> u32) \<times> int \<times> int) option" where
  "index_bounds meta conds = (case root_page_num meta of
       None \<Rightarrow> None
     | Some rpn \<Rightarrow> (case conds of
         [cond] \<Rightarrow>
           (if left_col cond = ''id''
            then (case parse_i32 (right_val cond) of
                    Some v \<Rightarrow> map_option (\<lambda>range. ((Some \<lparr>file_id = index_relation_id meta, page_num = rpn\<rparr>,
                        index_relation_id meta), range)) (key_range (cond_op cond) v)
                  | None \<Rightarrow> None)
            else None)
       | _ \<Rightarrow> None))"

definition last_page :: "u32 \<Rightarrow> u32" where
  "last_page n = (if 0 < n then n - 1 else 0)"

definition build_base_pipeline :: "'s pager \<Rightarrow> 's totals \<Rightarrow> string \<Rightarrow> where_condition list \<Rightarrow> catalog \<Rightarrow> string \<Rightarrow>
    ('s, cli_error, 's boxed \<times> string) act" where
  "build_base_pipeline P T table conds cat plan =
     bnd (of_res (map_err CliCatalog (get_table table cat))) (\<lambda>meta.
     bnd (of_res (map_err (\<lambda>_. Message ''Schema not found'') (get_schema table cat))) (\<lambda>schema.
     bnd (total (\<lambda>w. let (r, w') = T (heap_relation_id meta) w in (map_err CliBuffer r, w'))) (\<lambda>total_pages.
       case index_bounds meta conds of
         Some b \<Rightarrow>
           bnd (map_err_act CliQuery (optimize P (heap_relation_id meta) schema (last_page total_pages) (Some b)))
             (\<lambda>pipeline. ret (pipeline, plan @ ''IndexScan('' @ table @ '')''))
       | None \<Rightarrow>
           bnd (map_err_act CliQuery (optimize P (heap_relation_id meta) schema (last_page total_pages) None))
             (\<lambda>pipeline. ret (pipeline, plan @ ''SeqScan('' @ table @ '')'')))))"

subsection \<open>Filters, joins, projections, sorting\<close>

text \<open>The clause is only evaluated on a row that decodes, so the index into its values is in range.\<close>

definition where_predicate :: "where_condition list \<Rightarrow> tuple \<Rightarrow> schema \<Rightarrow> bool" where
  "where_predicate conds t s = (case to_values t s of
       Ok vals \<Rightarrow> (case evaluate_where_clause conds s vals :: (unit, bool) res of Ok b \<Rightarrow> b | _ \<Rightarrow> False)
     | _ \<Rightarrow> False)"

definition build_filter_pipeline :: "'w boxed \<Rightarrow> where_condition list \<Rightarrow> string \<Rightarrow> 'w boxed \<times> string" where
  "build_filter_pipeline pipeline conds plan =
     (box (select_executor dyn_executor (where_predicate conds)) pipeline, plan @ '' -> Filter'')"

fun build_join_pipeline :: "'s pager \<Rightarrow> 's totals \<Rightarrow> 's boxed \<Rightarrow> join_clause list \<Rightarrow> catalog \<Rightarrow> string \<Rightarrow>
    ('s, cli_error, 's boxed \<times> string) act" where
  "build_join_pipeline P T left [] cat plan = ret (left, plan)"
| "build_join_pipeline P T left (j # js) cat plan =
     bnd (of_res (map_err CliCatalog (get_table (jc_table j) cat))) (\<lambda>meta2.
     bnd (of_res (map_err (\<lambda>_. Message ''Schema not found for join table'') (get_schema (jc_table j) cat))) (\<lambda>schema2.
     bnd (total (\<lambda>w. let (r, w') = T (heap_relation_id meta2) w in (map_err CliBuffer r, w'))) (\<lambda>total_pages2.
     bnd (map_err_act CliQuery (optimize P (heap_relation_id meta2) schema2 (last_page total_pages2) None)) (\<lambda>right.
       if num_records meta2 < 10000
       then build_join_pipeline P T (hash_join_box (jc_left_col j) (jc_right_col j) left right) js cat
              (plan @ '' -> HashJoin('' @ jc_table j @ '')'')
       else build_join_pipeline P T (nested_loop_box (equi_predicate (jc_left_col j) (jc_right_col j)) left right) js cat
              (plan @ '' -> NestedLoopJoin('' @ jc_table j @ '')'')))))"

definition build_projection_schema :: "string list \<Rightarrow> schema \<Rightarrow> schema" where
  "build_projection_schema cols input =
     (if cols = [''*''] then input
      else \<lparr>columns = List.map_filter (\<lambda>c. find (\<lambda>col. col_name col = c) (columns input)) cols\<rparr>)"

definition build_projection_pipeline :: "'w boxed \<Rightarrow> string list \<Rightarrow> schema \<Rightarrow> string \<Rightarrow> 'w boxed \<times> string" where
  "build_projection_pipeline pipeline cols output plan =
     (box (project_executor dyn_executor output (List.map_filter (\<lambda>c. col_position c (bx_schema pipeline)) cols)) pipeline,
      plan @ '' -> Project'')"

definition build_sort_pipeline :: "'w boxed \<Rightarrow> string \<Rightarrow> nat \<Rightarrow> faults \<Rightarrow> string \<Rightarrow> (cli_error, 'w boxed \<times> string) res" where
  "build_sort_pipeline pipeline order_col chunk flt plan =
     res_bind (ok_or (col_position order_col (bx_schema pipeline))
       (Message (''ORDER BY column '' @ quoted order_col @ '' not found in output schema''))) (\<lambda>idx.
       Ok (sort_box idx chunk flt pipeline, plan @ '' -> ExternalMergeSort(col: '' @ order_col @ '')''))"

subsection \<open>\<open>execute_query\<close>\<close>

text \<open>The conditions that are checked below the joins, and those above them.\<close>

definition split_where :: "schema \<Rightarrow> where_condition list \<Rightarrow> where_condition list \<times> where_condition list" where
  "split_where base conds =
     (let is_base = (\<lambda>c. list_ex (\<lambda>col. col_name col = left_col c) (columns base));
          has_or = list_ex (\<lambda>c. next_logic c = Some Or) conds
      in if has_or \<and> \<not> list_all is_base conds then ([], conds)
         else (filter is_base conds, filter (\<lambda>c. \<not> is_base c) conds))"

partial_function (option) print_loop :: "schema \<Rightarrow> sql_value list list \<Rightarrow>
    ('w boxed \<times> 'w, cli_error, sql_value list list) act" where
  "print_loop output_schema rows s = bnd (map_err_act CliQuery (ex_next dyn_executor)) (\<lambda>r. case r of
       None \<Rightarrow> ret rows
     | Some t \<Rightarrow> bnd (of_res (map_err CliTuple (to_values t output_schema))) (\<lambda>vals s.
         print_loop output_schema (rows @ [vals]) s)) s"

definition print_results :: "'w boxed \<Rightarrow> schema \<Rightarrow> ('w, cli_error, sql_value list list) act" where
  "print_results pipeline output_schema = (\<lambda>w.
     map_option (\<lambda>(r, (_, w')). (r, w')) (print_loop output_schema [] (pipeline, w)))"

definition execute_query :: "'s pager \<Rightarrow> 's totals \<Rightarrow> ast \<Rightarrow> catalog \<Rightarrow> nat \<Rightarrow> faults \<Rightarrow>
    ('s, cli_error, string \<times> sql_value list list) act" where
  "execute_query P T ast cat sort_chunk_size flt = (case ast of
       SelectStmt cols table _ joins conds order_by \<Rightarrow>
         bnd (of_res (map_err (\<lambda>_. Message ''Schema not found'') (get_schema table cat))) (\<lambda>base_schema.
         (case split_where base_schema conds of (base_where, remaining_where) \<Rightarrow>
         bnd (build_base_pipeline P T table base_where cat []) (\<lambda>(pipeline, plan).
         (case (if base_where \<noteq> [] then build_filter_pipeline pipeline base_where plan else (pipeline, plan)) of (pipeline, plan) \<Rightarrow>
         bnd (if joins \<noteq> [] then build_join_pipeline P T pipeline joins cat plan else ret (pipeline, plan)) (\<lambda>(pipeline, plan).
         (case (if remaining_where \<noteq> [] then build_filter_pipeline pipeline remaining_where plan else (pipeline, plan)) of (pipeline, plan) \<Rightarrow>
         (let output_schema = build_projection_schema cols (bx_schema pipeline) in
         (case (if cols \<noteq> [''*''] then build_projection_pipeline pipeline cols output_schema plan else (pipeline, plan)) of (pipeline, plan) \<Rightarrow>
         bnd (case order_by of
                Some order_col \<Rightarrow> of_res (build_sort_pipeline pipeline order_col sort_chunk_size flt plan)
              | None \<Rightarrow> ret (pipeline, plan)) (\<lambda>(pipeline, plan).
         bnd (print_results pipeline output_schema) (\<lambda>rows. ret (plan, rows)))))))))))
     | _ \<Rightarrow> throw (Message ''Not a SELECT statement.''))"

end
