(* ===== verification/Query_Laws.thy ===== *)
theory Query_Laws
  imports Query_Plan
begin

text \<open>
  What a \<open>SELECT\<close> returns. \<open>table_ok\<close> relates the heap file of a table and its index: the index maps
  the first column of every live row to the place of the row, and nothing else. Then the plan with
  the index and the plan without it return the same rows, up to their order.
\<close>

subsection \<open>The live rows of a table, by place\<close>

definition place :: "u32 \<Rightarrow> nat \<Rightarrow> nat \<Rightarrow> ctid" where
  "place fid k i = \<lparr>ctid_page = heap_page fid k, slot_idx = of_nat i\<rparr>"

definition live_places :: "(page_id \<Rightarrow> page) \<Rightarrow> u32 \<Rightarrow> nat \<Rightarrow> ctid list" where
  "live_places V fid n = concat (map (\<lambda>k. map (place fid k)
     (filter (\<lambda>i. row_at (V (heap_page fid k)) i \<noteq> None) [0..<get_total_slots_from_bytes (V (heap_page fid k))])) [0..<n])"

lemma row_at_bound: "row_at pg i = Some t \<Longrightarrow> i < get_total_slots_from_bytes pg"
  by (rule ccontr)
     (simp add: row_at_def get_record_from_bytes_def get_total_slots_from_bytes_def Let_def)

lemma total_slots_bound: "get_total_slots_from_bytes pg < 2 ^ 16"
  using unsigned_less [of "total_slots (header pg)"] by (simp add: get_total_slots_from_bytes_def)

lemma u16_of_nat: "i < 2 ^ 16 \<Longrightarrow> unat (of_nat i :: u16) = i"
  by (simp add: unat_of_nat)

lemma u32_of_nat: "i < 2 ^ 32 \<Longrightarrow> unat (of_nat i :: u32) = i"
  by (simp add: unat_of_nat)

lemma record_of_place:
  assumes "i < get_total_slots_from_bytes (V (heap_page fid k))"
  shows "record_of V (place fid k i) = row_at (V (heap_page fid k)) i"
proof -
  have "i < 2 ^ 16" using assms total_slots_bound [of "V (heap_page fid k)"] by simp
  then show ?thesis by (simp add: record_of_def place_def u16_of_nat)
qed

lemma map_filter_the: "List.map_filter f xs = map (\<lambda>x. the (f x)) (filter (\<lambda>x. f x \<noteq> None) xs)"
  by (induction xs) (auto simp: map_filter_simps split: option.split)

lemma heap_rows_places: "heap_rows V fid 0 n = map (\<lambda>c. the (record_of V c)) (live_places V fid n)"
proof -
  have "rows_from 0 (V (heap_page fid k)) = map (\<lambda>c. the (record_of V c)) (map (place fid k)
      (filter (\<lambda>i. row_at (V (heap_page fid k)) i \<noteq> None) [0..<get_total_slots_from_bytes (V (heap_page fid k))]))" for k
    by (simp add: rows_from_def map_filter_the record_of_place)
  then show ?thesis by (simp add: heap_rows_def live_places_def map_concat comp_def)
qed

lemma heap_page_inj: "k < 2 ^ 32 \<Longrightarrow> k' < 2 ^ 32 \<Longrightarrow> heap_page fid k = heap_page fid k' \<longleftrightarrow> k = k'"
  unfolding heap_page_def by (metis page_id.ext_inject u32_of_nat)

lemma place_inj:
  assumes "k < 2 ^ 32" and "k' < 2 ^ 32" and "i < 2 ^ 16" and "i' < 2 ^ 16"
  shows "place fid k i = place fid k' i' \<longleftrightarrow> k = k' \<and> i = i'"
proof -
  have "(of_nat i :: u16) = of_nat i' \<longleftrightarrow> i = i'"
    using assms(3,4) by (metis u16_of_nat)
  with heap_page_inj [OF assms(1,2)] show ?thesis by (auto simp: place_def)
qed

lemma live_places_distinct:
  assumes "n \<le> 2 ^ 32"
  shows "distinct (live_places V fid n)"
  using assms
proof (induction n)
  case (Suc n)
  let ?L = "\<lambda>k. map (place fid k)
     (filter (\<lambda>i. row_at (V (heap_page fid k)) i \<noteq> None) [0..<get_total_slots_from_bytes (V (heap_page fid k))])"
  have e: "live_places V fid (Suc n) = live_places V fid n @ ?L n" by (simp add: live_places_def)
  have d: "distinct (?L n)"
    using Suc.prems total_slots_bound [of "V (heap_page fid n)"]
    by (auto simp: distinct_map inj_on_def place_inj)
  have "c \<notin> set (?L n)" if "c \<in> set (live_places V fid n)" for c
  proof -
    from that obtain k i where "k < n" "c = place fid k i" by (auto simp: live_places_def)
    then have "ctid_page c \<noteq> heap_page fid n" using Suc.prems by (simp add: place_def heap_page_inj)
    then show ?thesis by (auto simp: place_def)
  qed
  then show ?case using Suc d unfolding e distinct_append by (simp add: disjoint_iff)
qed (simp add: live_places_def)

lemma live_places_set:
  "c \<in> set (live_places V fid n) \<longleftrightarrow> (\<exists>k < n. ctid_page c = heap_page fid k) \<and> record_of V c \<noteq> None"
proof
  assume "c \<in> set (live_places V fid n)"
  then obtain k i where "k < n" "c = place fid k i" "row_at (V (heap_page fid k)) i \<noteq> None"
      "i < get_total_slots_from_bytes (V (heap_page fid k))" by (auto simp: live_places_def)
  then show "(\<exists>k < n. ctid_page c = heap_page fid k) \<and> record_of V c \<noteq> None"
    by (auto simp: record_of_place) (auto simp: place_def)
next
  assume "(\<exists>k < n. ctid_page c = heap_page fid k) \<and> record_of V c \<noteq> None"
  then obtain k t where k: "k < n" "ctid_page c = heap_page fid k" and t: "record_of V c = Some t" by blast
  then have r: "row_at (V (heap_page fid k)) (unat (slot_idx c)) = Some t" by (simp add: record_of_def)
  moreover have "c = place fid k (unat (slot_idx c))" using k(2) by (simp add: place_def)
  ultimately show "c \<in> set (live_places V fid n)"
    using k(1) row_at_bound [OF r] by (force simp: live_places_def)
qed

subsection \<open>Tables and their indexes\<close>

definition row_key_is :: "schema \<Rightarrow> tuple \<Rightarrow> int \<Rightarrow> bool" where
  "row_key_is sch t pk \<longleftrightarrow> (\<exists>vs. to_values t sch = Ok (Integer pk # vs))"

definition heap_ok :: "(page_id \<Rightarrow> page) \<Rightarrow> u32 \<Rightarrow> nat \<Rightarrow> bool" where
  "heap_ok V fid n \<longleftrightarrow> n < 2 ^ 32 \<and> (\<forall>k < n. readable (V (heap_page fid k)))"

definition index_of_heap :: "schema \<Rightarrow> (page_id \<Rightarrow> page) \<Rightarrow> u32 \<Rightarrow> nat \<Rightarrow> (int \<Rightarrow> ctid option) \<Rightarrow> bool" where
  "index_of_heap sch V fid n m \<longleftrightarrow>
     (\<forall>c \<in> set (live_places V fid n). \<exists>pk. row_key_is sch (the (record_of V c)) pk \<and> m pk = Some c) \<and>
     (\<forall>pk c. m pk = Some c \<longrightarrow> c \<in> set (live_places V fid n) \<and> row_key_is sch (the (record_of V c)) pk)"

lemma row_key_unique: "row_key_is sch t a \<Longrightarrow> row_key_is sch t b \<Longrightarrow> a = b"
  by (auto simp: row_key_is_def)

text \<open>The rows that the index finds for a range are the rows of the heap with a key in the range.\<close>

lemma index_rows:
  assumes ok: "heap_ok V fid n" and idx: "index_of_heap sch V fid n m"
    and kvs: "map_of kvs = m" "sorted_wrt (<) (map fst kvs)"
  shows "mset (map (\<lambda>c. the (record_of V c)) (in_range lo hi kvs)) =
    mset (filter (\<lambda>t. \<exists>pk. row_key_is sch t pk \<and> lo \<le> pk \<and> pk \<le> hi) (heap_rows V fid 0 n))"
proof -
  let ?f = "\<lambda>c. the (record_of V c)" and ?p = "\<lambda>t. \<exists>pk. row_key_is sch t pk \<and> lo \<le> pk \<and> pk \<le> hi"
  have dk: "distinct (map fst kvs)" using kvs(2) strict_sorted_iff by blast
  have mk: "(k, c) \<in> set kvs \<longleftrightarrow> m k = Some c" for k c using kvs(1) dk by auto
  have inj: "k = k'" if "m k = Some c" "m k' = Some c" for k k' c
    using idx that row_key_unique unfolding index_of_heap_def by blast
  have "distinct (in_range lo hi kvs)"
    unfolding in_range_def distinct_map
  proof
    show "distinct (filter (\<lambda>(k, _). lo \<le> k \<and> k \<le> hi) kvs)" using dk by (simp add: distinct_map distinct_filter)
    show "inj_on snd (set (filter (\<lambda>(k, _). lo \<le> k \<and> k \<le> hi) kvs))" using mk inj by (auto simp: inj_on_def)
  qed
  moreover have "distinct (filter (\<lambda>c. ?p (?f c)) (live_places V fid n))"
    using live_places_distinct [of n] ok by (simp add: heap_ok_def)
  moreover have "set (in_range lo hi kvs) = set (filter (\<lambda>c. ?p (?f c)) (live_places V fid n))"
  proof (intro set_eqI iffI)
    fix c assume "c \<in> set (in_range lo hi kvs)"
    then obtain k where "m k = Some c" "lo \<le> k" "k \<le> hi" using mk by (auto simp: in_range_def)
    then show "c \<in> set (filter (\<lambda>c. ?p (?f c)) (live_places V fid n))" using idx unfolding index_of_heap_def by auto
  next
    fix c assume "c \<in> set (filter (\<lambda>c. ?p (?f c)) (live_places V fid n))"
    then obtain pk where c: "c \<in> set (live_places V fid n)" "row_key_is sch (?f c) pk" "lo \<le> pk" "pk \<le> hi" by auto
    then obtain pk' where "row_key_is sch (?f c) pk'" "m pk' = Some c" using idx unfolding index_of_heap_def by blast
    with c(2) have "m pk = Some c" using row_key_unique by blast
    then show "c \<in> set (in_range lo hi kvs)" using mk c(3,4) by (force simp: in_range_def)
  qed
  ultimately have "mset (in_range lo hi kvs) = mset (filter (\<lambda>c. ?p (?f c)) (live_places V fid n))"
    using set_eq_iff_mset_eq_distinct by blast
  then show ?thesis unfolding heap_rows_places filter_map comp_def by (metis mset_map)
qed

subsection \<open>Filters and results\<close>

lemma where_predicate_holds:
  assumes "known_cols s conds" and "to_values t s = Ok vals"
  shows "where_predicate conds t s \<longleftrightarrow> where_holds s conds vals"
proof -
  have "length (columns s) \<le> length vals" using to_values_length [OF assms(2)] by simp
  then have "evaluate_where_clause conds s vals = (Ok (where_holds s conds vals) :: (unit, bool) res)"
    by (rule evaluate_where_known [OF assms(1)])
  then show ?thesis by (simp add: where_predicate_def assms(2))
qed

definition decodes :: "schema \<Rightarrow> tuple list \<Rightarrow> sql_value list list \<Rightarrow> bool" where
  "decodes sch ts rows \<longleftrightarrow> list_all2 (\<lambda>t vs. to_values t sch = Ok vs) ts rows"

lemma decodes_filter:
  assumes "decodes sch ts rows" and "known_cols sch conds"
  shows "decodes sch (filter (\<lambda>t. where_predicate conds t sch) ts) (filter (where_holds sch conds) rows)"
  using assms(1) unfolding decodes_def
  by (induction rule: list_all2_induct) (simp_all add: where_predicate_holds [OF assms(2)])

lemma decodes_iff: "decodes sch ts rows \<longleftrightarrow> (\<forall>t \<in> set ts. \<exists>vs. to_values t sch = Ok vs) \<and>
    rows = map (\<lambda>t. case to_values t sch of Ok vs \<Rightarrow> vs | _ \<Rightarrow> []) ts"
proof
  assume "decodes sch ts rows"
  then show "(\<forall>t \<in> set ts. \<exists>vs. to_values t sch = Ok vs) \<and> rows = map (\<lambda>t. case to_values t sch of Ok vs \<Rightarrow> vs | _ \<Rightarrow> []) ts"
    unfolding decodes_def by (induction rule: list_all2_induct) auto
next
  assume "(\<forall>t \<in> set ts. \<exists>vs. to_values t sch = Ok vs) \<and> rows = map (\<lambda>t. case to_values t sch of Ok vs \<Rightarrow> vs | _ \<Rightarrow> []) ts"
  then show "decodes sch ts rows" unfolding decodes_def by (auto simp: list_all2_map2 list_all2_same)
qed

lemma decodes_mset:
  assumes "decodes sch ts rows" and "mset ts' = mset ts"
  shows "\<exists>rows'. decodes sch ts' rows' \<and> mset rows' = mset rows"
proof -
  have "set ts' = set ts" using assms(2) by (metis set_mset_mset)
  with assms show ?thesis unfolding decodes_iff by simp
qed

lemma filter_yields:
  assumes "yields good sch ts b"
  shows "yields good sch (filter (\<lambda>t. where_predicate conds t sch) ts) (fst (build_filter_pipeline b conds plan))"
  using executor.yields_box [OF dyn.select_executor [where good = good and sch = sch and p = "where_predicate conds"],
      of b "filter (\<lambda>t. where_predicate conds t sch) ts"] assms
  by (auto simp: build_filter_pipeline_def)

lemma print_loop_law:
  assumes "good w" and "yields good sch ts b" and "decodes out ts rows"
  shows "\<exists>b' w'. print_loop out acc (b, w) = Some (Ok (acc @ rows), (b', w')) \<and> good w'"
  using assms
proof (induction ts arbitrary: b w acc rows)
  case Nil
  obtain b' w' where 1: "ex_next dyn_executor (b, w) = Some (Ok None, (b', w'))" "good w'"
    by (rule dyn.next_None [OF Nil.prems(1,2)])
  have "rows = []" using Nil.prems(3) by (simp add: decodes_def)
  then show ?case using 1 by (subst print_loop.simps) (simp add: act_simps)
next
  case (Cons t ts)
  obtain b' w' where 1: "ex_next dyn_executor (b, w) = Some (Ok (Some t), (b', w'))" "good w'" "yields good sch ts b'"
    by (rule dyn.next_Some [OF Cons.prems(1,2)])
  obtain vs rows' where r: "rows = vs # rows'" "to_values t out = Ok vs" "decodes out ts rows'"
    using Cons.prems(3) by (cases rows) (auto simp: decodes_def)
  have "print_loop out acc (b, w) = print_loop out (acc @ [vs]) (b', w')"
    by (subst print_loop.simps) (simp add: act_simps 1(1) r(2))
  with Cons.IH [OF 1(2,3) r(3), of "acc @ [vs]"] r(1) show ?case by simp
qed

lemma print_results_law:
  assumes "good w" and "yields good sch ts b" and "decodes out ts rows"
  shows "\<exists>w'. print_results b out w = Some (Ok rows, w') \<and> good w'"
  using print_loop_law [OF assms, of "[]"] by (auto simp: print_results_def)

subsection \<open>The base of a plan\<close>

text \<open>A table of the catalog whose pages and index are in order. \<open>table_rows\<close> are its live rows.\<close>

definition table_rows :: "(u32 \<Rightarrow> u32) \<Rightarrow> (page_id \<Rightarrow> page) \<Rightarrow> table_metadata \<Rightarrow> tuple list" where
  "table_rows tot V meta = heap_rows V (heap_relation_id meta) 0 (unat (last_page (tot (heap_relation_id meta))) + 1)"

definition index_root :: "table_metadata \<Rightarrow> page_id option" where
  "index_root meta = map_option (\<lambda>n. \<lparr>file_id = index_relation_id meta, page_num = n\<rparr>) (root_page_num meta)"

definition table_ok :: "nat \<Rightarrow> (u32 \<Rightarrow> u32) \<Rightarrow> (page_id \<Rightarrow> page) \<Rightarrow> table_metadata \<Rightarrow> bool" where
  "table_ok ps tot V meta \<longleftrightarrow> heap_ok V (heap_relation_id meta) (unat (last_page (tot (heap_relation_id meta))) + 1) \<and>
     (\<exists>m. index_of_heap (tm_schema meta) V (heap_relation_id meta) (unat (last_page (tot (heap_relation_id meta))) + 1) m \<and>
        index_rep ps (index_relation_id meta) tot V (index_root meta) m)"

text \<open>The keys that a plan reads: all, or those in the range of the index.\<close>

definition plan_keys :: "table_metadata \<Rightarrow> where_condition list \<Rightarrow> tuple \<Rightarrow> bool" where
  "plan_keys meta conds t = (case index_bounds meta conds of None \<Rightarrow> True
     | Some (_, lo, hi) \<Rightarrow> \<exists>pk. row_key_is (tm_schema meta) t pk \<and> lo \<le> pk \<and> pk \<le> hi)"

lemma index_bounds_Some:
  assumes "index_bounds meta conds = Some ((r, f), lo, hi)"
  shows "r = index_root meta" and "f = index_relation_id meta" and "i32_range lo"
    and "\<exists>cond v. conds = [cond] \<and> left_col cond = ''id'' \<and> parse_i32 (right_val cond) = Some v \<and>
      key_range (cond_op cond) v = Some (lo, hi)"
proof -
  obtain rpn where c1: "root_page_num meta = Some rpn"
    using assms by (cases "root_page_num meta") (simp_all add: index_bounds_def)
  obtain cond where c2: "conds = [cond]"
    using assms c1 by (cases conds rule: list.exhaust; cases "tl conds") (simp_all add: index_bounds_def)
  have c3: "left_col cond = ''id''" using assms c1 c2 by (simp add: index_bounds_def split: if_splits)
  obtain v where c4: "parse_i32 (right_val cond) = Some v"
    using assms c1 c2 c3 by (cases "parse_i32 (right_val cond)") (simp_all add: index_bounds_def)
  have c5: "key_range (cond_op cond) v = Some (lo, hi)" and rf: "r = Some \<lparr>file_id = index_relation_id meta, page_num = rpn\<rparr>"
    "f = index_relation_id meta"
    using assms c1 c2 c3 c4 by (cases "key_range (cond_op cond) v"; simp add: index_bounds_def)+
  note c = c1 c2 c3 c4 c5 rf
  from c show "r = index_root meta" "f = index_relation_id meta"
    "\<exists>cond v. conds = [cond] \<and> left_col cond = ''id'' \<and> parse_i32 (right_val cond) = Some v \<and>
      key_range (cond_op cond) v = Some (lo, hi)" by (simp_all add: index_root_def)
  have "i32_range v" using c(4) by (simp add: parse_i32_def Option.bind_eq_Some_conv split: if_splits)
  then show "i32_range lo" using c(5)
    by (auto simp: key_range_def i32_saturate_def i32_range_def split: operator.splits)
qed

text \<open>The pool with its count of the pages of a file.\<close>

locale table_pool = page_pool P pgood pview ploaded ppins pcapacity psynced ptotal
  for P :: "'s pager" and pgood pview ploaded ppins pcapacity psynced ptotal +
  fixes T :: "'s totals"
  assumes total_law: "pgood s \<Longrightarrow> \<exists>s'. T fid s = (Ok (ptotal s fid), s') \<and> pgood s' \<and> pview s' = pview s \<and>
    ppins s' = ppins s \<and> pcapacity s' = pcapacity s \<and> ptotal s' = ptotal s \<and> ploaded s' = ploaded s \<and>
    (\<forall>q. psynced s q \<longrightarrow> psynced s' q)"
begin

lemma session_total:
  assumes "session base cap tot V held W w"
  shows "\<exists>w'. T fid w = (Ok (tot fid), w') \<and> session base cap tot V held W w'"
proof -
  have "pgood w" using assms by (simp add: session_def)
  from total_law [OF this, of fid] assms show ?thesis by (auto simp: session_def)
qed

lemma reads_total:
  assumes "reads n tot V w"
  shows "\<exists>w'. T fid w = (Ok (tot fid), w') \<and> reads n tot V w'"
  using assms session_total unfolding reads_def by blast

lemma base_pipeline:
  assumes g: "geometry (pg_size P)" and rd: "reads (Suc n) tot V w" and n: "1 \<le> n"
    and t: "tables (ca_data cat) table = Some meta" and ok: "table_ok (pg_size P) tot V meta"
  shows "\<exists>b w' ts. build_base_pipeline P T table conds cat plan w =
      Some (Ok (b, plan @ (if index_bounds meta conds = None then ''SeqScan('' else ''IndexScan('') @ table @ '')''), w') \<and>
    reads n tot V w' \<and> yields (reads n tot V) (tm_schema meta) ts b \<and>
    mset ts = mset (filter (plan_keys meta conds) (table_rows tot V meta)) \<and>
    (index_bounds meta conds = None \<longrightarrow> ts = table_rows tot V meta)"
proof -
  let ?h = "heap_relation_id meta" and ?n = "unat (last_page (tot (heap_relation_id meta))) + 1" and ?s = "tm_schema meta"
  obtain m where h: "heap_ok V ?h ?n" "index_of_heap ?s V ?h ?n m"
      "index_rep (pg_size P) (index_relation_id meta) tot V (index_root meta) m"
    using ok by (auto simp: table_ok_def)
  obtain w1 where w1: "T ?h w = (Ok (tot ?h), w1)" "reads (Suc n) tot V w1" using reads_total [OF rd] by blast
  note sch = t get_table_def get_schema_def
  show ?thesis
  proof (cases "index_bounds meta conds")
    case None
    have "unat (last_page (tot ?h)) + 1 < 2 ^ 32" "\<forall>k \<le> unat (last_page (tot ?h)). readable (V (heap_page ?h k))"
      using h(1) by (auto simp: heap_ok_def)
    from optimize_seq [OF n this] obtain b where
      "optimize P ?h ?s (last_page (tot ?h)) None w1 = Some (Ok b, w1)" "yields (reads n tot V) ?s (table_rows tot V meta) b"
      unfolding table_rows_def by blast
    moreover have "reads n tot V w1" by (rule reads_le [OF w1(2)]) simp
    ultimately show ?thesis using None w1(1)
      by (intro exI [of _ b] exI [of _ w1] exI [of _ "table_rows tot V meta"])
         (simp add: build_base_pipeline_def sch act_simps plan_keys_def)
  next
    case (Some bd)
    obtain r f lo hi where bd: "bd = ((r, f), lo, hi)" by (metis prod.exhaust)
    note i = index_bounds_Some [OF Some [unfolded bd]]
    have rec: "\<forall>k c. m k = Some c \<longrightarrow> record_of V c \<noteq> None"
      using h(2) live_places_set unfolding index_of_heap_def by blast
    from optimize_index [OF g w1(2) n i(3) h(3) rec, of ?h ?s "last_page (tot ?h)" hi]
    obtain b w' kvs where o: "optimize P ?h ?s (last_page (tot ?h)) (Some ((index_root meta, index_relation_id meta), lo, hi)) w1 = Some (Ok b, w')"
      "reads n tot V w'" "map_of kvs = m" "sorted_wrt (<) (map fst kvs)"
      "yields (reads n tot V) ?s (map (\<lambda>c. the (record_of V c)) (in_range lo hi kvs)) b" by blast
    have "mset (map (\<lambda>c. the (record_of V c)) (in_range lo hi kvs)) =
        mset (filter (plan_keys meta conds) (table_rows tot V meta))"
      using index_rows [OF h(1,2) o(3,4), of lo hi] by (simp add: plan_keys_def [abs_def] Some bd table_rows_def)
    with o show ?thesis using Some bd i(1,2) w1(1)
      by (intro exI [of _ b] exI [of _ w'] exI [of _ "map (\<lambda>c. the (record_of V c)) (in_range lo hi kvs)"])
         (simp add: build_base_pipeline_def sch act_simps)
  qed
qed

end

end
