(* ===== verification/Query_Spec.thy ===== *)
theory Query_Spec
  imports Query_Laws
begin

text \<open>
  The results of \<open>SELECT\<close> statements.
\<close>

subsection \<open>Single-table queries\<close>

lemma key_range_sound:
  assumes "evaluate_int_cond pk val op" and "parse_i32 val = Some v" and "key_range op v = Some (lo, hi)" and "i32_range pk"
  shows "lo \<le> pk \<and> pk \<le> hi"
  using assms by (cases op) (auto simp: evaluate_int_cond_def key_range_def i32_saturate_def i32_range_def)

lemma decoded_i32:
  assumes "to_values t sch = Ok (Integer i # vs)"
  shows "i32_range i"
  using read_columns_typed assms by (fastforce simp: to_values_def list_all2_Cons2 split: if_splits)

lemma row_at_length: "row_at pg i = Some t \<Longrightarrow> length t < 2 ^ 32"
proof -
  assume "row_at pg i = Some t"
  then have "\<exists>off. t = peek off (unat (slot_offset (slot_at i pg)) + unat (slot_length (slot_at i pg)) -
      (unat (slot_offset (slot_at i pg)) + 16)) pg"
    by (auto simp: row_at_def get_record_from_bytes_def Let_def split: if_splits)
  moreover have "unat (slot_length (slot_at i pg)) < 2 ^ LENGTH(16)" by (rule unsigned_less)
  ultimately show ?thesis by (auto simp: peek_def)
qed

lemma heap_rows_length: "t \<in> set (heap_rows V fid a b) \<Longrightarrow> length t < 2 ^ 32"
  using row_at_length by (fastforce simp: heap_rows_def rows_from_def map_filter_the)

context table_pool begin

lemma where_plan_keys:
  assumes id: "col_position ''id'' (tm_schema meta) \<in> {None, Some 0}" and known: "known_cols (tm_schema meta) conds"
    and key: "row_key_is (tm_schema meta) t pk" and p: "where_predicate conds t (tm_schema meta)"
  shows "plan_keys meta conds t"
proof (cases "index_bounds meta conds")
  case (Some b)
  obtain r f lo hi where b: "b = ((r, f), lo, hi)" by (metis prod.exhaust)
  obtain cond v where c: "conds = [cond]" "left_col cond = ''id''" "parse_i32 (right_val cond) = Some v"
    "key_range (cond_op cond) v = Some (lo, hi)"
    using index_bounds_Some(4) [OF Some [unfolded b]] by blast
  have pos: "col_position ''id'' (tm_schema meta) = Some 0" using id known c(1,2) by (auto simp: known_cols_def)
  obtain vs where vs: "to_values t (tm_schema meta) = Ok (Integer pk # vs)" using key by (auto simp: row_key_is_def)
  have "where_holds (tm_schema meta) [cond] (Integer pk # vs)" using p where_predicate_holds [OF known vs] c(1) by simp
  then have "evaluate_int_cond pk (right_val cond) (cond_op cond)"
    using pos c(2) by (simp add: where_holds_def cond_holds_def evaluate_cond_def split: if_splits)
  from key_range_sound [OF this c(3,4) decoded_i32 [OF vs]] key show ?thesis
    unfolding plan_keys_def Some b by auto
qed (simp add: plan_keys_def)

lemma split_where_known: "known_cols sch conds \<Longrightarrow> split_where sch conds = (conds, [])"
  by (auto simp: split_where_def known_cols_def col_position_def position_None list_all_iff list_ex_iff Let_def
      filter_empty_conv intro!: filter_True)

lemma filtered_pipeline:
  assumes g: "geometry (pg_size P)" and rd: "reads (Suc n) tot V w" and n: "1 \<le> n"
    and t: "tables (ca_data cat) table = Some meta" and ok: "table_ok (pg_size P) tot V meta"
    and known: "known_cols (tm_schema meta) conds" and id: "col_position ''id'' (tm_schema meta) \<in> {None, Some 0}"
  shows "\<exists>b plan w' ts b'. build_base_pipeline P T table conds cat [] w = Some (Ok (b, plan), w') \<and>
    reads n tot V w' \<and> b' = (if conds \<noteq> [] then build_filter_pipeline b conds plan else (b, plan)) \<and>
    yields (reads n tot V) (tm_schema meta) ts (fst b') \<and>
    mset ts = mset (filter (\<lambda>t. where_predicate conds t (tm_schema meta)) (table_rows tot V meta)) \<and>
    (index_bounds meta conds = None \<longrightarrow> ts = filter (\<lambda>t. where_predicate conds t (tm_schema meta)) (table_rows tot V meta))"
proof -
  let ?s = "tm_schema meta" and ?p = "\<lambda>t. where_predicate conds t (tm_schema meta)"
  obtain b plan w' ts where b: "build_base_pipeline P T table conds cat [] w = Some (Ok (b, plan), w')"
    "reads n tot V w'" "yields (reads n tot V) ?s ts b"
    "mset ts = mset (filter (plan_keys meta conds) (table_rows tot V meta))"
    "index_bounds meta conds = None \<longrightarrow> ts = table_rows tot V meta"
    using base_pipeline [OF g rd n t ok, of conds "[]"] by (elim exE conjE) (rule that)
  have keys: "\<exists>pk. row_key_is ?s t pk" if "t \<in> set (table_rows tot V meta)" for t
    using that ok unfolding table_ok_def table_rows_def heap_rows_places index_of_heap_def by fastforce
  have imp: "filter ?p (filter (plan_keys meta conds) (table_rows tot V meta)) = filter ?p (table_rows tot V meta)"
    unfolding filter_filter by (rule filter_cong) (use keys where_plan_keys [OF id known] in blast)+
  have m: "mset (filter ?p ts) = mset (filter ?p (table_rows tot V meta))"
    using arg_cong [OF b(4), of "filter_mset ?p"] unfolding mset_filter [symmetric] imp .
  show ?thesis
  proof (cases "conds = []")
    case True
    have "filter ?p xs = xs" if "\<forall>t \<in> set xs. \<exists>pk. row_key_is ?s t pk" for xs
      using that by (intro filter_True) (auto simp: True where_predicate_def evaluate_where_clause_def row_key_is_def)
    moreover have "set ts \<subseteq> set (table_rows tot V meta)"
      using b(4) by (metis filter_is_subset mset_filter set_mset_mset)
    ultimately have "filter ?p ts = ts" using keys by blast
    then have "yields (reads n tot V) ?s (filter ?p ts) (fst (b, plan))" using b(3) by simp
    with b(1,2,5) m True show ?thesis by (intro exI [of _ b] exI [of _ plan] exI [of _ w'] exI [of _ "filter ?p ts"] exI [of _ "(b, plan)"]) simp
  next
    case False
    have "yields (reads n tot V) ?s (filter ?p ts) (fst (build_filter_pipeline b conds plan))" for plan
      by (rule filter_yields [OF b(3)])
    with b(1,2,5) m False show ?thesis
      by (intro exI [of _ b] exI [of _ plan] exI [of _ w'] exI [of _ "filter ?p ts"]
          exI [of _ "build_filter_pipeline b conds plan"]) simp
  qed
qed

lemma select_run:
  assumes t: "tables (ca_data cat) table = Some meta" and known: "known_cols (tm_schema meta) conds"
    and b: "build_base_pipeline P T table conds cat [] w = Some (Ok (b, plan), w')"
    and b': "b' = (if conds \<noteq> [] then build_filter_pipeline b conds plan else (b, plan))"
    and y: "bx_schema (fst b') = tm_schema meta"
  shows "execute_query P T (SelectStmt [''*''] table al [] conds None) cat chunk flt w =
      bnd (print_results (fst b') (tm_schema meta)) (\<lambda>rows. ret (snd b', rows)) w'"
    and "col_position c (tm_schema meta) = Some i \<Longrightarrow>
      execute_query P T (SelectStmt [''*''] table al [] conds (Some c)) cat chunk flt w =
      bnd (print_results (sort_box i chunk flt (fst b')) (tm_schema meta))
        (\<lambda>rows. ret (snd b' @ '' -> ExternalMergeSort(col: '' @ c @ '')'', rows)) w'"
proof -
  obtain p pl where p: "b' = (p, pl)" by fastforce
  note b'' = b' [unfolded p, symmetric]
  note defs = execute_query_def get_schema_def get_table_def t act_simps split_where_known [OF known] b b'' build_projection_schema_def
  have s: "bx_schema p = tm_schema meta" using y p by simp
  show "execute_query P T (SelectStmt [''*''] table al [] conds None) cat chunk flt w =
      bnd (print_results (fst b') (tm_schema meta)) (\<lambda>rows. ret (snd b', rows)) w'"
    by (simp add: defs p s)
  show "execute_query P T (SelectStmt [''*''] table al [] conds (Some c)) cat chunk flt w =
      bnd (print_results (sort_box i chunk flt (fst b')) (tm_schema meta))
        (\<lambda>rows. ret (snd b' @ '' -> ExternalMergeSort(col: '' @ c @ '')'', rows)) w'"
    if "col_position c (tm_schema meta) = Some i"
    using that by (simp add: defs p s build_sort_pipeline_def)
qed

text \<open>The result of a query over one table, without and with \<open>ORDER BY\<close>.\<close>

lemma select_where:
  assumes g: "geometry (pg_size P)" and rd: "reads (Suc n) tot V w" and n: "1 \<le> n"
    and t: "tables (ca_data cat) table = Some meta" and ok: "table_ok (pg_size P) tot V meta"
    and known: "known_cols (tm_schema meta) conds" and id: "col_position ''id'' (tm_schema meta) \<in> {None, Some 0}"
    and rows: "decodes (tm_schema meta) (table_rows tot V meta) rows"
  shows "\<exists>plan out w'. execute_query P T (SelectStmt [''*''] table al [] conds None) cat chunk flt w = Some (Ok (plan, out), w') \<and>
    reads n tot V w' \<and> mset out = mset (filter (where_holds (tm_schema meta) conds) rows) \<and>
    (index_bounds meta conds = None \<longrightarrow> out = filter (where_holds (tm_schema meta) conds) rows)"
proof -
  let ?s = "tm_schema meta"
  obtain b plan w1 ts b' where f: "build_base_pipeline P T table conds cat [] w = Some (Ok (b, plan), w1)" "reads n tot V w1"
    "b' = (if conds \<noteq> [] then build_filter_pipeline b conds plan else (b, plan))" "yields (reads n tot V) ?s ts (fst b')"
    "mset ts = mset (filter (\<lambda>t. where_predicate conds t ?s) (table_rows tot V meta))"
    "index_bounds meta conds = None \<longrightarrow> ts = filter (\<lambda>t. where_predicate conds t ?s) (table_rows tot V meta)"
    using filtered_pipeline [OF g rd n t ok known id] by (elim exE conjE) (rule that)
  note d = decodes_filter [OF rows known]
  obtain out where out: "decodes ?s ts out" "mset out = mset (filter (where_holds ?s conds) rows)"
    using decodes_mset [OF d f(5)] by blast
  have out2: "out = filter (where_holds ?s conds) rows" if "index_bounds meta conds = None"
    using d out(1) f(6) that by (simp add: decodes_iff)
  obtain w' where w': "print_results (fst b') ?s w1 = Some (Ok out, w')" "reads n tot V w'"
    using print_results_law [OF f(2,4) out(1)] by blast
  have "execute_query P T (SelectStmt [''*''] table al [] conds None) cat chunk flt w = Some (Ok (snd b', out), w')"
    unfolding select_run(1) [OF t known f(1,3) yieldsD(1) [OF f(4)]] by (simp add: act_simps w'(1))
  with w'(2) out(2) out2 show ?thesis
    by (intro exI [of _ "snd b'"] exI [of _ out] exI [of _ w'] conjI impI)
qed

lemma select_order_by:
  assumes g: "geometry (pg_size P)" and rd: "reads (Suc n) tot V w" and n: "1 \<le> n"
    and t: "tables (ca_data cat) table = Some meta" and ok: "table_ok (pg_size P) tot V meta"
    and known: "known_cols (tm_schema meta) conds" and id: "col_position ''id'' (tm_schema meta) \<in> {None, Some 0}"
    and rows: "decodes (tm_schema meta) (table_rows tot V meta) rows"
    and c: "col_position c (tm_schema meta) = Some i" and key: "\<forall>vs \<in> set rows. vs ! i \<noteq> Null" and flt: "calm flt"
  shows "\<exists>plan out w'. execute_query P T (SelectStmt [''*''] table al [] conds (Some c)) cat chunk flt w = Some (Ok (plan, out), w') \<and>
    reads n tot V w' \<and> mset out = mset (filter (where_holds (tm_schema meta) conds) rows) \<and>
    sorted (map (\<lambda>vs. value_key (vs ! i)) out)"
proof -
  let ?s = "tm_schema meta" and ?key = "row_key (tm_schema meta) i"
  obtain b plan w1 ts b' where f: "build_base_pipeline P T table conds cat [] w = Some (Ok (b, plan), w1)" "reads n tot V w1"
    "b' = (if conds \<noteq> [] then build_filter_pipeline b conds plan else (b, plan))" "yields (reads n tot V) ?s ts (fst b')"
    "mset ts = mset (filter (\<lambda>t. where_predicate conds t ?s) (table_rows tot V meta))"
    using filtered_pipeline [OF g rd n t ok known id] by (elim exE conjE) (rule that)
  have sub: "set ts \<subseteq> set (table_rows tot V meta)" using f(5) by (metis filter_is_subset set_mset_mset)
  have dec: "\<exists>vs. to_values t ?s = Ok vs \<and> vs ! i \<noteq> Null" if "t \<in> set (table_rows tot V meta)" for t
    using rows key that by (fastforce simp: decodes_iff)
  have "i < column_count ?s" using col_position_bound [OF c] by (simp add: column_count_def)
  then have so: "sortable ?s i ts"
    using sub dec heap_rows_length unfolding sortable_def table_rows_def by blast
  have "mset (sort_key ?key ts) = mset (filter (\<lambda>t. where_predicate conds t ?s) (table_rows tot V meta))"
    using f(5) by simp
  from decodes_mset [OF decodes_filter [OF rows known] this] obtain out where
    out: "decodes ?s (sort_key ?key ts) out" "mset out = mset (filter (where_holds ?s conds) rows)" by blast
  have "map (\<lambda>vs. value_key (vs ! i)) out = map ?key (sort_key ?key ts)"
    using out(1) by (auto simp: decodes_iff row_key_def)
  then have srt: "sorted (map (\<lambda>vs. value_key (vs ! i)) out)" by simp
  obtain w' where w': "print_results (sort_box i chunk flt (fst b')) ?s w1 = Some (Ok out, w')" "reads n tot V w'"
    using print_results_law [OF f(2) sort_yields [OF f(4) so flt] out(1)] by blast
  have "execute_query P T (SelectStmt [''*''] table al [] conds (Some c)) cat chunk flt w =
      Some (Ok (snd b' @ '' -> ExternalMergeSort(col: '' @ c @ '')'', out), w')"
    unfolding select_run(2) [OF t known f(1,3) yieldsD(1) [OF f(4)] c] by (simp add: act_simps w'(1))
  with w'(2) out(2) srt show ?thesis
    by (intro exI [of _ "_ @ _"] exI [of _ out] exI [of _ w'] conjI)
qed

end

end
