(* ===== verification/Dml.thy ===== *)
theory Dml
  imports Query_Plan BTree_Delete
begin

text \<open>
  \<open>INSERT\<close>, \<open>DELETE\<close> (\<open>crates/wackdb_cli/src/commands/dml.rs\<close>) and \<open>CREATE TABLE\<close>, \<open>DROP TABLE\<close>
  (\<open>ddl.rs\<close>): commands over a database, the pool and the catalog. What the commands use of the pool
  is a record: the pager, the page count of a file, appending to the log (the LSN, when there is a
  log manager and it succeeds) and flushing the log. Instead of printing, a command returns what it
  has to say as a \<open>notice\<close>.

  A page that is changed through its write guard is written back to its frame after each change;
  its frame is pinned all the while, so no other access to the page intervenes. \<open>search\<close> never
  changes the root of an index, so the index object of \<open>execute_insert\<close> is made anew for each call.
\<close>

record 's table_store =
  st_pager :: "'s pager"
  st_total :: "'s totals"
  st_append :: "bytes \<Rightarrow> 's \<Rightarrow> u64 option \<times> 's"
  st_flush :: "'s \<Rightarrow> 's"

record 's db =
  db_pool :: 's
  db_catalog :: catalog

datatype notice =
    Inserted
  | DuplicatePk int
  | Deleted u32
  | Silent
  | AlreadyExists
  | Created
  | DoesNotExist
  | Dropped

definition on_pool :: "('s, 'e, 'a) act \<Rightarrow> ('s db, 'e, 'a) act" where
  "on_pool m = (\<lambda>d. map_option (\<lambda>(r, s). (r, d\<lparr>db_pool := s\<rparr>)) (m (db_pool d)))"

definition on_catalog :: "(catalog \<Rightarrow> (catalog_error, 'a) res \<times> catalog) \<Rightarrow> ('s db, cli_error, 'a) act" where
  "on_catalog f = total (\<lambda>d. let (r, c) = f (db_catalog d) in (map_err CliCatalog r, d\<lparr>db_catalog := c\<rparr>))"

definition look_up :: "(catalog \<Rightarrow> (cli_error, 'a) res) \<Rightarrow> ('s db, cli_error, 'a) act" where
  "look_up f = (\<lambda>d. of_res (f (db_catalog d)) d)"

definition buf_op :: "('s \<Rightarrow> (buffer_error, 'a) res \<times> 's) \<Rightarrow> ('s, cli_error, 'a) act" where
  "buf_op m = total (\<lambda>w. let (r, w') = m w in (map_err CliBuffer r, w'))"

text \<open>\<open>let _ = \<dots>\<close>\<close>

definition ignoring :: "('s, cli_error, 'a) act \<Rightarrow> ('s, cli_error, unit) act" where
  "ignoring m = attempt m (\<lambda>_. ret ())"

text \<open>An operation of the index of a table, with its root afterwards.\<close>

definition on_index :: "page_id option \<Rightarrow> u32 \<Rightarrow> ('s btree, node_error, 'a) act \<Rightarrow> ('s, cli_error, 'a \<times> page_id option) act" where
  "on_index r fid m = (\<lambda>w. map_option (\<lambda>(x, b). (res_bind (map_err CliIndex x) (\<lambda>v. Ok (v, bt_root b)), bt_pool b))
     (m (new_btree w r fid)))"

definition get_btree_root :: "table_metadata \<Rightarrow> page_id option" where
  "get_btree_root meta = map_option (\<lambda>n. \<lparr>file_id = index_relation_id meta, page_num = n\<rparr>) (root_page_num meta)"

subsection \<open>Inserting\<close>

fun parse_values :: "string list \<Rightarrow> column list \<Rightarrow> (cli_error, sql_value list) res" where
  "parse_values (v # vs) (col # cols) =
     res_bind (case data_type col of
         IntegerT \<Rightarrow> res_bind (ok_or (parse_i32 v) CliParse) (\<lambda>i. Ok (Integer i))
       | BooleanT \<Rightarrow> res_bind (ok_or (parse_bool v) CliParse) (\<lambda>b. Ok (Boolean b))
       | VarcharT \<Rightarrow> Ok (Varchar v)) (\<lambda>parsed.
     res_bind (parse_values vs cols) (\<lambda>parsed_vals. Ok (parsed # parsed_vals)))"
| "parse_values _ _ = Ok []"

text \<open>Changing a page through the write guard of its frame.\<close>

definition with_page :: "'s table_store \<Rightarrow> nat \<Rightarrow> (page \<Rightarrow> (cli_error, 'a) res \<times> page) \<Rightarrow> ('s, cli_error, 'a) act" where
  "with_page S f change =
     bnd (buf_op (pg_read (st_pager S) f)) (\<lambda>pg.
       case change pg of (r, pg') \<Rightarrow> bnd (buf_op (pg_write (st_pager S) f pg')) (\<lambda>_. of_res r))"

definition insert_in_new_page :: "'s table_store \<Rightarrow> tuple \<Rightarrow> u32 \<Rightarrow> ('s, cli_error, ctid) act" where
  "insert_in_new_page S t heap_file_id =
     bnd (buf_op (pg_new (st_pager S) heap_file_id)) (\<lambda>(frame_id, page_id).
     bnd (with_page S frame_id (\<lambda>pg. insert_record t 1 (init pg))) (\<lambda>slot_idx.
     bnd (buf_op (pg_unpin (st_pager S) page_id True)) (\<lambda>_.
       ret \<lparr>ctid_page = page_id, slot_idx = of_nat (case slot_idx of Some i \<Rightarrow> i | None \<Rightarrow> 0)\<rparr>)))"

definition write_tuple_to_heap :: "'s table_store \<Rightarrow> tuple \<Rightarrow> u32 \<Rightarrow> ('s, cli_error, ctid) act" where
  "write_tuple_to_heap S t heap_file_id =
     attempt (buf_op (st_total S heap_file_id)) (\<lambda>n.
       let total_pages = (case n of Inr k \<Rightarrow> k | Inl _ \<Rightarrow> 0) in
       if total_pages = 0 then insert_in_new_page S t heap_file_id
       else let last_page_id = \<lparr>file_id = heap_file_id, page_num = total_pages - 1\<rparr> in
         attempt (buf_op (pg_fetch (st_pager S) last_page_id)) (\<lambda>r. case r of
             Inl _ \<Rightarrow> insert_in_new_page S t heap_file_id
           | Inr frame_id \<Rightarrow>
               bnd (with_page S frame_id (insert_record t 1)) (\<lambda>slot_idx. case slot_idx of
                   Some i \<Rightarrow> bnd (buf_op (pg_unpin (st_pager S) last_page_id True)) (\<lambda>_.
                     ret \<lparr>ctid_page = last_page_id, slot_idx = of_nat i\<rparr>)
                 | None \<Rightarrow> bnd (ignoring (buf_op (pg_unpin (st_pager S) last_page_id False))) (\<lambda>_.
                     insert_in_new_page S t heap_file_id))))"

text \<open>The payload of a log record: the operation, the name of the table, the row.\<close>

definition log_payload :: "u8 \<Rightarrow> string \<Rightarrow> tuple \<Rightarrow> bytes" where
  "log_payload op table t = op # to_le 2 (length table mod 2 ^ 16) @ as_bytes table @ t"

definition append_log :: "'s table_store \<Rightarrow> bytes \<Rightarrow> ('s, cli_error, u64 option) act" where
  "append_log S bs = total (\<lambda>w. let (lsn, w') = st_append S bs w in (Ok lsn, w'))"

definition log_insert_to_wal :: "'s table_store \<Rightarrow> string \<Rightarrow> tuple \<Rightarrow> ('s, cli_error, unit) act" where
  "log_insert_to_wal S table t = bnd (append_log S (log_payload 0 table t)) (\<lambda>_. ret ())"

definition execute_insert :: "'s table_store \<Rightarrow> serde \<Rightarrow> string \<Rightarrow> string list \<Rightarrow> bool \<Rightarrow> ('s db, cli_error, notice) act" where
  "execute_insert S J table vals is_recovery =
     bnd (look_up (\<lambda>c. map_err CliCatalog (get_table table c))) (\<lambda>meta.
     bnd (look_up (\<lambda>c. map_err (\<lambda>_. Message ''Schema not found'') (get_schema table c))) (\<lambda>schema.
     bnd (of_res (parse_values vals (columns schema))) (\<lambda>parsed_vals.
     bnd (of_res (map_err CliTuple (from_values schema parsed_vals))) (\<lambda>t.
       case parsed_vals of
         Integer pk # _ \<Rightarrow>
           attempt (on_pool (on_index (get_btree_root meta) (index_relation_id meta) (index_search (st_pager S) pk))) (\<lambda>found.
             case found of
               Inr _ \<Rightarrow> ret (DuplicatePk pk)
             | Inl _ \<Rightarrow>
                 bnd (on_pool (write_tuple_to_heap S t (heap_relation_id meta))) (\<lambda>c.
                 bnd (if is_recovery then ret () else on_pool (log_insert_to_wal S table t)) (\<lambda>_.
                 bnd (on_pool (on_index (get_btree_root meta) (index_relation_id meta) (index_insert (st_pager S) pk c))) (\<lambda>(_, root).
                 bnd (case root of Some r \<Rightarrow> on_catalog (update_root_page J table (Some (page_num r))) | None \<Rightarrow> ret ()) (\<lambda>_.
                 bnd (on_catalog (update_num_records J table 1)) (\<lambda>_.
                   ret Inserted))))))
       | _ \<Rightarrow> ret Silent))))"

subsection \<open>Deleting\<close>

text \<open>The slots of a page whose rows satisfy the clause; a row that does not decode is left alone.\<close>

definition find_slots_to_delete :: "page \<Rightarrow> where_condition list \<Rightarrow> schema \<Rightarrow> (cli_error, nat list) res" where
  "find_slots_to_delete pg conds schema =
     foldr (\<lambda>i rest. res_bind (get_record_from_bytes pg i) (\<lambda>r. case r of
         None \<Rightarrow> rest
       | Some (_, t) \<Rightarrow> (case to_values t schema of
             Ok vals \<Rightarrow> res_bind (evaluate_where_clause conds schema vals) (\<lambda>hit.
               if hit then res_bind rest (\<lambda>is. Ok (i # is)) else rest)
           | Err _ \<Rightarrow> rest
           | Panic \<Rightarrow> Panic)))
       [0..<get_total_slots_from_bytes pg] (Ok [])"

definition extract_tuple_for_slot :: "page \<Rightarrow> nat \<Rightarrow> (cli_error, tuple) res" where
  "extract_tuple_for_slot pg i = res_bind (slots pg) (\<lambda>ss. res_bind (index i ss) (\<lambda>s.
     let start = unat (slot_offset s) + 16; stop = unat (slot_offset s) + unat (slot_length s)
     in if stop < start \<or> length pg < stop then Panic else Ok (peek start (stop - start) pg)))"

definition remove_from_index :: "'s table_store \<Rightarrow> table_metadata \<Rightarrow> schema \<Rightarrow> tuple \<Rightarrow> ('s, cli_error, unit) act" where
  "remove_from_index S meta schema t = (case to_values t schema of
       Ok (Integer pk # _) \<Rightarrow>
         ignoring (on_index (get_btree_root meta) (index_relation_id meta) (index_delete (st_pager S) pk))
     | Panic \<Rightarrow> panic
     | _ \<Rightarrow> ret ())"

definition log_delete_to_wal :: "'s table_store \<Rightarrow> nat \<Rightarrow> string \<Rightarrow> tuple \<Rightarrow> bool \<Rightarrow> ('s, cli_error, unit) act" where
  "log_delete_to_wal S frame_id table t is_recovery =
     (if is_recovery then ret ()
      else bnd (append_log S (log_payload 1 table t)) (\<lambda>lsn. case lsn of
          Some n \<Rightarrow> with_page S frame_id (\<lambda>pg. (Ok (), set_lsn n pg))
        | None \<Rightarrow> ret ()))"

fun delete_slots_from_page :: "'s table_store \<Rightarrow> nat \<Rightarrow> nat list \<Rightarrow> string \<Rightarrow> table_metadata \<Rightarrow> schema \<Rightarrow> bool \<Rightarrow> u32 \<Rightarrow>
    ('s, cli_error, u32) act" where
  "delete_slots_from_page S f [] table meta schema is_recovery deleted = ret deleted"
| "delete_slots_from_page S f (i # is) table meta schema is_recovery deleted =
     bnd (with_page S f (mark_deleted i 999)) (\<lambda>_.
     bnd (with_page S f (\<lambda>pg. (extract_tuple_for_slot pg i, pg))) (\<lambda>t.
     bnd (remove_from_index S meta schema t) (\<lambda>_.
     bnd (log_delete_to_wal S f table t is_recovery) (\<lambda>_.
       delete_slots_from_page S f is table meta schema is_recovery (deleted + 1)))))"

definition process_page_for_delete :: "'s table_store \<Rightarrow> u32 \<Rightarrow> string \<Rightarrow> where_condition list \<Rightarrow> table_metadata \<Rightarrow>
    schema \<Rightarrow> bool \<Rightarrow> ('s, cli_error, u32) act" where
  "process_page_for_delete S n table conds meta schema is_recovery =
     (let pid = \<lparr>file_id = heap_relation_id meta, page_num = n\<rparr> in
      attempt (buf_op (pg_fetch (st_pager S) pid)) (\<lambda>r. case r of
          Inl _ \<Rightarrow> ret 0
        | Inr f \<Rightarrow>
            bnd (with_page S f (\<lambda>pg. (find_slots_to_delete pg conds schema, pg))) (\<lambda>to_delete.
            bnd (delete_slots_from_page S f to_delete table meta schema is_recovery 0) (\<lambda>deleted.
            bnd (ignoring (buf_op (pg_unpin (st_pager S) pid True))) (\<lambda>_. ret deleted)))))"

fun delete_pages :: "'s table_store \<Rightarrow> nat list \<Rightarrow> string \<Rightarrow> where_condition list \<Rightarrow> table_metadata \<Rightarrow> schema \<Rightarrow> bool \<Rightarrow>
    u32 \<Rightarrow> ('s, cli_error, u32) act" where
  "delete_pages S [] table conds meta schema is_recovery deleted = ret deleted"
| "delete_pages S (n # ns) table conds meta schema is_recovery deleted =
     bnd (process_page_for_delete S (of_nat n) table conds meta schema is_recovery) (\<lambda>k.
       delete_pages S ns table conds meta schema is_recovery (deleted + k))"

definition execute_delete :: "'s table_store \<Rightarrow> serde \<Rightarrow> string \<Rightarrow> where_condition list \<Rightarrow> bool \<Rightarrow> ('s db, cli_error, notice) act" where
  "execute_delete S J table conds is_recovery =
     bnd (look_up (\<lambda>c. map_err CliCatalog (get_table table c))) (\<lambda>meta.
     bnd (look_up (\<lambda>c. map_err (\<lambda>_. Message ''Schema not found'') (get_schema table c))) (\<lambda>schema.
     bnd (on_pool (buf_op (st_total S (heap_relation_id meta)))) (\<lambda>total_pages.
     bnd (on_pool (delete_pages S [0..<unat total_pages] table conds meta schema is_recovery 0)) (\<lambda>deleted_count.
     bnd (if 0 < deleted_count then on_catalog (update_num_records J table (sint (- deleted_count))) else ret ()) (\<lambda>_.
       ret (Deleted deleted_count))))))"

definition execute_dml :: "'s table_store \<Rightarrow> serde \<Rightarrow> ast \<Rightarrow> bool \<Rightarrow> ('s db, cli_error, notice) act" where
  "execute_dml S J stmt is_recovery =
     bnd (case stmt of
         InsertStmt table vals \<Rightarrow> execute_insert S J table vals is_recovery
       | DeleteStmt table conds \<Rightarrow> execute_delete S J table conds is_recovery
       | _ \<Rightarrow> throw (Message ''Not a DML statement.'')) (\<lambda>r.
     bnd (if is_recovery then ret () else total (\<lambda>d. (Ok (), d\<lparr>db_pool := st_flush S (db_pool d)\<rparr>))) (\<lambda>_.
       ret r))"

subsection \<open>Tables\<close>

text \<open>\<open>up\<close> is \<open>str::to_uppercase\<close>.\<close>

definition column_type :: "(string \<Rightarrow> string) \<Rightarrow> string \<Rightarrow> data_type" where
  "column_type up name = (let u = up name in
     if u = ''INTEGER'' \<or> u = ''INT'' then IntegerT
     else if u = ''BOOLEAN'' \<or> u = ''BOOL'' then BooleanT
     else VarcharT)"

definition execute_ddl :: "(string \<Rightarrow> string) \<Rightarrow> serde \<Rightarrow> ast \<Rightarrow> ('s db, cli_error, notice) act" where
  "execute_ddl up J stmt = (\<lambda>d. (case stmt of
       CreateTableStmt table cols _ \<Rightarrow>
         if is_ok (get_table table (db_catalog d)) then ret AlreadyExists
         else bnd (on_catalog (create_table_with_schema J table
             \<lparr>columns = map (\<lambda>c. \<lparr>col_name = cd_name c, data_type = column_type up (cd_type c), is_nullable = False\<rparr>) cols\<rparr>))
           (\<lambda>_. ret Created)
     | DropTableStmt table _ \<Rightarrow>
         if \<not> is_ok (get_table table (db_catalog d)) then ret DoesNotExist
         else bnd (on_catalog (drop_table J table)) (\<lambda>_. ret Dropped)
     | _ \<Rightarrow> throw (Message ''Not a DDL statement.'')) d)"

end
