(* ===== verification/Table_Inv.thy ===== *)
theory Table_Inv
  imports Query_Laws Dml
begin

text \<open>
  The invariant of a table: its heap pages are well-formed, its index maps the first column of
  every live row to the place of the row, and the two files are different. The lemmas say what
  inserting and deleting one record does to the live rows and to the index that fits them.
\<close>

subsection \<open>One page\<close>

definition row_added :: "page \<Rightarrow> page \<Rightarrow> tuple \<Rightarrow> bool" where
  "row_added pg pg' t \<longleftrightarrow> get_total_slots_from_bytes pg' = Suc (get_total_slots_from_bytes pg) \<and>
     (\<forall>i. row_at pg' i = (if i = get_total_slots_from_bytes pg then Some t else row_at pg i))"

definition row_removed :: "page \<Rightarrow> page \<Rightarrow> nat \<Rightarrow> bool" where
  "row_removed pg pg' i \<longleftrightarrow> get_total_slots_from_bytes pg' = get_total_slots_from_bytes pg \<and>
     (\<forall>j. row_at pg' j = (if j = i then None else row_at pg j))"

lemma total_slots_count: "get_total_slots_from_bytes pg = slot_count pg"
  by (simp add: get_total_slots_from_bytes_def slot_count_def)

lemma row_at_beyond: "get_total_slots_from_bytes pg \<le> i \<Longrightarrow> row_at pg i = None"
  using row_at_bound [of pg i] by (cases "row_at pg i") auto

lemma insert_row:
  fixes xmn :: u64
  assumes wf: "page_wf pg" and room: "length t + 20 \<le> page_free pg"
  shows "\<exists>pg'. (insert_record t xmn pg :: ('e, _) res \<times> _) = (Ok (Some (get_total_slots_from_bytes pg)), pg') \<and>
    page_wf pg' \<and> length pg' = length pg \<and> row_added pg pg' t"
proof -
  let ?pg' = "insert_bytes (unat (free_space_upper (header pg)) - (16 + length t)) t xmn pg"
  note i = insert_bytes_wf [OF wf room, where xmn = xmn]
  have r: "record_at j ?pg' = (if j = slot_count pg then (\<lparr>xmin = xmn, xmax = 0\<rparr>, t) else record_at j pg)"
    if "j < Suc (slot_count pg)" for j
  proof -
    have "record_at j ?pg' = page_records ?pg' ! j" using that i(5) by (simp add: nth_page_records)
    then show ?thesis using that by (auto simp: i(2) nth_append nth_page_records length_page_records)
  qed
  have "row_at ?pg' j = (if j = slot_count pg then Some t else row_at pg j)" for j
    using r [of j] by (auto simp: row_at_wf [OF wf] row_at_wf [OF i(1)] i(5))
  then have "row_added pg ?pg' t" by (simp add: row_added_def total_slots_count i(5))
  with i(1,3) insert_record_ok [OF wf room, where xmn = xmn] show ?thesis by (auto simp: total_slots_count)
qed

lemma delete_row:
  fixes x :: u64
  assumes wf: "page_wf pg" and i: "i < get_total_slots_from_bytes pg" and x: "x \<noteq> 0"
  shows "\<exists>pg'. (mark_deleted i x pg :: ('e, _) res \<times> _) = (Ok True, pg') \<and> page_wf pg' \<and> length pg' = length pg \<and>
    row_removed pg pg' i \<and> (row_at pg i = Some t \<longrightarrow> snd (record_at i pg') = t) \<and> slot_at i pg' = slot_at i pg"
proof -
  have c: "i < slot_count pg" using i by (simp add: total_slots_count)
  let ?pg' = "write_tuple_header (slot_off i pg) ((read_tuple_header (slot_off i pg) pg)\<lparr>xmax := x\<rparr>) pg"
  note d = mark_deleted_wf [OF wf c, where x = x]
  have n: "slot_count ?pg' = slot_count pg" using d(5) by (simp add: slot_count_def)
  have r: "record_at j ?pg' = (if j = i then ((fst (record_at i pg))\<lparr>xmax := x\<rparr>, snd (record_at i pg)) else record_at j pg)"
    if "j < slot_count pg" for j
  proof -
    have "record_at j ?pg' = page_records ?pg' ! j" using that n by (simp add: nth_page_records)
    then show ?thesis using that by (auto simp: d(3) nth_list_update nth_page_records length_page_records)
  qed
  have "row_at ?pg' j = (if j = i then None else row_at pg j)" for j
    using r [of j] x by (auto simp: row_at_wf [OF wf] row_at_wf [OF d(2)] n)
  then have "row_removed pg ?pg' i" by (simp add: row_removed_def total_slots_count n)
  moreover have "slot_at i ?pg' = slot_at i pg"
    using page_wf_slot [OF wf c] by (simp add: slot_at_def buf_simps)
  moreover have "row_at pg i = Some t \<longrightarrow> snd (record_at i ?pg') = t"
    using r [OF c] by (auto simp: row_at_wf [OF wf] split: if_splits)
  ultimately show ?thesis using d(1,2,4) by auto
qed

lemma set_lsn_row: "page_wf pg \<Longrightarrow> page_wf (set_lsn l pg) \<and> length (set_lsn l pg) = length pg \<and>
    get_total_slots_from_bytes (set_lsn l pg) = get_total_slots_from_bytes pg \<and> row_at (set_lsn l pg) i = row_at pg i"
proof -
  assume wf: "page_wf pg"
  have "length (set_lsn l pg) = length pg" using page_wf_length [OF wf] by (simp add: set_lsn_def buf_simps)
  with wf show ?thesis by (auto simp: row_at_wf page_wf_set_lsn total_slots_count set_lsn_parts [OF wf])
qed

subsection \<open>One file\<close>

lemma live_places_Suc:
  "live_places V fid (Suc n) = live_places V fid n @ map (place fid n)
     (filter (\<lambda>i. row_at (V (heap_page fid n)) i \<noteq> None) [0..<get_total_slots_from_bytes (V (heap_page fid n))])"
  by (simp add: live_places_def)

lemma live_places_cong:
  assumes "\<forall>k < n. V' (heap_page fid k) = V (heap_page fid k)"
  shows "live_places V' fid n = live_places V fid n"
    and "c \<in> set (live_places V fid n) \<Longrightarrow> record_of V' c = record_of V c"
proof -
  show "live_places V' fid n = live_places V fid n" using assms by (induction n) (simp_all add: live_places_Suc live_places_def)
  show "record_of V' c = record_of V c" if "c \<in> set (live_places V fid n)"
    using that assms by (auto simp: live_places_set record_of_def)
qed

lemma index_of_heap_cong:
  assumes "\<forall>k < n. V' (heap_page fid k) = V (heap_page fid k)" and "index_of_heap sch V fid n m"
  shows "index_of_heap sch V' fid n m"
  using assms(2) live_places_cong(2) [OF assms(1)]
  unfolding index_of_heap_def live_places_cong(1) [OF assms(1)] by metis

lemma heap_rows_cong:
  assumes "\<forall>k < n. V' (heap_page fid k) = V (heap_page fid k)"
  shows "heap_rows V' fid 0 n = heap_rows V fid 0 n"
proof -
  have "map (\<lambda>k. rows_from 0 (V' (heap_page fid k))) [0..<n] = map (\<lambda>k. rows_from 0 (V (heap_page fid k))) [0..<n]"
    using assms by simp
  then show ?thesis by (simp add: heap_rows_def del: map_eq_conv)
qed

lemma live_places_add:
  assumes n: "n < 2 ^ 32" and a: "row_added (V (heap_page fid n)) pg' t"
  defines "V' \<equiv> V(heap_page fid n := pg')" and "c \<equiv> place fid n (get_total_slots_from_bytes (V (heap_page fid n)))"
  shows "live_places V' fid (Suc n) = live_places V fid (Suc n) @ [c]"
    and "x \<in> set (live_places V fid (Suc n)) \<Longrightarrow> record_of V' x = record_of V x" and "record_of V' c = Some t"
proof -
  let ?pg = "V (heap_page fid n)"
  have k: "\<forall>k < n. V' (heap_page fid k) = V (heap_page fid k)" using n by (auto simp: V'_def heap_page_inj)
  have t: "get_total_slots_from_bytes pg' = Suc (get_total_slots_from_bytes ?pg)"
    and r: "row_at pg' i = (if i = get_total_slots_from_bytes ?pg then Some t else row_at ?pg i)" for i
    using a by (simp_all add: row_added_def)
  have f: "filter (\<lambda>i. row_at pg' i \<noteq> None) [0..<get_total_slots_from_bytes ?pg] =
      filter (\<lambda>i. row_at ?pg i \<noteq> None) [0..<get_total_slots_from_bytes ?pg]" by (rule filter_cong) (simp_all add: r)
  have "live_places V' fid (Suc n) = live_places V fid n @ map (place fid n) (filter (\<lambda>i. row_at pg' i \<noteq> None) [0..<get_total_slots_from_bytes pg'])"
    by (simp add: live_places_Suc live_places_cong(1) [OF k]) (simp add: V'_def)
  then show "live_places V' fid (Suc n) = live_places V fid (Suc n) @ [c]"
    using f r by (simp add: live_places_Suc t c_def)
  have "slot_idx c = of_nat (get_total_slots_from_bytes ?pg)" "ctid_page c = heap_page fid n" by (simp_all add: c_def place_def)
  moreover have "get_total_slots_from_bytes ?pg < 2 ^ 16" using total_slots_bound [of pg'] t by simp
  ultimately show "record_of V' c = Some t" by (simp add: record_of_def V'_def r u16_of_nat)
  show "record_of V' x = record_of V x" if "x \<in> set (live_places V fid (Suc n))"
  proof (cases "ctid_page x = heap_page fid n")
    case True
    have "row_at ?pg (unat (slot_idx x)) \<noteq> None" using that True by (simp add: live_places_set record_of_def)
    then have "unat (slot_idx x) \<noteq> get_total_slots_from_bytes ?pg" using row_at_beyond [of ?pg] by fastforce
    then show ?thesis using True by (simp add: record_of_def V'_def r)
  qed (simp add: record_of_def V'_def)
qed

lemma live_places_new_page:
  fixes V :: "page_id \<Rightarrow> page" and fid :: u32
  assumes n: "n < 2 ^ 32" and a: "get_total_slots_from_bytes pg' = 1" "row_at pg' 0 = Some t"
  defines "V' \<equiv> V(heap_page fid n := pg')"
  shows "live_places V' fid (Suc n) = live_places V fid n @ [place fid n 0]"
    and "x \<in> set (live_places V fid n) \<Longrightarrow> record_of V' x = record_of V x" and "record_of V' (place fid n 0) = Some t"
proof -
  have k: "\<forall>k < n. V' (heap_page fid k) = V (heap_page fid k)" using n by (auto simp: V'_def heap_page_inj)
  show "live_places V' fid (Suc n) = live_places V fid n @ [place fid n 0]"
    using a by (simp add: live_places_Suc live_places_cong(1) [OF k]) (simp add: V'_def)
  show "x \<in> set (live_places V fid n) \<Longrightarrow> record_of V' x = record_of V x" by (rule live_places_cong(2) [OF k])
  show "record_of V' (place fid n 0) = Some t" using a by (simp add: record_of_def V'_def place_def)
qed

lemma live_places_remove:
  assumes n: "k < n" "n \<le> 2 ^ 32" and a: "row_removed (V (heap_page fid k)) pg' i"
    and i: "i < get_total_slots_from_bytes (V (heap_page fid k))"
  defines "V' \<equiv> V(heap_page fid k := pg')"
  shows "live_places V' fid n = filter (\<lambda>c. c \<noteq> place fid k i) (live_places V fid n)"
    and "x \<noteq> place fid k i \<Longrightarrow> record_of V' x = record_of V x"
proof -
  let ?pg = "V (heap_page fid k)"
  have t: "get_total_slots_from_bytes pg' = get_total_slots_from_bytes ?pg"
    and r: "row_at pg' j = (if j = i then None else row_at ?pg j)" for j
    using a by (simp_all add: row_removed_def)
  have i16: "i < 2 ^ 16" using i total_slots_bound [of ?pg] by simp
  show rec: "record_of V' x = record_of V x" if "x \<noteq> place fid k i" for x
  proof (cases "ctid_page x = heap_page fid k")
    case True
    have "unat (slot_idx x) \<noteq> i"
    proof
      assume "unat (slot_idx x) = i"
      then have "slot_idx x = of_nat i" by auto
      with True that show False by (simp add: place_def)
    qed
    then show ?thesis using True by (simp add: record_of_def V'_def r)
  qed (simp add: record_of_def V'_def)
  show "live_places V' fid n = filter (\<lambda>c. c \<noteq> place fid k i) (live_places V fid n)" using n
  proof (induction n)
    case (Suc n)
    let ?f = "\<lambda>W. map (place fid n) (filter (\<lambda>i. row_at (W (heap_page fid n)) i \<noteq> None) [0..<get_total_slots_from_bytes (W (heap_page fid n))])"
    show ?case
    proof (cases "k = n")
      case True
      have "\<forall>j < n. V' (heap_page fid j) = V (heap_page fid j)" using Suc.prems True by (auto simp: V'_def heap_page_inj)
      note c = live_places_cong(1) [OF this]
      have "x \<noteq> place fid k i" if "x \<in> set (live_places V fid n)" for x
        using that Suc.prems True by (auto simp: live_places_set place_def heap_page_inj)
      then have 1: "filter (\<lambda>c. c \<noteq> place fid k i) (live_places V fid n) = live_places V fid n" by (intro filter_True) blast
      have "?f V' = filter (\<lambda>c. c \<noteq> place fid k i) (?f V)"
      proof -
        have "(place fid n j \<noteq> place fid k i) = (j \<noteq> i)" if "j < get_total_slots_from_bytes ?pg" for j
          using that total_slots_bound [of ?pg] Suc.prems True i16 by (simp add: place_inj)
        then have "filter (\<lambda>j. row_at pg' j \<noteq> None) [0..<get_total_slots_from_bytes ?pg] =
            filter (\<lambda>j. place fid n j \<noteq> place fid k i \<and> row_at ?pg j \<noteq> None) [0..<get_total_slots_from_bytes ?pg]"
          by (intro filter_cong) (auto simp: r)
        then show ?thesis using True by (simp add: V'_def t filter_map comp_def conj_commute)
      qed
      then show ?thesis by (simp add: live_places_Suc c 1)
    next
      case False
      have "V' (heap_page fid n) = V (heap_page fid n)" using False Suc.prems by (auto simp: V'_def heap_page_inj)
      moreover have "x \<noteq> place fid k i" if "x \<in> set (?f V)" for x
        using that False Suc.prems by (auto simp: place_def heap_page_inj)
      then have "filter (\<lambda>c. c \<noteq> place fid k i) (?f V) = ?f V" by (intro filter_True) blast
      ultimately show ?thesis using Suc.IH False Suc.prems by (simp add: live_places_Suc)
    qed
  qed simp
qed

subsection \<open>The index that fits the heap\<close>

lemma index_of_heap_add:
  assumes idx: "index_of_heap sch V fid n m" and L: "live_places V' fid n' = live_places V fid n @ [c]"
    and old: "\<And>x. x \<in> set (live_places V fid n) \<Longrightarrow> record_of V' x = record_of V x"
    and new: "record_of V' c = Some t" "row_key_is sch t pk" "m pk = None"
  shows "index_of_heap sch V' fid n' (m(pk \<mapsto> c))" and "heap_rows V' fid 0 n' = heap_rows V fid 0 n @ [t]"
proof -
  show "index_of_heap sch V' fid n' (m(pk \<mapsto> c))"
    unfolding index_of_heap_def L
  proof (intro conjI ballI allI impI)
    fix x assume "x \<in> set (live_places V fid n @ [c])"
    then consider "x \<in> set (live_places V fid n)" | "x = c" by auto
    then show "\<exists>pk'. row_key_is sch (the (record_of V' x)) pk' \<and> (m(pk \<mapsto> c)) pk' = Some x"
    proof cases
      case 1
      then obtain pk' where "row_key_is sch (the (record_of V x)) pk'" "m pk' = Some x" using idx unfolding index_of_heap_def by blast
      with old [OF 1] new(3) show ?thesis by (intro exI [of _ pk']) auto
    qed (use new in auto)
  next
    fix pk' x assume a: "(m(pk \<mapsto> c)) pk' = Some x"
    show "x \<in> set (live_places V fid n @ [c])" using a idx unfolding index_of_heap_def by (auto split: if_splits)
    show "row_key_is sch (the (record_of V' x)) pk'"
    proof (cases "pk' = pk")
      case False
      with a have "x \<in> set (live_places V fid n)" "row_key_is sch (the (record_of V x)) pk'"
        using idx unfolding index_of_heap_def by auto
      then show ?thesis using old by simp
    qed (use a new in auto)
  qed
  show "heap_rows V' fid 0 n' = heap_rows V fid 0 n @ [t]"
    using old new(1) by (simp add: heap_rows_places L cong: map_cong)
qed

lemma index_of_heap_remove:
  assumes idx: "index_of_heap sch V fid n m" and L: "live_places V' fid n = filter (\<lambda>x. x \<noteq> c) (live_places V fid n)"
    and old: "\<And>x. x \<noteq> c \<Longrightarrow> record_of V' x = record_of V x" and c: "m pk = Some c"
  shows "index_of_heap sch V' fid n (m(pk := None))"
proof -
  have uniq: "k = pk" if "m k = Some c" for k
    using idx c that row_key_unique unfolding index_of_heap_def by blast
  show ?thesis
    unfolding index_of_heap_def L
  proof (intro conjI ballI allI impI)
    fix x assume "x \<in> set (filter (\<lambda>x. x \<noteq> c) (live_places V fid n))"
    then have x: "x \<in> set (live_places V fid n)" "x \<noteq> c" by auto
    then obtain k where "row_key_is sch (the (record_of V x)) k" "m k = Some x" using idx unfolding index_of_heap_def by blast
    with x old c show "\<exists>k. row_key_is sch (the (record_of V' x)) k \<and> (m(pk := None)) k = Some x"
      by (intro exI [of _ k]) auto
  next
    fix k x assume "(m(pk := None)) k = Some x"
    then have k: "k \<noteq> pk" "m k = Some x" by (auto split: if_splits)
    then have "x \<noteq> c" using uniq by blast
    with k old show "x \<in> set (filter (\<lambda>x. x \<noteq> c) (live_places V fid n))" "row_key_is sch (the (record_of V' x)) k"
      using idx unfolding index_of_heap_def by auto
  qed
qed

lemma index_rep_cong:
  assumes "index_rep ps fid tot V r m" and "\<And>q. file_id q = fid \<Longrightarrow> V' q = V q" and "tot' fid = tot fid"
  shows "index_rep ps fid tot' V' r m"
proof (cases r)
  case (Some p)
  then obtain t where t: "root t = p" "tree_inv ps fid tot V t" "map_of (entries t) = m"
    using assms(1) by (auto simp: index_rep_def)
  have same: "V' q = V q" if "q \<in> set (pages t)" for q
    using that t(2) assms(2) by (auto simp: tree_inv_def pages_ok_def)
  have "tree_rep ps V' invalid_page_id t = tree_rep ps V invalid_page_id t" by (rule tree_rep_cong) (rule same)
  moreover have "chain V' (leaves t) invalid_page_id = chain V (leaves t) invalid_page_id"
    by (rule chain_cong) (use same leaves_subset in \<open>auto simp: subset_iff\<close>)
  ultimately have "tree_inv ps fid tot' V' t" using t(2) assms(3) by (simp add: tree_inv_def pages_ok_def)
  with t Some show ?thesis by (auto simp: index_rep_def)
qed (use assms(1) in \<open>simp add: index_rep_def\<close>)

lemma index_rep_root:
  assumes "index_rep ps fid tot V r m"
  shows "m \<noteq> Map.empty \<Longrightarrow> r \<noteq> None" and "r = Some p \<Longrightarrow> file_id p = fid"
  using assms by (auto simp: index_rep_def tree_inv_def pages_ok_def split: option.splits)

subsection \<open>Tables\<close>

definition heap_wf :: "(page_id \<Rightarrow> page) \<Rightarrow> u32 \<Rightarrow> u32 \<Rightarrow> bool" where
  "heap_wf V fid k \<longleftrightarrow> unat k + 1 < 2 ^ 32 \<and> (\<forall>i < unat k. page_wf (V (heap_page fid i))) \<and>
     (k = 0 \<longrightarrow> get_total_slots_from_bytes (V (heap_page fid 0)) = 0)"

definition heap_span :: "u32 \<Rightarrow> nat" where
  "heap_span k = unat (last_page k) + 1"

definition table_inv :: "nat \<Rightarrow> (u32 \<Rightarrow> u32) \<Rightarrow> (page_id \<Rightarrow> page) \<Rightarrow> table_metadata \<Rightarrow> tuple list \<Rightarrow> (int \<Rightarrow> ctid option) \<Rightarrow> bool" where
  "table_inv ps tot V meta ts m \<longleftrightarrow>
     heap_wf V (heap_relation_id meta) (tot (heap_relation_id meta)) \<and> heap_relation_id meta \<noteq> index_relation_id meta \<and>
     index_of_heap (tm_schema meta) V (heap_relation_id meta) (heap_span (tot (heap_relation_id meta))) m \<and>
     index_rep ps (index_relation_id meta) tot V (index_root meta) m \<and> ts = table_rows tot V meta"

lemma heap_span_simps: "heap_span 0 = 1" "k \<noteq> 0 \<Longrightarrow> heap_span k = unat k"
  by (simp_all add: heap_span_def last_page_def word_greater_zero_iff unat_minus_one unat_gt_0)

lemma get_btree_root [simp]: "get_btree_root meta = index_root meta"
  by (simp add: get_btree_root_def index_root_def)

lemma table_rows_span: "table_rows tot V meta = heap_rows V (heap_relation_id meta) 0 (heap_span (tot (heap_relation_id meta)))"
  by (simp add: table_rows_def heap_span_def)

lemma heap_wf_ok: "heap_wf V fid k \<Longrightarrow> heap_ok V fid (heap_span k)"
proof (cases "k = 0")
  case True
  assume h: "heap_wf V fid k"
  have "(get_record_from_bytes (V (heap_page fid 0)) i :: (query_error, _) res) = Ok None" for i
    using h True by (simp add: heap_wf_def get_record_from_bytes_def get_total_slots_from_bytes_def)
  then show ?thesis using True by (simp add: heap_ok_def heap_span_simps readable_def)
next
  case False
  assume "heap_wf V fid k"
  with False show ?thesis by (auto simp: heap_ok_def heap_span_simps heap_wf_def readable_wf)
qed

lemma heap_wf_cong:
  assumes "heap_wf V fid k" and "\<And>i. V' (heap_page fid i) = V (heap_page fid i)"
  shows "heap_wf V' fid k"
  using assms by (simp add: heap_wf_def)

definition row_appended :: "(page_id \<Rightarrow> page) \<Rightarrow> (page_id \<Rightarrow> page) \<Rightarrow> u32 \<Rightarrow> nat \<Rightarrow> nat \<Rightarrow> ctid \<Rightarrow> tuple \<Rightarrow> bool" where
  "row_appended V V' fid n n' c t \<longleftrightarrow> live_places V' fid n' = live_places V fid n @ [c] \<and>
     (\<forall>x \<in> set (live_places V fid n). record_of V' x = record_of V x) \<and> record_of V' c = Some t"

lemma live_places_span: "heap_wf V fid k \<Longrightarrow> live_places V fid (heap_span k) = live_places V fid (unat k)"
  by (cases "k = 0") (simp_all add: heap_span_simps heap_wf_def live_places_def)

lemma heap_wf_new_page:
  assumes "heap_wf V fid k" and "unat k + 2 < 2 ^ 32" and "page_wf pg"
    and "get_total_slots_from_bytes pg = 1" and "row_at pg 0 = Some t"
  defines "V' \<equiv> V(heap_page fid (unat k) := pg)"
  shows "heap_wf V' fid (k + 1)" and "row_appended V V' fid (heap_span k) (heap_span (k + 1)) (place fid (unat k) 0) t"
proof -
  have k: "unat (k + 1) = unat k + 1" using assms(2) by (simp add: unat_word_ariths)
  have nz: "k + 1 \<noteq> 0" using k by (metis Suc_eq_plus1 nat.simps(3) unat_0)
  have old: "V' (heap_page fid i) = V (heap_page fid i)" if "i < unat k" for i
    using that assms(2) by (auto simp: V'_def heap_page_inj)
  have "page_wf (V' (heap_page fid i))" if "i < unat k + 1" for i
  proof (cases "i = unat k")
    case False
    then show ?thesis using that old [of i] assms(1) by (simp add: heap_wf_def)
  qed (use assms(3) in \<open>simp add: V'_def\<close>)
  then show "heap_wf V' fid (k + 1)" using nz assms(2) by (simp add: heap_wf_def k)
  have n: "unat k < 2 ^ 32" using assms(2) by simp
  note l = live_places_new_page [OF n assms(4,5), where V = V and fid = fid, folded V'_def]
  show "row_appended V V' fid (heap_span k) (heap_span (k + 1)) (place fid (unat k) 0) t"
    unfolding row_appended_def live_places_span [OF assms(1)]
    using l by (simp add: heap_span_simps(2) [OF nz] k)
qed

lemma heap_wf_add_row:
  assumes wf: "heap_wf V fid k" and k: "unat k = Suc n" and pg: "page_wf pg" "row_added (V (heap_page fid n)) pg t"
  defines "V' \<equiv> V(heap_page fid n := pg)"
  shows "heap_wf V' fid k"
    and "row_appended V V' fid (heap_span k) (heap_span k) (place fid n (get_total_slots_from_bytes (V (heap_page fid n)))) t"
proof -
  have nz: "k \<noteq> 0" using k by auto
  have b: "Suc n + 1 < 2 ^ 32" using wf k by (simp add: heap_wf_def)
  have "page_wf (V' (heap_page fid i))" if "i < Suc n" for i
    using that b wf pg(1) k by (cases "i = n") (auto simp: V'_def heap_page_inj heap_wf_def)
  then show "heap_wf V' fid k" using nz k b by (simp add: heap_wf_def)
  have "n < 2 ^ 32" using b by simp
  from live_places_add [where V = V and fid = fid, OF this pg(2)] show "row_appended V V' fid (heap_span k) (heap_span k)
      (place fid n (get_total_slots_from_bytes (V (heap_page fid n)))) t"
    unfolding row_appended_def heap_span_simps(2) [OF nz] k V'_def by blast
qed

lemma table_inv_ok: "table_inv ps tot V meta ts m \<Longrightarrow> table_ok ps tot V meta"
  unfolding table_inv_def table_ok_def heap_span_def [symmetric] using heap_wf_ok by blast

text \<open>A row appended to the heap and entered into the index.\<close>

lemma table_inv_insert:
  assumes inv: "table_inv ps tot V meta ts m"
    and heap: "heap_wf V1 (heap_relation_id meta) (tot1 (heap_relation_id meta))"
      "row_appended V V1 (heap_relation_id meta) (heap_span (tot (heap_relation_id meta))) (heap_span (tot1 (heap_relation_id meta))) c t"
    and key: "row_key_is (tm_schema meta) t pk" "m pk = None"
    and idx: "index_rep ps (index_relation_id meta) tot2 V2 (Some r) (m(pk \<mapsto> c))" "file_id r = index_relation_id meta"
      "\<forall>q. file_id q \<noteq> index_relation_id meta \<longrightarrow> V2 q = V1 q" "\<forall>g. g \<noteq> index_relation_id meta \<longrightarrow> tot2 g = tot1 g"
    and meta': "heap_relation_id meta' = heap_relation_id meta" "index_relation_id meta' = index_relation_id meta"
      "tm_schema meta' = tm_schema meta" "root_page_num meta' = Some (page_num r)"
  shows "table_inv ps tot2 V2 meta' (ts @ [t]) (m(pk \<mapsto> c))"
proof -
  let ?h = "heap_relation_id meta" and ?i = "index_relation_id meta"
  have ne: "?h \<noteq> ?i" and ix: "index_of_heap (tm_schema meta) V ?h (heap_span (tot ?h)) m" and ts: "ts = table_rows tot V meta"
    using inv by (simp_all add: table_inv_def)
  have hp: "V2 (heap_page ?h k) = V1 (heap_page ?h k)" for k using idx(3) ne by (simp add: heap_page_def)
  have tt: "tot2 ?h = tot1 ?h" using idx(4) ne by simp
  have L: "live_places V1 ?h (heap_span (tot1 ?h)) = live_places V ?h (heap_span (tot ?h)) @ [c]"
    and old: "\<And>x. x \<in> set (live_places V ?h (heap_span (tot ?h))) \<Longrightarrow> record_of V1 x = record_of V x" and new: "record_of V1 c = Some t"
    using heap(2) by (simp_all add: row_appended_def)
  note add = index_of_heap_add [OF ix L old new key]
  have "index_root meta' = Some r" using meta' idx(2) by (simp add: index_root_def)
  moreover have "heap_wf V2 ?h (tot2 ?h)" unfolding tt by (rule heap_wf_cong [OF heap(1) hp])
  moreover have "index_of_heap (tm_schema meta) V2 ?h (heap_span (tot2 ?h)) (m(pk \<mapsto> c))"
    unfolding tt by (rule index_of_heap_cong [OF _ add(1)]) (simp add: hp)
  moreover have "table_rows tot2 V2 meta' = ts @ [t]"
    using add(2) heap_rows_cong [of "heap_span (tot1 ?h)" V2 ?h V1] hp by (simp add: table_rows_span ts meta'(1) tt)
  ultimately show ?thesis using ne idx(1) meta' by (simp add: table_inv_def)
qed

end
