(* ===== verification/Dml_Laws.thy ===== *)
theory Dml_Laws
  imports Table_Inv
begin

text \<open>
  \<open>INSERT\<close> over any page pool with a log that has room for its record: it appends the row to the
  rows of the table and enters it into the index, or refuses a key that is present. \<open>heap_store\<close> is the
  pool with the count of pages that the commands use; \<open>row_store\<close> adds the log, \<open>pgood n\<close> being a
  good pool whose log has room for \<open>n\<close> records, and says that a client that holds a page and has
  written to it may go on using the pool for other pages.
\<close>

subsection \<open>Symbolic execution\<close>

lemma buf_op_app [act_simps]: "m w = (r, w') \<Longrightarrow> buf_op m w = Some (map_err CliBuffer r, w')"
  by (simp add: buf_op_def total_def)

lemma on_pool_app [act_simps]: "m (db_pool d) = Some (r, s) \<Longrightarrow> on_pool m d = Some (r, d\<lparr>db_pool := s\<rparr>)"
  by (simp add: on_pool_def)

lemma on_catalog_app [act_simps]:
  "f (db_catalog d) = (r, c) \<Longrightarrow> on_catalog f d = Some (map_err CliCatalog r, d\<lparr>db_catalog := c\<rparr>)"
  by (simp add: on_catalog_def total_def)

lemma look_up_app [act_simps]: "look_up f d = Some (f (db_catalog d), d)"
  by (simp add: look_up_def of_res_def)

lemma on_index_app: "m (new_btree w r fid) = Some (x, b) \<Longrightarrow>
    on_index r fid m w = Some (res_bind (map_err CliIndex x) (\<lambda>v. Ok (v, bt_root b)), bt_pool b)"
  by (simp add: on_index_def)

subsection \<open>The heap\<close>

locale heap_store = table_pool "st_pager S" pgood pview ploaded ppins pcapacity psynced ptotal "st_total S"
  for S :: "'s table_store" and pgood pview ploaded ppins pcapacity psynced ptotal
begin

lemma with_page_law:
  assumes s: "session base cap tot V held W w" and p: "(p, f) \<in> set held"
    and c: "change (V p) = (r, pg')" "length pg' = pg_size (st_pager S)"
  obtains w' where "with_page S f change w = Some (r, w')" and "session base cap tot (V(p := pg')) held (insert p W) w'"
    and "pg' = V p \<longrightarrow> session base cap tot V held W w'"
proof -
  obtain w' where 1: "pg_write (st_pager S) f pg' w = (Ok (), w')" "session base cap tot (V(p := pg')) held (insert p W) w'"
    "pg' = V p \<longrightarrow> session base cap tot V held W w'" using session_write [OF s p c(2)] by blast
  have "with_page S f change w = Some (r, w')"
    using session_read [OF s p] 1(1) c(1) by (simp add: with_page_def act_simps)
  with 1(2,3) show thesis by (intro that)
qed

lemma insert_in_new_page_law:
  assumes s: "session base cap tot V [] {} w" and room: "spare base cap 1"
    and size: "pg_size (st_pager S) < 65536" "length t + 36 \<le> pg_size (st_pager S)"
  shows "\<exists>pg' w'. insert_in_new_page S t fid w = Some (Ok (place fid (unat (tot fid)) 0), w') \<and>
    session base cap (tot(fid := tot fid + 1)) (V(heap_page fid (unat (tot fid)) := pg')) [] {} w' \<and>
    page_wf pg' \<and> get_total_slots_from_bytes pg' = 1 \<and> row_at pg' 0 = Some t"
proof -
  let ?p = "heap_page fid (unat (tot fid))" and ?tot = "tot(fid := tot fid + 1)"
  have p: "?p = \<lparr>file_id = fid, page_num = tot fid\<rparr>" by (simp add: heap_page_def)
  obtain f w1 where 1: "pg_new (st_pager S) fid w = (Ok (f, ?p), w1)" "session base cap ?tot V [(?p, f)] {} w1"
    using session_new [OF s room _ p] by auto
  have len: "length (V ?p) = pg_size (st_pager S)" by (rule session_size [OF s])
  have wf: "page_wf (init (V ?p))" using len size by (intro page_wf_init) auto
  have h: "header (init (V ?p)) = \<lparr>log_sequence_number = 0, total_slots = 0,
     free_space_lower = 16, free_space_upper = word_of_nat (length (V ?p)), page_flags = 0\<rparr>"
    using len size by (intro header_init) simp
  have n0: "get_total_slots_from_bytes (init (V ?p)) = 0" by (simp add: get_total_slots_from_bytes_def h)
  have "length t + 20 \<le> page_free (init (V ?p))" using size len by (simp add: page_free_def h unat_u16_of_nat)
  from insert_row [OF wf this, where xmn = 1] obtain pg' where
    2: "(insert_record t 1 (init (V ?p)) :: (cli_error, _) res \<times> _) = (Ok (Some 0), pg')" "page_wf pg'"
      "length pg' = length (init (V ?p))" "row_added (init (V ?p)) pg' t" unfolding n0 by blast
  have lp: "length pg' = pg_size (st_pager S)" using 2(3) len size by simp
  have mem: "(?p, f) \<in> set [(?p, f)]" by simp
  obtain w2 where 3: "with_page S f (\<lambda>pg. insert_record t 1 (init pg)) w1 = Some (Ok (Some 0), w2)"
    "session base cap ?tot (V(?p := pg')) [(?p, f)] {?p} w2"
    by (rule with_page_law [where change = "\<lambda>pg. insert_record t 1 (init pg)", OF 1(2) mem 2(1) lp])
  obtain w3 where 4: "pg_unpin (st_pager S) ?p True w2 = (Ok (), w3)" "session base cap ?tot (V(?p := pg')) [] {} w3"
    using session_unpin [OF 3(2) mem, of True] by auto
  have "insert_in_new_page S t fid w = Some (Ok (place fid (unat (tot fid)) 0), w3)"
    using 1(1) 3(1) 4(1) by (simp add: insert_in_new_page_def act_simps place_def)
  moreover have "get_total_slots_from_bytes pg' = 1" "row_at pg' 0 = Some t" using 2(4) n0 by (simp_all add: row_added_def)
  ultimately show ?thesis using 4(2) 2(2) by blast
qed

lemma new_page_appends:
  assumes s: "session base cap tot V [] {} w" and room: "spare base cap 1"
    and size: "pg_size (st_pager S) < 65536" "length t + 36 \<le> pg_size (st_pager S)"
    and wf: "heap_wf V fid (tot fid)" "unat (tot fid) + 2 < 2 ^ 32"
  shows "\<exists>c w' tot' V'. insert_in_new_page S t fid w = Some (Ok c, w') \<and> session base cap tot' V' [] {} w' \<and>
    heap_wf V' fid (tot' fid) \<and> row_appended V V' fid (heap_span (tot fid)) (heap_span (tot' fid)) c t \<and>
    (\<forall>q. file_id q \<noteq> fid \<longrightarrow> V' q = V q) \<and> (\<forall>g. g \<noteq> fid \<longrightarrow> tot' g = tot g)"
proof -
  from insert_in_new_page_law [OF s room size, of fid] obtain pg' w' where
    1: "insert_in_new_page S t fid w = Some (Ok (place fid (unat (tot fid)) 0), w')"
      "session base cap (tot(fid := tot fid + 1)) (V(heap_page fid (unat (tot fid)) := pg')) [] {} w'"
      "page_wf pg'" "get_total_slots_from_bytes pg' = 1" "row_at pg' 0 = Some t" by blast
  note h = heap_wf_new_page [OF wf 1(3-5)]
  have f: "file_id (heap_page fid (unat (tot fid))) = fid" by (simp add: heap_page_def)
  show ?thesis using 1(1,2) h f
    by (intro exI [of _ "place fid (unat (tot fid)) 0"] exI [of _ w'] exI [of _ "tot(fid := tot fid + 1)"]
        exI [of _ "V(heap_page fid (unat (tot fid)) := pg')"]) auto
qed

lemma write_tuple_law:
  assumes s: "session base cap tot V [] {} w" and room: "spare base cap 1"
    and size: "pg_size (st_pager S) < 65536" "length t + 36 \<le> pg_size (st_pager S)"
    and wf: "heap_wf V fid (tot fid)" "unat (tot fid) + 2 < 2 ^ 32"
  shows "\<exists>c w' tot' V'. write_tuple_to_heap S t fid w = Some (Ok c, w') \<and> session base cap tot' V' [] {} w' \<and>
    heap_wf V' fid (tot' fid) \<and> row_appended V V' fid (heap_span (tot fid)) (heap_span (tot' fid)) c t \<and>
    (\<forall>q. file_id q \<noteq> fid \<longrightarrow> V' q = V q) \<and> (\<forall>g. g \<noteq> fid \<longrightarrow> tot' g = tot g)"
proof -
  obtain w1 where 1: "st_total S fid w = (Ok (tot fid), w1)" "session base cap tot V [] {} w1"
    using session_total [OF s] by blast
  show ?thesis
  proof (cases "tot fid = 0")
    case True
    have "write_tuple_to_heap S t fid w = insert_in_new_page S t fid w1"
      using 1(1) True by (simp add: write_tuple_to_heap_def act_simps)
    with new_page_appends [OF 1(2) room size wf] show ?thesis by simp
  next
    case False
    then obtain n where n: "unat (tot fid) = Suc n" by (cases "unat (tot fid)") (auto simp: unat_eq_0)
    let ?p = "heap_page fid n"
    have "tot fid = of_nat (unat (tot fid))" by simp
    also have "\<dots> = of_nat n + 1" unfolding n by simp
    finally have p: "\<lparr>file_id = fid, page_num = tot fid - 1\<rparr> = ?p" by (simp add: heap_page_def)
    obtain f w2 where 2: "pg_fetch (st_pager S) ?p w1 = (Ok f, w2)" "session base cap tot V [(?p, f)] {} w2"
      using session_fetch [OF 1(2) room, of ?p] by auto
    have mem: "(?p, f) \<in> set [(?p, f)]" by simp
    have pg: "page_wf (V ?p)" using wf(1) n by (simp add: heap_wf_def)
    have len: "length (V ?p) = pg_size (st_pager S)" by (rule session_size [OF s])
    show ?thesis
    proof (cases "length t + 20 \<le> page_free (V ?p)")
      case True
      from insert_row [OF pg this, where xmn = 1] obtain pg' where
        3: "(insert_record t 1 (V ?p) :: (cli_error, _) res \<times> _) = (Ok (Some (get_total_slots_from_bytes (V ?p))), pg')"
          "page_wf pg'" "length pg' = pg_size (st_pager S)" "row_added (V ?p) pg' t" unfolding len by blast
      obtain w3 where 4: "with_page S f (insert_record t 1) w2 = Some (Ok (Some (get_total_slots_from_bytes (V ?p))), w3)"
        "session base cap tot (V(?p := pg')) [(?p, f)] {?p} w3"
        by (rule with_page_law [where change = "insert_record t 1", OF 2(2) mem 3(1,3)])
      obtain w4 where 5: "pg_unpin (st_pager S) ?p True w3 = (Ok (), w4)" "session base cap tot (V(?p := pg')) [] {} w4"
        using session_unpin [OF 4(2) mem, of True] by auto
      let ?c = "place fid n (get_total_slots_from_bytes (V ?p))"
      have run: "write_tuple_to_heap S t fid w = Some (Ok ?c, w4)"
        using 1(1) False 2(1) 4(1) 5(1) by (simp add: write_tuple_to_heap_def act_simps p place_def Let_def)
      have "file_id ?p = fid" by (simp add: heap_page_def)
      with run 5(2) heap_wf_add_row [OF wf(1) n 3(2,4)] show ?thesis
        by (intro exI [of _ ?c] exI [of _ w4] exI [of _ tot] exI [of _ "V(?p := pg')"]) auto
    next
      case False': False
      have "length t + 20 < 65536" using size by simp
      have 3: "(insert_record t 1 (V ?p) :: (cli_error, _) res \<times> _) = (Ok None, V ?p)"
        using insert_record_full [OF pg _ \<open>length t + 20 < 65536\<close>] False' by simp
      obtain w3 where "with_page S f (insert_record t 1) w2 = Some (Ok None, w3)"
        "session base cap tot (V(?p := V ?p)) [(?p, f)] (insert ?p {}) w3" "V ?p = V ?p \<longrightarrow> session base cap tot V [(?p, f)] {} w3"
        by (rule with_page_law [where change = "insert_record t 1", OF 2(2) mem 3 len])
      then have 4: "with_page S f (insert_record t 1) w2 = Some (Ok None, w3)" "session base cap tot V [(?p, f)] {} w3" by simp_all
      obtain w4 where 5: "pg_unpin (st_pager S) ?p False w3 = (Ok (), w4)" "session base cap tot V [] {} w4"
        using session_unpin [OF 4(2) mem, of False] by auto
      have "write_tuple_to_heap S t fid w = insert_in_new_page S t fid w4"
        using 1(1) False 2(1) 4(1) 5(1) by (simp add: write_tuple_to_heap_def ignoring_def act_simps p Let_def)
      with new_page_appends [OF 5(2) room size wf] show ?thesis by simp
    qed
  qed
qed

end

subsection \<open>The index\<close>

context heap_store
begin

lemma fresh_index: "session base cap tot V [] {} w \<Longrightarrow> bsession base cap tot V [] {} r fid (new_btree w r fid)"
  by (simp add: bsession_def new_btree_def)

lemma search_law:
  assumes g: "geometry (pg_size (st_pager S))" and s: "session base cap tot V [] {} w" and room: "spare base cap 1"
    and rep: "index_rep (pg_size (st_pager S)) fid tot V r m" and key: "i32_range key"
  shows "\<exists>w'. on_index r fid (index_search (st_pager S) key) w =
      Some (res_bind (ok_or (m key) (CliIndex NodeKeyNotFound)) (\<lambda>c. Ok (c, r)), w') \<and> session base cap tot V [] {} w'"
proof -
  from index_search_spec [OF g room fresh_index [OF s] rep key] obtain b' where
    b': "index_search (st_pager S) key (new_btree w r fid) = Some (ok_or (m key) NodeKeyNotFound, b')"
      "bsession base cap tot V [] {} r fid b'" by blast
  show ?thesis using on_index_app [where m = "index_search (st_pager S) key", OF b'(1)] b'(2) by (cases "m key") (auto simp: bsession_def)
qed

lemma insert_law:
  assumes g: "geometry (pg_size (st_pager S))" and s: "session base cap tot V [] {} w" and room: "spare base cap 3"
    and rep: "index_rep (pg_size (st_pager S)) fid tot V r m" and key: "i32_range key"
    and tot: "unat (tot fid) < 2147483647" and new: "m key = None"
  shows "\<exists>w' r' V' tot'. on_index r fid (index_insert (st_pager S) key c) w = Some (Ok ((), Some r'), w') \<and>
    session base cap tot' V' [] {} w' \<and> file_id r' = fid \<and>
    index_rep (pg_size (st_pager S)) fid tot' V' (Some r') (m(key \<mapsto> c)) \<and>
    (\<forall>q. file_id q \<noteq> fid \<longrightarrow> V' q = V q) \<and> (\<forall>g. g \<noteq> fid \<longrightarrow> tot' g = tot g)"
proof -
  from tree_insert_spec [OF g room fresh_index [OF s] rep key tot, of c] new obtain b' where
    b': "tree_insert (st_pager S) key c (new_btree w r fid) = Some (Ok (), b')"
      "index_done fid base cap V tot (m(key \<mapsto> c)) b'" by auto
  obtain V' tot' r' where d: "bsession base cap tot' V' [] {} r' fid b'"
    "index_rep (pg_size (st_pager S)) fid tot' V' r' (m(key \<mapsto> c))"
    "\<forall>q. file_id q \<noteq> fid \<longrightarrow> V' q = V q" "\<forall>g. g \<noteq> fid \<longrightarrow> tot' g = tot g"
    using b'(2) unfolding index_done_def by (elim exE conjE) (rule that)
  have "m(key \<mapsto> c) \<noteq> Map.empty" by (metis fun_upd_same option.discI)
  then obtain p where p: "r' = Some p" using index_rep_root(1) [OF d(2)] by blast
  have f: "file_id p = fid" by (rule index_rep_root(2) [OF d(2) p])
  have i: "index_insert (st_pager S) key c (new_btree w r fid) = Some (Ok (), b')"
    using b'(1) by (simp add: index_insert_def map_err_act_def)
  have "bt_root b' = Some p" "session base cap tot' V' [] {} (bt_pool b')" using d(1) p by (simp_all add: bsession_def)
  with on_index_app [where m = "index_insert (st_pager S) key c", OF i] d(2-4) p f show ?thesis
    by (intro exI [of _ "bt_pool b'"] exI [of _ p] exI [of _ V'] exI [of _ tot']) simp
qed

end

subsection \<open>The catalog\<close>

lemma set_meta_ok:
  assumes "no_faults c" and "tables (ca_data c) table = Some meta"
  shows "\<exists>c'. update_root_page J table r c = (Ok (), c') \<and> on_disk J c' \<and>
      ca_data c' = (ca_data c)\<lparr>tables := (tables (ca_data c))(table \<mapsto> meta\<lparr>root_page_num := r\<rparr>)\<rparr>"
    and "\<exists>c'. update_num_records J table n c = (Ok (), c') \<and> on_disk J c' \<and>
      ca_data c' = (ca_data c)\<lparr>tables := (tables (ca_data c))(table \<mapsto>
        meta\<lparr>num_records := saturating_add_i32 (num_records meta) n\<rparr>)\<rparr>"
proof -
  have *: "\<exists>c'. flush_catalog J (set_tables T c) = (Ok (), c') \<and> on_disk J c' \<and> ca_data c' = (ca_data c)\<lparr>tables := T\<rparr>" for T
    using flush_ok [of "set_tables T c" J] assms(1) set_tables_faults [of T c] by (auto simp: on_disk_def set_tables_def)
  show "\<exists>c'. update_root_page J table r c = (Ok (), c') \<and> on_disk J c' \<and>
      ca_data c' = (ca_data c)\<lparr>tables := (tables (ca_data c))(table \<mapsto> meta\<lparr>root_page_num := r\<rparr>)\<rparr>"
    using assms(2) * by (simp add: update_root_page_def)
  show "\<exists>c'. update_num_records J table n c = (Ok (), c') \<and> on_disk J c' \<and>
      ca_data c' = (ca_data c)\<lparr>tables := (tables (ca_data c))(table \<mapsto>
        meta\<lparr>num_records := saturating_add_i32 (num_records meta) n\<rparr>)\<rparr>"
    using assms(2) * by (simp add: update_num_records_def)
qed

lemma parse_values_fits:
  assumes "parse_values vs cols = Ok parsed" and "length cols \<le> length vs" and "\<forall>v \<in> set vs. valid_utf8 (as_bytes v)"
  shows "list_all2 value_fits cols parsed"
  using assms
proof (induction vs cols arbitrary: parsed rule: parse_values.induct)
  case (1 v vs col cols)
  have v: "i32_range i" if "parse_i32 v = Some i" for i
    using that by (simp add: parse_i32_def Option.bind_eq_Some_conv split: if_splits)
  show ?case
    using 1 v by (cases "data_type col"; cases "parse_i32 v"; cases "parse_bool v") (auto simp: res_bind_eq_Ok value_fits_def)
qed (auto)

subsection \<open>The log\<close>

locale row_store =
  fixes S :: "'s table_store" and pgood :: "nat \<Rightarrow> 's \<Rightarrow> bool" and pview ploaded ppins pcapacity psynced ptotal
  assumes store: "heap_store S (pgood n) pview ploaded ppins pcapacity psynced ptotal"
    and log_less: "pgood (Suc n) s \<Longrightarrow> pgood n s"
    and append_law: "pgood (Suc n) s \<Longrightarrow> length bs < 2 ^ 32 \<Longrightarrow> \<exists>r s'. st_append S bs s = (r, s') \<and> pgood n s' \<and>
      pview s' = pview s \<and> ppins s' = ppins s \<and> pcapacity s' = pcapacity s \<and> ptotal s' = ptotal s \<and>
      ploaded s' = ploaded s \<and> (\<forall>q. psynced s q \<longrightarrow> psynced s' q)"
    and log_flush_law: "pgood n s \<Longrightarrow> pgood n (st_flush S s) \<and> pview (st_flush S s) = pview s \<and>
      ppins (st_flush S s) = ppins s \<and> pcapacity (st_flush S s) = pcapacity s \<and> ptotal (st_flush S s) = ptotal s \<and>
      ploaded (st_flush S s) = ploaded s \<and> (\<forall>q. psynced s q \<longrightarrow> psynced (st_flush S s) q)"
    and guard: "page_pool (st_pager S) (\<lambda>s. pgood n s \<and> ppins s p \<noteq> 0 \<and> ploaded s p = Some f) pview ploaded
      (\<lambda>s. (ppins s)(p := ppins s p - 1)) (\<lambda>s. pcapacity s - 1) (\<lambda>s q. psynced s q \<or> q = p) ptotal"

sublocale row_store \<subseteq> hs: heap_store S "pgood n" pview ploaded ppins pcapacity psynced ptotal for n
  by (rule store)

context row_store
begin

lemma session_less: "hs.session (Suc n) base cap tot V held W w \<Longrightarrow> hs.session n base cap tot V held W w"
  using log_less by (simp add: hs.session_def)

lemma session_append:
  assumes "hs.session (Suc n) base cap tot V held W w" and "length bs < 2 ^ 32"
  shows "\<exists>r w'. append_log S bs w = Some (Ok r, w') \<and> hs.session n base cap tot V held W w'"
proof -
  have "pgood (Suc n) w" using assms(1) by (simp add: hs.session_def)
  from append_law [OF this assms(2)] obtain r w' where w': "st_append S bs w = (r, w')" "pgood n w'"
    "pview w' = pview w" "ppins w' = ppins w" "pcapacity w' = pcapacity w" "ptotal w' = ptotal w"
    "ploaded w' = ploaded w" "\<forall>q. psynced w q \<longrightarrow> psynced w' q" by blast
  then have "append_log S bs w = Some (Ok r, w')" by (simp add: append_log_def total_def)
  with w' assms(1) show ?thesis by (auto simp: hs.session_def)
qed

lemma session_log_flush: "hs.session n base cap tot V held W w \<Longrightarrow> hs.session n base cap tot V held W (st_flush S w)"
  using log_flush_law by (auto simp: hs.session_def)

lemma log_insert_law:
  assumes "hs.session (Suc n) base cap tot V [] {} w" and "length table + length t < 2 ^ 31"
  shows "\<exists>w'. (if is_rec then ret () else log_insert_to_wal S table t) w = Some (Ok (), w') \<and> hs.session n base cap tot V [] {} w'"
proof (cases is_rec)
  case True
  then show ?thesis using session_less [OF assms(1)] by (simp add: act_simps)
next
  case False
  have "length (log_payload 0 table t) < 2 ^ 32" using assms(2) by (simp add: log_payload_def as_bytes_def)
  from session_append [OF assms(1) this] False show ?thesis by (auto simp: log_insert_to_wal_def act_simps)
qed

text \<open>A key that is present is refused; nothing changes.\<close>

lemma insert_duplicate:
  assumes g: "geometry (pg_size (st_pager S))" and s: "hs.session n base cap tot V [] {} (db_pool d)" and room: "spare base cap 1"
    and meta: "tables (ca_data (db_catalog d)) table = Some meta"
    and inv: "table_inv (pg_size (st_pager S)) tot V meta ts m"
    and vals: "parse_values vals (columns (tm_schema meta)) = Ok (Integer pk # vs)"
      "from_values (tm_schema meta) (Integer pk # vs) = Ok t" and key: "i32_range pk" "m pk = Some c"
  shows "\<exists>w. execute_insert S J table vals is_rec d = Some (Ok (DuplicatePk pk), d\<lparr>db_pool := w\<rparr>) \<and>
    hs.session n base cap tot V [] {} w"
proof -
  have rep: "index_rep (pg_size (st_pager S)) (index_relation_id meta) tot V (index_root meta) m"
    using inv by (simp add: table_inv_def)
  obtain w where w: "on_index (index_root meta) (index_relation_id meta) (index_search (st_pager S) pk) (db_pool d) =
      Some (Ok (c, index_root meta), w)" "hs.session n base cap tot V [] {} w"
    using hs.search_law [OF g s room rep key(1)] key(2) by auto
  have "execute_insert S J table vals is_rec d = Some (Ok (DuplicatePk pk), d\<lparr>db_pool := w\<rparr>)"
    using meta vals w(1) by (simp add: execute_insert_def get_table_def get_schema_def act_simps)
  with w(2) show ?thesis by blast
qed

text \<open>A new key: the row is appended and indexed.\<close>

lemma insert_fresh:
  assumes g: "geometry (pg_size (st_pager S))" "pg_size (st_pager S) < 65536"
    and s: "hs.session (Suc n) base cap tot V [] {} (db_pool d)" and room: "spare base cap 3"
    and meta: "tables (ca_data (db_catalog d)) table = Some meta" and cat: "no_faults (db_catalog d)"
    and inv: "table_inv (pg_size (st_pager S)) tot V meta ts m"
    and bounds: "unat (tot (heap_relation_id meta)) + 2 < 2 ^ 32" "unat (tot (index_relation_id meta)) < 2147483647"
    and vals: "parse_values vals (columns (tm_schema meta)) = Ok (Integer pk # vs)"
      "from_values (tm_schema meta) (Integer pk # vs) = Ok t" "to_values t (tm_schema meta) = Ok (Integer pk # vs)"
    and fits: "length t + 36 \<le> pg_size (st_pager S)" "length table < 2 ^ 30" and key: "i32_range pk" "m pk = None"
  shows "\<exists>d' c tot' V' meta'. execute_insert S J table vals is_rec d = Some (Ok Inserted, d') \<and>
    hs.session n base cap tot' V' [] {} (db_pool d') \<and> on_disk J (db_catalog d') \<and>
    ca_data (db_catalog d') = (ca_data (db_catalog d))\<lparr>tables := (tables (ca_data (db_catalog d)))(table \<mapsto> meta')\<rparr> \<and>
    meta' = meta\<lparr>root_page_num := root_page_num meta', num_records := saturating_add_i32 (num_records meta) 1\<rparr> \<and>
    table_inv (pg_size (st_pager S)) tot' V' meta' (ts @ [t]) (m(pk \<mapsto> c)) \<and>
    (\<forall>q. file_id q \<notin> meta_ids meta \<longrightarrow> V' q = V q) \<and> (\<forall>f. f \<notin> meta_ids meta \<longrightarrow> tot' f = tot f)"
proof -
  let ?ps = "pg_size (st_pager S)" and ?h = "heap_relation_id meta" and ?i = "index_relation_id meta"
  have rep: "index_rep ?ps ?i tot V (index_root meta) m" and wf: "heap_wf V ?h (tot ?h)" and ne: "?h \<noteq> ?i"
    using inv by (simp_all add: table_inv_def)
  have room1: "spare base cap 1" by (rule spare_le [OF room]) simp
  obtain w1 where 1: "on_index (index_root meta) ?i (index_search (st_pager S) pk) (db_pool d) = Some (Err (CliIndex NodeKeyNotFound), w1)"
      "hs.session (Suc n) base cap tot V [] {} w1"
    using hs.search_law [OF g(1) s room1 rep key(1)] key(2) by auto
  obtain c w2 tot1 V1 where 2: "write_tuple_to_heap S t ?h w1 = Some (Ok c, w2)" "hs.session (Suc n) base cap tot1 V1 [] {} w2"
      "heap_wf V1 ?h (tot1 ?h)" "row_appended V V1 ?h (heap_span (tot ?h)) (heap_span (tot1 ?h)) c t"
      "\<forall>q. file_id q \<noteq> ?h \<longrightarrow> V1 q = V q" "\<forall>f. f \<noteq> ?h \<longrightarrow> tot1 f = tot f"
    using hs.write_tuple_law [OF 1(2) room1 g(2) fits(1) wf bounds(1)] by (elim exE conjE) (rule that)
  have "length table + length t < 2 ^ 31" using fits g(2) by simp
  from log_insert_law [OF 2(2) this, of is_rec] obtain w3 where
    3: "(if is_rec then ret () else log_insert_to_wal S table t) w2 = Some (Ok (), w3)" "hs.session n base cap tot1 V1 [] {} w3" by blast
  have rep1: "index_rep ?ps ?i tot1 V1 (index_root meta) m"
    by (rule index_rep_cong [OF rep]) (use 2(5,6) ne in auto)
  have "unat (tot1 ?i) < 2147483647" using bounds(2) 2(6) ne by simp
  from hs.insert_law [OF g(1) 3(2) room rep1 key(1) this key(2), of c] obtain w4 r V2 tot2 where
    4: "on_index (index_root meta) ?i (index_insert (st_pager S) pk c) w3 = Some (Ok ((), Some r), w4)"
      "hs.session n base cap tot2 V2 [] {} w4" "file_id r = ?i" "index_rep ?ps ?i tot2 V2 (Some r) (m(pk \<mapsto> c))"
      "\<forall>q. file_id q \<noteq> ?i \<longrightarrow> V2 q = V1 q" "\<forall>f. f \<noteq> ?i \<longrightarrow> tot2 f = tot1 f"
    by (elim exE conjE) (rule that)
  let ?meta1 = "meta\<lparr>root_page_num := Some (page_num r)\<rparr>"
  from set_meta_ok(1) [OF cat meta, of J "Some (page_num r)"] obtain c1 where
    5: "update_root_page J table (Some (page_num r)) (db_catalog d) = (Ok (), c1)" "on_disk J c1"
      "ca_data c1 = (ca_data (db_catalog d))\<lparr>tables := (tables (ca_data (db_catalog d)))(table \<mapsto> ?meta1)\<rparr>" by blast
  have cat1: "no_faults c1" "tables (ca_data c1) table = Some ?meta1" using 5(2,3) by (simp_all add: on_disk_def)
  let ?meta2 = "?meta1\<lparr>num_records := saturating_add_i32 (num_records ?meta1) 1\<rparr>"
  from set_meta_ok(2) [OF cat1, of J 1] obtain c2 where
    6: "update_num_records J table 1 c1 = (Ok (), c2)" "on_disk J c2"
      "ca_data c2 = (ca_data c1)\<lparr>tables := (tables (ca_data c1))(table \<mapsto> ?meta2)\<rparr>" by blast
  have run: "execute_insert S J table vals is_rec d = Some (Ok Inserted, d\<lparr>db_pool := w4, db_catalog := c2\<rparr>)"
  proof -
    have lg: "(if is_rec then ret () else on_pool (log_insert_to_wal S table t)) (d\<lparr>db_pool := w2\<rparr>) = Some (Ok (), d\<lparr>db_pool := w3\<rparr>)"
      using 3(1) by (cases is_rec) (simp_all add: act_simps)
    show ?thesis
      using meta vals(1,2) 1(1) 2(1) 4(1) 5(1) 6(1)
      by (simp add: execute_insert_def get_table_def get_schema_def act_simps bnd_Ok [where m = "if is_rec then ret () else on_pool (log_insert_to_wal S table t)", OF lg])
  qed
  have tinv: "table_inv ?ps tot2 V2 ?meta2 (ts @ [t]) (m(pk \<mapsto> c))"
    by (rule table_inv_insert [OF inv 2(3,4) _ key(2) 4(4,3,5,6)]) (use vals(3) in \<open>simp_all add: row_key_is_def\<close>)
  have "ca_data c2 = (ca_data (db_catalog d))\<lparr>tables := (tables (ca_data (db_catalog d)))(table \<mapsto> ?meta2)\<rparr>"
    using 5(3) 6(3) by simp
  moreover have "\<forall>q. file_id q \<notin> meta_ids meta \<longrightarrow> V2 q = V q" "\<forall>f. f \<notin> meta_ids meta \<longrightarrow> tot2 f = tot f"
    using 2(5,6) 4(5,6) by (simp_all add: meta_ids_def)
  ultimately show ?thesis using run tinv 4(2) 6(2)
    by (intro exI [of _ "d\<lparr>db_pool := w4, db_catalog := c2\<rparr>"] exI [of _ c] exI [of _ tot2] exI [of _ V2] exI [of _ ?meta2]) simp
qed

end

end
