(* ===== verification/Delete_Laws.thy ===== *)
theory Delete_Laws
  imports Dml_Laws
begin

text \<open>
  \<open>DELETE\<close> over any \<open>row_store\<close>: the rows that satisfy the clause are marked as deleted and leave the
  index, page by page, while the page is held with changes that no unpin has announced; all other
  rows stay, in their order and in the index.
\<close>

subsection \<open>One page\<close>

lemma extract_row:
  assumes "page_wf pg" and "i < get_total_slots_from_bytes pg"
  shows "extract_tuple_for_slot pg i = Ok (snd (record_at i pg))"
proof -
  have i: "i < slot_count pg" using assms(2) by (simp add: total_slots_count)
  note w = page_wf_slot [OF assms(1) i]
  show ?thesis
    using w i by (simp add: extract_tuple_for_slot_def slots_wf [OF assms(1)] index_def record_at_def slot_off_def slot_len_def Let_def)
qed

definition hits :: "where_condition list \<Rightarrow> schema \<Rightarrow> page \<Rightarrow> nat list" where
  "hits conds sch pg = filter (\<lambda>i. case row_at pg i of None \<Rightarrow> False | Some t \<Rightarrow> where_predicate conds t sch)
     [0..<get_total_slots_from_bytes pg]"

lemma find_slots_law:
  assumes wf: "page_wf pg" and known: "known_cols sch conds"
    and dec: "\<And>i t. row_at pg i = Some t \<Longrightarrow> \<exists>vs. to_values t sch = Ok vs"
  shows "find_slots_to_delete pg conds sch = Ok (hits conds sch pg)"
proof -
  let ?P = "\<lambda>i. case row_at pg i of None \<Rightarrow> False | Some t \<Rightarrow> where_predicate conds t sch"
  have step: "res_bind (get_record_from_bytes pg i) (\<lambda>r. case r of
         None \<Rightarrow> rest
       | Some (_, t) \<Rightarrow> (case to_values t sch of
             Ok vals \<Rightarrow> res_bind (evaluate_where_clause conds sch vals) (\<lambda>hit.
               if hit then res_bind rest (\<lambda>is. Ok (i # is)) else rest)
           | Err _ \<Rightarrow> rest
           | Panic \<Rightarrow> Panic)) = (if ?P i then res_bind rest (\<lambda>is. Ok (i # is)) else rest)" for i and rest :: "(cli_error, nat list) res"
  proof (cases "row_at pg i")
    case None
    then have "get_record_from_bytes pg i = (Ok None :: (cli_error, _) res)"
      by (auto simp: row_at_wf [OF wf] get_record_from_bytes_wf [OF wf] split: if_splits prod.splits)
    then show ?thesis using None by simp
  next
    case (Some t)
    obtain vs where vs: "to_values t sch = Ok vs" using dec [OF Some] by blast
    have len: "length (columns sch) \<le> length vs" using to_values_length [OF vs] by simp
    have "\<exists>h. get_record_from_bytes pg i = (Ok (Some (h, t)) :: (cli_error, _) res)"
      using Some by (cases "record_at i pg") (auto simp: row_at_wf [OF wf] get_record_from_bytes_wf [OF wf] split: if_splits)
    then show ?thesis
      using Some vs by (auto simp: evaluate_where_known [OF known len] where_predicate_holds [OF known vs])
  qed
  have "foldr (\<lambda>i rest. if ?P i then res_bind rest (\<lambda>is. Ok (i # is)) else rest) is (Ok []) =
      (Ok (filter ?P is) :: (cli_error, _) res)" for "is"
    by (induction "is") auto
  then show ?thesis unfolding find_slots_to_delete_def hits_def step by simp
qed

lemma hits_iff: "i \<in> set (hits conds sch pg) \<longleftrightarrow> (\<exists>t. row_at pg i = Some t \<and> where_predicate conds t sch)"
  using row_at_bound [of pg i] by (auto simp: hits_def split: option.splits)

lemma hits_distinct: "distinct (hits conds sch pg)"
  by (simp add: hits_def)

subsection \<open>One file\<close>

definition rows_removed :: "(page_id \<Rightarrow> page) \<Rightarrow> (page_id \<Rightarrow> page) \<Rightarrow> u32 \<Rightarrow> nat \<Rightarrow> ctid set \<Rightarrow> bool" where
  "rows_removed V V' fid n D \<longleftrightarrow> live_places V' fid n = filter (\<lambda>c. c \<notin> D) (live_places V fid n) \<and>
     (\<forall>x \<in> set (live_places V' fid n). record_of V' x = record_of V x)"

lemma rows_removed_none: "rows_removed V V fid n {}"
  by (simp add: rows_removed_def)

lemma rows_removed_trans:
  "rows_removed V V1 fid n D1 \<Longrightarrow> rows_removed V1 V2 fid n D2 \<Longrightarrow> rows_removed V V2 fid n (D1 \<union> D2)"
  by (auto simp: rows_removed_def conj_commute)

text \<open>Pages with the same rows.\<close>

definition same_rows :: "(page_id \<Rightarrow> page) \<Rightarrow> (page_id \<Rightarrow> page) \<Rightarrow> u32 \<Rightarrow> bool" where
  "same_rows V V' fid \<longleftrightarrow> (\<forall>k. row_at (V' (heap_page fid k)) = row_at (V (heap_page fid k)) \<and>
     get_total_slots_from_bytes (V' (heap_page fid k)) = get_total_slots_from_bytes (V (heap_page fid k)))"

lemma same_rows_places:
  assumes "same_rows V V' fid"
  shows "live_places V' fid n = live_places V fid n" and "c \<in> set (live_places V fid n) \<Longrightarrow> record_of V' c = record_of V c"
proof -
  show "live_places V' fid n = live_places V fid n" using assms by (simp add: same_rows_def live_places_def)
  assume "c \<in> set (live_places V fid n)"
  then have "\<exists>k. ctid_page c = heap_page fid k" by (auto simp: live_places_def place_def)
  then show "record_of V' c = record_of V c" using assms by (auto simp: same_rows_def record_of_def)
qed

lemma same_rows_removed: "same_rows V V' fid \<Longrightarrow> rows_removed V V' fid n {}"
  by (simp add: rows_removed_def same_rows_places)

lemma same_rows_index: "same_rows V V' fid \<Longrightarrow> index_of_heap sch V fid n m \<Longrightarrow> index_of_heap sch V' fid n m"
  unfolding index_of_heap_def using same_rows_places [of V V' fid] by metis

lemma index_rep_key:
  assumes "index_rep ps fid tot V r m" and "m key = Some c"
  shows "i32_range key"
proof -
  obtain t where t: "tree_inv ps fid tot V t" "map_of (entries t) = m"
    using assms by (auto simp: index_rep_def split: option.splits)
  have "key \<in> set (map fst (entries t))" using map_of_SomeD [of "entries t" key c] t(2) assms(2) by force
  moreover have "ordered (- 2147483648) 2147483648 t" using t(1) by (simp add: tree_inv_def)
  ultimately show ?thesis using ordered_entries(1) [of "- 2147483648" 2147483648 t] by (auto simp: i32_range_def)
qed

text \<open>The rows on page \<open>k\<close> that satisfy the clause, by place.\<close>

definition matching :: "where_condition list \<Rightarrow> schema \<Rightarrow> (page_id \<Rightarrow> page) \<Rightarrow> u32 \<Rightarrow> nat \<Rightarrow> nat set \<Rightarrow> ctid set" where
  "matching conds sch V fid n K = {c \<in> set (live_places V fid n). ctid_page c \<in> heap_page fid ` K \<and>
     where_predicate conds (the (record_of V c)) sch}"

lemma hits_matching:
  assumes "k < n"
  shows "place fid k ` set (hits conds sch (V (heap_page fid k))) = matching conds sch V fid n {k}" (is "?A = ?B")
proof (intro set_eqI iffI)
  fix c assume "c \<in> ?A"
  then obtain i t where i: "c = place fid k i" "row_at (V (heap_page fid k)) i = Some t" "where_predicate conds t sch"
    by (auto simp: hits_iff)
  have r: "record_of V c = Some t" using record_of_place [where V = V and fid = fid and k = k, OF row_at_bound [OF i(2)]] i(1,2) by simp
  have "ctid_page c = heap_page fid k" using i(1) by (simp add: place_def)
  with r i(3) assms show "c \<in> ?B" by (auto simp: matching_def live_places_set)
next
  fix c assume "c \<in> ?B"
  then have p: "ctid_page c = heap_page fid k" and w: "where_predicate conds (the (record_of V c)) sch" and "record_of V c \<noteq> None"
    by (auto simp: matching_def live_places_set)
  then obtain t where t: "row_at (V (heap_page fid k)) (unat (slot_idx c)) = Some t" "where_predicate conds t sch"
    by (auto simp: record_of_def)
  have "c = place fid k (unat (slot_idx c))" using p by (simp add: place_def)
  with t show "c \<in> ?A" by (auto simp: hits_iff)
qed

lemma rows_removed_length:
  assumes "rows_removed V V' fid n (place fid k ` set is)" and "distinct is"
    and "\<forall>i \<in> set is. row_at (V (heap_page fid k)) i \<noteq> None" and "k < n" and "n \<le> 2 ^ 32"
  shows "length (live_places V fid n) = length (live_places V' fid n) + length is"
proof -
  let ?L = "live_places V fid n" and ?D = "place fid k ` set is"
  have b: "i < 2 ^ 16" if "i \<in> set is" for i
    using that assms(3) row_at_bound [of "V (heap_page fid k)" i] total_slots_bound [of "V (heap_page fid k)"] by fastforce
  have "inj_on (place fid k) (set is)" using b assms(4,5) by (auto simp: inj_on_def place_inj)
  then have cD: "card ?D = length is" using assms(2) by (simp add: card_image distinct_card)
  have "?D \<subseteq> set ?L"
  proof
    fix c assume "c \<in> ?D"
    then obtain i t where i: "c = place fid k i" "row_at (V (heap_page fid k)) i = Some t" using assms(3) by auto
    have "record_of V c = Some t" using record_of_place [where V = V and fid = fid and k = k, OF row_at_bound [OF i(2)]] i by simp
    then show "c \<in> set ?L" using i(1) assms(4) by (auto simp: live_places_set place_def)
  qed
  moreover have "distinct ?L" using live_places_distinct [of n] assms(5) by simp
  ultimately have "length (filter (\<lambda>c. c \<in> ?D) ?L) = card ?D"
    by (metis Int_absorb1 distinct_card distinct_filter set_filter Collect_conj_eq Collect_mem_eq)
  with cD sum_length_filter_compl [of "\<lambda>c. c \<in> ?D" ?L] assms(1) show ?thesis by (simp add: rows_removed_def)
qed

lemma matching_step:
  assumes r: "rows_removed V V1 fid n (matching conds sch V fid n {k})"
  shows "matching conds sch V fid n {k} \<union> matching conds sch V1 fid n K = matching conds sch V fid n (insert k K)" (is "?A \<union> ?B = ?C")
proof -
  have L: "set (live_places V1 fid n) = set (live_places V fid n) - ?A" using r by (auto simp: rows_removed_def)
  have rec: "record_of V1 c = record_of V c" if "c \<in> set (live_places V1 fid n)" for c
    using r that by (simp add: rows_removed_def)
  have "?B = {c \<in> set (live_places V fid n) - ?A. ctid_page c \<in> heap_page fid ` K \<and> where_predicate conds (the (record_of V c)) sch}"
    unfolding matching_def [of conds sch V1] using L rec by auto
  then show ?thesis by (auto simp: matching_def)
qed

lemma rows_removed_le: "rows_removed V V1 fid n D \<Longrightarrow> length (live_places V1 fid n) \<le> length (live_places V fid n)"
  by (simp add: rows_removed_def)

text \<open>The pages of a table, its first \<open>n\<close> heap pages and its index, while rows are deleted.\<close>

definition table_pages :: "nat \<Rightarrow> (u32 \<Rightarrow> u32) \<Rightarrow> (page_id \<Rightarrow> page) \<Rightarrow> table_metadata \<Rightarrow> nat \<Rightarrow> (int \<Rightarrow> ctid option) \<Rightarrow> bool" where
  "table_pages ps tot V meta n m \<longleftrightarrow> n \<le> 2 ^ 32 \<and> heap_relation_id meta \<noteq> index_relation_id meta \<and>
     (\<forall>k < n. page_wf (V (heap_page (heap_relation_id meta) k))) \<and>
     index_of_heap (tm_schema meta) V (heap_relation_id meta) n m \<and>
     index_rep ps (index_relation_id meta) tot V (index_root meta) m"

lemma table_pages_remove:
  assumes inv: "table_pages ps tot V meta n m" and k: "k < n"
    and row: "row_at (V (heap_page (heap_relation_id meta) k)) i = Some t"
    and pg1: "page_wf pg1" "row_removed (V (heap_page (heap_relation_id meta) k)) pg1 i"
    and pk: "m pk = Some (place (heap_relation_id meta) k i)"
    and V2: "\<forall>q. file_id q \<noteq> index_relation_id meta \<longrightarrow> V2 q = (V(heap_page (heap_relation_id meta) k := pg1)) q"
      "index_rep ps (index_relation_id meta) tot2 V2 (index_root meta) (m(pk := None))"
    and pg3: "page_wf pg3" "row_at pg3 = row_at pg1" "get_total_slots_from_bytes pg3 = get_total_slots_from_bytes pg1"
  defines "V3 \<equiv> V2(heap_page (heap_relation_id meta) k := pg3)"
  shows "table_pages ps tot2 V3 meta n (m(pk := None))"
    and "rows_removed V V3 (heap_relation_id meta) n {place (heap_relation_id meta) k i}"
proof -
  let ?h = "heap_relation_id meta" and ?i = "index_relation_id meta" and ?p = "heap_page (heap_relation_id meta) k"
  let ?V1 = "V(?p := pg1)"
  have n: "n \<le> 2 ^ 32" and ne: "?h \<noteq> ?i" and wf: "\<forall>k < n. page_wf (V (heap_page ?h k))"
    and ix: "index_of_heap (tm_schema meta) V ?h n m" using inv by (simp_all add: table_pages_def)
  have b: "i < get_total_slots_from_bytes (V ?p)" by (rule row_at_bound [OF row])
  note rem = live_places_remove [where V = V and fid = ?h, OF k n pg1(2) b]
  have V2h: "V2 (heap_page ?h j) = ?V1 (heap_page ?h j)" for j using V2(1) ne by (simp add: heap_page_def)
  have sr: "same_rows ?V1 V3 ?h" using V2h pg3(2,3) by (simp add: same_rows_def V3_def)
  have "rows_removed V ?V1 ?h n {place ?h k i}"
    unfolding rows_removed_def using rem by auto
  from rows_removed_trans [OF this same_rows_removed [OF sr]] show "rows_removed V V3 ?h n {place ?h k i}" by simp
  have "index_of_heap (tm_schema meta) ?V1 ?h n (m(pk := None))"
    by (rule index_of_heap_remove [OF ix rem _]) (use pk in simp_all)
  from same_rows_index [OF sr this] have "index_of_heap (tm_schema meta) V3 ?h n (m(pk := None))" .
  moreover have "page_wf (V3 (heap_page ?h j))" if "j < n" for j
    using that wf pg1(1) pg3(1) V2h by (auto simp: V3_def)
  moreover have "index_rep ps ?i tot2 V3 (index_root meta) (m(pk := None))"
    by (rule index_rep_cong [OF V2(2)]) (use ne in \<open>auto simp: V3_def heap_page_def\<close>)
  ultimately show "table_pages ps tot2 V3 meta n (m(pk := None))" using n ne by (simp add: table_pages_def)
qed

lemma sint_neg_of_nat:
  assumes "k < 2 ^ 31"
  shows "sint (- (of_nat k :: u32)) = - int k"
proof -
  have "- (of_nat k :: u32) = word_of_int (- int k)" by simp
  moreover have "signed_take_bit 31 (- int k) = - int k" using assms by (intro signed_take_bit_int_eq_self) simp_all
  ultimately show ?thesis by (simp only: signed_of_int) simp
qed

subsection \<open>Removing a key while a page is held\<close>

context row_store
begin

abbreviation guarded :: "page_id \<Rightarrow> nat \<Rightarrow> nat \<Rightarrow> (page_id \<Rightarrow> nat) \<Rightarrow> nat \<Rightarrow> (u32 \<Rightarrow> u32) \<Rightarrow> (page_id \<Rightarrow> page) \<Rightarrow> 's \<Rightarrow> bool" where
  "guarded p f n base cap tot V \<equiv> page_pool.session (\<lambda>s. pgood n s \<and> ppins s p \<noteq> 0 \<and> ploaded s p = Some f) pview ploaded
     (\<lambda>s. (ppins s)(p := ppins s p - 1)) (\<lambda>s. pcapacity s - 1) (\<lambda>s q. psynced s q \<or> q = p) ptotal base (cap - 1) tot V [] {}"

lemma guard_session: "hs.session n base cap tot V [(p, f)] W w \<Longrightarrow> W \<subseteq> {p} \<Longrightarrow> guarded p f n base cap tot V w"
  unfolding page_pool.session_def [OF guard] by (auto simp: hs.session_def fun_eq_iff)

lemma unguard_session:
  assumes "guarded p f n base cap tot V w" and "2 \<le> cap"
  shows "hs.session n base cap tot V [(p, f)] {p} w"
proof -
  have u: "pcapacity w - 1 = cap - 1" "base = (ppins w)(p := ppins w p - 1)" "ppins w p \<noteq> 0"
    using assms(1) unfolding page_pool.session_def [OF guard] by auto
  have "pcapacity w = cap" using u(1) assms(2) by simp
  moreover have "ppins w = (\<lambda>q. base q + count_list (map fst [(p, f)]) q)" unfolding u(2) using u(3) by (auto simp: fun_eq_iff)
  moreover note u
  ultimately show ?thesis using assms(1) unfolding page_pool.session_def [OF guard] by (auto simp: hs.session_def)
qed

lemma guarded_delete:
  assumes g: "geometry (pg_size (st_pager S))" and s: "hs.session n base cap tot V [(p, f)] W w" and W: "W \<subseteq> {p}"
    and room: "spare base cap 4" and rep: "index_rep (pg_size (st_pager S)) fid tot V r m"
    and key: "m key = Some c"
  shows "\<exists>w' V' tot'. on_index r fid (index_delete (st_pager S) key) w = Some (Ok ((), r), w') \<and>
    hs.session n base cap tot' V' [(p, f)] {p} w' \<and> index_rep (pg_size (st_pager S)) fid tot' V' r (m(key := None)) \<and>
    (\<forall>q. file_id q \<noteq> fid \<longrightarrow> V' q = V q) \<and> (\<forall>g. g \<noteq> fid \<longrightarrow> tot' g = tot g)"
proof -
  have cap: "2 \<le> cap" "spare base (cap - 1) 3"
  proof -
    have f: "finite {q. base q \<noteq> 0}" "card {q. base q \<noteq> 0} + 4 \<le> cap" and b: "base q + 4 + 1 < 2 ^ 32" for q
      using room by (auto simp: spare_def)
    have "base q + 3 + 1 < 2 ^ 32" for q using b [of q] by linarith
    then show "2 \<le> cap" "spare base (cap - 1) 3" using f by (auto simp: spare_def)
  qed
  have k: "i32_range key" by (rule index_rep_key [OF rep key])
  note gs = guard_session [OF s W]
  have b: "page_pool.bsession (\<lambda>s. pgood n s \<and> ppins s p \<noteq> 0 \<and> ploaded s p = Some f) pview ploaded
     (\<lambda>s. (ppins s)(p := ppins s p - 1)) (\<lambda>s. pcapacity s - 1) (\<lambda>s q. psynced s q \<or> q = p) ptotal base (cap - 1) tot V [] {} r fid
     (new_btree w r fid)"
  proof -
    have nb: "bt_pool (new_btree w r fid) = w" "bt_root (new_btree w r fid) = r" "bt_file (new_btree w r fid) = fid"
      by (simp_all add: new_btree_def)
    show ?thesis unfolding page_pool.bsession_def [OF guard] nb using gs by (intro conjI refl)
  qed
  from page_pool.index_delete_spec [OF guard g cap(2) b rep k] key obtain b' where
    d: "index_delete (st_pager S) key (new_btree w r fid) = Some (Ok (), b')" "bt_root b' = r"
    and dn: "page_pool.index_done (st_pager S) (\<lambda>s. pgood n s \<and> ppins s p \<noteq> 0 \<and> ploaded s p = Some f) pview ploaded
     (\<lambda>s. (ppins s)(p := ppins s p - 1)) (\<lambda>s. pcapacity s - 1) (\<lambda>s q. psynced s q \<or> q = p) ptotal fid base (cap - 1) V tot
     (m(key := None)) b'" by auto
  from dn obtain V' tot' r' where e: "page_pool.bsession (\<lambda>s. pgood n s \<and> ppins s p \<noteq> 0 \<and> ploaded s p = Some f) pview ploaded
     (\<lambda>s. (ppins s)(p := ppins s p - 1)) (\<lambda>s. pcapacity s - 1) (\<lambda>s q. psynced s q \<or> q = p) ptotal base (cap - 1) tot' V' [] {} r' fid b'"
     "index_rep (pg_size (st_pager S)) fid tot' V' r' (m(key := None))"
     "\<forall>q. file_id q \<noteq> fid \<longrightarrow> V' q = V q" "\<forall>g. g \<noteq> fid \<longrightarrow> tot' g = tot g"
    unfolding page_pool.index_done_def [OF guard] by (elim exE conjE) (rule that)
  have r': "r' = r" and gs': "guarded p f n base cap tot' V' (bt_pool b')"
    using e(1) d(2) unfolding page_pool.bsession_def [OF guard] by auto
  have "hs.session n base cap tot' V' [(p, f)] {p} (bt_pool b')" by (rule unguard_session [OF gs' cap(1)])
  with on_index_app [where m = "index_delete (st_pager S) key", OF d(1)] d(2) e(2-4) r' show ?thesis
    by (intro exI [of _ "bt_pool b'"] exI [of _ V'] exI [of _ tot']) simp
qed

text \<open>A log record for a change of the held page, and its LSN on the page.\<close>

lemma log_delete_law:
  assumes s: "hs.session (Suc n) base cap tot V [(p, f)] {p} w" and wf: "page_wf (V p)"
    and len: "length table + length t < 2 ^ 31"
  shows "\<exists>w' pg. log_delete_to_wal S f table t is_rec w = Some (Ok (), w') \<and> hs.session n base cap tot (V(p := pg)) [(p, f)] {p} w' \<and>
    page_wf pg \<and> row_at pg = row_at (V p) \<and> get_total_slots_from_bytes pg = get_total_slots_from_bytes (V p)"
proof (cases is_rec)
  case True
  have "V(p := V p) = V" by simp
  then show ?thesis using session_less [OF s] wf True
    by (intro exI [of _ w] exI [of _ "V p"]) (simp add: log_delete_to_wal_def act_simps)
next
  case False
  have "length (log_payload 1 table t) < 2 ^ 32" using len by (simp add: log_payload_def as_bytes_def)
  from session_append [OF s this] obtain r w1 where 1: "append_log S (log_payload 1 table t) w = Some (Ok r, w1)"
    "hs.session n base cap tot V [(p, f)] {p} w1" by blast
  show ?thesis
  proof (cases r)
    case None
    have "V(p := V p) = V" by simp
    then show ?thesis using 1 wf False None
      by (intro exI [of _ w1] exI [of _ "V p"]) (simp add: log_delete_to_wal_def act_simps)
  next
    case (Some lsn)
    let ?pg = "set_lsn lsn (V p)"
    note row = set_lsn_row [OF wf, of lsn]
    have l: "length ?pg = pg_size (st_pager S)" using row hs.session_size [OF s, of p] by simp
    obtain w2 where 2: "with_page S f (\<lambda>pg. (Ok (), set_lsn lsn pg)) w1 = Some (Ok (), w2)"
      "hs.session n base cap tot (V(p := ?pg)) [(p, f)] (insert p {p}) w2"
      by (rule hs.with_page_law [where change = "\<lambda>pg. (Ok (), set_lsn lsn pg)", OF 1(2) _ refl l]) auto
    have "log_delete_to_wal S f table t is_rec w = Some (Ok (), w2)"
      using 1(1) 2(1) False Some by (simp add: log_delete_to_wal_def act_simps)
    with 2(2) row show ?thesis by (intro exI [of _ w2] exI [of _ ?pg]) (simp add: fun_eq_iff)
  qed
qed

lemma delete_slot_law:
  fixes meta defines "h \<equiv> heap_relation_id meta"
  assumes g: "geometry (pg_size (st_pager S))"
    and s: "hs.session (Suc n) base cap tot V [(heap_page h k, f)] W w" "W \<subseteq> {heap_page h k}" and room: "spare base cap 4"
    and inv: "table_pages (pg_size (st_pager S)) tot V meta N m" and k: "k < N"
    and row: "row_at (V (heap_page h k)) i = Some t" and name: "length table < 2 ^ 30"
  shows "\<exists>w' tot' V' m'. delete_slots_from_page S f (i # is) table meta (tm_schema meta) is_rec dl w =
      delete_slots_from_page S f is table meta (tm_schema meta) is_rec (dl + 1) w' \<and>
    hs.session n base cap tot' V' [(heap_page h k, f)] {heap_page h k} w' \<and>
    table_pages (pg_size (st_pager S)) tot' V' meta N m' \<and> rows_removed V V' h N {place h k i} \<and>
    (\<forall>j. j \<noteq> i \<longrightarrow> row_at (V' (heap_page h k)) j = row_at (V (heap_page h k)) j) \<and>
    (\<forall>q. file_id q \<notin> meta_ids meta \<longrightarrow> V' q = V q) \<and> (\<forall>g. g \<noteq> index_relation_id meta \<longrightarrow> tot' g = tot g)"
proof -
  let ?p = "heap_page h k" and ?ps = "pg_size (st_pager S)" and ?i = "index_relation_id meta" and ?s = "tm_schema meta"
  have n: "N \<le> 2 ^ 32" and ne: "h \<noteq> ?i" and wf: "page_wf (V ?p)" and ix: "index_of_heap ?s V h N m"
    and rep: "index_rep ?ps ?i tot V (index_root meta) m" using inv k by (simp_all add: table_pages_def h_def)
  have b: "i < get_total_slots_from_bytes (V ?p)" by (rule row_at_bound [OF row])
  have len: "length (V ?p) = ?ps" by (rule hs.session_size [OF s(1)])
  from delete_row [OF wf b, where x = 999 and t = t] row obtain pg1 where
    1: "(mark_deleted i 999 (V ?p) :: (cli_error, _) res \<times> _) = (Ok True, pg1)" "page_wf pg1" "length pg1 = length (V ?p)"
      "row_removed (V ?p) pg1 i" "snd (record_at i pg1) = t" by auto
  let ?V1 = "V(?p := pg1)"
  have b1: "i < get_total_slots_from_bytes pg1" using b 1(4) by (simp add: row_removed_def)
  have W: "insert ?p W = {?p}" using s(2) by blast
  have l1: "length pg1 = ?ps" using 1(3) len by simp
  obtain w1 where w1: "with_page S f (mark_deleted i 999) w = Some (Ok True, w1)"
    "hs.session (Suc n) base cap tot ?V1 [(?p, f)] {?p} w1"
    by (rule hs.with_page_law [where change = "mark_deleted i 999", OF s(1) _ 1(1) l1]) (auto simp: W)
  have ex: "(\<lambda>pg. (extract_tuple_for_slot pg i, pg)) (?V1 ?p) = (Ok t, pg1)" using extract_row [OF 1(2) b1] 1(5) by simp
  have mem: "(?p, f) \<in> set [(?p, f)]" and V1p: "pg1 = ?V1 ?p" by simp_all
  obtain w2 where e: "with_page S f (\<lambda>pg. (extract_tuple_for_slot pg i, pg)) w1 = Some (Ok t, w2)"
    "hs.session (Suc n) base cap tot (?V1(?p := pg1)) [(?p, f)] (insert ?p {?p}) w2"
    "pg1 = ?V1 ?p \<longrightarrow> hs.session (Suc n) base cap tot ?V1 [(?p, f)] {?p} w2"
    by (rule hs.with_page_law [where change = "\<lambda>pg. (extract_tuple_for_slot pg i, pg)", OF w1(2) mem ex l1])
  note w2 = e(1) e(3) [THEN mp, OF V1p]
  have rc: "record_of V (place h k i) = Some t" using record_of_place [where V = V and fid = h and k = k, OF b] row by simp
  then have c: "place h k i \<in> set (live_places V h N)" using k by (auto simp: live_places_set place_def)
  from ix c rc obtain pk where pk: "row_key_is ?s t pk" "m pk = Some (place h k i)" unfolding index_of_heap_def by fastforce
  obtain vs where vs: "to_values t ?s = Ok (Integer pk # vs)" using pk(1) by (auto simp: row_key_is_def)
  have fp: "file_id ?p \<noteq> ?i" using ne by (simp add: heap_page_def)
  have rep1: "index_rep ?ps ?i tot ?V1 (index_root meta) m"
    by (rule index_rep_cong [OF rep]) (use fp in auto)
  from guarded_delete [OF g w2(2) _ room rep1 pk(2)] obtain w3 V2 tot2 where
    w3: "on_index (index_root meta) ?i (index_delete (st_pager S) pk) w2 = Some (Ok ((), index_root meta), w3)"
      "hs.session (Suc n) base cap tot2 V2 [(?p, f)] {?p} w3" "index_rep ?ps ?i tot2 V2 (index_root meta) (m(pk := None))"
      "\<forall>q. file_id q \<noteq> ?i \<longrightarrow> V2 q = ?V1 q" "\<forall>g. g \<noteq> ?i \<longrightarrow> tot2 g = tot g" by auto
  have rm: "remove_from_index S meta ?s t w2 = Some (Ok (), w3)"
    using w3(1) vs by (simp add: remove_from_index_def ignoring_def act_simps)
  have V2p: "V2 ?p = pg1" using w3(4) fp by simp
  have "length t < 65536"
  proof -
    have "length (snd (record_at i pg1)) \<le> length pg1" by (simp add: record_at_def peek_def)
    then show ?thesis using 1(2,5) by (simp add: page_wf_def)
  qed
  then have lt: "length table + length t < 2 ^ 31" using name by simp
  have "page_wf (V2 ?p)" by (simp add: V2p 1(2))
  from log_delete_law [OF w3(2) this lt, of is_rec] obtain w4 pg3 where
    w4: "log_delete_to_wal S f table t is_rec w3 = Some (Ok (), w4)" "hs.session n base cap tot2 (V2(?p := pg3)) [(?p, f)] {?p} w4"
      "page_wf pg3" "row_at pg3 = row_at pg1" "get_total_slots_from_bytes pg3 = get_total_slots_from_bytes pg1"
    unfolding V2p by blast
  have run: "delete_slots_from_page S f (i # is) table meta ?s is_rec dl w =
      delete_slots_from_page S f is table meta ?s is_rec (dl + 1) w4"
    using w1(1) w2(1) rm w4(1) by (simp add: act_simps)
  note tp = table_pages_remove [OF inv k row [unfolded h_def] 1(2) 1(4) [unfolded h_def] pk(2) [unfolded h_def]
      w3(4) [unfolded h_def] w3(3) w4(3-5), folded h_def]
  have "\<forall>j. j \<noteq> i \<longrightarrow> row_at ((V2(?p := pg3)) ?p) j = row_at (V ?p) j" using w4(4) 1(4) by (simp add: row_removed_def)
  moreover have "\<forall>q. file_id q \<notin> meta_ids meta \<longrightarrow> (V2(?p := pg3)) q = V q"
    using w3(4) by (auto simp: meta_ids_def h_def heap_page_def)
  ultimately show ?thesis using run w4(2) tp w3(5)
    by (intro exI [of _ w4] exI [of _ tot2] exI [of _ "V2(?p := pg3)"] exI [of _ "m(pk := None)"]) blast
qed

lemma delete_slots_law:
  fixes meta defines "h \<equiv> heap_relation_id meta"
  assumes g: "geometry (pg_size (st_pager S))" and room: "spare base cap 4" and k: "k < N" and name: "length table < 2 ^ 30"
    and s: "hs.session (n + length is) base cap tot V [(heap_page h k, f)] W w" "W \<subseteq> {heap_page h k}"
    and inv: "table_pages (pg_size (st_pager S)) tot V meta N m"
    and live: "distinct is" "\<forall>i \<in> set is. row_at (V (heap_page h k)) i \<noteq> None"
  shows "\<exists>w' tot' V' m' W'. delete_slots_from_page S f is table meta (tm_schema meta) is_rec dl w = Some (Ok (dl + of_nat (length is)), w') \<and>
    hs.session n base cap tot' V' [(heap_page h k, f)] W' w' \<and> W' \<subseteq> {heap_page h k} \<and>
    table_pages (pg_size (st_pager S)) tot' V' meta N m' \<and> rows_removed V V' h N (place h k ` set is) \<and>
    (\<forall>q. file_id q \<notin> meta_ids meta \<longrightarrow> V' q = V q) \<and> (\<forall>g. g \<noteq> index_relation_id meta \<longrightarrow> tot' g = tot g)"
  using s inv live
proof (induction "is" arbitrary: tot V W w m dl)
  case Nil
  then show ?case using rows_removed_none by (intro exI [of _ w] exI [of _ tot] exI [of _ V] exI [of _ m] exI [of _ W]) (simp add: act_simps)
next
  case (Cons i "is")
  obtain t where t: "row_at (V (heap_page h k)) i = Some t" using Cons.prems(5) by auto
  have "hs.session (Suc (n + length is)) base cap tot V [(heap_page h k, f)] W w" using Cons.prems(1) by simp
  from delete_slot_law [OF g this [unfolded h_def] Cons.prems(2) [unfolded h_def] room Cons.prems(3) k t [unfolded h_def] name,
      of "is" is_rec dl, folded h_def] obtain w1 tot1 V1 m1 where
    1: "delete_slots_from_page S f (i # is) table meta (tm_schema meta) is_rec dl w =
        delete_slots_from_page S f is table meta (tm_schema meta) is_rec (dl + 1) w1"
      "hs.session (n + length is) base cap tot1 V1 [(heap_page h k, f)] {heap_page h k} w1"
      "table_pages (pg_size (st_pager S)) tot1 V1 meta N m1" "rows_removed V V1 h N {place h k i}"
      "\<forall>j. j \<noteq> i \<longrightarrow> row_at (V1 (heap_page h k)) j = row_at (V (heap_page h k)) j"
      "\<forall>q. file_id q \<notin> meta_ids meta \<longrightarrow> V1 q = V q" "\<forall>g. g \<noteq> index_relation_id meta \<longrightarrow> tot1 g = tot g"
    by (elim exE conjE) (rule that)
  have d: "distinct is" "\<forall>j \<in> set is. row_at (V1 (heap_page h k)) j \<noteq> None" using Cons.prems(4,5) 1(5) by auto
  from Cons.IH [OF 1(2) subset_refl 1(3) d, of "dl + 1"] obtain w' tot' V' m' W' where
    2: "delete_slots_from_page S f is table meta (tm_schema meta) is_rec (dl + 1) w1 = Some (Ok (dl + 1 + of_nat (length is)), w')"
      "hs.session n base cap tot' V' [(heap_page h k, f)] W' w'" "W' \<subseteq> {heap_page h k}"
      "table_pages (pg_size (st_pager S)) tot' V' meta N m'" "rows_removed V1 V' h N (place h k ` set is)"
      "\<forall>q. file_id q \<notin> meta_ids meta \<longrightarrow> V' q = V1 q" "\<forall>g. g \<noteq> index_relation_id meta \<longrightarrow> tot' g = tot1 g"
    by (elim exE conjE) (rule that)
  have "rows_removed V V' h N (place h k ` set (i # is))" using rows_removed_trans [OF 1(4) 2(5)] by simp
  then show ?case unfolding 1(1) using 2 1(6,7)
    by (intro exI [of _ w'] exI [of _ tot'] exI [of _ V'] exI [of _ m'] exI [of _ W']) (simp add: add.assoc)
qed

lemma process_page_law:
  fixes meta defines "h \<equiv> heap_relation_id meta"
  assumes g: "geometry (pg_size (st_pager S))" and room: "spare base cap 4" and k: "k < N" and name: "length table < 2 ^ 30"
    and known: "known_cols (tm_schema meta) conds"
    and s: "hs.session (n + length (live_places V h N)) base cap tot V [] {} w"
    and inv: "table_pages (pg_size (st_pager S)) tot V meta N m"
  shows "\<exists>w' tot' V' m'. process_page_for_delete S (of_nat k) table conds meta (tm_schema meta) is_rec w =
      Some (Ok (of_nat (length (live_places V h N) - length (live_places V' h N))), w') \<and>
    hs.session (n + length (live_places V' h N)) base cap tot' V' [] {} w' \<and>
    table_pages (pg_size (st_pager S)) tot' V' meta N m' \<and>
    rows_removed V V' h N (matching conds (tm_schema meta) V h N {k}) \<and>
    (\<forall>q. file_id q \<notin> meta_ids meta \<longrightarrow> V' q = V q) \<and> (\<forall>g. g \<noteq> index_relation_id meta \<longrightarrow> tot' g = tot g)"
proof -
  let ?p = "heap_page h k" and ?s = "tm_schema meta"
  let ?is = "hits conds ?s (V ?p)"
  have wf: "page_wf (V ?p)" and ix: "index_of_heap ?s V h N m" and N: "N \<le> 2 ^ 32" using inv k by (simp_all add: table_pages_def h_def)
  have room1: "spare base cap 1" by (rule spare_le [OF room]) simp
  obtain f w1 where 1: "pg_fetch (st_pager S) ?p w = (Ok f, w1)"
    "hs.session (n + length (live_places V h N)) base cap tot V [(?p, f)] {} w1"
    using hs.session_fetch [OF s room1, of ?p] by auto
  have dec: "\<exists>vs. to_values t ?s = Ok vs" if "row_at (V ?p) i = Some t" for i t
  proof -
    have r: "record_of V (place h k i) = Some t" using record_of_place [where V = V and fid = h and k = k, OF row_at_bound [OF that]] that by simp
    then have "place h k i \<in> set (live_places V h N)" using k by (auto simp: live_places_set place_def)
    with ix r show ?thesis unfolding index_of_heap_def row_key_is_def by fastforce
  qed
  have fs: "(\<lambda>pg. (find_slots_to_delete pg conds ?s, pg)) (V ?p) = (Ok ?is, V ?p)"
    using find_slots_law [OF wf known dec] by simp
  have mem: "(?p, f) \<in> set [(?p, f)]" by simp
  have len: "length (V ?p) = pg_size (st_pager S)" by (rule hs.session_size [OF s])
  obtain w2 where e: "with_page S f (\<lambda>pg. (find_slots_to_delete pg conds ?s, pg)) w1 = Some (Ok ?is, w2)"
    "hs.session (n + length (live_places V h N)) base cap tot (V(?p := V ?p)) [(?p, f)] (insert ?p {}) w2"
    "V ?p = V ?p \<longrightarrow> hs.session (n + length (live_places V h N)) base cap tot V [(?p, f)] {} w2"
    by (rule hs.with_page_law [where change = "\<lambda>pg. (find_slots_to_delete pg conds ?s, pg)", OF 1(2) mem fs len])
  have live: "\<forall>i \<in> set ?is. row_at (V ?p) i \<noteq> None" by (auto simp: hits_iff)
  have le: "length ?is \<le> length (live_places V h N)"
  proof -
    have "place h k ` set ?is \<subseteq> set (live_places V h N)" unfolding hits_matching [OF k] by (auto simp: matching_def)
    then have "card (place h k ` set ?is) \<le> length (live_places V h N)" by (meson card_length card_mono finite_set le_trans)
    moreover have "inj_on (place h k) (set ?is)"
    proof -
      have "i < 2 ^ 16" if "i \<in> set ?is" for i
        using that live row_at_bound [of "V ?p" i] total_slots_bound [of "V ?p"] by fastforce
      then show ?thesis using k N by (auto simp: inj_on_def place_inj)
    qed
    ultimately show ?thesis by (simp add: card_image distinct_card hits_distinct)
  qed
  let ?n = "n + (length (live_places V h N) - length ?is)"
  have "hs.session (?n + length ?is) base cap tot V [(?p, f)] {} w2" using e(3) le by simp
  from delete_slots_law [OF g room k name this [unfolded h_def] _ inv hits_distinct live [unfolded h_def], of is_rec 0, folded h_def]
  obtain w3 tot' V' m' W' where
    3: "delete_slots_from_page S f ?is table meta ?s is_rec 0 w2 = Some (Ok (0 + of_nat (length ?is)), w3)"
      "hs.session ?n base cap tot' V' [(?p, f)] W' w3" "W' \<subseteq> {?p}"
      "table_pages (pg_size (st_pager S)) tot' V' meta N m'" "rows_removed V V' h N (place h k ` set ?is)"
      "\<forall>q. file_id q \<notin> meta_ids meta \<longrightarrow> V' q = V q" "\<forall>g. g \<noteq> index_relation_id meta \<longrightarrow> tot' g = tot g"
    by auto
  obtain w4 where 4: "pg_unpin (st_pager S) ?p True w3 = (Ok (), w4)" "hs.session ?n base cap tot' V' [] (W' - {?p}) w4"
    using hs.session_unpin [OF 3(2) mem, of True] by auto
  have W': "W' - {?p} = {}" using 3(3) by blast
  note ln = rows_removed_length [OF 3(5) hits_distinct live k N]
  have n': "?n = n + length (live_places V' h N)" using ln by simp
  have pid: "\<lparr>file_id = heap_relation_id meta, page_num = of_nat k\<rparr> = ?p" by (simp add: heap_page_def h_def)
  have "process_page_for_delete S (of_nat k) table conds meta ?s is_rec w = Some (Ok (of_nat (length ?is)), w4)"
    using 1(1) e(1) 3(1) 4(1) by (simp add: process_page_for_delete_def pid act_simps ignoring_def Let_def)
  then show ?thesis using 4(2) 3(4,6,7) 3(5) [unfolded hits_matching [OF k]] ln unfolding W' n'
    by (intro exI [of _ w4] exI [of _ tot'] exI [of _ V'] exI [of _ m']) simp
qed

lemma delete_pages_law:
  fixes meta defines "h \<equiv> heap_relation_id meta"
  assumes g: "geometry (pg_size (st_pager S))" and room: "spare base cap 4" and name: "length table < 2 ^ 30"
    and known: "known_cols (tm_schema meta) conds" and ks: "\<forall>k \<in> set ks. k < N"
    and s: "hs.session (n + length (live_places V h N)) base cap tot V [] {} w"
    and inv: "table_pages (pg_size (st_pager S)) tot V meta N m"
  shows "\<exists>w' tot' V' m'. delete_pages S ks table conds meta (tm_schema meta) is_rec dl w =
      Some (Ok (dl + of_nat (length (live_places V h N) - length (live_places V' h N))), w') \<and>
    hs.session (n + length (live_places V' h N)) base cap tot' V' [] {} w' \<and>
    table_pages (pg_size (st_pager S)) tot' V' meta N m' \<and>
    rows_removed V V' h N (matching conds (tm_schema meta) V h N (set ks)) \<and>
    (\<forall>q. file_id q \<notin> meta_ids meta \<longrightarrow> V' q = V q) \<and> (\<forall>g. g \<noteq> index_relation_id meta \<longrightarrow> tot' g = tot g)"
  using ks s inv
proof (induction ks arbitrary: tot V w m dl)
  case Nil
  have "matching conds (tm_schema meta) V h N (set []) = {}" by (simp add: matching_def)
  with Nil rows_removed_none [of V h N] show ?case
    by (intro exI [of _ w] exI [of _ tot] exI [of _ V] exI [of _ m]) (simp add: act_simps)
next
  case (Cons k ks)
  have k: "k < N" and ks: "\<forall>k \<in> set ks. k < N" using Cons.prems(1) by auto
  from process_page_law [OF g room k name known Cons.prems(2) [unfolded h_def] Cons.prems(3), of is_rec, folded h_def]
  obtain w1 tot1 V1 m1 where
    1: "process_page_for_delete S (of_nat k) table conds meta (tm_schema meta) is_rec w =
        Some (Ok (of_nat (length (live_places V h N) - length (live_places V1 h N))), w1)"
      "hs.session (n + length (live_places V1 h N)) base cap tot1 V1 [] {} w1"
      "table_pages (pg_size (st_pager S)) tot1 V1 meta N m1"
      "rows_removed V V1 h N (matching conds (tm_schema meta) V h N {k})"
      "\<forall>q. file_id q \<notin> meta_ids meta \<longrightarrow> V1 q = V q" "\<forall>g. g \<noteq> index_relation_id meta \<longrightarrow> tot1 g = tot g"
    by (elim exE conjE) (rule that)
  let ?d = "of_nat (length (live_places V h N) - length (live_places V1 h N)) :: u32"
  from Cons.IH [OF ks 1(2,3), of "dl + ?d"] obtain w' tot' V' m' where
    2: "delete_pages S ks table conds meta (tm_schema meta) is_rec (dl + ?d) w1 =
        Some (Ok (dl + ?d + of_nat (length (live_places V1 h N) - length (live_places V' h N))), w')"
      "hs.session (n + length (live_places V' h N)) base cap tot' V' [] {} w'"
      "table_pages (pg_size (st_pager S)) tot' V' meta N m'"
      "rows_removed V1 V' h N (matching conds (tm_schema meta) V1 h N (set ks))"
      "\<forall>q. file_id q \<notin> meta_ids meta \<longrightarrow> V' q = V1 q" "\<forall>g. g \<noteq> index_relation_id meta \<longrightarrow> tot' g = tot1 g"
    by (elim exE conjE) (rule that)
  have "rows_removed V V' h N (matching conds (tm_schema meta) V h N (set (k # ks)))"
    using rows_removed_trans [OF 1(4) 2(4)] matching_step [OF 1(4), of "set ks"] by simp
  moreover have "(of_nat (length (live_places V h N) - length (live_places V' h N)) :: u32) =
      ?d + of_nat (length (live_places V1 h N) - length (live_places V' h N))"
    using rows_removed_le [OF 1(4)] rows_removed_le [OF 2(4)] by (simp flip: of_nat_add)
  moreover have "delete_pages S (k # ks) table conds meta (tm_schema meta) is_rec dl w =
      delete_pages S ks table conds meta (tm_schema meta) is_rec (dl + ?d) w1"
    using 1(1) by (simp add: act_simps)
  ultimately show ?case using 2 1(5,6)
    by (intro exI [of _ w'] exI [of _ tot'] exI [of _ V'] exI [of _ m']) (simp add: add.assoc)
qed

lemma session_le: "hs.session (n + k) base cap tot V held W w \<Longrightarrow> hs.session n base cap tot V held W w"
  by (induction k) (auto dest: session_less)

text \<open>The loop over all pages of the heap.\<close>

lemma delete_all_law:
  fixes meta defines "h \<equiv> heap_relation_id meta"
  assumes g: "geometry (pg_size (st_pager S))" and room: "spare base cap 4" and name: "length table < 2 ^ 30"
    and known: "known_cols (tm_schema meta) conds"
    and s: "hs.session (n + length ts) base cap tot V [] {} w" and inv: "table_inv (pg_size (st_pager S)) tot V meta ts m"
  shows "\<exists>w' tot' V' m'. delete_pages S [0..<unat (tot h)] table conds meta (tm_schema meta) is_rec 0 w =
      Some (Ok (of_nat (length (filter (\<lambda>t. where_predicate conds t (tm_schema meta)) ts))), w') \<and>
    hs.session n base cap tot' V' [] {} w' \<and>
    table_inv (pg_size (st_pager S)) tot' V' meta (filter (\<lambda>t. \<not> where_predicate conds t (tm_schema meta)) ts) m' \<and>
    (\<forall>q. file_id q \<notin> meta_ids meta \<longrightarrow> V' q = V q) \<and> (\<forall>g. g \<noteq> index_relation_id meta \<longrightarrow> tot' g = tot g)"
proof -
  let ?ps = "pg_size (st_pager S)" and ?s = "tm_schema meta" and ?N = "heap_span (tot h)"
  let ?P = "\<lambda>t. where_predicate conds t ?s"
  have wf: "heap_wf V h (tot h)" and ne: "h \<noteq> index_relation_id meta" and ix: "index_of_heap ?s V h ?N m"
    and rep: "index_rep ?ps (index_relation_id meta) tot V (index_root meta) m" and ts: "ts = table_rows tot V meta"
    using inv by (simp_all add: table_inv_def h_def)
  have ts': "ts = map (\<lambda>c. the (record_of V c)) (live_places V h ?N)" unfolding ts table_rows_span heap_rows_places h_def by simp
  show ?thesis
  proof (cases "tot h = 0")
    case True
    then have "live_places V h ?N = []" using wf by (simp add: live_places_span heap_wf_def) (simp add: live_places_def)
    then have "ts = []" by (simp add: ts')
    with True s inv session_le show ?thesis
      by (intro exI [of _ w] exI [of _ tot] exI [of _ V] exI [of _ m]) (simp add: act_simps)
  next
    case False
    have N: "unat (tot h) = ?N" by (simp add: heap_span_simps(2) [OF False])
    have tp: "table_pages ?ps tot V meta ?N m"
      using wf ne ix rep N by (simp add: table_pages_def heap_wf_def h_def)
    have s': "hs.session (n + length (live_places V h ?N)) base cap tot V [] {} w" using s by (simp add: ts')
    have ks: "\<forall>k \<in> set [0..<?N]. k < ?N" by simp
    from delete_pages_law [OF g room name known ks [unfolded h_def] s' [unfolded h_def] tp [unfolded h_def], of is_rec 0, folded h_def]
    obtain w' tot' V' m' where
      1: "delete_pages S [0..<?N] table conds meta ?s is_rec 0 w =
          Some (Ok (0 + of_nat (length (live_places V h ?N) - length (live_places V' h ?N))), w')"
        "hs.session (n + length (live_places V' h ?N)) base cap tot' V' [] {} w'" "table_pages ?ps tot' V' meta ?N m'"
        "rows_removed V V' h ?N (matching conds ?s V h ?N (set [0..<?N]))"
        "\<forall>q. file_id q \<notin> meta_ids meta \<longrightarrow> V' q = V q" "\<forall>g. g \<noteq> index_relation_id meta \<longrightarrow> tot' g = tot g"
      by (elim exE conjE) (rule that)
    have "matching conds ?s V h ?N (set [0..<?N]) = {c \<in> set (live_places V h ?N). ?P (the (record_of V c))}"
      by (auto simp: matching_def live_places_set)
    then have L: "live_places V' h ?N = filter (\<lambda>c. \<not> ?P (the (record_of V c))) (live_places V h ?N)"
      and rec: "\<forall>x \<in> set (live_places V' h ?N). record_of V' x = record_of V x"
      using 1(4) by (auto simp: rows_removed_def intro!: filter_cong)
    have gone: "length (live_places V h ?N) - length (live_places V' h ?N) = length (filter ?P ts)"
      using sum_length_filter_compl [of "\<lambda>c. ?P (the (record_of V c))" "live_places V h ?N"]
      by (simp add: L ts' filter_map comp_def)
    have th: "tot' h = tot h" using 1(6) ne by simp
    have "table_rows tot' V' meta = filter (\<lambda>t. \<not> ?P t) ts"
    proof -
      have "table_rows tot' V' meta = map (\<lambda>c. the (record_of V' c)) (live_places V' h ?N)"
        unfolding table_rows_span heap_rows_places by (simp add: th flip: h_def)
      also have "\<dots> = map (\<lambda>c. the (record_of V c)) (live_places V' h ?N)" using rec by simp
      finally show ?thesis by (simp add: L ts' filter_map comp_def)
    qed
    moreover have "heap_wf V' h (tot' h)" using wf 1(3) N False unfolding th by (simp add: heap_wf_def table_pages_def flip: h_def)
    ultimately have "table_inv ?ps tot' V' meta (filter (\<lambda>t. \<not> ?P t) ts) m'"
      using 1(3) by (simp add: table_inv_def table_pages_def th flip: h_def)
    with 1(1,5,6) session_le [OF 1(2)] N gone show ?thesis
      by (intro exI [of _ w'] exI [of _ tot'] exI [of _ V'] exI [of _ m']) simp
  qed
qed

lemma execute_delete_law:
  assumes g: "geometry (pg_size (st_pager S))" and s: "hs.session (n + length ts) base cap tot V [] {} (db_pool d)"
    and room: "spare base cap 4" and name: "length table < 2 ^ 30"
    and meta: "tables (ca_data (db_catalog d)) table = Some meta" and cat: "on_disk J (db_catalog d)"
    and inv: "table_inv (pg_size (st_pager S)) tot V meta ts m" and known: "known_cols (tm_schema meta) conds"
    and few: "length ts < 2 ^ 31"
  defines "gone \<equiv> length (filter (\<lambda>t. where_predicate conds t (tm_schema meta)) ts)"
  shows "\<exists>d' tot' V' m' meta'. execute_delete S J table conds is_rec d = Some (Ok (Deleted (of_nat gone)), d') \<and>
    hs.session n base cap tot' V' [] {} (db_pool d') \<and> on_disk J (db_catalog d') \<and>
    ca_data (db_catalog d') = (ca_data (db_catalog d))\<lparr>tables := (tables (ca_data (db_catalog d)))(table \<mapsto> meta')\<rparr> \<and>
    meta' = meta\<lparr>num_records := num_records meta - gone\<rparr> \<and>
    table_inv (pg_size (st_pager S)) tot' V' meta' (filter (\<lambda>t. \<not> where_predicate conds t (tm_schema meta)) ts) m' \<and>
    (\<forall>q. file_id q \<notin> meta_ids meta \<longrightarrow> V' q = V q) \<and> (\<forall>f. f \<notin> meta_ids meta \<longrightarrow> tot' f = tot f)"
proof -
  let ?h = "heap_relation_id meta" and ?ps = "pg_size (st_pager S)"
  obtain w1 where 1: "st_total S ?h (db_pool d) = (Ok (tot ?h), w1)" "hs.session (n + length ts) base cap tot V [] {} w1"
    using hs.session_total [OF s] by blast
  from delete_all_law [OF g room name known 1(2) inv, of is_rec, folded gone_def] obtain w2 tot' V' m' where
    2: "delete_pages S [0..<unat (tot ?h)] table conds meta (tm_schema meta) is_rec 0 w1 = Some (Ok (of_nat gone), w2)"
      "hs.session n base cap tot' V' [] {} w2"
      "table_inv ?ps tot' V' meta (filter (\<lambda>t. \<not> where_predicate conds t (tm_schema meta)) ts) m'"
      "\<forall>q. file_id q \<notin> meta_ids meta \<longrightarrow> V' q = V q" "\<forall>g. g \<noteq> index_relation_id meta \<longrightarrow> tot' g = tot g"
    by (elim exE conjE) (rule that)
  let ?meta = "meta\<lparr>num_records := num_records meta - gone\<rparr>"
  have ti: "table_inv ?ps tot' V' ?meta (filter (\<lambda>t. \<not> where_predicate conds t (tm_schema meta)) ts) m'"
    using 2(3) by (simp add: table_inv_def index_root_def table_rows_def)
  have fr: "\<forall>f. f \<notin> meta_ids meta \<longrightarrow> tot' f = tot f" using 2(5) by (simp add: meta_ids_def)
  have few': "gone < 2 ^ 31" using few by (simp add: gone_def le_less_trans [OF length_filter_le])
  have run: "execute_delete S J table conds is_rec d =
      bnd (if 0 < (of_nat gone :: u32) then on_catalog (update_num_records J table (sint (- (of_nat gone :: u32)))) else ret ())
        (\<lambda>_. ret (Deleted (of_nat gone))) (d\<lparr>db_pool := w2\<rparr>)"
    using meta 1(1) 2(1) by (simp add: execute_delete_def get_table_def get_schema_def act_simps)
  show ?thesis
  proof (cases "gone = 0")
    case True
    have same: "(ca_data (db_catalog d))\<lparr>tables := (tables (ca_data (db_catalog d)))(table \<mapsto> ?meta)\<rparr> = ca_data (db_catalog d)"
      using True meta by (simp add: fun_upd_idem)
    have "execute_delete S J table conds is_rec d = Some (Ok (Deleted (of_nat gone)), d\<lparr>db_pool := w2\<rparr>)"
      unfolding run using True by (simp add: act_simps)
    then show ?thesis using 2(2,4) fr ti cat same
      by (intro exI [of _ "d\<lparr>db_pool := w2\<rparr>"] exI [of _ tot'] exI [of _ V'] exI [of _ m'] exI [of _ ?meta]) simp
  next
    case False
    have u: "unat (of_nat gone :: u32) = gone" using few' by (intro u32_of_nat) simp
    then have pos: "0 < (of_nat gone :: u32)" using False by (simp add: word_less_nat_alt)
    have neg: "sint (- (of_nat gone :: u32)) = - int gone" using few' by (rule sint_neg_of_nat)
    have cn: "no_faults (db_catalog d)" using cat by (simp add: on_disk_def)
    from set_meta_ok(2) [OF cn meta, of J "- int gone"] obtain c2 where
      c2: "update_num_records J table (- int gone) (db_catalog d) = (Ok (), c2)" "on_disk J c2"
        "ca_data c2 = (ca_data (db_catalog d))\<lparr>tables := (tables (ca_data (db_catalog d)))(table \<mapsto>
          meta\<lparr>num_records := saturating_add_i32 (num_records meta) (- int gone)\<rparr>)\<rparr>" by blast
    have sat: "saturating_add_i32 (num_records meta) (- int gone) = num_records meta - gone"
      using False by (simp add: saturating_add_i32_def)
    have "execute_delete S J table conds is_rec d = Some (Ok (Deleted (of_nat gone)), d\<lparr>db_pool := w2, db_catalog := c2\<rparr>)"
      unfolding run neg using pos c2(1) by (simp add: act_simps)
    then show ?thesis using 2(2,4) fr ti c2(2) c2(3) [unfolded sat]
      by (intro exI [of _ "d\<lparr>db_pool := w2, db_catalog := c2\<rparr>"] exI [of _ tot'] exI [of _ V'] exI [of _ m'] exI [of _ ?meta]) simp
  qed
qed

end

end
