(* ===== verification/Table_Pool.thy ===== *)
theory Table_Pool
  imports Index_Pool Query_Spec Delete_Laws
begin

text \<open>
  The buffer pool with its log as the store of the commands: \<open>get_total_pages\<close> of the pool,
  appending to and flushing its log manager. \<open>logged_pool\<close> is a pool whose log says how many records
  it still has room for, which holds of the write-ahead log until its LSNs are used up.
\<close>

definition pool_total :: "'d disk_ops \<Rightarrow> u32 \<Rightarrow> ('d, 'l) bpm \<Rightarrow> (buffer_error, u32) res \<times> ('d, 'l) bpm" where
  "pool_total D fid s = (let (r, d) = disk_total_pages D fid (disk s) in (map_err (\<lambda>_. PageNotFound) r, s\<lparr>disk := d\<rparr>))"

definition pool_append :: "'l log_ops \<Rightarrow> bytes \<Rightarrow> ('d, 'l) bpm \<Rightarrow> u64 option \<times> ('d, 'l) bpm" where
  "pool_append L bs s = (case log_mgr s of
       None \<Rightarrow> (None, s)
     | Some l \<Rightarrow> (let (r, l') = lm_append_record L bs l in
         ((case r of Ok lsn \<Rightarrow> Some lsn | _ \<Rightarrow> None), s\<lparr>log_mgr := Some l'\<rparr>)))"

definition pool_flush_log :: "'l log_ops \<Rightarrow> ('d, 'l) bpm \<Rightarrow> ('d, 'l) bpm" where
  "pool_flush_log L s = snd (flush_log L (- 1) s)"

definition pool_store :: "'d disk_ops \<Rightarrow> 'l log_ops \<Rightarrow> nat \<Rightarrow> ('d, 'l) bpm table_store" where
  "pool_store D L ps = \<lparr>st_pager = pool_pager D L ps, st_total = pool_total D, st_append = pool_append L,
     st_flush = pool_flush_log L\<rparr>"

subsection \<open>What the operations of the pool do to its log\<close>

lemma unpin_log_kept: "unpin_page p dirty s = (r, s') \<Longrightarrow> log_mgr s' = log_mgr s"
  by (auto simp: unpin_page_def Let_def split: option.splits if_splits)

lemma write_log_kept: "write_frame f pg s = (r, s') \<Longrightarrow> log_mgr s' = log_mgr s"
  by (auto simp: write_frame_def split: if_splits)

lemma set_log_same: "bview dview (s\<lparr>log_mgr := x\<rparr>) = bview dview s" "pin_counts (s\<lparr>log_mgr := x\<rparr>) = pin_counts s"
  "synced dview (s\<lparr>log_mgr := x\<rparr>) = synced dview s"
  by (simp_all add: fun_eq_iff bview_def pin_counts_def pins_def synced_def cong: option.case_cong)

text \<open>A page pool with a further property that its operations keep is a page pool.\<close>

lemma page_pool_with:
  assumes pp: "page_pool P good view loaded pin cap syn tot"
    and f: "\<And>s p f s'. good s \<Longrightarrow> Q s \<Longrightarrow> pg_fetch P p s = (Ok f, s') \<Longrightarrow> good s' \<Longrightarrow> Q s'"
    and n: "\<And>s fid f p s'. good s \<Longrightarrow> Q s \<Longrightarrow> pg_new P fid s = (Ok (f, p), s') \<Longrightarrow> good s' \<Longrightarrow> Q s'"
    and u: "\<And>s p d s'. good s \<Longrightarrow> Q s \<Longrightarrow> pg_unpin P p d s = (Ok (), s') \<Longrightarrow> good s' \<Longrightarrow> Q s'"
    and w: "\<And>s f pg s'. good s \<Longrightarrow> Q s \<Longrightarrow> pg_write P f pg s = (Ok (), s') \<Longrightarrow> good s' \<Longrightarrow> Q s'"
  shows "page_pool P (\<lambda>s. good s \<and> Q s) view loaded pin cap syn tot"
proof (rule page_pool.intro, goal_cases)
  case (1 s p)
  then show ?case using page_pool.view_size [OF pp] by blast
next
  case (2 s p)
  then show ?case using page_pool.fetch_law [OF pp, of s p] f [of s p] by blast
next
  case (3 s p fid)
  then show ?case using page_pool.new_law [OF pp, of s p fid] n [of s fid] by blast
next
  case (4 s p dirty)
  then show ?case using page_pool.unpin_law [OF pp, of s p dirty] u [of s p dirty] by blast
next
  case (5 s p f)
  then show ?case using page_pool.read_law [OF pp] by blast
next
  case (6 s p f pg)
  then show ?case using page_pool.write_law [OF pp, of s p f pg] w [of s f pg] by blast
qed

subsection \<open>The pool and a log with room\<close>

locale logged_pool = buffer_pool D page_size dinv dview dtotal healthy L linv durable pending lroom lhealthy
  for D :: "'d disk_ops" and page_size dinv dview dtotal healthy and L :: "'l log_ops" and linv durable pending lroom lhealthy +
  fixes lspace :: "nat \<Rightarrow> 'l \<Rightarrow> bool"
  assumes space_flush: "linv l \<Longrightarrow> lhealthy l \<Longrightarrow> lspace n l \<Longrightarrow> lspace n (snd (lm_flush_up_to L lsn l))"
    and space_append: "linv l \<Longrightarrow> lspace (Suc n) l \<Longrightarrow> lroom l \<and> lspace n (snd (lm_append_record L bs l))"
    and space_less: "lspace (Suc n) l \<Longrightarrow> lspace n l"
begin

definition log_left :: "nat \<Rightarrow> ('d, 'l) bpm \<Rightarrow> bool" where
  "log_left n s \<longleftrightarrow> (\<forall>l. log_mgr s = Some l \<longrightarrow> lspace n l)"

abbreviation logged :: "nat \<Rightarrow> ('d, 'l) bpm \<Rightarrow> bool" where
  "logged n s \<equiv> good_pool s \<and> log_left n s"

lemma good_pool_log: "good_pool s \<Longrightarrow> log_mgr s = Some l \<Longrightarrow> linv l \<and> lhealthy l"
  using bp_invD(4) [of page_size dinv dview linv s] by (auto simp: good_pool_def bp_healthy_def)

lemma log_left_step: "good_pool s \<Longrightarrow> log_left n s \<Longrightarrow> log_step L (log_mgr s) (log_mgr s') \<Longrightarrow> log_left n s'"
  using good_pool_log space_flush by (auto simp: log_left_def log_step_def)

lemma log_kept_ops:
  assumes "good_pool s" and "log_left n s"
  shows "pg_fetch (pool_pager D L page_size) p s = (Ok f, s') \<Longrightarrow> log_left n s'"
    and "pg_new (pool_pager D L page_size) fid s = (Ok (f, p), s') \<Longrightarrow> log_left n s'"
    and "pg_unpin (pool_pager D L page_size) p dirty s = (Ok (), s') \<Longrightarrow> log_left n s'"
    and "pg_write (pool_pager D L page_size) f pg s = (Ok (), s') \<Longrightarrow> log_left n s'"
proof -
  assume "pg_fetch (pool_pager D L page_size) p s = (Ok f, s')"
  then have "fetch_page D L p s = (Ok f, s')" by (simp add: pool_pager_def)
  from log_left_step [OF assms fetch_log_step [OF this]] show "log_left n s'" .
next
  assume "pg_new (pool_pager D L page_size) fid s = (Ok (f, p), s')"
  then have "new_page D L fid s = (Ok (f, p), s')" by (simp add: pool_pager_def)
  from log_left_step [OF assms new_page_log_step [OF this]] show "log_left n s'" .
next
  assume "pg_unpin (pool_pager D L page_size) p dirty s = (Ok (), s')"
  then have "unpin_page p dirty s = (Ok (), s')" by (simp add: pool_pager_def)
  from unpin_log_kept [OF this] assms(2) show "log_left n s'" by (simp add: log_left_def)
next
  assume "pg_write (pool_pager D L page_size) f pg s = (Ok (), s')"
  then have "write_frame f pg s = (Ok (), s')" by (simp add: pool_pager_def)
  from write_log_kept [OF this] assms(2) show "log_left n s'" by (simp add: log_left_def)
qed

lemma logged_page_pool: "page_pool (pool_pager D L page_size) (logged n) (bview dview) page_table pin_counts
    (\<lambda>s. length (frames s)) (synced dview) (\<lambda>s. dtotal (disk s))"
  by (rule page_pool_with [OF pg.page_pool_axioms]) (erule (2) log_kept_ops)+

lemma good_pool_disk:
  assumes "good_pool s" and "dinv d" and "dview d = dview (disk s)" and "healthy d"
  shows "good_pool (s\<lparr>disk := d\<rparr>)"
proof -
  have inv: "bp_inv page_size dinv dview linv s" using assms(1) by (simp add: good_pool_def)
  note b = bp_inv_disk [OF inv assms(2,3)]
  show ?thesis using assms(1,4) b by (simp add: good_pool_def bp_healthy_def bp_tracked_def marks_pins_def)
qed

lemma good_pool_set_log:
  assumes "good_pool s" and "linv l" and "lhealthy l"
  shows "good_pool (s\<lparr>log_mgr := Some l\<rparr>)"
  using assms
  by (simp add: good_pool_def bp_inv_def bp_healthy_def bp_tracked_def marks_pins_def held_def [abs_def] pins_def [abs_def] synced_def
      cong: option.case_cong)

lemma pool_heap_store: "heap_store (pool_store D L page_size) (logged n) (bview dview) page_table pin_counts
    (\<lambda>s. length (frames s)) (synced dview) (\<lambda>s. dtotal (disk s))"
proof (unfold heap_store_def table_pool_def table_pool_axioms_def, intro conjI allI impI)
  show "page_pool (st_pager (pool_store D L page_size)) (logged n) (bview dview) page_table pin_counts
    (\<lambda>s. length (frames s)) (synced dview) (\<lambda>s. dtotal (disk s))"
    using logged_page_pool by (simp add: pool_store_def)
next
  fix s fid assume g: "logged n s"
  have inv: "bp_inv page_size dinv dview linv s" and h: "healthy (disk s)" using g by (simp_all add: good_pool_def bp_healthy_def)
  obtain r d where d: "disk_total_pages D fid (disk s) = (r, d)" by (cases "disk_total_pages D fid (disk s)")
  note t = total_law [OF bp_invD(3) [OF inv] d]
  have r: "r = Ok (dtotal (disk s) fid)" using t h by (cases r) auto
  have "logged n (s\<lparr>disk := d\<rparr>)" using good_pool_disk [of s d] g t h by (simp add: log_left_def)
  moreover have "dview d = dview (disk s)" "dinv d" "dtotal d = dtotal (disk s)" using t by auto
  moreover note bp_inv_disk(2-) [OF inv this(2,1)]
  ultimately show "\<exists>s'. st_total (pool_store D L page_size) fid s = (Ok (dtotal (disk s) fid), s') \<and> logged n s' \<and>
      bview dview s' = bview dview s \<and> pin_counts s' = pin_counts s \<and> length (frames s') = length (frames s) \<and>
      (\<lambda>f. dtotal (disk s') f) = (\<lambda>f. dtotal (disk s) f) \<and> page_table s' = page_table s \<and> (\<forall>q. synced dview s q \<longrightarrow> synced dview s' q)"
    using d r by (intro exI [of _ "s\<lparr>disk := d\<rparr>"]) (simp add: pool_store_def pool_total_def pin_counts_def [abs_def])
qed

lemma logged_guard: "page_pool (pool_pager D L page_size) (\<lambda>s. logged n s \<and> pin_counts s p \<noteq> 0 \<and> page_table s p = Some f)
    (bview dview) page_table (\<lambda>s. (pin_counts s)(p := pin_counts s p - 1)) (\<lambda>s. length (frames s) - 1)
    (\<lambda>s q. synced dview s q \<or> q = p) (\<lambda>s. dtotal (disk s))"
proof -
  have "page_pool (pool_pager D L page_size) (\<lambda>s. (good_pool s \<and> pin_counts s p \<noteq> 0 \<and> page_table s p = Some f) \<and> log_left n s)
    (bview dview) page_table (\<lambda>s. (pin_counts s)(p := pin_counts s p - 1)) (\<lambda>s. length (frames s) - 1)
    (\<lambda>s q. synced dview s q \<or> q = p) (\<lambda>s. dtotal (disk s))"
    by (rule page_pool_with [OF guard_pool]) (elim conjE, erule (2) log_kept_ops)+
  moreover have "(\<lambda>s. (good_pool s \<and> pin_counts s p \<noteq> 0 \<and> page_table s p = Some f) \<and> log_left n s) =
      (\<lambda>s. logged n s \<and> pin_counts s p \<noteq> 0 \<and> page_table s p = Some f)" by auto
  ultimately show ?thesis by simp
qed

end

sublocale logged_pool \<subseteq> rs: row_store "pool_store D L page_size" logged "bview dview" page_table pin_counts
    "\<lambda>s. length (frames s)" "synced dview" "\<lambda>s. dtotal (disk s)"
proof (rule row_store.intro, goal_cases)
  case (1 n)
  then show ?case using pool_heap_store by simp
next
  case (2 n s)
  then show ?case using space_less by (auto simp: log_left_def)
next
  case (3 n s bs)
  show ?case
  proof (cases "log_mgr s")
    case None
    then have "pool_append L bs s = (None, s)" by (simp add: pool_append_def)
    then show ?thesis using 3 None by (auto simp: pool_store_def log_left_def)
  next
    case (Some l)
    have l: "linv l" "lhealthy l" "lspace (Suc n) l" using good_pool_log 3(1) Some by (auto simp: log_left_def)
    from append_law [OF l(1) _ 3(2)] space_append [OF l(1,3)] l(2) obtain lsn l' where
      a: "lm_append_record L bs l = (Ok lsn, l')" "linv l'" "lhealthy l'" by blast
    have sp: "lspace n l'" using space_append [OF l(1,3), of bs] a(1) by simp
    let ?s = "s\<lparr>log_mgr := Some l'\<rparr>"
    have "pool_append L bs s = (Some lsn, ?s)" using Some a(1) by (simp add: pool_append_def)
    moreover have "logged n ?s" using good_pool_set_log [OF _ a(2,3)] 3(1) sp by (simp add: log_left_def)
    ultimately show ?thesis
      by (intro exI [of _ "Some lsn"] exI [of _ ?s])
         (simp add: pool_store_def set_log_same)
  qed
next
  case (4 n s)
  show ?case
  proof (cases "log_mgr s")
    case None
    then have "pool_flush_log L s = s" by (simp add: pool_flush_log_def flush_log_def)
    then show ?thesis using 4 by (simp add: pool_store_def)
  next
    case (Some l)
    have l: "linv l" "lhealthy l" "lspace n l" using good_pool_log 4 Some by (auto simp: log_left_def)
    obtain r l' where f: "lm_flush_up_to L (- 1) l = (r, l')" by (cases "lm_flush_up_to L (- 1) l")
    have "is_ok r" "lhealthy l'" using flush_law [OF l(1) f] l(2) by blast+
    then have l': "linv l'" "lhealthy l'" using flush_law [OF l(1) f] by (cases r; auto)+
    have sp: "lspace n l'" using space_flush [OF l, of "- 1"] f by simp
    let ?s = "s\<lparr>log_mgr := Some l'\<rparr>"
    have "pool_flush_log L s = ?s" using Some f by (simp add: pool_flush_log_def flush_log_def)
    moreover have "logged n ?s" using good_pool_set_log [OF _ l'] 4 sp by (simp add: log_left_def)
    ultimately show ?thesis
      by (simp add: pool_store_def set_log_same)
  qed
next
  case (5 n p f)
  then show ?case using logged_guard by (simp add: pool_store_def)
qed

subsection \<open>The write-ahead log\<close>

interpretation lp: logged_pool "basic_disk_ops ps" ps basic_inv "basic_view ps" "basic_total ps" basic_healthy
  wal_ops wal_inv wal_records log_buffer "\<lambda>w. next_lsn w \<noteq> - 1 \<and> flushed_lsn w < next_lsn w" wal_healthy wal_space
  for ps
proof (intro logged_pool.intro logged_pool_axioms.intro)
  show "buffer_pool (basic_disk_ops ps) ps basic_inv (basic_view ps) (basic_total ps) basic_healthy
     wal_ops wal_inv wal_records log_buffer (\<lambda>w. next_lsn w \<noteq> - 1 \<and> flushed_lsn w < next_lsn w) wal_healthy"
    by (rule bp.buffer_pool_axioms)
next
  fix l n lsn assume "wal_inv l" "wal_healthy l" "wal_space n l"
  then show "wal_space n (snd (lm_flush_up_to wal_ops lsn l))" using wal_space_flush by (simp add: wal_ops_def)
next
  fix l n bs assume "wal_inv l" and s: "wal_space (Suc n) l"
  then have u: "unat (next_lsn l + 1) = unat (next_lsn l) + 1" by (simp add: wal_space_def unat_word_ariths)
  then have "next_lsn l \<noteq> - 1" by auto
  moreover have "flushed_lsn l < next_lsn l + 1" using s u by (simp add: wal_space_def word_less_nat_alt)
  ultimately show "(next_lsn l \<noteq> - 1 \<and> flushed_lsn l < next_lsn l) \<and> wal_space n (snd (lm_append_record wal_ops bs l))"
    using s u by (simp add: wal_space_def wal_ops_def append_record_def)
next
  fix l n assume "wal_space (Suc n) l"
  then show "wal_space n l" by (simp add: wal_space_def)
qed

end
