(* ===== verification/Db_Spec.thy ===== *)
theory Db_Spec
  imports Index_Spec Table_Pool
begin

text \<open>
  What the SQL commands promise, over the whole stack: buffer pool, file-system disk manager,
  write-ahead log, B+ tree and catalog. \<open>table_holds\<close> is the abstraction: a table of the database is
  a list of rows. \<open>INSERT\<close> appends a row or refuses a duplicate key, \<open>DELETE\<close> filters the list, \<open>SELECT\<close>
  returns its matching rows, and the rows of the other tables stay as they are.
\<close>

definition log_room :: "nat \<Rightarrow> pool \<Rightarrow> bool" where
  "log_room n s \<longleftrightarrow> (\<forall>w. log_mgr s = Some w \<longrightarrow> wal_space n w)"

definition db_ready :: "nat \<Rightarrow> nat \<Rightarrow> serde \<Rightarrow> pool db \<Rightarrow> bool" where
  "db_ready ps n J d \<longleftrightarrow> pool_ready ps (db_pool d) \<and> log_room n (db_pool d) \<and> on_disk J (db_catalog d)"

definition db_room :: "nat \<Rightarrow> pool db \<Rightarrow> bool" where
  "db_room n d \<longleftrightarrow> spare (pin_counts (db_pool d)) (length (frames (db_pool d))) n"

definition table_holds :: "nat \<Rightarrow> pool db \<Rightarrow> string \<Rightarrow> schema \<Rightarrow> sql_value list list \<Rightarrow> bool" where
  "table_holds ps d table sch rows \<longleftrightarrow> (\<exists>meta ts m. tables (ca_data (db_catalog d)) table = Some meta \<and> tm_schema meta = sch \<and>
     table_inv ps (basic_total ps (disk (db_pool d))) (pool_view ps (db_pool d)) meta ts m \<and> decodes sch ts rows)"

text \<open>The files of a table can grow by a page each.\<close>

definition files_room :: "nat \<Rightarrow> pool db \<Rightarrow> string \<Rightarrow> bool" where
  "files_room ps d table \<longleftrightarrow> (\<forall>meta. tables (ca_data (db_catalog d)) table = Some meta \<longrightarrow>
     unat (basic_total ps (disk (db_pool d)) (heap_relation_id meta)) + 2 < 2 ^ 32 \<and>
     unat (basic_total ps (disk (db_pool d)) (index_relation_id meta)) < 2147483647)"

abbreviation store :: "nat \<Rightarrow> pool table_store" where
  "store ps \<equiv> pool_store (basic_disk_ops ps) wal_ops ps"

lemma store_sel [simp]: "st_pager (store ps) = index_pager ps" "pg_size (st_pager (store ps)) = ps"
  by (simp_all add: pool_store_def)

lemma log_left_room: "lp.log_left n s \<longleftrightarrow> log_room n s"
  by (simp add: lp.log_left_def log_room_def)

lemma ready_session:
  assumes "db_ready ps n J d"
  shows "lp.rs.hs.session ps n (pin_counts (db_pool d)) (length (frames (db_pool d)))
    (basic_total ps (disk (db_pool d))) (pool_view ps (db_pool d)) [] {} (db_pool d)"
  using assms unfolding lp.rs.hs.session_def by (simp add: db_ready_def pool_ready_def bp.good_pool_def log_left_room)

lemma session_ready:
  assumes "lp.rs.hs.session ps n base cap tot V [] {} (db_pool d)" and "on_disk J (db_catalog d)"
  shows "db_ready ps n J d" and "pin_counts (db_pool d) = base" and "length (frames (db_pool d)) = cap"
    and "basic_total ps (disk (db_pool d)) = tot" and "pool_view ps (db_pool d) = V"
  using assms unfolding lp.rs.hs.session_def by (auto simp: db_ready_def pool_ready_def bp.good_pool_def log_left_room)

text \<open>A table of which no page and no metadata changes keeps its rows.\<close>

lemma table_rows_keys:
  assumes "table_inv ps tot V meta ts m" and "decodes (tm_schema meta) ts rows"
  shows "m pk \<noteq> None \<longleftrightarrow> (\<exists>vs. Integer pk # vs \<in> set rows)"
proof -
  let ?L = "live_places V (heap_relation_id meta) (heap_span (tot (heap_relation_id meta)))"
  have ix: "index_of_heap (tm_schema meta) V (heap_relation_id meta) (heap_span (tot (heap_relation_id meta))) m"
    and ts: "ts = map (\<lambda>c. the (record_of V c)) ?L"
    using assms(1) by (simp_all add: table_inv_def table_rows_span heap_rows_places)
  have k: "m pk \<noteq> None \<longleftrightarrow> (\<exists>t \<in> set ts. row_key_is (tm_schema meta) t pk)"
  proof
    assume "m pk \<noteq> None"
    then show "\<exists>t \<in> set ts. row_key_is (tm_schema meta) t pk" using ix ts unfolding index_of_heap_def by fastforce
  next
    assume "\<exists>t \<in> set ts. row_key_is (tm_schema meta) t pk"
    then obtain c where c: "c \<in> set ?L" "row_key_is (tm_schema meta) (the (record_of V c)) pk" using ts by auto
    with ix obtain pk' where "row_key_is (tm_schema meta) (the (record_of V c)) pk'" "m pk' = Some c" unfolding index_of_heap_def by blast
    with c(2) row_key_unique show "m pk \<noteq> None" by fastforce
  qed
  have r: "\<exists>vs. to_values t (tm_schema meta) = Ok vs" if "t \<in> set ts" for t
    using assms(2) that by (auto simp: decodes_iff)
  have rows: "set rows = (\<lambda>t. case to_values t (tm_schema meta) of Ok vs \<Rightarrow> vs | _ \<Rightarrow> []) ` set ts"
    using assms(2) by (simp add: decodes_iff)
  show ?thesis
    unfolding k
  proof
    assume "\<exists>t \<in> set ts. row_key_is (tm_schema meta) t pk"
    then obtain t vs where "t \<in> set ts" "to_values t (tm_schema meta) = Ok (Integer pk # vs)" by (auto simp: row_key_is_def)
    then have "Integer pk # vs \<in> set rows" unfolding rows by (intro image_eqI [of _ _ t]) simp_all
    then show "\<exists>vs. Integer pk # vs \<in> set rows" by blast
  next
    assume "\<exists>vs. Integer pk # vs \<in> set rows"
    then obtain vs t where t: "t \<in> set ts" "Integer pk # vs = (case to_values t (tm_schema meta) of Ok vs \<Rightarrow> vs | _ \<Rightarrow> [])"
      unfolding rows by auto
    have "to_values t (tm_schema meta) = Ok (Integer pk # vs)" using r [OF t(1)] t(2) by auto
    with t(1) show "\<exists>t \<in> set ts. row_key_is (tm_schema meta) t pk" unfolding row_key_is_def by blast
  qed
qed

lemma table_inv_cong:
  assumes inv: "table_inv ps tot V meta ts m"
    and V: "\<And>q. file_id q \<in> meta_ids meta \<Longrightarrow> V' q = V q" and tot: "\<And>f. f \<in> meta_ids meta \<Longrightarrow> tot' f = tot f"
  shows "table_inv ps tot' V' meta ts m"
proof -
  let ?h = "heap_relation_id meta"
  have t: "tot' ?h = tot ?h" "tot' (index_relation_id meta) = tot (index_relation_id meta)" using tot by (simp_all add: meta_ids_def)
  have v: "V' (heap_page ?h k) = V (heap_page ?h k)" for k using V by (simp add: heap_page_def meta_ids_def)
  have "index_rep ps (index_relation_id meta) tot' V' (index_root meta) m"
    by (rule index_rep_cong [where tot = tot and V = V]) (use inv V t in \<open>auto simp: table_inv_def meta_ids_def\<close>)
  moreover have "heap_wf V' ?h (tot ?h)" by (rule heap_wf_cong [where V = V]) (use inv v in \<open>simp_all add: table_inv_def\<close>)
  moreover have "index_of_heap (tm_schema meta) V' ?h (heap_span (tot ?h)) m"
    by (rule index_of_heap_cong [where V = V]) (use inv v in \<open>simp_all add: table_inv_def\<close>)
  moreover have "table_rows tot' V' meta = table_rows tot V meta"
    using heap_rows_cong [where V = V and V' = V'] v by (simp add: table_rows_span t)
  ultimately show ?thesis using inv by (simp add: table_inv_def t)
qed

lemma other_table_kept:
  assumes cinv: "catalog_inv (ca_data (db_catalog d))" and meta: "tables (ca_data (db_catalog d)) table = Some meta"
    and other: "table_holds ps d other sch rows" "other \<noteq> table"
    and cat: "tables (ca_data (db_catalog d')) = (tables (ca_data (db_catalog d)))(table \<mapsto> meta')"
    and V: "\<forall>q. file_id q \<notin> meta_ids meta \<longrightarrow> pool_view ps (db_pool d') q = pool_view ps (db_pool d) q"
    and tot: "\<forall>f. f \<notin> meta_ids meta \<longrightarrow> basic_total ps (disk (db_pool d')) f = basic_total ps (disk (db_pool d)) f"
  shows "table_holds ps d' other sch rows"
proof -
  obtain om ts m where o: "tables (ca_data (db_catalog d)) other = Some om" "tm_schema om = sch"
    "table_inv ps (basic_total ps (disk (db_pool d))) (pool_view ps (db_pool d)) om ts m" "decodes sch ts rows"
    using other(1) by (auto simp: table_holds_def)
  have disj: "meta_ids om \<inter> meta_ids meta = {}" using cinv meta o(1) other(2) unfolding catalog_inv_def by blast
  have "table_inv ps (basic_total ps (disk (db_pool d'))) (pool_view ps (db_pool d')) om ts m"
    by (rule table_inv_cong [OF o(3)]) (use V tot disj in blast)+
  with o cat other(2) show ?thesis by (auto simp: table_holds_def)
qed

text \<open>What a command on one table leaves alone: room in the pool, and the rows of all other tables.\<close>

definition kept_else :: "nat \<Rightarrow> string \<Rightarrow> pool db \<Rightarrow> pool db \<Rightarrow> bool" where
  "kept_else ps table d d' \<longleftrightarrow> (\<forall>k. db_room k d' = db_room k d) \<and>
     (catalog_inv (ca_data (db_catalog d)) \<longrightarrow> catalog_inv (ca_data (db_catalog d')) \<and>
       (\<forall>other sch rows. other \<noteq> table \<and> table_holds ps d other sch rows \<longrightarrow> table_holds ps d' other sch rows))"

lemma kept_elseI:
  assumes meta: "tables (ca_data (db_catalog d)) table = Some meta"
    and cat: "ca_data (db_catalog d') = (ca_data (db_catalog d))\<lparr>tables := (tables (ca_data (db_catalog d)))(table \<mapsto> meta')\<rparr>"
    and ids: "tm_name meta' = tm_name meta" "heap_relation_id meta' = heap_relation_id meta" "index_relation_id meta' = index_relation_id meta"
    and V: "\<forall>q. file_id q \<notin> meta_ids meta \<longrightarrow> pool_view ps (db_pool d') q = pool_view ps (db_pool d) q"
    and tot: "\<forall>f. f \<notin> meta_ids meta \<longrightarrow> basic_total ps (disk (db_pool d')) f = basic_total ps (disk (db_pool d)) f"
    and pool: "pin_counts (db_pool d') = pin_counts (db_pool d)" "length (frames (db_pool d')) = length (frames (db_pool d))"
  shows "kept_else ps table d d'"
proof -
  have "catalog_inv (ca_data (db_catalog d'))" if "catalog_inv (ca_data (db_catalog d))"
    unfolding cat
  proof (rule catalog_inv_subset [OF that])
    fix n t' assume "((tables (ca_data (db_catalog d)))(table \<mapsto> meta')) n = Some t'"
    then show "\<exists>t. tables (ca_data (db_catalog d)) n = Some t \<and> tm_name t' = tm_name t \<and>
        heap_relation_id t' = heap_relation_id t \<and> index_relation_id t' = index_relation_id t"
      using meta ids by (cases "n = table") auto
  qed
  moreover have "table_holds ps d' other sch rows"
    if "catalog_inv (ca_data (db_catalog d))" "other \<noteq> table" "table_holds ps d other sch rows" for other sch rows
    by (rule other_table_kept [OF that(1) meta that(3,2) _ V tot]) (simp add: cat)
  ultimately show ?thesis using pool by (simp add: kept_else_def db_room_def)
qed

subsection \<open>The commands\<close>

lemma insert_holds_rows:
  assumes g: "geometry ps" "ps < 65536" and d: "db_ready ps (Suc n) J d" and room: "db_room 3 d" and files: "files_room ps d table"
    and holds: "table_holds ps d table sch rows"
    and vals: "parse_values vals (columns sch) = Ok (Integer pk # vs)" "length (columns sch) \<le> length vals"
      "\<forall>v \<in> set vals. valid_utf8 (as_bytes v)"
    and fits: "tuple_len sch (Integer pk # vs) + 36 \<le> ps" "length table < 2 ^ 30"
  shows "\<exists>d'. (if \<exists>vs'. Integer pk # vs' \<in> set rows
      then execute_insert (store ps) J table vals is_rec d = Some (Ok (DuplicatePk pk), d') \<and> db_ready ps (Suc n) J d' \<and>
        table_holds ps d' table sch rows
      else execute_insert (store ps) J table vals is_rec d = Some (Ok Inserted, d') \<and> db_ready ps n J d' \<and>
        table_holds ps d' table sch (rows @ [Integer pk # vs])) \<and> kept_else ps table d d'"
proof -
  obtain meta ts m where t: "tables (ca_data (db_catalog d)) table = Some meta" "tm_schema meta = sch"
    "table_inv ps (basic_total ps (disk (db_pool d))) (pool_view ps (db_pool d)) meta ts m" "decodes sch ts rows"
    using holds by (auto simp: table_holds_def)
  note s = ready_session [OF d]
  have od: "on_disk J (db_catalog d)" using d by (simp add: db_ready_def)
  note room' = room [unfolded db_room_def]
  have fit: "list_all2 value_fits (columns sch) (Integer pk # vs)" by (rule parse_values_fits [OF vals])
  then have key: "i32_range pk" by (auto simp: list_all2_Cons2 value_fits_def)
  from from_values_to_values [OF fit] fits(1) g(2) obtain r where
    r: "from_values sch (Integer pk # vs) = Ok r" "length r = tuple_len sch (Integer pk # vs)" "to_values r sch = Ok (Integer pk # vs)" by auto
  note sel = lp.rs.insert_duplicate [where ps = ps, unfolded store_sel pager_size] lp.rs.insert_fresh [where ps = ps, unfolded store_sel pager_size]
  show ?thesis
  proof (cases "m pk")
    case (Some c)
    have room1: "spare (pin_counts (db_pool d)) (length (frames (db_pool d))) 1" by (rule spare_le [OF room']) simp
    from sel(1) [OF g(1) s room1 t(1,3) vals(1) [folded t(2)] r(1) [folded t(2)] key Some, of J is_rec] obtain w where
      w: "execute_insert (store ps) J table vals is_rec d = Some (Ok (DuplicatePk pk), d\<lparr>db_pool := w\<rparr>)"
        "lp.rs.hs.session ps (Suc n) (pin_counts (db_pool d)) (length (frames (db_pool d)))
    (basic_total ps (disk (db_pool d))) (pool_view ps (db_pool d)) [] {} w" by blast
    let ?d = "d\<lparr>db_pool := w\<rparr>"
    have w': "lp.rs.hs.session ps (Suc n) (pin_counts (db_pool d)) (length (frames (db_pool d)))
    (basic_total ps (disk (db_pool d))) (pool_view ps (db_pool d)) [] {} (db_pool ?d)" "on_disk J (db_catalog ?d)" using w(2) od by simp_all
    note e = session_ready [OF w']
    have "\<exists>vs'. Integer pk # vs' \<in> set rows" using table_rows_keys [OF t(3) t(4) [folded t(2)], of pk] Some by simp
    moreover have "table_holds ps ?d table sch rows" using holds e(4,5) by (simp add: table_holds_def)
    moreover have "kept_else ps table d ?d"
      by (rule kept_elseI [OF t(1), of _ meta]) (use e(2-5) t(1) in \<open>simp_all add: fun_upd_idem\<close>)
    ultimately show ?thesis using w(1) e(1) by (intro exI [of _ ?d]) simp
  next
    case None
    have fr: "length r + 36 \<le> ps" using fits(1) r(2) by simp
    have nf: "no_faults (db_catalog d)" using od by (simp add: on_disk_def)
    have b: "unat (basic_total ps (disk (db_pool d)) (heap_relation_id meta)) + 2 < 2 ^ 32"
      "unat (basic_total ps (disk (db_pool d)) (index_relation_id meta)) < 2147483647" using files t(1) by (simp_all add: files_room_def)
    from sel(2) [OF g s room' t(1) nf t(3) b vals(1) [folded t(2)] r(1) [folded t(2)] r(3) [folded t(2)] fr fits(2) key None, of J is_rec]
    obtain d' c tot' V' meta' where
      e: "execute_insert (store ps) J table vals is_rec d = Some (Ok Inserted, d')"
        "lp.rs.hs.session ps n (pin_counts (db_pool d)) (length (frames (db_pool d))) tot' V' [] {} (db_pool d')"
        "on_disk J (db_catalog d')"
        "ca_data (db_catalog d') = (ca_data (db_catalog d))\<lparr>tables := (tables (ca_data (db_catalog d)))(table \<mapsto> meta')\<rparr>"
        "meta' = meta\<lparr>root_page_num := root_page_num meta', num_records := saturating_add_i32 (num_records meta) 1\<rparr>"
        "table_inv ps tot' V' meta' (ts @ [r]) (m(pk \<mapsto> c))"
        "\<forall>q. file_id q \<notin> meta_ids meta \<longrightarrow> V' q = pool_view ps (db_pool d) q"
        "\<forall>f. f \<notin> meta_ids meta \<longrightarrow> tot' f = basic_total ps (disk (db_pool d)) f" by (elim exE conjE) (rule that)
    note f = session_ready [OF e(2,3)]
    have m': "tm_schema meta' = sch" "tm_name meta' = tm_name meta" "heap_relation_id meta' = heap_relation_id meta"
      "index_relation_id meta' = index_relation_id meta" by (subst e(5), simp add: t(2))+
    have "\<not> (\<exists>vs'. Integer pk # vs' \<in> set rows)" using table_rows_keys [OF t(3) t(4) [folded t(2)], of pk] None by simp
    moreover have "decodes sch (ts @ [r]) (rows @ [Integer pk # vs])" using t(4) r(3) by (simp add: decodes_def list_all2_appendI)
    then have "table_holds ps d' table sch (rows @ [Integer pk # vs])"
      using e(4,6) m'(1) by (auto simp: table_holds_def f(4,5))
    moreover have "kept_else ps table d d'"
      by (rule kept_elseI [OF t(1) e(4) m'(2-4)]) (use e(7,8) f(2-5) in simp_all)
    ultimately show ?thesis using e(1) f(1) by (intro exI [of _ d']) simp
  qed
qed

lemma where_rows:
  assumes "decodes sch ts rows" and "known_cols sch conds"
  shows "length (filter (\<lambda>t. where_predicate conds t sch) ts) = length (filter (where_holds sch conds) rows)"
    and "decodes sch (filter (\<lambda>t. \<not> where_predicate conds t sch) ts) (filter (\<lambda>r. \<not> where_holds sch conds r) rows)"
proof -
  show "length (filter (\<lambda>t. where_predicate conds t sch) ts) = length (filter (where_holds sch conds) rows)"
    using list_all2_lengthD [OF decodes_filter [OF assms, unfolded decodes_def]] .
  show "decodes sch (filter (\<lambda>t. \<not> where_predicate conds t sch) ts) (filter (\<lambda>r. \<not> where_holds sch conds r) rows)"
    using assms(1) unfolding decodes_def
    by (induction rule: list_all2_induct) (simp_all add: where_predicate_holds [OF assms(2)])
qed

lemma delete_holds_rows:
  assumes g: "geometry ps" and d: "db_ready ps (n + length rows) J d" and room: "db_room 4 d"
    and holds: "table_holds ps d table sch rows" and known: "known_cols sch conds"
    and few: "length rows < 2 ^ 31" "length table < 2 ^ 30"
  shows "\<exists>d'. execute_delete (store ps) J table conds is_rec d =
      Some (Ok (Deleted (of_nat (length (filter (where_holds sch conds) rows)))), d') \<and>
    db_ready ps n J d' \<and> table_holds ps d' table sch (filter (\<lambda>r. \<not> where_holds sch conds r) rows) \<and> kept_else ps table d d'"
proof -
  obtain meta ts m where t: "tables (ca_data (db_catalog d)) table = Some meta" "tm_schema meta = sch"
    "table_inv ps (basic_total ps (disk (db_pool d))) (pool_view ps (db_pool d)) meta ts m" "decodes sch ts rows"
    using holds by (auto simp: table_holds_def)
  have len: "length ts = length rows" using t(4) by (simp add: decodes_def list_all2_lengthD)
  have od: "on_disk J (db_catalog d)" using d by (simp add: db_ready_def)
  note s = ready_session [OF d, folded len]
  note sel = lp.rs.execute_delete_law [where ps = ps, unfolded store_sel pager_size]
  from sel [OF g s room [unfolded db_room_def] few(2) t(1) od t(3) known [folded t(2)] few(1) [folded len], of is_rec, unfolded t(2) where_rows(1) [OF t(4) known]]
  obtain d' tot' V' m' meta' where
    e: "execute_delete (store ps) J table conds is_rec d = Some (Ok (Deleted (of_nat (length (filter (where_holds sch conds) rows)))), d')"
      "lp.rs.hs.session ps n (pin_counts (db_pool d)) (length (frames (db_pool d))) tot' V' [] {} (db_pool d')"
      "on_disk J (db_catalog d')"
      "ca_data (db_catalog d') = (ca_data (db_catalog d))\<lparr>tables := (tables (ca_data (db_catalog d)))(table \<mapsto> meta')\<rparr>"
      "meta' = meta\<lparr>num_records := num_records meta - length (filter (where_holds sch conds) rows)\<rparr>"
      "table_inv ps tot' V' meta' (filter (\<lambda>t. \<not> where_predicate conds t sch) ts) m'"
      "\<forall>q. file_id q \<notin> meta_ids meta \<longrightarrow> V' q = pool_view ps (db_pool d) q"
      "\<forall>f. f \<notin> meta_ids meta \<longrightarrow> tot' f = basic_total ps (disk (db_pool d)) f" by (elim exE conjE) (rule that)
  note f = session_ready [OF e(2,3)]
  have "table_holds ps d' table sch (filter (\<lambda>r. \<not> where_holds sch conds r) rows)"
    using e(4,6) t(2) where_rows(2) [OF t(4) known] by (auto simp: table_holds_def f(4,5) e(5))
  moreover have "kept_else ps table d d'"
    by (rule kept_elseI [OF t(1) e(4)]) (use e(7,8) f(2-5) in \<open>simp_all add: e(5)\<close>)
  ultimately show ?thesis using e(1) f(1) by blast
qed

text \<open>A \<open>SELECT\<close> changes no page; with an index it leaves one page pinned.\<close>

definition query_on :: "nat \<Rightarrow> ast \<Rightarrow> nat \<Rightarrow> faults \<Rightarrow> pool db \<Rightarrow> ((cli_error, string \<times> sql_value list list) res \<times> pool) option" where
  "query_on ps ast chunk flt d = execute_query (index_pager ps) (st_total (store ps)) ast (db_catalog d) chunk flt (db_pool d)"

definition only_read :: "nat \<Rightarrow> nat \<Rightarrow> nat \<Rightarrow> serde \<Rightarrow> pool db \<Rightarrow> pool db \<Rightarrow> bool" where
  "only_read ps k n J d d' \<longleftrightarrow> db_ready ps n J d' \<and> db_room k d' \<and> db_catalog d' = db_catalog d \<and>
     (\<forall>table sch rows. table_holds ps d' table sch rows \<longleftrightarrow> table_holds ps d table sch rows)"

lemma db_reads:
  assumes "db_ready ps n J d" and "db_room k d"
  shows "lp.rs.hs.reads ps n k (basic_total ps (disk (db_pool d))) (pool_view ps (db_pool d)) (db_pool d)"
  using ready_session [OF assms(1)] assms(2) unfolding lp.rs.hs.reads_def db_room_def by blast

lemma reads_db:
  assumes r: "lp.rs.hs.reads ps n k (basic_total ps (disk (db_pool d))) (pool_view ps (db_pool d)) w" and d: "db_ready ps n J d"
  shows "only_read ps k n J d (d\<lparr>db_pool := w\<rparr>)"
proof -
  obtain base cap where s: "spare base cap k" "lp.rs.hs.session ps n base cap (basic_total ps (disk (db_pool d))) (pool_view ps (db_pool d)) [] {} w"
    using r unfolding lp.rs.hs.reads_def by blast
  let ?d = "d\<lparr>db_pool := w\<rparr>"
  have s': "lp.rs.hs.session ps n base cap (basic_total ps (disk (db_pool d))) (pool_view ps (db_pool d)) [] {} (db_pool ?d)"
    "on_disk J (db_catalog ?d)" using s(2) d by (simp_all add: db_ready_def)
  from session_ready [OF s'] s(1) show ?thesis by (simp add: only_read_def db_room_def table_holds_def)
qed

lemma select_rows:
  assumes g: "geometry ps" and d: "db_ready ps n J d" and room: "db_room (Suc k) d" "1 \<le> k"
    and holds: "table_holds ps d table sch rows" and known: "known_cols sch conds"
    and id: "col_position ''id'' sch \<in> {None, Some 0}"
  shows "\<exists>plan out w. query_on ps (SelectStmt [''*''] table al [] conds None) chunk flt d = Some (Ok (plan, out), w) \<and>
      mset out = mset (filter (where_holds sch conds) rows) \<and> only_read ps k n J d (d\<lparr>db_pool := w\<rparr>) \<and>
      (\<not> (\<exists>cond. conds = [cond] \<and> left_col cond = ''id'') \<longrightarrow> out = filter (where_holds sch conds) rows)"
    and "col_position c sch = Some i \<Longrightarrow> \<forall>vs \<in> set rows. vs ! i \<noteq> Null \<Longrightarrow> calm flt \<Longrightarrow>
      \<exists>plan out w. query_on ps (SelectStmt [''*''] table al [] conds (Some c)) chunk flt d = Some (Ok (plan, out), w) \<and>
      mset out = mset (filter (where_holds sch conds) rows) \<and> sorted (map (\<lambda>vs. value_key (vs ! i)) out) \<and>
      only_read ps k n J d (d\<lparr>db_pool := w\<rparr>)"
proof -
  obtain meta ts m where t: "tables (ca_data (db_catalog d)) table = Some meta" "tm_schema meta = sch"
    "table_inv ps (basic_total ps (disk (db_pool d))) (pool_view ps (db_pool d)) meta ts m" "decodes sch ts rows"
    using holds by (auto simp: table_holds_def)
  note rd = db_reads [OF d room(1)]
  have ok: "table_ok ps (basic_total ps (disk (db_pool d))) (pool_view ps (db_pool d)) meta" by (rule table_inv_ok [OF t(3)])
  have dec: "decodes (tm_schema meta) (table_rows (basic_total ps (disk (db_pool d))) (pool_view ps (db_pool d)) meta) rows"
    using t(2-4) by (simp add: table_inv_def)
  note sel = lp.rs.hs.select_where [where ps = ps, unfolded store_sel pager_size]

  have nb: "index_bounds meta conds = None" if "\<not> (\<exists>cond. conds = [cond] \<and> left_col cond = ''id'')"
  proof (rule ccontr)
    assume "index_bounds meta conds \<noteq> None"
    then obtain r f lo hi where "index_bounds meta conds = Some ((r, f), lo, hi)" by auto
    from index_bounds_Some(4) [OF this] that show False by blast
  qed
  obtain plan out w where o: "query_on ps (SelectStmt [''*''] table al [] conds None) chunk flt d = Some (Ok (plan, out), w)"
    "lp.rs.hs.reads ps n k (basic_total ps (disk (db_pool d))) (pool_view ps (db_pool d)) w"
    "mset out = mset (filter (where_holds sch conds) rows)"
    "index_bounds meta conds = None \<longrightarrow> out = filter (where_holds sch conds) rows"
    using sel(1) [OF g rd room(2) t(1) ok known [folded t(2)] id [folded t(2)] dec, of al chunk flt, unfolded t(2), folded query_on_def]
    by (elim exE conjE) (rule that)
  show "\<exists>plan out w. query_on ps (SelectStmt [''*''] table al [] conds None) chunk flt d = Some (Ok (plan, out), w) \<and>
      mset out = mset (filter (where_holds sch conds) rows) \<and> only_read ps k n J d (d\<lparr>db_pool := w\<rparr>) \<and>
      (\<not> (\<exists>cond. conds = [cond] \<and> left_col cond = ''id'') \<longrightarrow> out = filter (where_holds sch conds) rows)"
    using o(1,3,4) reads_db [OF o(2) d] nb by (intro exI [of _ plan] exI [of _ out] exI [of _ w] conjI impI) simp_all
next
  assume c: "col_position c sch = Some i" "\<forall>vs \<in> set rows. vs ! i \<noteq> Null" "calm flt"
  obtain meta ts m where t: "tables (ca_data (db_catalog d)) table = Some meta" "tm_schema meta = sch"
    "table_inv ps (basic_total ps (disk (db_pool d))) (pool_view ps (db_pool d)) meta ts m" "decodes sch ts rows"
    using holds by (auto simp: table_holds_def)
  have ok: "table_ok ps (basic_total ps (disk (db_pool d))) (pool_view ps (db_pool d)) meta" by (rule table_inv_ok [OF t(3)])
  have dec: "decodes (tm_schema meta) (table_rows (basic_total ps (disk (db_pool d))) (pool_view ps (db_pool d)) meta) rows"
    using t(2-4) by (simp add: table_inv_def)
  note sel = lp.rs.hs.select_order_by [where ps = ps, unfolded store_sel pager_size]
  obtain plan out w where o: "query_on ps (SelectStmt [''*''] table al [] conds (Some c)) chunk flt d = Some (Ok (plan, out), w)"
    "lp.rs.hs.reads ps n k (basic_total ps (disk (db_pool d))) (pool_view ps (db_pool d)) w"
    "mset out = mset (filter (where_holds sch conds) rows)" "sorted (map (\<lambda>vs. value_key (vs ! i)) out)"
    using sel [OF g db_reads [OF d room(1)] room(2) t(1) ok known [folded t(2)] id [folded t(2)] dec c(1) [folded t(2)] c(2,3),
      of al chunk, unfolded t(2), folded query_on_def]
    by (elim exE conjE) (rule that)
  show "\<exists>plan out w. query_on ps (SelectStmt [''*''] table al [] conds (Some c)) chunk flt d = Some (Ok (plan, out), w) \<and>
      mset out = mset (filter (where_holds sch conds) rows) \<and> sorted (map (\<lambda>vs. value_key (vs ! i)) out) \<and>
      only_read ps k n J d (d\<lparr>db_pool := w\<rparr>)"
    using o(1,3,4) reads_db [OF o(2) d] by (intro exI [of _ plan] exI [of _ out] exI [of _ w] conjI) simp_all
qed

text \<open>Files that have not been given to a table are empty.\<close>

definition unused_files :: "nat \<Rightarrow> pool db \<Rightarrow> bool" where
  "unused_files ps d \<longleftrightarrow> (\<forall>f. next_relation_id (ca_data (db_catalog d)) \<le> f \<longrightarrow> basic_total ps (disk (db_pool d)) f = 0 \<and>
     get_total_slots_from_bytes (pool_view ps (db_pool d) (heap_page f 0)) = 0)"

definition ddl_schema :: "(string \<Rightarrow> string) \<Rightarrow> column_def list \<Rightarrow> schema" where
  "ddl_schema up cols = \<lparr>columns = map (\<lambda>c. \<lparr>col_name = cd_name c, data_type = column_type up (cd_type c), is_nullable = False\<rparr>) cols\<rparr>"

lemma new_table_inv:
  assumes "tot (heap_relation_id meta) = 0" and "get_total_slots_from_bytes (V (heap_page (heap_relation_id meta) 0)) = 0"
    and "heap_relation_id meta \<noteq> index_relation_id meta" and "root_page_num meta = None"
  shows "table_inv ps tot V meta [] Map.empty"
proof -
  have "live_places V (heap_relation_id meta) 1 = []" using assms(2) by (simp add: live_places_def)
  then show ?thesis
    using assms by (simp add: table_inv_def heap_wf_def index_of_heap_def index_rep_def index_root_def table_rows_span
        heap_rows_places heap_span_simps)
qed

lemma create_holds_rows:
  assumes d: "db_ready ps n J d" and new: "tables (ca_data (db_catalog d)) table = None"
    and cinv: "catalog_inv (ca_data (db_catalog d))" and ids: "unat (next_relation_id (ca_data (db_catalog d))) + 2 < 2 ^ 32"
    and files: "unused_files ps d"
  shows "\<exists>d'. execute_ddl up J (CreateTableStmt table cols c) d = Some (Ok Created, d') \<and> db_ready ps n J d' \<and>
    table_holds ps d' table (ddl_schema up cols) [] \<and> catalog_inv (ca_data (db_catalog d')) \<and> db_pool d' = db_pool d \<and>
    (\<forall>other sch rows. table_holds ps d other sch rows \<longrightarrow> table_holds ps d' other sch rows)"
proof -
  let ?i = "next_relation_id (ca_data (db_catalog d))" and ?c = "db_catalog d"
  let ?t = "\<lparr>tm_name = table, heap_relation_id = ?i, index_relation_id = ?i + 1, root_page_num = None,
    tm_schema = ddl_schema up cols, num_records = 0\<rparr>"
  let ?d = "\<lparr>next_relation_id = ?i + 1 + 1, tables = (tables (ca_data ?c))(table \<mapsto> ?t)\<rparr>"
  have nf: "no_faults (?c\<lparr>ca_data := ?d\<rparr>)" using d by (simp add: db_ready_def on_disk_def no_faults_def)
  obtain c1 where f: "flush_catalog J (?c\<lparr>ca_data := ?d\<rparr>) = (Ok (), c1)" using flush_ok [OF nf, of J] by blast
  have c1: "ca_data c1 = ?d" "on_disk J c1" using flush_data [OF f] flush_on_disk [OF nf f] by simp_all
  let ?d' = "d\<lparr>db_catalog := c1\<rparr>"
  have cr: "create_table_with_schema J table (ddl_schema up cols) ?c = (Ok ?t, c1)"
    using new f c1(1) by (simp add: create_table_with_schema_def Let_def)
  have run: "execute_ddl up J (CreateTableStmt table cols c) d = Some (Ok Created, ?d')"
    using new cr by (simp add: execute_ddl_def get_table_def ddl_schema_def act_simps)
  have ready: "db_ready ps n J ?d'" using d c1(2) by (simp add: db_ready_def)
  have "?i + 1 \<noteq> ?i" by simp
  then have "table_inv ps (basic_total ps (disk (db_pool d))) (pool_view ps (db_pool d)) ?t [] Map.empty"
    using files by (intro new_table_inv) (simp_all add: unused_files_def)
  then have "table_holds ps ?d' table (ddl_schema up cols) []" using c1(1)
    by (simp add: table_holds_def) (intro exI [of _ "[]"], auto simp: decodes_def)
  moreover have "catalog_inv (ca_data (db_catalog ?d'))"
    using create_catalog_inv(1) [OF cinv ids, of ?t table] by (simp add: c1(1))
  moreover have "table_holds ps ?d' other sch rows" if "table_holds ps d other sch rows" for other sch rows
    using that new c1(1) by (cases "other = table") (auto simp: table_holds_def)
  ultimately show ?thesis using run ready by (intro exI [of _ ?d']) auto
qed

subsection \<open>The database of the witnesses\<close>

text \<open>Five frames of 56 bytes, an empty disk, an empty log, and one table \<open>t\<close> with the key column \<open>id\<close>.\<close>

definition sch0 :: schema where
  "sch0 = \<lparr>columns = [\<lparr>col_name = ''id'', data_type = IntegerT, is_nullable = False\<rparr>]\<rparr>"

definition db0 :: "(string \<Rightarrow> table_metadata option) \<Rightarrow> u32 \<Rightarrow> pool db" where
  "db0 ts i = \<lparr>db_pool = new_with_log_manager 56 5 \<lparr>disk_files = (\<lambda>_. None), disk_faults = [], file_handles = (\<lambda>_. None)\<rparr>
       (Some \<lparr>wal_file = [], wal_faults = [], flushed_lsn = 0, next_lsn = 1, log_buffer = []\<rparr>),
     db_catalog = \<lparr>ca_data = \<lparr>next_relation_id = i, tables = ts\<rparr>, ca_json = Some [123, 10, 125], ca_tmp = None, ca_faults = []\<rparr>\<rparr>"

abbreviation json0 :: serde where
  "json0 \<equiv> serde0 default_data"

definition db_t :: "pool db" where
  "db_t = db0 [''t'' \<mapsto> \<lparr>tm_name = ''t'', heap_relation_id = 0, index_relation_id = 1, root_page_num = None, tm_schema = sch0,
     num_records = 0\<rparr>] 2"

lemma db0_ready: "n < 1000 \<Longrightarrow> db_ready 56 n json0 (db0 ts i)" "db_room 4 (db0 ts i)"
  "basic_total 56 (disk (db_pool (db0 ts i))) f = 0" "pool_view 56 (db_pool (db0 ts i)) p = replicate 56 0"
proof -
  let ?d = "\<lparr>disk_files = (\<lambda>_. None), disk_faults = [], file_handles = (\<lambda>_. None)\<rparr>"
  let ?w = "\<lparr>wal_file = [], wal_faults = [], flushed_lsn = 0, next_lsn = 1, log_buffer = []\<rparr> :: wal"
  have d: "basic_inv ?d" by (simp add: basic_inv_def)
  have w: "\<forall>l. Some ?w = Some l \<longrightarrow> wal_inv l" by (auto simp: wal_inv_def intro: exI [of _ "[]"])
  note n = bp.new_pool_inv [OF d w, of 56 5]
  have p: "pins (db_pool (db0 ts i)) q = 0" for q using n(4) by (simp add: db0_def)
  have fr: "length (frames (db_pool (db0 ts i))) = 5" by (simp add: db0_def new_with_log_manager_def)
  show "basic_total 56 (disk (db_pool (db0 ts i))) f = 0"
    by (simp add: db0_def new_with_log_manager_def basic_total_def file_bytes_def)
  show "pool_view 56 (db_pool (db0 ts i)) p = replicate 56 0"
    using n(3) by (simp add: db0_def basic_view_def file_bytes_def page_of_beyond)
  show "db_room 4 (db0 ts i)" using p fr by (simp add: db_room_def spare_def pin_counts_def)
  have "pool_ready 56 (db_pool (db0 ts i))"
    using n(1,2,4,5,6)
    by (simp add: pool_ready_def db0_def marks_pins_def new_with_log_manager_def bp_healthy_def basic_healthy_def wal_healthy_def)
  moreover have "log_room n (db_pool (db0 ts i))" if "n < 1000" for n
    using that by (simp add: log_room_def db0_def new_with_log_manager_def wal_space_def)
  moreover have "on_disk json0 (db_catalog (db0 ts i))" by (simp add: on_disk_def db0_def no_faults_def serde0_def)
  ultimately show "n < 1000 \<Longrightarrow> db_ready 56 n json0 (db0 ts i)" by (simp add: db_ready_def)
qed

lemma db_t_facts: "n < 1000 \<Longrightarrow> db_ready 56 n json0 db_t" "db_room 4 db_t" "files_room 56 db_t ''t''"
  "table_holds 56 db_t ''t'' sch0 []"
proof -
  show "n < 1000 \<Longrightarrow> db_ready 56 n json0 db_t" "db_room 4 db_t" by (simp_all add: db_t_def db0_ready)
  show "files_room 56 db_t ''t''" by (simp add: files_room_def db_t_def db0_ready(3))
  have z: "get_total_slots_from_bytes (replicate 56 0) = 0" by code_simp
  let ?m = "\<lparr>tm_name = ''t'', heap_relation_id = 0, index_relation_id = 1, root_page_num = None, tm_schema = sch0, num_records = 0\<rparr>"
  have "table_inv 56 (basic_total 56 (disk (db_pool db_t))) (pool_view 56 (db_pool db_t)) ?m [] Map.empty"
    unfolding db_t_def by (rule new_table_inv) (simp_all add: db0_ready(3,4) z)
  moreover have "tables (ca_data (db_catalog db_t)) ''t'' = Some ?m" by (simp add: db_t_def db0_def)
  ultimately show "table_holds 56 db_t ''t'' sch0 []" unfolding table_holds_def
    by (intro exI [of _ ?m] exI [of _ "[]"] exI [of _ Map.empty]) (simp add: decodes_def)
qed

lemma db_t_insert:
  "\<exists>d'. execute_insert (store 56) json0 ''t'' [''5''] False db_t = Some (Ok Inserted, d') \<and> db_ready 56 9 json0 d' \<and>
     table_holds 56 d' ''t'' sch0 [[Integer 5]] \<and> db_room 4 d'"
proof -
  have p: "parse_values [''5''] (columns sch0) = Ok [Integer 5]" by code_simp
  have u: "valid_utf8 (as_bytes ''5'')" by code_simp
  have t: "tuple_len sch0 [Integer 5] = 5" by code_simp
  have r: "db_ready 56 (Suc 9) json0 db_t" "db_room 3 db_t"
    using db_t_facts(1) [of "Suc 9"] db_t_facts(2) spare_le [of _ _ 4 3] by (simp_all add: db_room_def)
  have l: "length (columns sch0) \<le> length [''5'']" "length ''t'' < 2 ^ 30" "56 < (65536 :: nat)" by (simp_all add: sch0_def)
  have f: "tuple_len sch0 [Integer 5] + 36 \<le> 56" unfolding t by simp
  from insert_holds_rows [OF geometry_56 l(3) r db_t_facts(3,4) p l(1) _ f l(2), of False] u db_t_facts(2)
  show ?thesis by (auto simp: kept_else_def)
qed

subsection \<open>The properties\<close>

text \<open>
  C1: \<open>INSERT\<close> into a table that holds the rows \<open>rows\<close>, on a working database with room for the row:
  when no row has its key the row is appended and everything is ready for the next command, whatever
  heap page, index split or catalog update that takes; otherwise the row is refused and the table
  stays. The rows of all other tables and the room in the pool are as before.
\<close>

theorem execute_insert_refines:
  assumes "geometry ps" and "ps < 65536" and "db_ready ps (Suc n) J d" and "db_room 3 d" and "files_room ps d table"
    and "table_holds ps d table sch rows"
    and "parse_values vals (columns sch) = Ok (Integer pk # vs)" and "length (columns sch) \<le> length vals"
    and "\<forall>v \<in> set vals. valid_utf8 (as_bytes v)"
    and "tuple_len sch (Integer pk # vs) + 36 \<le> ps" and "length table < 2 ^ 30"
  shows "\<exists>d'. (if \<exists>vs'. Integer pk # vs' \<in> set rows
      then execute_insert (store ps) J table vals is_rec d = Some (Ok (DuplicatePk pk), d') \<and> db_ready ps (Suc n) J d' \<and>
        table_holds ps d' table sch rows
      else execute_insert (store ps) J table vals is_rec d = Some (Ok Inserted, d') \<and> db_ready ps n J d' \<and>
        table_holds ps d' table sch (rows @ [Integer pk # vs])) \<and> kept_else ps table d d'"
  by (rule insert_holds_rows [OF assms])

theorem execute_insert_refines_witness:
  "\<exists>d'. execute_insert (store 56) json0 ''t'' [''5''] False db_t = Some (Ok Inserted, d') \<and>
     table_holds 56 d' ''t'' sch0 [[Integer 5]]"
proof -
  have p: "parse_values [''5''] (columns sch0) = Ok [Integer 5]" by code_simp
  have u: "valid_utf8 (as_bytes ''5'')" by code_simp
  have t: "tuple_len sch0 [Integer 5] = 5" by code_simp
  have r: "db_ready 56 (Suc 9) json0 db_t" "db_room 3 db_t"
    using db_t_facts(1) [of "Suc 9"] db_t_facts(2) spare_le [of _ _ 4 3] by (simp_all add: db_room_def)
  have l: "length (columns sch0) \<le> length [''5'']" "length ''t'' < 2 ^ 30" "56 < (65536 :: nat)" by (simp_all add: sch0_def)
  have f: "tuple_len sch0 [Integer 5] + 36 \<le> 56" unfolding t by simp
  from execute_insert_refines [OF geometry_56 l(3) r db_t_facts(3,4) p l(1) _ f l(2), of False] u
  show ?thesis by auto
qed

text \<open>
  C2: \<open>DELETE\<close> with a clause over known columns leaves exactly the rows that do not satisfy it, in
  their order, removes the others from the heap and from the index, and reports their number. Pages
  stay pinned and unannounced only within the command; the rows of all other tables are as before.
\<close>

theorem execute_delete_refines:
  assumes "geometry ps" and "db_ready ps (n + length rows) J d" and "db_room 4 d"
    and "table_holds ps d table sch rows" and "known_cols sch conds"
    and "length rows < 2 ^ 31" and "length table < 2 ^ 30"
  shows "\<exists>d'. execute_delete (store ps) J table conds is_rec d =
      Some (Ok (Deleted (of_nat (length (filter (where_holds sch conds) rows)))), d') \<and>
    db_ready ps n J d' \<and> table_holds ps d' table sch (filter (\<lambda>r. \<not> where_holds sch conds r) rows) \<and> kept_else ps table d d'"
  by (rule delete_holds_rows [OF assms])

theorem execute_delete_refines_witness:
  "\<exists>d d'. table_holds 56 d ''t'' sch0 [[Integer 5]] \<and>
     execute_delete (store 56) json0 ''t'' [\<lparr>left_col = ''id'', cond_op = Gt, right_val = ''4'', next_logic = None\<rparr>] False d =
       Some (Ok (Deleted 1), d') \<and> table_holds 56 d' ''t'' sch0 []"
proof -
  let ?c = "[\<lparr>left_col = ''id'', cond_op = Gt, right_val = ''4'', next_logic = None\<rparr>]"
  obtain d where d: "db_ready 56 9 json0 d" "table_holds 56 d ''t'' sch0 [[Integer 5]]" "db_room 4 d" using db_t_insert by blast
  have k: "known_cols sch0 ?c" by code_simp
  have w: "where_holds sch0 ?c [Integer 5]" by code_simp
  have r: "db_ready 56 (8 + length [[Integer 5]]) json0 d" using d(1) by simp
  have l: "length [[Integer 5]] < 2 ^ 31" "length ''t'' < 2 ^ 30" by simp_all
  from execute_delete_refines [OF geometry_56 r d(3,2) k l, of False] w d(2) show ?thesis by auto
qed

text \<open>
  C4: \<open>SELECT *\<close> with a clause over known columns returns exactly the rows of the table that satisfy
  it, with multiplicity, whether the plan scans the heap or the index; without a condition on \<open>id\<close> the
  rows come in the order of the table. The database is unchanged but for a pinned page. A column called
  \<open>id\<close> must be the first one or absent: the code looks conditions on \<open>id\<close> up in the index, which is on
  the first column whatever its name.
\<close>

theorem select_returns_matching_rows:
  assumes "geometry ps" and "db_ready ps n J d" and "db_room (Suc k) d" and "1 \<le> k"
    and "table_holds ps d table sch rows" and "known_cols sch conds" and "col_position ''id'' sch \<in> {None, Some 0}"
  shows "\<exists>plan out w. query_on ps (SelectStmt [''*''] table al [] conds None) chunk flt d = Some (Ok (plan, out), w) \<and>
      mset out = mset (filter (where_holds sch conds) rows) \<and> only_read ps k n J d (d\<lparr>db_pool := w\<rparr>) \<and>
      (\<not> (\<exists>cond. conds = [cond] \<and> left_col cond = ''id'') \<longrightarrow> out = filter (where_holds sch conds) rows)"
  by (rule select_rows(1) [OF assms])

theorem select_returns_matching_rows_witness:
  "\<exists>d plan w. query_on 56 (SelectStmt [''*''] ''t'' None []
       [\<lparr>left_col = ''id'', cond_op = Gt, right_val = ''4'', next_logic = None\<rparr>] None) 9 [] d = Some (Ok (plan, [[Integer 5]]), w)"
proof -
  let ?c = "[\<lparr>left_col = ''id'', cond_op = Gt, right_val = ''4'', next_logic = None\<rparr>]"
  obtain d where d: "db_ready 56 9 json0 d" "table_holds 56 d ''t'' sch0 [[Integer 5]]" "db_room 4 d" using db_t_insert by blast
  have k: "known_cols sch0 ?c" by code_simp
  have w: "where_holds sch0 ?c [Integer 5]" by code_simp
  have i: "col_position ''id'' sch0 \<in> {None, Some 0}" by code_simp
  have r: "db_room (Suc 3) d" "1 \<le> (3 :: nat)" using d(3) by simp_all
  from select_returns_matching_rows [OF geometry_56 d(1) r d(2) k i, of None 9 "[]"] w show ?thesis by auto
qed

text \<open>
  C5: \<open>SELECT * \<dots> ORDER BY\<close> a column without nulls returns exactly the matching rows, sorted by that
  column, whatever the size of the runs of the external sort. As above, a column called \<open>id\<close> must be the
  first one or absent, and no write of the sort's temporary files fails.
\<close>

theorem select_order_by_sorts:
  assumes "geometry ps" and "db_ready ps n J d" and "db_room (Suc k) d" and "1 \<le> k"
    and "table_holds ps d table sch rows" and "known_cols sch conds" and "col_position ''id'' sch \<in> {None, Some 0}"
    and "col_position c sch = Some i" and "\<forall>vs \<in> set rows. vs ! i \<noteq> Null" and "calm flt"
  shows "\<exists>plan out w. query_on ps (SelectStmt [''*''] table al [] conds (Some c)) chunk flt d = Some (Ok (plan, out), w) \<and>
      mset out = mset (filter (where_holds sch conds) rows) \<and> sorted (map (\<lambda>vs. value_key (vs ! i)) out) \<and>
      only_read ps k n J d (d\<lparr>db_pool := w\<rparr>)"
  by (rule select_rows(2) [OF assms])

theorem select_order_by_sorts_witness:
  "\<exists>d plan w. query_on 56 (SelectStmt [''*''] ''t'' None [] [] (Some ''id'')) 9 [] d = Some (Ok (plan, [[Integer 5]]), w)"
proof -
  obtain d where d: "db_ready 56 9 json0 d" "table_holds 56 d ''t'' sch0 [[Integer 5]]" "db_room 4 d" using db_t_insert by blast
  have k: "known_cols sch0 []" by code_simp
  have w: "where_holds sch0 [] [Integer 5]" by code_simp
  have i: "col_position ''id'' sch0 = Some 0" by code_simp
  then have i': "col_position ''id'' sch0 \<in> {None, Some 0}" by simp
  have n: "\<forall>vs \<in> set [[Integer 5]]. vs ! 0 \<noteq> Null" by simp
  have c: "calm []" by (simp add: calm_def)
  have r: "db_room (Suc 3) d" "1 \<le> (3 :: nat)" using d(3) by simp_all
  from select_order_by_sorts [OF geometry_56 d(1) r d(2) k i' i n c, of None 9] w show ?thesis by auto
qed

text \<open>
  C17: \<open>CREATE TABLE\<close> of a name that is not taken gives an empty table with the columns of the
  statement, ready for the commands above; no other table changes.
\<close>

theorem create_table_empty:
  assumes "db_ready ps n J d" and "tables (ca_data (db_catalog d)) table = None"
    and "catalog_inv (ca_data (db_catalog d))" and "unat (next_relation_id (ca_data (db_catalog d))) + 2 < 2 ^ 32"
    and "unused_files ps d"
  shows "\<exists>d'. execute_ddl up J (CreateTableStmt table cols c) d = Some (Ok Created, d') \<and> db_ready ps n J d' \<and>
    table_holds ps d' table (ddl_schema up cols) [] \<and> catalog_inv (ca_data (db_catalog d')) \<and> db_pool d' = db_pool d \<and>
    (\<forall>other sch rows. table_holds ps d other sch rows \<longrightarrow> table_holds ps d' other sch rows)"
  by (rule create_holds_rows [OF assms])

theorem create_table_empty_witness:
  "\<exists>d'. execute_ddl id json0 (CreateTableStmt ''t'' [\<lparr>cd_name = ''id'', cd_type = ''INT''\<rparr>] False) (db0 (\<lambda>_. None) 0) =
       Some (Ok Created, d') \<and> table_holds 56 d' ''t'' sch0 []"
proof -
  have z: "get_total_slots_from_bytes (replicate 56 0) = 0" by code_simp
  have u: "unused_files 56 (db0 (\<lambda>_. None) 0)" by (simp add: unused_files_def db0_ready(3,4) z)
  have c: "catalog_inv (ca_data (db_catalog (db0 (\<lambda>_. None) 0)))" "tables (ca_data (db_catalog (db0 (\<lambda>_. None) 0))) ''t'' = None"
    "unat (next_relation_id (ca_data (db_catalog (db0 (\<lambda>_. None) 0)))) + 2 < 2 ^ 32"
    by (simp_all add: db0_def catalog_inv_def)
  have s: "ddl_schema id [\<lparr>cd_name = ''id'', cd_type = ''INT''\<rparr>] = sch0" by (simp add: ddl_schema_def sch0_def column_type_def)
  have r: "db_ready 56 9 json0 (db0 (\<lambda>_. None) 0)" by (rule db0_ready(1)) simp
  from create_table_empty [OF r c(2,1,3) u, of id "[\<lparr>cd_name = ''id'', cd_type = ''INT''\<rparr>]" False, unfolded s]
  show ?thesis by blast
qed

end
