(* ===== verification/Text.thy ===== *)
theory Text
  imports Prelude "HOL-Library.Sublist"
begin

text \<open>
  What the program uses of \<open>str\<close>: searching, slicing, trimming and splitting. A string is the list of
  its UTF-8 bytes, positions are byte offsets, and a slice that does not begin and end between two
  characters panics. \<open>utf8_chars\<close> cuts a well-formed string into its characters.
\<close>

subsection \<open>Characters\<close>

definition char_size :: "char \<Rightarrow> nat" where
  "char_size c = (let b = (of_char c :: nat) in if b < 0x80 then 1 else if b < 0xE0 then 2 else if b < 0xF0 then 3 else 4)"

lemma char_size_pos [simp]: "0 < char_size c"
  by (simp add: char_size_def Let_def)

function utf8_chars :: "string \<Rightarrow> string list" where
  "utf8_chars [] = []"
| "utf8_chars (c # cs) = take (char_size c) (c # cs) # utf8_chars (drop (char_size c) (c # cs))"
  by pat_completeness auto
termination
  by (relation "measure length") auto

definition is_ascii :: "char \<Rightarrow> bool" where
  "is_ascii c \<longleftrightarrow> (of_char c :: nat) < 128"

definition ascii_whitespace :: "char \<Rightarrow> bool" where
  "ascii_whitespace c \<longleftrightarrow> c \<in> set [CHR '' '', CHR 0x09, CHR 0x0A, CHR 0x0C, CHR 0x0D]"

text \<open>The characters with the Unicode property \<open>White_Space\<close>.\<close>

definition whitespace_chars :: "string list" where
  "whitespace_chars = map (\<lambda>c. [c]) [CHR 0x09, CHR 0x0A, CHR 0x0B, CHR 0x0C, CHR 0x0D, CHR '' ''] @
     [[CHR 0xC2, CHR 0x85], [CHR 0xC2, CHR 0xA0], [CHR 0xE1, CHR 0x9A, CHR 0x80]] @
     map (\<lambda>c. [CHR 0xE2, CHR 0x80, c])
       [CHR 0x80, CHR 0x81, CHR 0x82, CHR 0x83, CHR 0x84, CHR 0x85, CHR 0x86, CHR 0x87, CHR 0x88, CHR 0x89, CHR 0x8A,
        CHR 0xA8, CHR 0xA9, CHR 0xAF] @
     [[CHR 0xE2, CHR 0x81, CHR 0x9F], [CHR 0xE3, CHR 0x80, CHR 0x80]]"

definition whitespace :: "string \<Rightarrow> bool" where
  "whitespace ch \<longleftrightarrow> ch \<in> set whitespace_chars"

text \<open>ASCII case folding: \<open>eq_ignore_ascii_case\<close>, and what \<open>to_uppercase\<close> does to an ASCII string.\<close>

definition ascii_lower :: "char \<Rightarrow> char" where
  "ascii_lower c = (let b = (of_char c :: nat) in if 65 \<le> b \<and> b \<le> 90 then char_of (b + 32) else c)"

definition ascii_upper :: "char \<Rightarrow> char" where
  "ascii_upper c = (let b = (of_char c :: nat) in if 97 \<le> b \<and> b \<le> 122 then char_of (b - 32) else c)"

definition eq_ignore_ascii_case :: "string \<Rightarrow> string \<Rightarrow> bool" where
  "eq_ignore_ascii_case s t \<longleftrightarrow> map ascii_lower s = map ascii_lower t"

subsection \<open>Searching and slicing\<close>

text \<open>\<open>find\<close>: the position of the first occurrence.\<close>

fun find_str :: "string \<Rightarrow> string \<Rightarrow> nat option" where
  "find_str pat [] = (if pat = [] then Some 0 else None)"
| "find_str pat (c # s) = (if prefix pat (c # s) then Some 0 else map_option Suc (find_str pat s))"

definition char_boundary :: "nat \<Rightarrow> string \<Rightarrow> bool" where
  "char_boundary i s \<longleftrightarrow> i = length s \<or> i < length s \<and> \<not> (let b = (of_char (s ! i) :: nat) in 0x80 \<le> b \<and> b < 0xC0)"

text \<open>\<open>str_slice i j s\<close> is \<open>&s[i..j]\<close>, \<open>str_from i s\<close> is \<open>&s[i..]\<close>.\<close>

definition str_slice :: "nat \<Rightarrow> nat \<Rightarrow> string \<Rightarrow> ('e, string) res" where
  "str_slice i j s = (if i \<le> j \<and> char_boundary i s \<and> char_boundary j s then Ok (peek i (j - i) s) else Panic)"

definition str_from :: "nat \<Rightarrow> string \<Rightarrow> ('e, string) res" where
  "str_from i s = str_slice i (length s) s"

subsection \<open>Trimming and splitting\<close>

definition trim :: "string \<Rightarrow> string" where
  "trim s = concat (rev (dropWhile whitespace (rev (dropWhile whitespace (utf8_chars s)))))"

definition trim_start_matches :: "char \<Rightarrow> string \<Rightarrow> string" where
  "trim_start_matches c s = dropWhile ((=) c) s"

definition trim_end_matches :: "char \<Rightarrow> string \<Rightarrow> string" where
  "trim_end_matches c s = rev (dropWhile ((=) c) (rev s))"

definition trim_matches :: "char \<Rightarrow> string \<Rightarrow> string" where
  "trim_matches c s = trim_end_matches c (trim_start_matches c s)"

text \<open>\<open>split\<close> at a character; \<open>split_acc c acc s\<close> has read the piece \<open>acc\<close>.\<close>

fun split_acc :: "char \<Rightarrow> string \<Rightarrow> string \<Rightarrow> string list" where
  "split_acc c acc [] = [acc]"
| "split_acc c acc (d # s) = (if d = c then acc # split_acc c [] s else split_acc c (acc @ [d]) s)"

definition split_at :: "char \<Rightarrow> string \<Rightarrow> string list" where
  "split_at c s = split_acc c [] s"

fun words_acc :: "string \<Rightarrow> string list \<Rightarrow> string list" where
  "words_acc acc [] = (if acc = [] then [] else [acc])"
| "words_acc acc (ch # chs) =
     (if whitespace ch then (if acc = [] then words_acc [] chs else acc # words_acc [] chs)
      else words_acc (acc @ ch) chs)"

definition split_whitespace :: "string \<Rightarrow> string list" where
  "split_whitespace s = words_acc [] (utf8_chars s)"

subsection \<open>ASCII strings\<close>

abbreviation ascii :: "string \<Rightarrow> bool" where
  "ascii s \<equiv> list_all is_ascii s"

lemma utf8_chars_ascii: "ascii s \<Longrightarrow> utf8_chars s = map (\<lambda>c. [c]) s"
  by (induction s) (simp_all add: char_size_def Let_def is_ascii_def)

abbreviation blank :: "char \<Rightarrow> bool" where
  "blank c \<equiv> whitespace [c]"

lemma concat_singletons [simp]: "concat (map (\<lambda>c. [c]) s) = s"
  by (induction s) simp_all

lemma dropWhile_singletons: "dropWhile whitespace (map (\<lambda>c. [c]) s) = map (\<lambda>c. [c]) (dropWhile blank s)"
  by (simp add: dropWhile_map comp_def)

lemma trim_ascii: "ascii s \<Longrightarrow> trim s = rev (dropWhile blank (rev (dropWhile blank s)))"
  by (simp only: trim_def utf8_chars_ascii dropWhile_singletons rev_map concat_singletons)

lemma trim_fix: "ascii s \<Longrightarrow> s \<noteq> [] \<Longrightarrow> \<not> blank (hd s) \<Longrightarrow> \<not> blank (last s) \<Longrightarrow> trim s = s"
  by (simp add: trim_ascii dropWhile_eq_self_iff [THEN iffD2] hd_rev)

lemma trim_Nil [simp]: "trim [] = []"
  by (simp add: trim_def)

lemma trim_blank_left: "ascii s \<Longrightarrow> trim (CHR '' '' # s) = trim s"
  by (simp add: trim_ascii is_ascii_def whitespace_def whitespace_chars_def)

lemma trim_blank_right:
  assumes "ascii s"
  shows "trim (s @ '' '') = trim s"
proof -
  have "blank CHR '' ''" and "is_ascii CHR '' ''" by (simp_all add: whitespace_def whitespace_chars_def is_ascii_def)
  moreover have "dropWhile blank s = []" if "\<forall>c \<in> set s. blank c"
    using that by (simp add: dropWhile_eq_Nil_conv)
  ultimately show ?thesis
    using assms by (cases "\<exists>c \<in> set s. \<not> blank c") (auto simp: trim_ascii dest: set_dropWhileD)
qed

lemma char_boundary_ascii: "ascii s \<Longrightarrow> char_boundary i s \<longleftrightarrow> i \<le> length s"
proof (cases "i < length s")
  case True
  assume "ascii s"
  then have "is_ascii (s ! i)" using True by (simp add: list_all_length)
  then show ?thesis using True by (simp add: char_boundary_def is_ascii_def)
qed (auto simp: char_boundary_def)

lemma str_slice_ascii: "ascii s \<Longrightarrow> i \<le> j \<Longrightarrow> j \<le> length s \<Longrightarrow> str_slice i j s = Ok (take (j - i) (drop i s))"
  by (simp add: str_slice_def char_boundary_ascii peek_def)

lemma str_from_ascii: "ascii s \<Longrightarrow> i \<le> length s \<Longrightarrow> str_from i s = Ok (drop i s)"
  by (simp add: str_from_def str_slice_ascii)

lemma ascii_upper_ascii [simp]: "is_ascii (ascii_upper c) = is_ascii c"
  by (auto simp: is_ascii_def ascii_upper_def Let_def)

lemma ascii_map_upper [simp]: "ascii (map ascii_upper s) = ascii s"
  by (simp add: list.pred_map comp_def)

end
