(* ===== verification/Sql_Parser.thy ===== *)
theory Sql_Parser
  imports Sql Text
begin

text \<open>
  The parser of \<open>crates/wackdb_sql/src/parser.rs\<close>: \<open>normalize_sql\<close> drops comments and folds white
  space, \<open>parse_sql\<close> finds the clauses of a statement by searching for their keywords in an
  upper-case copy of the text and slices the text itself at the positions found. A slice out of
  range, or one that cuts a character, panics.

  \<open>up\<close> is \<open>str::to_uppercase\<close>; the theorems rely on what it does to ASCII strings only. The loop over the
  clauses of a \<open>SELECT\<close> is cut into the step \<open>next_clause\<close> and its iteration \<open>parse_clauses\<close>, which
  terminates as every step moves on. The conditions of \<open>SELECT\<close> and \<open>DELETE\<close> are read by two copies of
  the same code that differ in the column name: \<open>col\<close> is what they make of the text left of the operator.
\<close>

subsection \<open>Normalisation\<close>

text \<open>The state of the loop: within a literal, within a comment, after a blank. All characters that are
  tested for are ASCII, so bytes are as good as characters.\<close>

function normalize :: "bool \<Rightarrow> bool \<Rightarrow> bool \<Rightarrow> string \<Rightarrow> string" where
  "normalize in_quotes in_comment last_was_space [] = []"
| "normalize in_quotes in_comment last_was_space (c # cs) =
     (if in_comment then
        if c = CHR 0x0A then
          if last_was_space then normalize in_quotes False True cs
          else CHR '' '' # normalize in_quotes False True cs
        else normalize in_quotes True last_was_space cs
      else if \<not> in_quotes \<and> c = CHR ''-'' \<and> cs \<noteq> [] \<and> hd cs = CHR ''-'' then normalize in_quotes True last_was_space (tl cs)
      else if c = CHR 0x27 then c # normalize (\<not> in_quotes) False False cs
      else if \<not> in_quotes \<and> ascii_whitespace c then
        if last_was_space then normalize in_quotes False True cs
        else CHR '' '' # normalize in_quotes False True cs
      else c # normalize in_quotes False False cs)"
  by pat_completeness auto
termination
  by (relation "measure (\<lambda>(_, _, _, s). length s)") auto

definition normalize_sql :: "string \<Rightarrow> string" where
  "normalize_sql sql = trim (normalize False False False sql)"

subsection \<open>Conditions\<close>

text \<open>The part of a column name behind the last dot.\<close>

definition unqualified :: "string \<Rightarrow> string" where
  "unqualified s = last (split_at CHR ''.'' s)"

text \<open>Whether the word \<open>kw\<close>, in any case, stands at position \<open>c\<close>; the test without its last blank comes first.\<close>

definition logic_at :: "string \<Rightarrow> nat \<Rightarrow> string \<Rightarrow> (string, bool) res" where
  "logic_at w c kw =
     (let n = length kw in
      if length w < c + (n - 1) then Ok False
      else res_bind (str_slice c (c + (n - 1)) w) (\<lambda>s1.
        if \<not> eq_ignore_ascii_case s1 (butlast kw) \<or> length w < c + n then Ok False
        else res_bind (str_slice c (c + n) w) (\<lambda>s2. Ok (eq_ignore_ascii_case s2 kw))))"

function split_conds :: "string \<Rightarrow> nat \<Rightarrow> nat \<Rightarrow> (string, (string \<times> logic_op option) list) res" where
  "split_conds w start c =
     (if length w \<le> c then res_bind (str_from start w) (\<lambda>s. Ok [(s, None)])
      else res_bind (logic_at w c '' and '') (\<lambda>is_and.
        if is_and then
          res_bind (str_slice start c w) (\<lambda>s. res_bind (split_conds w (c + 5) (c + 5)) (\<lambda>rest. Ok ((s, Some And) # rest)))
        else res_bind (logic_at w c '' or '') (\<lambda>is_or.
          if is_or then
            res_bind (str_slice start c w) (\<lambda>s. res_bind (split_conds w (c + 4) (c + 4)) (\<lambda>rest. Ok ((s, Some Or) # rest)))
          else split_conds w start (c + 1))))"
  by pat_completeness auto
termination
  by (relation "measure (\<lambda>(w, _, c). length w - c)") auto

declare split_conds.simps [simp del]

text \<open>The operator of a condition: its position, its length and what it means.\<close>

fun find_op :: "(string \<times> operator) list \<Rightarrow> string \<Rightarrow> (nat \<times> nat \<times> operator) option" where
  "find_op [] s = None"
| "find_op ((pat, op) # ops) s = (case find_str pat s of Some i \<Rightarrow> Some (i, length pat, op) | None \<Rightarrow> find_op ops s)"

definition operators :: "(string \<times> operator) list" where
  "operators = [(''>='', Gte), (''<='', Lte), (''!='', Neq), (''>'', Gt), (''<'', Lt), (''='', Eq)]"

definition parse_condition :: "(string \<Rightarrow> string) \<Rightarrow> string \<times> logic_op option \<Rightarrow> where_condition option" where
  "parse_condition col rc = (case rc of (raw, logic) \<Rightarrow>
     let raw_c = trim raw in
     if raw_c = [] then None
     else map_option (\<lambda>(i, n, op).
         \<lparr>left_col = col (trim (take i raw_c)), cond_op = op,
          right_val = trim_matches CHR 0x27 (trim (drop (i + n) raw_c)), next_logic = logic\<rparr>)
       (find_op operators raw_c))"

definition parse_conditions :: "(string \<Rightarrow> string) \<Rightarrow> string \<Rightarrow> (string, where_condition list) res" where
  "parse_conditions col w = res_bind (split_conds w 0 0) (\<lambda>raws. Ok (List.map_filter (parse_condition col) raws))"

subsection \<open>The clauses of a \<open>SELECT\<close>\<close>

text \<open>What a round of the loop finds: a join or conditions, and the position behind them; the column to
  order by, or nothing, and the loop ends.\<close>

datatype clause =
    JoinPart join_clause nat
  | WherePart "where_condition list" nat
  | OrderPart string
  | NoMore

text \<open>A table with its alias.\<close>

definition table_and_alias :: "string \<Rightarrow> string \<Rightarrow> (string, string \<times> string option) res" where
  "table_and_alias part missing = (case split_whitespace part of
       [] \<Rightarrow> Err missing
     | [t] \<Rightarrow> Ok (t, None)
     | t # a # _ \<Rightarrow> Ok (t, Some a))"

definition join_part :: "string \<Rightarrow> string \<Rightarrow> nat \<Rightarrow> nat \<Rightarrow> nat option \<Rightarrow> (string, clause) res" where
  "join_part rest upper_rest pos j_idx next_stop =
     res_bind (str_from j_idx upper_rest) (\<lambda>from_join.
     res_bind (ok_or (find_str '' ON '' from_join) ''Missing ON clause in JOIN'') (\<lambda>on_rel.
       let on_idx = on_rel + j_idx in
     res_bind (str_slice (j_idx + 6) on_idx rest) (\<lambda>tp.
     res_bind (table_and_alias (trim tp) ''Missing join table name'') (\<lambda>(j_table, j_alias).
     res_bind (str_from on_idx upper_rest) (\<lambda>from_on.
       let on_cond_end = (case find_str '' JOIN '' from_on of Some i \<Rightarrow> i + on_idx
         | None \<Rightarrow> (case next_stop of Some i \<Rightarrow> i + pos | None \<Rightarrow> length rest)) in
     res_bind (str_slice (on_idx + 4) on_cond_end rest) (\<lambda>op.
       let on_tokens = split_at CHR ''='' (trim op) in
       if length on_tokens < 2 then Err ''Missing right ON condition''
       else Ok (JoinPart \<lparr>jc_table = j_table, jc_alias = j_alias, jc_left_col = unqualified (trim (hd on_tokens)),
         jc_right_col = unqualified (trim (on_tokens ! 1))\<rparr> on_cond_end)))))))"

definition next_clause :: "string \<Rightarrow> string \<Rightarrow> nat \<Rightarrow> (string, clause) res" where
  "next_clause rest upper_rest pos =
     res_bind (str_from pos upper_rest) (\<lambda>ur.
       let next_join = find_str '' JOIN '' ur;
           next_where = find_str '' WHERE '' ur;
           next_order = find_str '' ORDER BY '' ur;
           process_join = (case (next_join, next_where, next_order) of
               (Some j, Some w, _) \<Rightarrow> j < w
             | (Some j, None, Some od) \<Rightarrow> j < od
             | (Some _, None, None) \<Rightarrow> True
             | _ \<Rightarrow> False) in
       if process_join then
         join_part rest upper_rest pos (pos + the next_join) (case next_where of Some w \<Rightarrow> Some w | None \<Rightarrow> next_order)
       else case next_where of
           Some w \<Rightarrow>
             if (case next_order of None \<Rightarrow> True | Some od \<Rightarrow> w < od) then
               let w_end = (case next_order of None \<Rightarrow> length rest | Some od \<Rightarrow> pos + od) in
               res_bind (str_slice (pos + w + 7) w_end rest) (\<lambda>wp.
               res_bind (parse_conditions unqualified (trim wp)) (\<lambda>conds. Ok (WherePart conds w_end)))
             else res_bind (str_from (pos + the next_order + 10) rest) (\<lambda>s. Ok (OrderPart (trim s)))
         | None \<Rightarrow> (case next_order of
             Some od \<Rightarrow> res_bind (str_from (pos + od + 10) rest) (\<lambda>s. Ok (OrderPart (trim s)))
           | None \<Rightarrow> Ok NoMore))"

lemma find_str_bound: "find_str pat s = Some i \<Longrightarrow> i + length pat \<le> length s"
  by (induction s arbitrary: i) (auto split: if_splits dest: prefix_length_le)

lemma str_slice_Ok_bound: "str_slice i j s = Ok t \<Longrightarrow> i \<le> j \<and> j \<le> length s"
  by (auto simp: str_slice_def char_boundary_def split: if_splits)

text \<open>Every step of the loop moves on.\<close>

lemma join_part_moves:
  assumes "join_part rest upper_rest pos j_idx stop = Ok cl" and "pos \<le> j_idx"
  shows "\<exists>j p. cl = JoinPart j p \<and> pos < p"
proof -
  have "\<exists>j stop_at on_rel tp. cl = JoinPart j stop_at \<and>
      str_slice (on_rel + j_idx + 4) stop_at rest = (Ok tp :: (string, string) res)"
    using assms(1) by (auto simp: join_part_def Let_def res_bind_eq_Ok split: if_splits)
  then show ?thesis using assms(2) by (auto dest!: str_slice_Ok_bound)
qed

lemma next_clause_moves:
  "next_clause rest upper_rest pos = Ok (JoinPart j p) \<Longrightarrow> pos < p"
  "next_clause rest upper_rest pos = Ok (WherePart conds p) \<Longrightarrow> pos < p"
  by (auto simp: next_clause_def Let_def res_bind_eq_Ok split: option.splits if_splits
      dest!: join_part_moves str_slice_Ok_bound)

function parse_clauses :: "string \<Rightarrow> string \<Rightarrow> nat \<Rightarrow> join_clause list \<Rightarrow> where_condition list \<Rightarrow>
    (string, join_clause list \<times> where_condition list \<times> string option) res" where
  "parse_clauses rest upper_rest pos joins conds =
     (if length rest \<le> pos then Ok (joins, conds, None)
      else case next_clause rest upper_rest pos of
          Ok (JoinPart j p) \<Rightarrow> parse_clauses rest upper_rest p (joins @ [j]) conds
        | Ok (WherePart cs p) \<Rightarrow> parse_clauses rest upper_rest p joins (conds @ cs)
        | Ok (OrderPart od) \<Rightarrow> Ok (joins, conds, Some od)
        | Ok NoMore \<Rightarrow> Ok (joins, conds, None)
        | Err e \<Rightarrow> Err e
        | Panic \<Rightarrow> Panic)"
  by pat_completeness auto
termination
  by (relation "measure (\<lambda>(rest, _, pos, _). length rest - pos)") (auto dest!: next_clause_moves)

declare parse_clauses.simps [simp del]

subsection \<open>Statements\<close>

definition parse_select :: "string \<Rightarrow> string \<Rightarrow> (string, ast) res" where
  "parse_select sql upper =
     res_bind (ok_or (find_str '' FROM '' upper) ''Missing FROM clause'') (\<lambda>from_idx.
     res_bind (str_slice 7 from_idx sql) (\<lambda>columns_str.
       let cols = map (\<lambda>s. unqualified (trim s)) (split_at CHR '','' (trim columns_str)) in
     res_bind (str_from (from_idx + 6) sql) (\<lambda>r.
     res_bind (str_from (from_idx + 6) upper) (\<lambda>ur.
       let rest = trim r; upper_rest = trim ur;
           table_end = (case find_str '' JOIN '' upper_rest of Some i \<Rightarrow> i
             | None \<Rightarrow> (case find_str '' WHERE '' upper_rest of Some i \<Rightarrow> i
             | None \<Rightarrow> (case find_str '' ORDER BY '' upper_rest of Some i \<Rightarrow> i | None \<Rightarrow> length rest))) in
     res_bind (str_slice 0 table_end rest) (\<lambda>tp.
     res_bind (table_and_alias (trim tp) ''Missing table name'') (\<lambda>(table, table_alias).
     res_bind (parse_clauses rest upper_rest table_end [] []) (\<lambda>(joins, conds, order_by).
       Ok (SelectStmt cols table table_alias joins conds order_by))))))))"

definition parse_insert :: "string \<Rightarrow> string \<Rightarrow> (string, ast) res" where
  "parse_insert sql upper =
     res_bind (ok_or (find_str '' VALUES '' upper) ''Missing VALUES clause'') (\<lambda>values_idx.
     res_bind (str_slice 12 values_idx sql) (\<lambda>table.
     res_bind (str_from (values_idx + 8) sql) (\<lambda>vs.
       Ok (InsertStmt (trim table)
         (map (\<lambda>s. trim_matches CHR 0x27 (trim s))
           (split_at CHR '','' (trim_end_matches CHR '')'' (trim_start_matches CHR ''('' (trim vs)))))))))"

definition parse_column_def :: "string \<Rightarrow> column_def option" where
  "parse_column_def s = (case split_whitespace s of
       n # t # _ \<Rightarrow> Some \<lparr>cd_name = n, cd_type = t\<rparr>
     | _ \<Rightarrow> None)"

definition parse_create :: "string \<Rightarrow> string \<Rightarrow> (string, ast) res" where
  "parse_create sql stripped =
     res_bind (str_from 13 sql) (\<lambda>r.
       let rest = trim r; if_not_exists = prefix ''IF NOT EXISTS '' (trim stripped) in
     res_bind (str_from (if if_not_exists then 14 else 0) rest) (\<lambda>tp.
       let table_part = trim tp in
       Ok (case find_str ''('' table_part of
           Some i \<Rightarrow> CreateTableStmt (trim (take i table_part))
             (List.map_filter parse_column_def
               (split_at CHR '','' (trim_end_matches CHR '')'' (trim (drop (i + 1) table_part))))) if_not_exists
         | None \<Rightarrow> CreateTableStmt (case split_whitespace table_part of [] \<Rightarrow> [] | t # _ \<Rightarrow> trim t) [] if_not_exists)))"

definition parse_drop :: "string \<Rightarrow> string \<Rightarrow> (string, ast) res" where
  "parse_drop sql stripped =
     res_bind (str_from 11 sql) (\<lambda>r.
       if prefix ''IF EXISTS '' stripped
       then res_bind (str_from 10 (trim r)) (\<lambda>t. Ok (DropTableStmt (trim t) True))
       else Ok (DropTableStmt (trim r) False))"

definition parse_delete :: "string \<Rightarrow> string \<Rightarrow> (string, ast) res" where
  "parse_delete sql stripped =
     res_bind (str_from 12 sql) (\<lambda>r.
       let rest = trim r; where_idx = find_str '' WHERE '' (trim stripped) in
     res_bind (str_slice 0 (case where_idx of Some i \<Rightarrow> i | None \<Rightarrow> length rest) rest) (\<lambda>t.
       case where_idx of
         None \<Rightarrow> Ok (DeleteStmt (trim t) [])
       | Some w \<Rightarrow>
           res_bind (str_from (w + 7) rest) (\<lambda>wp.
           res_bind (parse_conditions id (trim wp)) (\<lambda>conds. Ok (DeleteStmt (trim t) conds)))))"

definition parse_sql :: "(string \<Rightarrow> string) \<Rightarrow> string \<Rightarrow> (string, ast) res" where
  "parse_sql up raw_sql =
     (let sql = normalize_sql (trim_end_matches CHR '';'' (trim raw_sql)); upper = up sql in
      if prefix ''SELECT '' upper then parse_select sql upper
      else if prefix ''INSERT INTO '' upper then parse_insert sql upper
      else if prefix ''CREATE TABLE '' upper then parse_create sql (drop 13 upper)
      else if prefix ''DROP TABLE '' upper then parse_drop sql (drop 11 upper)
      else if prefix ''DELETE FROM '' upper then parse_delete sql (drop 12 upper)
      else Err ''Unsupported SQL statement'')"

end
