(* ===== verification/Sql_Words.thy ===== *)
theory Sql_Words
  imports Sql_Parser
begin

text \<open>
  Searching and splitting texts that are made of words: \<open>spaced ws\<close> puts a blank before every word.
  A keyword between blanks is found exactly where it is a word of the text.
\<close>

subsection \<open>Words\<close>

fun spaced :: "string list \<Rightarrow> string" where
  "spaced [] = []"
| "spaced (w # ws) = CHR '' '' # w @ spaced ws"

definition graphic :: "char \<Rightarrow> bool" where
  "graphic c \<longleftrightarrow> 33 \<le> (of_char c :: nat) \<and> (of_char c :: nat) \<le> 126"

definition word_ok :: "string \<Rightarrow> bool" where
  "word_ok w \<longleftrightarrow> w \<noteq> [] \<and> list_all graphic w"

abbreviation upper :: "string \<Rightarrow> string" where
  "upper s \<equiv> map ascii_upper s"

lemma spaced_append [simp]: "spaced (xs @ ys) = spaced xs @ spaced ys"
  by (induction xs) simp_all

lemma upper_blank [simp]: "ascii_upper CHR '' '' = CHR '' ''"
  by (simp add: ascii_upper_def)

lemma upper_spaced: "upper (spaced ws) = spaced (map upper ws)"
  by (induction ws) simp_all

lemma graphic_ascii: "graphic c \<Longrightarrow> is_ascii c"
  by (simp add: graphic_def is_ascii_def)

lemma graphic_not_blank: "graphic c \<Longrightarrow> \<not> blank c"
  by (auto simp: graphic_def whitespace_def whitespace_chars_def)

lemma graphic_upper [simp]: "graphic c \<Longrightarrow> graphic (ascii_upper c)"
  by (auto simp: graphic_def ascii_upper_def Let_def)

lemma graphic_no_space: "list_all graphic w \<Longrightarrow> CHR '' '' \<notin> set w"
  by (auto simp: graphic_def list_all_iff)

lemma word_ok_upper [simp]: "word_ok w \<Longrightarrow> word_ok (upper w)"
  by (simp add: word_ok_def list.pred_map comp_def list.pred_mono_strong [of graphic])

lemma word_ok_space [simp]: "word_ok w \<Longrightarrow> CHR '' '' \<notin> set w"
  by (simp add: word_ok_def graphic_no_space)

lemma ascii_word [simp]: "word_ok w \<Longrightarrow> ascii w"
  by (simp add: word_ok_def list_all_iff graphic_ascii)

lemma ascii_spaced [simp]: "\<forall>w \<in> set ws. word_ok w \<Longrightarrow> ascii (spaced ws)"
  by (induction ws) (simp_all add: is_ascii_def)

lemma hd_last_word: "word_ok w \<Longrightarrow> \<not> blank (hd w) \<and> \<not> blank (last w)"
  by (simp add: word_ok_def list_all_iff graphic_not_blank)

lemma last_spaced: "\<forall>w \<in> set ws. word_ok w \<Longrightarrow> ws \<noteq> [] \<Longrightarrow> last (spaced ws) = last (last ws)"
  by (induction ws rule: rev_induct) (auto simp: word_ok_def)

lemma spaced_Nil [simp]: "spaced ws = [] \<longleftrightarrow> ws = []"
  by (cases ws) simp_all

lemma trim_words:
  assumes "word_ok w" and "\<forall>w \<in> set ws. word_ok w"
  shows "trim (w @ spaced ws) = w @ spaced ws"
proof -
  have "last (w @ spaced ws) = last (last (w # ws))" using assms last_spaced [of ws] by (simp add: last_append)
  moreover have "word_ok (last (w # ws))" using assms by (cases "ws = []") auto
  ultimately show ?thesis
    using assms hd_last_word [of w] hd_last_word [of "last (w # ws)"] by (intro trim_fix) (auto simp: word_ok_def)
qed

lemma trim_word: "word_ok w \<Longrightarrow> trim w = w"
  using trim_words [of w "[]"] by simp

lemma trim_spaced: "\<forall>w \<in> set (w # ws). word_ok w \<Longrightarrow> trim (spaced (w # ws)) = w @ spaced ws"
  by (simp add: trim_blank_left trim_words)

lemma words_acc_word: "list_all graphic w \<Longrightarrow> words_acc acc (map (\<lambda>c. [c]) w @ chs) = words_acc (acc @ w) chs"
  by (induction w arbitrary: acc) (simp_all add: graphic_not_blank)

lemma words_acc_spaced:
  "acc \<noteq> [] \<Longrightarrow> \<forall>w \<in> set ws. word_ok w \<Longrightarrow> words_acc acc (map (\<lambda>c. [c]) (spaced ws)) = acc # ws"
proof (induction ws arbitrary: acc)
  case (Cons w ws)
  have "blank CHR '' ''" by (simp add: whitespace_def whitespace_chars_def)
  then show ?case using Cons by (simp add: words_acc_word word_ok_def)
qed simp

lemma split_whitespace_words: "word_ok w \<Longrightarrow> \<forall>w \<in> set ws. word_ok w \<Longrightarrow> split_whitespace (w @ spaced ws) = w # ws"
  by (simp add: split_whitespace_def utf8_chars_ascii words_acc_word words_acc_spaced word_ok_def)

subsection \<open>Finding keywords\<close>

lemma takeWhile_word: "CHR '' '' \<notin> set w \<Longrightarrow> takeWhile (\<lambda>c. c \<noteq> CHR '' '') (w @ spaced ws) = w"
  by (cases ws) (auto simp: takeWhile_append2 takeWhile_tail)

lemma prefix_word:
  assumes "prefix (k @ CHR '' '' # r) (w @ spaced ws)" and "CHR '' '' \<notin> set k" and "CHR '' '' \<notin> set w"
  shows "k = w"
proof -
  obtain zs where "w @ spaced ws = k @ CHR '' '' # r @ zs" using assms(1) by (auto simp: prefix_def)
  then have "takeWhile (\<lambda>c. c \<noteq> CHR '' '') (w @ spaced ws) = takeWhile (\<lambda>c. c \<noteq> CHR '' '') (k @ CHR '' '' # r @ zs)" by simp
  also have "\<dots> = k" using assms(2) by (subst takeWhile_append2) auto
  finally show ?thesis using assms(3) by (simp add: takeWhile_word)
qed

definition shift :: "nat \<Rightarrow> nat option \<Rightarrow> nat option" where
  "shift n r = map_option (\<lambda>i. n + i) r"

lemma shift_simps [simp]: "shift n None = None" "shift n (Some i) = Some (n + i)" "shift 0 r = r"
    "shift m (shift n r) = shift (m + n) r" "map_option Suc r = shift 1 r"
  by (cases r; simp add: shift_def)+

lemma find_skip_chars: "CHR '' '' \<notin> set w \<Longrightarrow> find_str (CHR '' '' # p) (w @ s) = shift (length w) (find_str (CHR '' '' # p) s)"
  by (induction w) auto

lemma find_skip_word:
  assumes "CHR '' '' \<notin> set k" and "CHR '' '' \<notin> set w" and "w \<noteq> k"
  shows "find_str (CHR '' '' # k @ CHR '' '' # r) (spaced (w # ws)) =
    shift (length (spaced [w])) (find_str (CHR '' '' # k @ CHR '' '' # r) (spaced ws))"
proof -
  have "\<not> prefix (k @ CHR '' '' # r) (w @ spaced ws)" using assms prefix_word by blast
  then show ?thesis using assms by (simp add: find_skip_chars)
qed

lemma find_skip:
  assumes "CHR '' '' \<notin> set k" and "\<forall>w \<in> set xs. CHR '' '' \<notin> set w \<and> w \<noteq> k"
  shows "find_str (CHR '' '' # k @ CHR '' '' # r) (spaced (xs @ ws)) =
    shift (length (spaced xs)) (find_str (CHR '' '' # k @ CHR '' '' # r) (spaced ws))"
  using assms(2)
proof (induction xs)
  case (Cons x xs)
  have "find_str (CHR '' '' # k @ CHR '' '' # r) (spaced (x # xs @ ws)) =
      shift (length (spaced [x])) (find_str (CHR '' '' # k @ CHR '' '' # r) (spaced (xs @ ws)))"
    using Cons.prems assms(1) by (intro find_skip_word) auto
  then show ?case using Cons by simp
qed simp

lemma find_here: "prefix (CHR '' '' # r) (spaced ws) \<Longrightarrow> find_str (CHR '' '' # k @ CHR '' '' # r) (spaced (k # ws)) = Some 0"
  by simp

end
