(* ===== verification/Sql_Conditions.thy ===== *)
theory Sql_Conditions
  imports Sql_Words
begin

text \<open>
  The conditions of a statement, printed and parsed: \<open>split_conds\<close> scans byte offsets; on ASCII text it
  is \<open>split_list\<close>, a recursion over the text, which cuts a printed clause into its conditions.
\<close>

subsection \<open>Printing\<close>

text \<open>Identifiers are no keywords, in any case; values are printed as literals.\<close>

definition reserved :: "string list" where
  "reserved = [''FROM'', ''JOIN'', ''ON'', ''WHERE'', ''ORDER'', ''AND'', ''OR'', ''VALUES'', ''IF'']"

definition ident_char :: "char \<Rightarrow> bool" where
  "ident_char c \<longleftrightarrow> (let b = (of_char c :: nat) in 48 \<le> b \<and> b \<le> 57 \<or> 65 \<le> b \<and> b \<le> 90 \<or> 97 \<le> b \<and> b \<le> 122 \<or> b = 95)"

definition ident :: "string \<Rightarrow> bool" where
  "ident w \<longleftrightarrow> w \<noteq> [] \<and> list_all ident_char w \<and> upper w \<notin> set reserved"

definition sql_literal :: "string \<Rightarrow> string" where
  "sql_literal v = CHR 0x27 # v @ [CHR 0x27]"

definition value_ok :: "string \<Rightarrow> bool" where
  "value_ok v \<longleftrightarrow> list_all graphic v \<and> CHR 0x27 \<notin> set v \<and> CHR ''<'' \<notin> set v \<and> CHR ''>'' \<notin> set v \<and>
     CHR ''='' \<notin> set v \<and> CHR ''!'' \<notin> set v"

fun show_op :: "operator \<Rightarrow> string" where
  "show_op Eq = ''=''"
| "show_op Neq = ''!=''"
| "show_op Gt = ''>''"
| "show_op Gte = ''>=''"
| "show_op Lt = ''<''"
| "show_op Lte = ''<=''"

fun logic_words :: "logic_op option \<Rightarrow> string list" where
  "logic_words None = []"
| "logic_words (Some And) = [''AND'']"
| "logic_words (Some Or) = [''OR'']"

definition cond_words :: "where_condition list \<Rightarrow> string list" where
  "cond_words conds = concat (map (\<lambda>c. [left_col c, show_op (cond_op c), sql_literal (right_val c)] @ logic_words (next_logic c)) conds)"

fun conds_ok :: "where_condition list \<Rightarrow> bool" where
  "conds_ok [] \<longleftrightarrow> False"
| "conds_ok [c] \<longleftrightarrow> ident (left_col c) \<and> value_ok (right_val c) \<and> next_logic c = None"
| "conds_ok (c # d # cs) \<longleftrightarrow> ident (left_col c) \<and> value_ok (right_val c) \<and> next_logic c \<noteq> None \<and> conds_ok (d # cs)"

subsection \<open>Words of a statement\<close>

lemma ident_char_graphic: "ident_char c \<Longrightarrow> graphic c"
  by (auto simp: ident_char_def graphic_def Let_def)

lemma ident_char_plain: "ident_char c \<Longrightarrow> c \<notin> {CHR 0x27, CHR ''<'', CHR ''>'', CHR ''='', CHR ''.'', CHR '','', CHR ''-'', CHR ''!'', CHR ''('', CHR '')'', CHR '';''}"
  by (auto simp: ident_char_def)

lemma ident_plain: "ident w \<Longrightarrow> set w \<inter> {CHR 0x27, CHR ''<'', CHR ''>'', CHR ''='', CHR ''.'', CHR '','', CHR ''-'', CHR ''!'', CHR ''('', CHR '')'', CHR '';''} = {}"
  using ident_char_plain by (fastforce simp: ident_def list_all_iff)

lemma ident_word [simp]: "ident w \<Longrightarrow> word_ok w"
  by (auto simp: ident_def word_ok_def list_all_iff ident_char_graphic)

lemma quoted_word [simp]: "value_ok v \<Longrightarrow> word_ok (sql_literal v)"
  by (simp add: value_ok_def sql_literal_def word_ok_def graphic_def)

lemma op_word [simp]: "word_ok (show_op op)"
  by (cases op) (simp_all add: word_ok_def graphic_def)

lemma logic_word [simp]: "w \<in> set (logic_words l) \<Longrightarrow> word_ok w"
  by (cases l rule: logic_words.cases) (auto simp: word_ok_def graphic_def)

lemma upper_lower: "ascii_upper (ascii_lower c) = ascii_upper c"
  by (auto simp: ascii_upper_def ascii_lower_def Let_def)

lemma lower_upper: "map ascii_lower w = map ascii_lower k \<Longrightarrow> upper w = upper k"
  by (metis (no_types, lifting) comp_apply list.map_comp map_cong upper_lower)

lemma ident_no_logic:
  assumes "ident w"
  shows "map ascii_lower w \<noteq> ''and''" and "map ascii_lower w \<noteq> ''or''"
proof -
  have "map ascii_lower ''and'' = ''and''" "map ascii_lower ''or'' = ''or''" "upper ''and'' = ''AND''" "upper ''or'' = ''OR''"
    by code_simp+
  then show "map ascii_lower w \<noteq> ''and''" "map ascii_lower w \<noteq> ''or''"
    using assms lower_upper [of w "''and''"] lower_upper [of w "''or''"] by (auto simp: ident_def reserved_def)
qed

subsection \<open>Splitting at connectives\<close>

definition kw_prefix :: "string \<Rightarrow> string \<Rightarrow> bool" where
  "kw_prefix kw s \<longleftrightarrow> map ascii_lower (take (length kw) s) = kw"

function split_list :: "string \<Rightarrow> string \<Rightarrow> (string \<times> logic_op option) list" where
  "split_list acc [] = [(acc, None)]"
| "split_list acc (c # s) =
     (if kw_prefix '' and '' (c # s) then (acc, Some And) # split_list [] (drop 4 s)
      else if kw_prefix '' or '' (c # s) then (acc, Some Or) # split_list [] (drop 3 s)
      else split_list (acc @ [c]) s)"
  by pat_completeness auto
termination
  by (relation "measure (\<lambda>(_, s). length s)") auto

lemma logic_at_ascii:
  assumes "ascii w" and "c \<le> length w" and "kw \<noteq> []" and "map ascii_lower kw = kw"
  shows "logic_at w c kw = Ok (kw_prefix kw (drop c w))"
proof -
  have len: "length (take (length kw) (drop c w)) = length kw" if "kw_prefix kw (drop c w)"
    using that by (metis kw_prefix_def length_map)
  have "map ascii_lower (take (length kw - 1) (drop c w)) = butlast kw" if "kw_prefix kw (drop c w)"
  proof -
    have "take (length kw - 1) (map ascii_lower (take (length kw) (drop c w))) = take (length kw - 1) kw"
      using that by (simp only: kw_prefix_def)
    then show ?thesis by (simp add: take_map butlast_conv_take)
  qed
  moreover have "map ascii_lower (butlast kw) = butlast kw" using assms(4) by (metis map_butlast)
  moreover have "c + length kw \<le> length w" if "kw_prefix kw (drop c w)" using len [OF that] assms(2) by simp
  ultimately show ?thesis
    using assms by (auto simp: logic_at_def Let_def str_slice_ascii eq_ignore_ascii_case_def kw_prefix_def)
qed

lemma split_conds_list:
  "ascii (p @ acc @ s) \<Longrightarrow> split_conds (p @ acc @ s) (length p) (length p + length acc) = Ok (split_list acc s)"
proof (induction acc s arbitrary: p rule: split_list.induct)
  case (1 acc)
  then show ?case by (subst split_conds.simps) (simp add: str_from_ascii)
next
  case (2 acc c s)
  let ?w = "p @ acc @ c # s"
  have kw: "logic_at ?w (length p + length acc) k = Ok (kw_prefix k (c # s))" if "k \<noteq> []" "map ascii_lower k = k" for k
    using that "2.prems" by (subst logic_at_ascii) auto
  have low: "map ascii_lower '' and '' = '' and ''" "map ascii_lower '' or '' = '' or ''" by code_simp+
  have slice: "str_slice (length p) (length p + length acc) ?w = (Ok acc :: (string, string) res)"
    using "2.prems" by (subst str_slice_ascii) auto
  have skip: "split_conds ?w (length p + length acc + n) (length p + length acc + n) = Ok (split_list [] (drop n (c # s)))"
    if IH: "\<And>p. ascii (p @ [] @ drop n (c # s)) \<Longrightarrow> split_conds (p @ [] @ drop n (c # s)) (length p) (length p + length []) =
      Ok (split_list [] (drop n (c # s)))" and "length (take n (c # s)) = n" for n
  proof -
    have w: "?w = (p @ acc @ take n (c # s)) @ [] @ drop n (c # s)" by (simp add: append_take_drop_id)
    have "length (p @ acc @ take n (c # s)) = length p + length acc + n" using that(2) by simp
    then show ?thesis using IH [of "p @ acc @ take n (c # s)"] "2.prems" unfolding w by (metis add.right_neutral length_0_conv)
  qed
  have full: "length (take (length k) (c # s)) = length k" if "kw_prefix k (c # s)" for k
    using that by (metis kw_prefix_def length_map)
  consider "kw_prefix '' and '' (c # s)" | "\<not> kw_prefix '' and '' (c # s)" "kw_prefix '' or '' (c # s)"
    | "\<not> kw_prefix '' and '' (c # s)" "\<not> kw_prefix '' or '' (c # s)" by blast
  then show ?case
  proof cases
    case 1
    then show ?thesis using "2.IH"(1) skip [of 5] full [OF 1] low
      by (subst split_conds.simps) (simp add: kw slice)
  next
    case 2
    then show ?thesis using "2.IH"(2) skip [of 4] full [OF 2(2)] low
      by (subst split_conds.simps) (simp add: kw slice)
  next
    case 3
    then show ?thesis using "2.IH"(3) [of p] "2.prems" low
      by (subst split_conds.simps) (simp add: kw)
  qed
qed


lemma split_list_skip: "CHR '' '' \<notin> set w \<Longrightarrow> split_list acc (w @ s) = split_list (acc @ w) s"
proof (induction w arbitrary: acc)
  case (Cons c w)
  have "ascii_lower c \<noteq> CHR '' ''"
  proof
    assume c: "ascii_lower c = CHR '' ''"
    have "ascii_upper c = CHR '' ''" using upper_lower [of c] c by simp
    then show False using c Cons.prems by (auto simp: ascii_upper_def ascii_lower_def Let_def split: if_splits)
  qed
  then show ?case using Cons by (simp add: kw_prefix_def)
qed simp

lemma no_kw_prefix:
  assumes "CHR '' '' \<notin> set k" and "CHR '' '' \<notin> set w" and "map ascii_lower w \<noteq> k"
  shows "\<not> kw_prefix (CHR '' '' # k @ '' '') (CHR '' '' # w @ spaced ws)"
proof
  assume "kw_prefix (CHR '' '' # k @ '' '') (CHR '' '' # w @ spaced ws)"
  then have "map ascii_lower (take (length k + 1) (w @ spaced ws)) = k @ '' ''" by (simp add: kw_prefix_def)
  then have "prefix (k @ CHR '' '' # []) (map ascii_lower (w @ spaced ws))"
    by (metis append_take_drop_id map_append prefixI)
  moreover have "map ascii_lower (spaced ws) = spaced (map (map ascii_lower) ws)"
    by (induction ws) (simp_all add: ascii_lower_def)
  moreover have "CHR '' '' \<notin> set (map ascii_lower w)"
  proof
    assume "CHR '' '' \<in> set (map ascii_lower w)"
    then obtain c where "c \<in> set w" "ascii_lower c = CHR '' ''" by auto
    then show False using assms(2) split_list_skip upper_lower [of c]
      by (auto simp: ascii_upper_def ascii_lower_def Let_def split: if_splits)
  qed
  ultimately show False using prefix_word assms(1,3) by (metis map_append)
qed

text \<open>A word that is no connective stays in its condition; a connective ends it.\<close>

lemma split_list_word:
  assumes "CHR '' '' \<notin> set w" and "map ascii_lower w \<noteq> ''and''" and "map ascii_lower w \<noteq> ''or''"
  shows "split_list acc (spaced (w # ws)) = split_list (acc @ CHR '' '' # w) (spaced ws)"
proof -
  have "\<not> kw_prefix '' and '' (CHR '' '' # w @ spaced ws)" "\<not> kw_prefix '' or '' (CHR '' '' # w @ spaced ws)"
    using no_kw_prefix [of "''and''" w ws] no_kw_prefix [of "''or''" w ws] assms by auto
  then show ?thesis using assms(1) by (simp add: split_list_skip)
qed

lemma kw_prefix_append: "map ascii_lower p = k \<Longrightarrow> kw_prefix k (p @ r)"
  by (auto simp: kw_prefix_def)

lemma split_list_and: "split_list acc (spaced (''AND'' # v # ws)) = (acc, Some And) # split_list [] (v @ spaced ws)"
proof -
  have "kw_prefix '' and '' ('' AND '' @ v @ spaced ws)" by (rule kw_prefix_append) code_simp
  then show ?thesis by simp
qed

lemma split_list_or: "split_list acc (spaced (''OR'' # v # ws)) = (acc, Some Or) # split_list [] (v @ spaced ws)"
proof -
  have "kw_prefix '' or '' ('' OR '' @ v @ spaced ws)" by (rule kw_prefix_append) code_simp
  moreover have "\<not> kw_prefix '' and '' ('' OR '' @ v @ spaced ws)"
    using no_kw_prefix [of "''and''" "''OR''" "v # ws"] by (simp add: ascii_lower_def)
  ultimately show ?thesis by simp
qed

subsection \<open>Conditions one by one\<close>

lemma find_none: "c \<in> set pat \<Longrightarrow> c \<notin> set s \<Longrightarrow> find_str pat s = None"
  by (induction s) (use set_mono_prefix in fastforce)+

lemma find_first: "c \<notin> set a \<Longrightarrow> find_str (c # p) (a @ c # p @ b) = Some (length a)"
  by (induction a) auto

lemma find_op_printed:
  assumes "ident c" and "value_ok v"
  shows "find_op operators (c @ spaced [show_op op, sql_literal v]) = Some (length c + 1, length (show_op op), op)"
proof -
  let ?s = "c @ spaced [show_op op, sql_literal v]"
  have plain: "CHR ''<'' \<notin> set c" "CHR ''>'' \<notin> set c" "CHR ''='' \<notin> set c" "CHR ''!'' \<notin> set c" "CHR 0x27 \<notin> set c"
    using ident_plain [OF assms(1)] by auto
  have val: "CHR ''<'' \<notin> set (sql_literal v)" "CHR ''>'' \<notin> set (sql_literal v)" "CHR ''='' \<notin> set (sql_literal v)" "CHR ''!'' \<notin> set (sql_literal v)"
    using assms(2) by (auto simp: value_ok_def sql_literal_def)
  have first: "find_str (show_op op) ?s = Some (length c + 1)"
    using plain find_first [of "hd (show_op op)" "c @ '' ''" "tl (show_op op)" "spaced [sql_literal v]"] by (cases op) auto
  have none: "find_str p ?s = None" if "x \<in> set p" "x \<in> {CHR ''<'', CHR ''>'', CHR ''='', CHR ''!''}" "x \<notin> set (show_op op)" for p x
    using that plain val by (intro find_none) auto
  show ?thesis
    using first none [of "CHR ''<''"] none [of "CHR ''>''"] none [of "CHR ''=''"] none [of "CHR ''!''"]
    by (cases op) (simp_all add: operators_def)
qed

lemma trim_quoted:
  assumes "CHR 0x27 \<notin> set v"
  shows "trim_matches CHR 0x27 (sql_literal v) = v"
proof -
  have "dropWhile ((=) CHR 0x27) (rev v) = rev v"
    using assms by (cases v rule: rev_cases) auto
  moreover have "dropWhile ((=) CHR 0x27) (v @ [CHR 0x27]) = (if v = [] then [] else v @ [CHR 0x27])"
    using assms by (cases v) auto
  ultimately show ?thesis
    by (auto simp: trim_matches_def trim_start_matches_def trim_end_matches_def sql_literal_def)
qed

lemma parse_condition_printed:
  assumes "ident (left_col c)" and "value_ok (right_val c)" and "\<And>w. ident w \<Longrightarrow> col w = w"
  shows "parse_condition col (left_col c @ spaced [show_op (cond_op c), sql_literal (right_val c)], next_logic c) = Some c"
proof -
  let ?s = "left_col c @ spaced [show_op (cond_op c), sql_literal (right_val c)]"
  have "trim ?s = ?s" using assms by (intro trim_words) auto
  moreover have "?s \<noteq> []" by simp
  moreover have "trim (left_col c @ '' '') = left_col c" using assms(1) by (simp add: trim_blank_right trim_word)
  moreover have "trim (CHR '' '' # sql_literal (right_val c)) = sql_literal (right_val c)"
    using assms(2) by (simp add: trim_blank_left trim_word)
  moreover have "trim_matches CHR 0x27 (sql_literal (right_val c)) = right_val c"
    using assms(2) by (intro trim_quoted) (simp add: value_ok_def)
  ultimately show ?thesis
    using find_op_printed [OF assms(1,2), of "cond_op c"] assms(1,3) by (simp add: parse_condition_def Let_def)
qed


text \<open>A printed clause is cut into its conditions.\<close>

lemma quoted_no_logic: "map ascii_lower (sql_literal v) \<noteq> ''and''" "map ascii_lower (sql_literal v) \<noteq> ''or''"
  by (auto simp: sql_literal_def ascii_lower_def)

lemma op_no_logic: "map ascii_lower (show_op op) \<noteq> ''and''" "map ascii_lower (show_op op) \<noteq> ''or''"
  by (cases op; simp add: ascii_lower_def)+

abbreviation raw_cond :: "where_condition \<Rightarrow> string" where
  "raw_cond c \<equiv> left_col c @ spaced [show_op (cond_op c), sql_literal (right_val c)]"

lemma split_list_cond:
  assumes "ident (left_col c)" and "value_ok (right_val c)"
  shows "split_list [] (left_col c @ spaced (show_op (cond_op c) # sql_literal (right_val c) # ws)) = split_list (raw_cond c) (spaced ws)"
proof -
  have c: "split_list [] (left_col c @ s) = split_list (left_col c) s" for s
    using split_list_skip [of "left_col c" "[]" s] assms by simp
  have opw: "split_list acc (spaced (show_op op # us)) = split_list (acc @ CHR '' '' # show_op op) (spaced us)" for acc op us
    by (rule split_list_word) (simp_all add: op_no_logic)
  have v: "split_list acc (spaced (sql_literal (right_val c) # us)) = split_list (acc @ CHR '' '' # sql_literal (right_val c)) (spaced us)" for acc us
    using assms by (intro split_list_word) (simp_all add: quoted_no_logic)
  show ?thesis unfolding c opw v by simp
qed

lemma split_list_logic:
  "l \<noteq> None \<Longrightarrow> split_list acc (spaced (logic_words l @ w # ws)) = (acc, l) # split_list [] (w @ spaced ws)"
  by (cases l rule: logic_words.cases) (simp_all only: logic_words.simps append.simps split_list_and split_list_or simp_thms)

lemma cond_words_Cons: "cond_words (c # cs) =
    left_col c # show_op (cond_op c) # sql_literal (right_val c) # logic_words (next_logic c) @ cond_words cs"
  by (simp add: cond_words_def)

lemma split_list_conds:
  "conds_ok conds \<Longrightarrow> split_list [] (left_col (hd conds) @ spaced (tl (cond_words conds))) = map (\<lambda>c. (raw_cond c, next_logic c)) conds"
proof (induction conds rule: conds_ok.induct)
  case (2 c)
  then show ?case using split_list_cond [of c "[]"] by (simp add: cond_words_def del: spaced.simps(2))
next
  case (3 c d cs)
  have words: "cond_words (d # cs) = left_col d # tl (cond_words (d # cs))" by (simp add: cond_words_def)
  have "split_list [] (left_col (hd (c # d # cs)) @ spaced (tl (cond_words (c # d # cs)))) =
      split_list (raw_cond c) (spaced (logic_words (next_logic c) @ left_col d # tl (cond_words (d # cs))))"
    using 3 split_list_cond [of c "logic_words (next_logic c) @ cond_words (d # cs)"] words
    by (simp only: cond_words_Cons [of c] list.sel conds_ok.simps)
  also have "\<dots> = (raw_cond c, next_logic c) # split_list [] (left_col d @ spaced (tl (cond_words (d # cs))))"
    using 3 by (intro split_list_logic) simp
  finally show ?case using 3 by simp
qed simp

lemma conds_ok_words: "conds_ok conds \<Longrightarrow> w \<in> set (cond_words conds) \<Longrightarrow> word_ok w"
  by (induction conds rule: conds_ok.induct) (auto simp: cond_words_Cons cond_words_def [of "[]"])

lemma conds_ok_head: "conds_ok conds \<Longrightarrow> cond_words conds = left_col (hd conds) # tl (cond_words conds)"
  by (cases conds) (simp_all add: cond_words_Cons)

lemma conds_ok_each: "conds_ok conds \<Longrightarrow> c \<in> set conds \<Longrightarrow> ident (left_col c) \<and> value_ok (right_val c)"
  by (induction conds rule: conds_ok.induct) auto

theorem parse_conditions_printed:
  assumes "conds_ok conds" and "\<And>w. ident w \<Longrightarrow> col w = w"
  shows "parse_conditions col (trim (spaced (cond_words conds))) = Ok conds"
proof -
  let ?w = "left_col (hd conds) @ spaced (tl (cond_words conds))"
  have words: "\<forall>w \<in> set (left_col (hd conds) # tl (cond_words conds)). word_ok w"
    using conds_ok_words conds_ok_head assms(1) by metis
  then have "trim (spaced (cond_words conds)) = ?w" using conds_ok_head [OF assms(1)] trim_spaced by metis
  moreover have "ascii ?w" using words by simp
  then have "split_conds ?w 0 0 = Ok (map (\<lambda>c. (raw_cond c, next_logic c)) conds)"
    using split_conds_list [of "[]" "[]" ?w] split_list_conds [OF assms(1)] by simp
  moreover have "List.map_filter (parse_condition col) (map (\<lambda>c. (raw_cond c, next_logic c)) cs) = cs" if "set cs \<subseteq> set conds" for cs
    using that conds_ok_each [OF assms(1)] parse_condition_printed assms(2) by (induction cs) (simp_all add: map_filter_simps)
  ultimately show ?thesis by (simp add: parse_conditions_def)
qed

end
