(* ===== verification/Sql_Print.thy ===== *)
theory Sql_Print
  imports Sql_Conditions
begin

text \<open>
  Statements, printed and parsed: \<open>show_stmt\<close> prints a statement in the syntax of the dialect, and
  \<open>parse_sql\<close> reads it back. \<open>tidy\<close> texts are those that normalisation leaves alone.
\<close>

subsection \<open>Printing\<close>

fun joined :: "string \<Rightarrow> string list \<Rightarrow> string" where
  "joined sep [] = []"
| "joined sep [s] = s"
| "joined sep (s # t # ss) = s @ sep @ joined sep (t # ss)"

definition opt_words :: "string option \<Rightarrow> string list" where
  "opt_words a = (case a of None \<Rightarrow> [] | Some w \<Rightarrow> [w])"

definition on_words :: "join_clause \<Rightarrow> string list" where
  "on_words j = [''ON'', jc_left_col j, ''='', jc_right_col j]"

definition join_words :: "join_clause \<Rightarrow> string list" where
  "join_words j = ([''JOIN'', jc_table j] @ opt_words (jc_alias j)) @ on_words j"

definition where_words :: "where_condition list \<Rightarrow> string list" where
  "where_words conds = (if conds = [] then [] else ''WHERE'' # cond_words conds)"

definition order_words :: "string option \<Rightarrow> string list" where
  "order_words od = (case od of None \<Rightarrow> [] | Some c \<Rightarrow> [''ORDER'', ''BY'', c])"

definition clause_words :: "join_clause list \<Rightarrow> where_condition list \<Rightarrow> string option \<Rightarrow> string list" where
  "clause_words joins conds od = concat (map join_words joins) @ where_words conds @ order_words od"

fun show_stmt :: "ast \<Rightarrow> string" where
  "show_stmt (SelectStmt cols t a joins conds od) =
     ''SELECT'' @ spaced ([joined '','' cols, ''FROM'', t] @ opt_words a @ clause_words joins conds od)"
| "show_stmt (InsertStmt t vs) =
     ''INSERT INTO '' @ t @ '' VALUES ('' @ joined '', '' (map sql_literal vs) @ '')''"
| "show_stmt (CreateTableStmt t cols ine) =
     ''CREATE TABLE '' @ (if ine then ''IF NOT EXISTS '' else []) @ t @ '' ('' @
       joined '', '' (map (\<lambda>c. cd_name c @ '' '' @ cd_type c) cols) @ '')''"
| "show_stmt (DropTableStmt t ie) = ''DROP TABLE '' @ (if ie then ''IF EXISTS '' else []) @ t"
| "show_stmt (DeleteStmt t conds) = ''DELETE'' @ spaced ([''FROM'', t] @ where_words conds)"

definition join_ok :: "join_clause \<Rightarrow> bool" where
  "join_ok j \<longleftrightarrow> ident (jc_table j) \<and> list_all ident (opt_words (jc_alias j)) \<and> ident (jc_left_col j) \<and> ident (jc_right_col j)"

definition literal_ok :: "string \<Rightarrow> bool" where
  "literal_ok v \<longleftrightarrow> ascii v \<and> CHR 0x27 \<notin> set v \<and> CHR '','' \<notin> set v"

fun stmt_ok :: "ast \<Rightarrow> bool" where
  "stmt_ok (SelectStmt cols t a joins conds od) \<longleftrightarrow>
     cols \<noteq> [] \<and> (\<forall>c \<in> set cols. ident c \<or> c = ''*'') \<and> ident t \<and> list_all ident (opt_words a) \<and> list_all join_ok joins \<and>
     (conds = [] \<or> conds_ok conds) \<and> list_all ident (opt_words od)"
| "stmt_ok (InsertStmt t vs) \<longleftrightarrow> ident t \<and> vs \<noteq> [] \<and> list_all literal_ok vs"
| "stmt_ok (CreateTableStmt t cols ine) \<longleftrightarrow> ident t \<and> cols \<noteq> [] \<and> list_all (\<lambda>c. ident (cd_name c) \<and> ident (cd_type c)) cols"
| "stmt_ok (DropTableStmt t ie) \<longleftrightarrow> ident t"
| "stmt_ok (DeleteStmt t conds) \<longleftrightarrow> ident t \<and> (conds = [] \<or> conds_ok conds)"

subsection \<open>Normalisation\<close>

fun tidy :: "bool \<Rightarrow> bool \<Rightarrow> string \<Rightarrow> bool" where
  "tidy in_quotes after_blank [] = True"
| "tidy in_quotes after_blank (c # cs) =
     (if c = CHR 0x27 then tidy (\<not> in_quotes) False cs
      else if in_quotes then tidy True False cs
      else if c = CHR '' '' then \<not> after_blank \<and> tidy False True cs
      else graphic c \<and> c \<noteq> CHR ''-'' \<and> tidy False False cs)"

lemma normalize_tidy: "tidy q b s \<Longrightarrow> normalize q False b s = s"
proof (induction s arbitrary: q b)
  case (Cons c s)
  have "\<not> ascii_whitespace c" if "graphic c" using that by (auto simp: graphic_def ascii_whitespace_def)
  moreover have "ascii_whitespace CHR '' ''" by (simp add: ascii_whitespace_def)
  ultimately show ?case using Cons by (auto split: if_splits)
qed simp

definition clean :: "string \<Rightarrow> bool" where
  "clean w \<longleftrightarrow> list_all (\<lambda>c. graphic c \<and> c \<noteq> CHR 0x27 \<and> c \<noteq> CHR ''-'' \<and> c \<noteq> CHR '';'') w"

lemma tidy_clean: "clean w \<Longrightarrow> tidy False False s \<Longrightarrow> tidy False b (w @ s) \<or> w = []"
proof (induction w arbitrary: b)
  case (Cons c w)
  have "c \<noteq> CHR '' ''" using Cons.prems by (auto simp: clean_def graphic_def)
  moreover have "tidy False False (w @ s)" using Cons by (cases w) (auto simp: clean_def)
  ultimately show ?case using Cons.prems by (simp add: clean_def)
qed simp

lemma tidy_quoted: "CHR 0x27 \<notin> set v \<Longrightarrow> tidy False b (sql_literal v @ s) = tidy False False s"
proof -
  assume "CHR 0x27 \<notin> set v"
  then have "tidy True b' (v @ CHR 0x27 # s) = tidy False False s" for b'
    by (induction v arbitrary: b') auto
  then show ?thesis by (simp add: sql_literal_def)
qed

definition token :: "string \<Rightarrow> bool" where
  "token w \<longleftrightarrow> clean w \<and> w \<noteq> [] \<or> (\<exists>v. w = sql_literal v \<and> CHR 0x27 \<notin> set v)"

lemma tidy_token: "token w \<Longrightarrow> tidy False False s \<Longrightarrow> tidy False b (w @ s)"
  using tidy_clean tidy_quoted by (auto simp: token_def)

lemma tidy_spaced: "\<forall>w \<in> set ws. token w \<Longrightarrow> tidy False False (spaced ws)"
  by (induction ws) (simp_all add: tidy_token)

lemma ident_clean: "ident w \<Longrightarrow> clean w"
  using ident_plain [of w] by (auto simp: clean_def ident_def list_all_iff ident_char_graphic)

lemma ident_token: "ident w \<Longrightarrow> token w"
  by (auto simp: token_def ident_clean) (simp add: ident_def)

lemma value_token: "value_ok v \<Longrightarrow> token (sql_literal v)"
  by (auto simp: token_def value_ok_def)

lemma op_token: "token (show_op op)"
  by (cases op) (simp_all add: token_def clean_def graphic_def)

lemma trim_end_semicolons: "last s \<noteq> CHR '';'' \<Longrightarrow> trim_end_matches CHR '';'' (s @ replicate n CHR '';'') = s"
proof -
  assume s: "last s \<noteq> CHR '';''"
  have "dropWhile ((=) CHR '';'') (rev s) = rev s" if "s \<noteq> []"
    using s that by (cases s rule: rev_cases) auto
  moreover have "dropWhile ((=) CHR '';'') (replicate n CHR '';'' @ t) = dropWhile ((=) CHR '';'') t" for t
    by (induction n) simp_all
  ultimately show ?thesis by (cases "s = []") (simp_all add: trim_end_matches_def)
qed

lemma prepared:
  assumes "ascii s" and "s \<noteq> []" and "\<not> blank (hd s)" and "\<not> blank (last s)" and "last s \<noteq> CHR '';''" and "tidy False False s"
  shows "normalize_sql (trim_end_matches CHR '';'' (trim (s @ replicate n CHR '';''))) = s"
proof -
  have "\<not> blank CHR '';''" and "is_ascii CHR '';''" by (simp_all add: whitespace_def whitespace_chars_def is_ascii_def)
  then have "trim (s @ replicate n CHR '';'') = s @ replicate n CHR '';''"
    using assms by (intro trim_fix) (auto simp: list_all_iff last_append)
  then show ?thesis using assms by (simp add: trim_end_semicolons normalize_sql_def normalize_tidy trim_fix)
qed

end
