(* ===== verification/Sql_Round_Trip.thy ===== *)
theory Sql_Round_Trip
  imports Sql_Print
begin

text \<open>
  The parser inverts the printer. \<open>find_kw k r ws\<close> is where \<open>parse_sql\<close> finds the keyword \<open>k\<close>, followed by
  \<open>r\<close>, in the upper-case copy of the words \<open>ws\<close>; the lemmas about the clauses say where the words of a printed
  statement have their keywords, and then every step of \<open>parse_clauses\<close> reads one clause.
\<close>

definition find_kw :: "string \<Rightarrow> string \<Rightarrow> string list \<Rightarrow> nat option" where
  "find_kw k r ws = find_str (CHR '' '' # k @ CHR '' '' # r) (spaced (map upper ws))"

definition spells :: "string \<Rightarrow> string \<Rightarrow> bool" where
  "spells w k \<longleftrightarrow> upper w = k"

definition no_kw :: "string \<Rightarrow> string list \<Rightarrow> bool" where
  "no_kw k ws \<longleftrightarrow> (\<forall>w \<in> set ws. CHR '' '' \<notin> set w \<and> \<not> spells w k)"

lemma no_kw_append [simp]: "no_kw k [] " "no_kw k (w # ws) \<longleftrightarrow> CHR '' '' \<notin> set w \<and> \<not> spells w k \<and> no_kw k ws"
    "no_kw k (xs @ ys) \<longleftrightarrow> no_kw k xs \<and> no_kw k ys"
  by (auto simp: no_kw_def)

lemma length_spaced_upper [simp]: "length (spaced (map upper ws)) = length (spaced ws)"
  by (induction ws) simp_all

lemma upper_space: "CHR '' '' \<notin> set w \<Longrightarrow> CHR '' '' \<notin> set (upper w)"
proof
  assume "CHR '' '' \<in> set (upper w)" and w: "CHR '' '' \<notin> set w"
  then obtain c where "c \<in> set w" "ascii_upper c = CHR '' ''" by auto
  then have "of_char (ascii_upper c) = (32::nat)" by simp
  then have "of_char c = (32::nat)" by (auto simp: ascii_upper_def Let_def split: if_splits)
  then have "c = char_of (32::nat)" by (metis char_of_char)
  moreover have "char_of (32::nat) = CHR '' ''" by code_simp
  ultimately have "c = CHR '' ''" by simp
  then show False using w \<open>c \<in> set w\<close> by simp
qed

lemma find_kw_skip: "CHR '' '' \<notin> set k \<Longrightarrow> no_kw k xs \<Longrightarrow> find_kw k r (xs @ ws) = shift (length (spaced xs)) (find_kw k r ws)"
  using find_skip [of k "map upper xs" r "map upper ws"] upper_space by (fastforce simp: find_kw_def no_kw_def spells_def)

lemma find_kw_none: "CHR '' '' \<notin> set k \<Longrightarrow> no_kw k xs \<Longrightarrow> find_kw k r xs = None"
  using find_kw_skip [of k xs r "[]"] by (simp add: find_kw_def)

lemma find_kw_here: "k \<in> {''FROM'', ''JOIN'', ''ON'', ''WHERE''} \<Longrightarrow> ws \<noteq> [] \<Longrightarrow> find_kw k [] (k # ws) = Some 0"
  by (cases ws) (auto simp: find_kw_def ascii_upper_def)

lemma find_kw_order: "find_kw ''ORDER'' ''BY '' (''ORDER'' # ''BY'' # c # ws) = Some 0"
  by (simp add: find_kw_def ascii_upper_def)

lemma find_kw_words:
  "find_str '' FROM '' (spaced (map upper ws)) = find_kw ''FROM'' [] ws"
  "find_str '' JOIN '' (spaced (map upper ws)) = find_kw ''JOIN'' [] ws"
  "find_str '' ON '' (spaced (map upper ws)) = find_kw ''ON'' [] ws"
  "find_str '' WHERE '' (spaced (map upper ws)) = find_kw ''WHERE'' [] ws"
  "find_str '' ORDER BY '' (spaced (map upper ws)) = find_kw ''ORDER'' ''BY '' ws"
  by (simp_all add: find_kw_def)

lemma upper_keywords:
  "upper ''SELECT'' = ''SELECT''" "upper ''FROM'' = ''FROM''" "upper ''JOIN'' = ''JOIN''" "upper ''ON'' = ''ON''"
  "upper ''WHERE'' = ''WHERE''" "upper ''ORDER'' = ''ORDER''" "upper ''BY'' = ''BY''" "upper ''AND'' = ''AND''"
  "upper ''OR'' = ''OR''" "upper ''='' = ''=''" "upper ''DELETE'' = ''DELETE''" "upper ''*'' = ''*''"
  by code_simp+

subsection \<open>Words without keywords\<close>

definition kws :: "string list" where
  "kws = [''FROM'', ''JOIN'', ''ON'', ''WHERE'', ''ORDER'']"

lemma spells_literal:
  "w \<in> set [''SELECT'', ''JOIN'', ''ON'', ''='', ''FROM'', ''WHERE'', ''ORDER'', ''BY'', ''AND'', ''OR'', ''DELETE'', ''*''] \<Longrightarrow> spells w k \<longleftrightarrow> w = k"
  using upper_keywords by (auto simp: spells_def)

lemmas spells_words = spells_literal [of "''JOIN''", simplified] spells_literal [of "''ON''", simplified]
  spells_literal [of "''=''", simplified] spells_literal [of "''WHERE''", simplified] spells_literal [of "''ORDER''", simplified]
  spells_literal [of "''BY''", simplified] spells_literal [of "''AND''", simplified] spells_literal [of "''OR''", simplified]
  spells_literal [of "''FROM''", simplified] spells_literal [of "''*''", simplified]

lemma ident_no_kw: "ident w \<Longrightarrow> k \<in> set kws \<Longrightarrow> \<not> spells w k"
  by (auto simp: ident_def reserved_def kws_def spells_def)

lemma opt_no_kw: "list_all ident (opt_words a) \<Longrightarrow> k \<in> set kws \<Longrightarrow> no_kw k (opt_words a)"
  using ident_no_kw by (auto simp: no_kw_def list_all_iff)

lemma quoted_no_kw: "k \<in> set kws \<Longrightarrow> \<not> spells (sql_literal v) k"
  by (auto simp: sql_literal_def kws_def ascii_upper_def spells_def)

lemma op_no_kw: "k \<in> set kws \<Longrightarrow> \<not> spells (show_op op) k"
  by (cases op) (auto simp: kws_def ascii_upper_def spells_def)

lemma logic_no_kw: "k \<in> set kws \<Longrightarrow> no_kw k (logic_words l)"
  by (cases l rule: logic_words.cases) (auto simp: kws_def spells_words)

lemma conds_no_kw: "conds_ok conds \<Longrightarrow> k \<in> set kws \<Longrightarrow> no_kw k (cond_words conds)"
  by (induction conds rule: conds_ok.induct)
    (simp_all add: cond_words_Cons cond_words_def [of "[]"] ident_no_kw quoted_no_kw op_no_kw logic_no_kw)

lemma on_no_kw: "join_ok j \<Longrightarrow> k \<in> {''FROM'', ''JOIN'', ''WHERE'', ''ORDER''} \<Longrightarrow> no_kw k (on_words j)"
  by (auto simp: join_ok_def on_words_def spells_words ident_no_kw kws_def)

lemma join_no_kw: "join_ok j \<Longrightarrow> k \<in> {''FROM'', ''WHERE'', ''ORDER''} \<Longrightarrow> no_kw k (join_words j)"
  using on_no_kw [of j k] opt_no_kw [of "jc_alias j" k] ident_no_kw [of "jc_table j" k]
  by (auto simp: join_words_def join_ok_def spells_words kws_def)

lemma joins_no_kw: "list_all join_ok joins \<Longrightarrow> k \<in> {''FROM'', ''WHERE'', ''ORDER''} \<Longrightarrow> no_kw k (concat (map join_words joins))"
  by (induction joins) (simp_all add: join_no_kw)

lemma where_no_kw: "conds = [] \<or> conds_ok conds \<Longrightarrow> k \<in> {''FROM'', ''JOIN'', ''ORDER''} \<Longrightarrow> no_kw k (where_words conds)"
  using conds_no_kw [of conds k] by (auto simp: where_words_def spells_words kws_def)

lemma order_no_kw: "list_all ident (opt_words od) \<Longrightarrow> k \<in> {''FROM'', ''JOIN'', ''WHERE''} \<Longrightarrow> no_kw k (order_words od)"
  using ident_no_kw [of _ k] by (cases od) (auto simp: order_words_def opt_words_def spells_words kws_def)

subsection \<open>The keywords of the clauses\<close>

definition clauses_ok :: "join_clause list \<Rightarrow> where_condition list \<Rightarrow> string option \<Rightarrow> bool" where
  "clauses_ok joins conds od \<longleftrightarrow> list_all join_ok joins \<and> (conds = [] \<or> conds_ok conds) \<and> list_all ident (opt_words od)"

lemma conds_ok_nonempty: "conds_ok conds \<Longrightarrow> cond_words conds \<noteq> []"
  by (cases conds) (simp_all add: cond_words_Cons)

lemma find_join:
  assumes "clauses_ok joins conds od"
  shows "find_kw ''JOIN'' [] (clause_words joins conds od) = (if joins = [] then None else Some 0)"
proof (cases joins)
  case Nil
  then show ?thesis using assms by (simp add: clause_words_def clauses_ok_def find_kw_none where_no_kw order_no_kw)
next
  case (Cons j js)
  then show ?thesis by (simp add: clause_words_def join_words_def find_kw_here)
qed

lemma find_where:
  assumes "clauses_ok joins conds od"
  shows "find_kw ''WHERE'' [] (clause_words joins conds od) =
    (if conds = [] then None else Some (length (spaced (concat (map join_words joins)))))"
proof (cases "conds = []")
  case True
  then show ?thesis using assms
    by (simp add: clause_words_def clauses_ok_def find_kw_none joins_no_kw order_no_kw where_words_def)
next
  case False
  have "find_kw ''WHERE'' [] (where_words conds @ order_words od) = Some 0"
    using False assms conds_ok_nonempty [of conds] by (simp add: where_words_def clauses_ok_def find_kw_here)
  then show ?thesis using False assms
    by (simp add: clause_words_def clauses_ok_def find_kw_skip joins_no_kw)
qed

lemma find_order:
  assumes "clauses_ok joins conds od"
  shows "find_kw ''ORDER'' ''BY '' (clause_words joins conds od) =
    (if od = None then None else Some (length (spaced (concat (map join_words joins) @ where_words conds))))"
proof (cases od)
  case None
  then show ?thesis using assms
    by (simp add: clause_words_def clauses_ok_def find_kw_none joins_no_kw where_no_kw order_words_def)
next
  case (Some c)
  have "find_kw ''ORDER'' ''BY '' (order_words od) = Some 0"
    using Some by (simp add: order_words_def find_kw_order)
  then show ?thesis using Some assms find_kw_skip [of "''ORDER''" "concat (map join_words joins) @ where_words conds" "''BY ''" "order_words od"]
    by (simp add: clause_words_def clauses_ok_def joins_no_kw where_no_kw)
qed


subsection \<open>Reading the clauses\<close>

lemma upper_drop: "drop pos rest = spaced ws \<Longrightarrow> drop pos (upper rest) = spaced (map upper ws)"
  by (metis drop_map upper_spaced)

lemma words_of_clauses:
  "clauses_ok joins conds od \<Longrightarrow> w \<in> set (clause_words joins conds od) \<Longrightarrow> word_ok w"
proof -
  have "word_ok w" if "ident w \<or> w \<in> set [''JOIN'', ''ON'', ''='', ''WHERE'', ''ORDER'', ''BY'']" for w
    using that by (elim disjE) (simp, auto simp: word_ok_def graphic_def)
  then show "word_ok w" if "clauses_ok joins conds od" and "w \<in> set (clause_words joins conds od)"
    using that conds_ok_words by (fastforce simp: clauses_ok_def clause_words_def where_words_def order_words_def join_words_def
        on_words_def opt_words_def join_ok_def list_all_iff split: option.splits if_splits)
qed

lemma split_at_once: "c \<notin> set a \<Longrightarrow> c \<notin> set b \<Longrightarrow> split_at c (a @ c # b) = [a, b]"
proof -
  assume "c \<notin> set a" "c \<notin> set b"
  have "split_acc c acc b = [acc @ b]" for acc using \<open>c \<notin> set b\<close> by (induction b arbitrary: acc) auto
  moreover have "split_acc c acc (a @ s) = split_acc c (acc @ a) s" for acc s
    using \<open>c \<notin> set a\<close> by (induction a arbitrary: acc) auto
  ultimately show ?thesis by (simp add: split_at_def)
qed

lemma split_at_none: "c \<notin> set a \<Longrightarrow> split_at c a = [a]"
proof -
  assume "c \<notin> set a"
  then have "split_acc c acc a = [acc @ a]" for acc by (induction a arbitrary: acc) auto
  then show ?thesis by (simp add: split_at_def)
qed

lemma unqualified_ident: "ident w \<Longrightarrow> unqualified w = w"
  using ident_plain [of w] by (simp add: unqualified_def split_at_none)

lemma table_and_alias_words:
  "ident t \<Longrightarrow> list_all ident (opt_words a) \<Longrightarrow> table_and_alias (t @ spaced (opt_words a)) e = Ok (t, a)"
  using split_whitespace_words [of t "opt_words a"]
  by (cases a) (auto simp: table_and_alias_def opt_words_def)

text \<open>The slice between two positions behind \<open>pos\<close>.\<close>

lemma slice_behind:
  assumes "ascii s" and "drop pos s = a @ b @ r" and "pos \<le> length s"
  shows "str_slice (pos + length a) (pos + length a + length b) s = Ok b"
proof -
  have "length s = pos + length a + length b + length r" using assms(2,3) by (metis add.assoc length_append le_add_diff_inverse length_drop)
  moreover have "drop (pos + length a) s = b @ r" using assms(2) by (metis add.commute append_eq_conv_conj drop_drop)
  ultimately show ?thesis using assms(1) by (simp add: str_slice_ascii)
qed


lemma from_behind:
  assumes "ascii s" and "drop pos s = spaced (a @ b)" and "pos \<le> length s"
  shows "str_from (pos + length (spaced a)) (upper s) = Ok (spaced (map upper b))"
proof -
  have "length s = pos + length (spaced a) + length (spaced b)"
    using assms(2,3) by (metis add.assoc length_append le_add_diff_inverse length_drop spaced_append)
  moreover have "drop (pos + length (spaced a)) s = spaced b"
    using assms(2) by (metis add.commute append_eq_conv_conj drop_drop spaced_append)
  ultimately show ?thesis using assms(1) by (simp add: str_from_ascii upper_drop)
qed

lemma join_part_printed:
  assumes ascii: "ascii rest" and j: "join_ok j" and pos: "pos \<le> length rest" and rest: "drop pos rest = spaced (join_words j @ zs)"
    and stop: "find_kw ''JOIN'' [] zs = Some 0 \<or> find_kw ''JOIN'' [] zs = None \<and>
      (stop_at = Some (length (spaced (join_words j))) \<or> stop_at = None \<and> zs = [])"
  shows "join_part rest (upper rest) pos pos stop_at = Ok (JoinPart j (pos + length (spaced (join_words j))))"
proof -
  let ?a = "[''JOIN'', jc_table j] @ opt_words (jc_alias j)" and ?b = "on_words j"
  have words: "join_words j @ zs = ?a @ ?b @ zs" by (simp add: join_words_def)
  have ids: "ident (jc_table j)" "list_all ident (opt_words (jc_alias j))" "ident (jc_left_col j)" "ident (jc_right_col j)"
    using j by (simp_all add: join_ok_def)
  have start: "str_from pos (upper rest) = Ok (spaced (map upper (?a @ ?b @ zs)))"
    using from_behind [of rest pos "[]" "?a @ ?b @ zs"] ascii pos rest words by simp
  have "no_kw ''ON'' ?a" using ids opt_no_kw [of _ "''ON''"] by (simp add: spells_words ident_no_kw kws_def)
  then have on: "find_kw ''ON'' [] (?a @ ?b @ zs) = Some (length (spaced ?a))"
    using find_kw_skip [of "''ON''" ?a "[]" "?b @ zs"] by (simp add: on_words_def find_kw_here)
  have "str_slice (pos + length '' JOIN '') (pos + length '' JOIN '' + length (jc_table j @ spaced (opt_words (jc_alias j)))) rest =
      (Ok (jc_table j @ spaced (opt_words (jc_alias j))) :: (string, string) res)"
    using ascii pos rest by (intro slice_behind [where r = "spaced (?b @ zs)"]) (simp_all add: words)
  then have table: "str_slice (pos + 6) (length (spaced ?a) + pos) rest =
      (Ok (jc_table j @ spaced (opt_words (jc_alias j))) :: (string, string) res)"
    by (simp add: ac_simps numeral_eq_Suc)
  have from_on: "str_from (length (spaced ?a) + pos) (upper rest) = Ok (spaced (map upper (?b @ zs)))"
    using from_behind [of rest pos ?a "?b @ zs"] ascii pos rest words by (simp add: add.commute)
  have "find_kw ''JOIN'' [] (?b @ zs) = shift (length (spaced ?b)) (find_kw ''JOIN'' [] zs)"
    using on_no_kw [OF j, of "''JOIN''"] by (simp add: find_kw_skip)
  moreover have "length rest = pos + length (spaced (join_words j @ zs))" using pos rest by (metis le_add_diff_inverse length_drop)
  ultimately have stop: "(case find_kw ''JOIN'' [] (?b @ zs) of Some i \<Rightarrow> i + (length (spaced ?a) + pos)
      | None \<Rightarrow> (case stop_at of Some i \<Rightarrow> i + pos | None \<Rightarrow> length rest)) = pos + length (spaced (join_words j))"
    using stop by (auto simp: join_words_def)
  let ?on = "jc_left_col j @ spaced [''='', jc_right_col j]"
  have "str_slice (pos + length (spaced ?a @ '' ON '')) (pos + length (spaced ?a @ '' ON '') + length ?on) rest = (Ok ?on :: (string, string) res)"
    using ascii pos rest by (intro slice_behind [where r = "spaced zs"]) (simp_all add: words on_words_def)
  then have cond: "str_slice (length (spaced ?a) + pos + 4) (pos + length (spaced (join_words j))) rest = (Ok ?on :: (string, string) res)"
    by (simp add: join_words_def on_words_def ac_simps numeral_eq_Suc)
  have eq: "word_ok ''=''" by (simp add: word_ok_def graphic_def)
  then have "trim ?on = ?on" using ids by (intro trim_words) auto
  moreover have "split_at CHR ''='' ((jc_left_col j @ '' '') @ CHR ''='' # CHR '' '' # jc_right_col j) = [jc_left_col j @ '' '', CHR '' '' # jc_right_col j]"
    using ids ident_plain [of "jc_left_col j"] ident_plain [of "jc_right_col j"] by (intro split_at_once) auto
  ultimately have toks: "split_at CHR ''='' (trim ?on) = [jc_left_col j @ '' '', CHR '' '' # jc_right_col j]" by simp
  have t: "trim (jc_table j @ spaced (opt_words (jc_alias j))) = jc_table j @ spaced (opt_words (jc_alias j))"
    using ids by (intro trim_words) (auto simp: list_all_iff)
  show ?thesis
    unfolding join_part_def Let_def start res_bind.simps find_kw_words on ok_or.simps table t
      table_and_alias_words [OF ids(1,2)] prod.case from_on stop cond toks
    using ids by (simp add: trim_blank_left trim_blank_right trim_word unqualified_ident)
qed

lemma from_here: "ascii s \<Longrightarrow> pos \<le> length s \<Longrightarrow> drop pos s = spaced ws \<Longrightarrow> str_from pos (upper s) = Ok (spaced (map upper ws))"
  using from_behind [of s pos "[]" ws] by simp

lemma drop_words: "drop pos s = spaced (a @ b) \<Longrightarrow> drop (pos + length (spaced a)) s = spaced b"
  by (metis add.commute append_eq_conv_conj drop_drop spaced_append)

lemma length_clauses: "length rest = pos + length (spaced ws)" if "drop pos rest = spaced ws" and "pos \<le> length rest"
  using that by (metis le_add_diff_inverse length_drop)

lemma next_clause_join:
  assumes "ascii rest" and ok: "clauses_ok (j # js) conds od" and "pos \<le> length rest"
    and rest: "drop pos rest = spaced (clause_words (j # js) conds od)"
  shows "next_clause rest (upper rest) pos = Ok (JoinPart j (pos + length (spaced (join_words j))))"
proof -
  have ok': "clauses_ok js conds od" "join_ok j" using ok by (simp_all add: clauses_ok_def)
  have words: "clause_words (j # js) conds od = join_words j @ clause_words js conds od" by (simp add: clause_words_def)
  have ur: "str_from pos (upper rest) = Ok (spaced (map upper (clause_words (j # js) conds od)))"
    using assms by (intro from_here)
  have pos_join: "0 < length (spaced (join_words j))" by (simp add: join_words_def)
  let ?stop = "if conds = [] \<and> od = None then None else Some (length (spaced (concat (map join_words (j # js)))))"
  have "next_clause rest (upper rest) pos = join_part rest (upper rest) pos pos ?stop"
    unfolding next_clause_def ur res_bind.simps find_kw_words find_join [OF ok] find_where [OF ok] find_order [OF ok] Let_def
    using pos_join by (cases "conds = []"; cases od) (simp_all add: where_words_def)
  also have "\<dots> = Ok (JoinPart j (pos + length (spaced (join_words j))))"
    using assms ok' find_join [OF ok'(1)] words
    by (intro join_part_printed [where zs = "clause_words js conds od"]) (auto simp: clause_words_def where_words_def order_words_def)
  finally show ?thesis .
qed

lemma next_clause_where:
  assumes "ascii rest" and ok: "clauses_ok [] conds od" and "conds \<noteq> []" and pos: "pos \<le> length rest"
    and rest: "drop pos rest = spaced (clause_words [] conds od)"
  shows "next_clause rest (upper rest) pos = Ok (WherePart conds (pos + length (spaced (where_words conds))))"
proof -
  have ur: "str_from pos (upper rest) = Ok (spaced (map upper (clause_words [] conds od)))"
    using assms by (intro from_here)
  have conds: "conds_ok conds" using ok assms(3) by (simp add: clauses_ok_def)
  have stop: "0 < length (spaced (where_words conds))" using assms(3) by (simp add: where_words_def)
  have w_end: "(case (if od = None then None else Some (length (spaced (where_words conds)))) of None \<Rightarrow> length rest | Some n \<Rightarrow> pos + n) =
      pos + length (spaced (where_words conds))"
    using length_clauses [OF rest pos] by (cases od) (auto simp: clause_words_def order_words_def)
  obtain w ws where cw: "cond_words conds = w # ws" using conds_ok_head [OF conds] by blast
  have "str_slice (pos + length '' WHERE '') (pos + length '' WHERE '' + length (w @ spaced ws)) rest = (Ok (w @ spaced ws) :: (string, string) res)"
    using assms cw by (intro slice_behind [where r = "spaced (order_words od)"]) (simp_all add: clause_words_def where_words_def)
  then have slice: "str_slice (pos + 7) (pos + length (spaced (where_words conds))) rest = (Ok (w @ spaced ws) :: (string, string) res)"
    using cw assms(3) by (simp add: where_words_def ac_simps numeral_eq_Suc)
  have "trim (w @ spaced ws) = trim (spaced (cond_words conds))"
    using conds_ok_words [OF conds] cw by (simp add: trim_blank_left)
  then have parsed: "parse_conditions unqualified (trim (w @ spaced ws)) = Ok conds"
    using parse_conditions_printed [OF conds unqualified_ident] by simp
  show ?thesis
    unfolding next_clause_def ur res_bind.simps find_kw_words find_join [OF ok] find_where [OF ok] find_order [OF ok] Let_def
    using assms(3) stop w_end slice parsed by (cases od) simp_all
qed

lemma next_clause_order:
  assumes "ascii rest" and ok: "clauses_ok [] [] (Some c)" and pos: "pos \<le> length rest"
    and rest: "drop pos rest = spaced (clause_words [] [] (Some c))"
  shows "next_clause rest (upper rest) pos = Ok (OrderPart c)"
proof -
  have ur: "str_from pos (upper rest) = Ok (spaced (map upper (clause_words [] [] (Some c))))"
    using assms by (intro from_here)
  have c: "ident c" using ok by (simp add: clauses_ok_def opt_words_def)
  have "str_slice (pos + length '' ORDER BY '') (pos + length '' ORDER BY '' + length c) rest = (Ok c :: (string, string) res)"
    using assms by (intro slice_behind [where r = "[]"]) (simp_all add: clause_words_def where_words_def order_words_def)
  then have "str_from (pos + 10) rest = (Ok c :: (string, string) res)"
    using length_clauses [OF rest pos] unfolding str_from_def
    by (simp add: clause_words_def where_words_def order_words_def ac_simps numeral_eq_Suc)
  then show ?thesis
    unfolding next_clause_def ur res_bind.simps find_kw_words find_join [OF ok] find_where [OF ok] find_order [OF ok] Let_def
    using c by (simp add: where_words_def trim_word)
qed

text \<open>The loop over the clauses.\<close>

lemma parse_clauses_printed:
  assumes "ascii rest" and "clauses_ok js conds od" and "pos \<le> length rest" and "drop pos rest = spaced (clause_words js conds od)"
  shows "parse_clauses rest (upper rest) pos joins [] = Ok (joins @ js, conds, od)"
  using assms
proof (induction js arbitrary: pos joins)
  case (Cons j js)
  have len: "length rest = pos + length (spaced (join_words j)) + length (spaced (clause_words js conds od))"
    using length_clauses [OF Cons.prems(4,3)] by (simp add: clause_words_def)
  have "drop (pos + length (spaced (join_words j))) rest = spaced (clause_words js conds od)"
    using Cons.prems(4) by (intro drop_words) (simp add: clause_words_def)
  then have "parse_clauses rest (upper rest) (pos + length (spaced (join_words j))) (joins @ [j]) [] = Ok ((joins @ [j]) @ js, conds, od)"
    using Cons.prems len by (intro Cons.IH) (simp_all add: clauses_ok_def)
  moreover have "\<not> length rest \<le> pos" using len by (simp add: join_words_def)
  ultimately show ?case using next_clause_join [OF Cons.prems(1-4)] by (subst parse_clauses.simps) simp
next
  case Nil
  have order: "parse_clauses rest (upper rest) p joins cs = Ok (joins, cs, od)"
    if p: "p \<le> length rest" "drop p rest = spaced (clause_words [] [] od)" for p cs
  proof (cases od)
    case None
    then have "length rest \<le> p" using p by (simp add: clause_words_def where_words_def order_words_def)
    then show ?thesis using None by (subst parse_clauses.simps) simp
  next
    case (Some c)
    have "clauses_ok [] [] (Some c)" using Nil.prems(2) Some by (simp add: clauses_ok_def)
    then have "next_clause rest (upper rest) p = Ok (OrderPart c)" using Nil.prems(1) p Some by (intro next_clause_order) simp_all
    moreover have "\<not> length rest \<le> p" using p Some by (auto simp: clause_words_def order_words_def)
    ultimately show ?thesis using Some by (subst parse_clauses.simps) simp
  qed
  show ?case
  proof (cases "conds = []")
    case True
    then show ?thesis using order Nil.prems by simp
  next
    case False
    have len: "length rest = pos + length (spaced (where_words conds)) + length (spaced (order_words od))"
      using length_clauses [OF Nil.prems(4,3)] by (simp add: clause_words_def)
    have "drop (pos + length (spaced (where_words conds))) rest = spaced (clause_words [] [] od)"
      using Nil.prems(4) by (intro drop_words) (simp add: clause_words_def where_words_def [of "[]"])
    then have "parse_clauses rest (upper rest) (pos + length (spaced (where_words conds))) joins conds = Ok (joins, conds, od)"
      using len by (intro order) simp_all
    moreover have "\<not> length rest \<le> pos" using len False by (simp add: where_words_def)
    ultimately show ?thesis using next_clause_where [OF Nil.prems(1,2) False Nil.prems(3,4)] by (subst parse_clauses.simps) simp
  qed
qed

end
