(* ===== verification/Sql_Spec.thy ===== *)
theory Sql_Spec
  imports Sql_Round_Trip
begin

text \<open>
  Every statement of the dialect, printed with any number of semicolons behind it, is read back.
\<close>

subsection \<open>\<open>SELECT\<close>\<close>

lemma split_at_joined:
  "\<forall>s \<in> set ss. c \<notin> set s \<Longrightarrow> ss \<noteq> [] \<Longrightarrow> split_at c (joined [c] ss) = ss"
proof (induction "[c]" ss rule: joined.induct)
  case (3 s t ss)
  have "split_acc c acc (s @ c # r) = (acc @ s) # split_acc c [] r" for acc r
    using 3(2) by (induction s arbitrary: acc) auto
  then show ?case using 3 by (simp add: split_at_def)
qed (simp_all add: split_at_none)

lemma joined_graphic: "\<forall>s \<in> set ss. list_all graphic s \<Longrightarrow> list_all graphic sep \<Longrightarrow> list_all graphic (joined sep ss)"
  by (induction sep ss rule: joined.induct) auto

lemma joined_clean: "\<forall>s \<in> set ss. clean s \<Longrightarrow> clean sep \<Longrightarrow> clean (joined sep ss)"
  by (induction sep ss rule: joined.induct) (auto simp: clean_def)

lemma joined_Nil: "\<forall>s \<in> set ss. s \<noteq> [] \<Longrightarrow> joined sep ss = [] \<longleftrightarrow> ss = []"
  by (induction sep ss rule: joined.induct) auto

definition col_ok :: "string \<Rightarrow> bool" where
  "col_ok c \<longleftrightarrow> ident c \<or> c = ''*''"

lemma col_ok_word: "col_ok c \<Longrightarrow> word_ok c \<and> clean c \<and> CHR '','' \<notin> set c \<and> CHR ''.'' \<notin> set c"
proof (cases "ident c")
  case True
  then show ?thesis using ident_plain [of c] by (simp add: ident_clean)
next
  case False
  assume "col_ok c"
  then show ?thesis using False by (simp add: col_ok_def word_ok_def graphic_def clean_def)
qed

lemma columns_word:
  assumes "cols \<noteq> []" and "\<forall>c \<in> set cols. col_ok c"
  shows "word_ok (joined '','' cols)" and "token (joined '','' cols)" and "\<not> spells (joined '','' cols) ''FROM''"
proof -
  have sep: "list_all graphic '',''" "clean '',''" by (simp_all add: graphic_def clean_def)
  have cols: "\<forall>s \<in> set cols. list_all graphic s" "\<forall>s \<in> set cols. clean s" "\<forall>s \<in> set cols. s \<noteq> []"
    using assms(2) col_ok_word by (auto simp: word_ok_def)
  show "word_ok (joined '','' cols)" "token (joined '','' cols)"
    using assms(1) cols sep by (simp_all add: word_ok_def token_def joined_graphic joined_clean joined_Nil)
  show "\<not> spells (joined '','' cols) ''FROM''"
  proof (cases "length cols = 1")
    case True
    then obtain c where "cols = [c]" by (cases cols) auto
    then show ?thesis using assms(2) ident_no_kw [of c "''FROM''"] by (auto simp: col_ok_def kws_def spells_words)
  next
    case False
    then have "CHR '','' \<in> set (joined '','' cols)" using assms(1) by (cases "('','', cols)" rule: joined.cases) auto
    then have "ascii_upper CHR '','' \<in> set (upper (joined '','' cols))" by auto
    then show ?thesis by (auto simp: spells_def ascii_upper_def)
  qed
qed

lemma clause_tokens: "clauses_ok joins conds od \<Longrightarrow> w \<in> set (clause_words joins conds od) \<Longrightarrow> token w"
proof -
  have kw: "token w" if "w \<in> set [''JOIN'', ''ON'', ''='', ''WHERE'', ''ORDER'', ''BY'', ''AND'', ''OR'']" for w
    using that by (auto simp: token_def clean_def graphic_def)
  have logic: "token w" if "w \<in> set (logic_words l)" for w l
    using that kw by (cases l rule: logic_words.cases) auto
  have conds: "token w" if "conds_ok conds" "w \<in> set (cond_words conds)" for w conds
    using that conds_ok_each logic op_token value_token ident_token by (fastforce simp: cond_words_def)
  show "token w" if "clauses_ok joins conds od" "w \<in> set (clause_words joins conds od)"
    using that conds kw ident_token by (fastforce simp: clauses_ok_def clause_words_def where_words_def order_words_def join_words_def
        on_words_def opt_words_def join_ok_def list_all_iff split: option.splits if_splits)
qed

lemma parse_select_printed:
  assumes cols: "cols \<noteq> []" "\<forall>c \<in> set cols. col_ok c" and t: "ident t" and a: "list_all ident (opt_words a)"
    and ok: "clauses_ok joins conds od"
  defines "sql \<equiv> ''SELECT'' @ spaced ([joined '','' cols, ''FROM'', t] @ opt_words a @ clause_words joins conds od)"
  shows "parse_select sql (upper sql) = Ok (SelectStmt cols t a joins conds od)"
proof -
  let ?cols = "joined '','' cols" and ?r = "opt_words a @ clause_words joins conds od"
  let ?rest = "t @ spaced ?r" and ?tp = "t @ spaced (opt_words a)"
  note cw = columns_word [OF cols]
  have words: "\<forall>w \<in> set ?r. word_ok w" using a words_of_clauses [OF ok] by (auto simp: list_all_iff)
  have from_word: "word_ok ''FROM''" by (simp add: word_ok_def graphic_def)
  have ascii: "ascii sql" "ascii ?rest"
    using words from_word cw(1) t by (simp_all add: sql_def is_ascii_def)
  have up_sql: "upper sql = ''SELECT'' @ spaced (map upper ([?cols, ''FROM'', t] @ ?r))"
    by (simp add: sql_def upper_spaced upper_keywords(1) [simplified])
  have "find_str '' FROM '' (upper sql) = shift (length ''SELECT'') (find_str '' FROM '' (spaced (map upper ([?cols, ''FROM'', t] @ ?r))))"
    unfolding up_sql by (rule find_skip_chars) simp
  also have "\<dots> = shift (length ''SELECT'') (find_kw ''FROM'' [] ([?cols] @ ''FROM'' # t # ?r))"
    by (simp only: find_kw_words append.simps)
  also have "\<dots> = Some (7 + length ?cols)"
    using cw by (subst find_kw_skip) (simp_all add: find_kw_here)
  finally have from_idx: "find_str '' FROM '' (upper sql) = Some (7 + length ?cols)" .
  have "str_slice (0 + length ''SELECT '') (0 + length ''SELECT '' + length ?cols) sql = (Ok ?cols :: (string, string) res)"
    using ascii by (intro slice_behind [where r = "spaced (''FROM'' # t # ?r)"]) (simp_all add: sql_def)
  then have columns: "str_slice 7 (7 + length ?cols) sql = (Ok ?cols :: (string, string) res)" by (simp add: numeral_eq_Suc)
  have "map (\<lambda>s. unqualified (trim s)) (split_at CHR '','' (trim ?cols)) = map (\<lambda>s. unqualified (trim s)) cols"
    using cols col_ok_word cw(1) by (simp add: trim_word split_at_joined)
  also have "\<dots> = cols"
    using cols(2) col_ok_word by (intro map_idI) (simp add: trim_word unqualified_def split_at_none)
  finally have parsed_cols: "map (\<lambda>s. unqualified (trim s)) (split_at CHR '','' (trim ?cols)) = cols" .
  have split: "sql = (''SELECT '' @ ?cols @ '' FROM '') @ ?rest" by (simp add: sql_def)
  have "length (''SELECT '' @ ?cols @ '' FROM '') = 7 + length ?cols + 6" by simp
  then have "7 + length ?cols + 6 \<le> length sql" "drop (7 + length ?cols + 6) sql = ?rest"
    using split by (metis le_add1 length_append, metis append_eq_conv_conj)
  then have rest: "str_from (7 + length ?cols + 6) sql = (Ok ?rest :: (string, string) res)"
      "str_from (7 + length ?cols + 6) (upper sql) = (Ok (upper ?rest) :: (string, string) res)"
    using ascii by (simp_all add: str_from_ascii drop_map del: map_append)
  have "upper ?rest = upper t @ spaced (map upper ?r)" by (simp add: upper_spaced)
  moreover have "trim (upper t @ spaced (map upper ?r)) = upper t @ spaced (map upper ?r)"
    using t words by (intro trim_words) auto
  moreover have "trim ?rest = ?rest" using t words by (intro trim_words) auto
  moreover have "trim ?tp = ?tp" using t words by (intro trim_words) auto
  ultimately have trims: "trim ?rest = ?rest" "trim (upper ?rest) = upper ?rest" "trim ?tp = ?tp" by simp_all
  have find: "find_str (CHR '' '' # k @ '' '' @ s) (upper ?rest) = shift (length ?tp) (find_kw k s (clause_words joins conds od))"
    if "k \<in> set kws" for k s
  proof -
    have k: "CHR '' '' \<notin> set k" using that by (auto simp: kws_def)
    have "CHR '' '' \<notin> set (upper t)" using t by (simp add: upper_space del: set_map)
    then have "find_str (CHR '' '' # k @ '' '' @ s) (upper t @ spaced (map upper ?r)) = shift (length t) (find_kw k s ?r)"
      using find_skip_chars [of "upper t" "k @ '' '' @ s" "spaced (map upper ?r)"] by (simp add: find_kw_def del: spaced_append map_append)
    then show ?thesis
      using find_kw_skip [OF k opt_no_kw [OF a that], of s] by (simp add: upper_spaced)
  qed
  have table_end: "(case find_str '' JOIN '' (upper ?rest) of Some i \<Rightarrow> i | None \<Rightarrow>
      (case find_str '' WHERE '' (upper ?rest) of Some i \<Rightarrow> i | None \<Rightarrow>
      (case find_str '' ORDER BY '' (upper ?rest) of Some i \<Rightarrow> i | None \<Rightarrow> length ?rest))) = length ?tp"
    using find [of "''JOIN''" "[]"] find [of "''WHERE''" "[]"] find [of "''ORDER''" "''BY ''"]
      find_join [OF ok] find_where [OF ok] find_order [OF ok]
    by (cases "joins = []"; cases "conds = []"; cases od) (simp_all add: kws_def clause_words_def where_words_def order_words_def)
  have tp: "str_slice 0 (length ?tp) ?rest = (Ok ?tp :: (string, string) res)"
    using ascii(2) by (subst str_slice_ascii) simp_all
  have clauses: "parse_clauses ?rest (upper ?rest) (length ?tp) [] [] = Ok ([] @ joins, conds, od)"
    using ascii(2) ok by (intro parse_clauses_printed) simp_all
  show ?thesis
    unfolding parse_select_def from_idx ok_or.simps res_bind.simps columns Let_def parsed_cols rest trims table_end tp
      table_and_alias_words [OF t a] prod.case clauses by simp
qed


subsection \<open>The other statements\<close>

lemma find_kw_text:
  assumes "CHR '' '' \<notin> set w" and "CHR '' '' \<notin> set k"
  shows "find_str (CHR '' '' # k @ '' '' @ r) (w @ spaced (map upper ws)) = shift (length w) (find_kw k r ws)"
  using assms find_skip_chars [of w "k @ '' '' @ r" "spaced (map upper ws)"] by (simp add: find_kw_def)

lemma parse_delete_printed:
  assumes t: "ident t" and conds: "conds = [] \<or> conds_ok conds"
  defines "sql \<equiv> ''DELETE'' @ spaced ([''FROM'', t] @ where_words conds)"
  shows "parse_delete sql (drop 12 (upper sql)) = Ok (DeleteStmt t conds)"
proof -
  let ?r = "where_words conds"
  let ?rest = "t @ spaced ?r"
  have "w \<in> set ?r \<Longrightarrow> word_ok w" for w
    using conds conds_ok_words [of conds w] by (auto simp: where_words_def word_ok_def graphic_def split: if_splits)
  then have words: "\<forall>w \<in> set ?r. word_ok w" by blast
  have sql: "sql = ''DELETE FROM '' @ ?rest" by (simp add: sql_def)
  have ascii: "ascii sql" "ascii ?rest" using words t by (simp_all add: sql is_ascii_def)
  have rest: "str_from 12 sql = (Ok ?rest :: (string, string) res)" using ascii(1) by (subst str_from_ascii) (simp_all add: sql)
  have stripped: "drop 12 (upper sql) = upper ?rest" by (simp add: sql)
  have trims: "trim ?rest = ?rest" "trim (upper ?rest) = upper ?rest" using t words by (simp_all add: trim_words upper_spaced)
  have "CHR '' '' \<notin> set (upper t)" using t by (simp add: upper_space del: set_map)
  then have "find_str '' WHERE '' (upper ?rest) = shift (length t) (find_kw ''WHERE'' [] ?r)"
    using find_kw_text [of "upper t" "''WHERE''" "[]" ?r] by (simp add: upper_spaced)
  moreover have "find_kw ''WHERE'' [] ?r = (if conds = [] then None else Some 0)"
    using find_where [of "[]" conds None] conds by (auto simp: clauses_ok_def clause_words_def order_words_def opt_words_def)
  ultimately have where_idx: "find_str '' WHERE '' (upper ?rest) = (if conds = [] then None else Some (length t))" by simp
  have table: "str_slice 0 (length t) ?rest = (Ok t :: (string, string) res)" using ascii(2) by (subst str_slice_ascii) simp_all
  show ?thesis
  proof (cases "conds = []")
    case True
    then show ?thesis
      unfolding parse_delete_def rest res_bind.simps stripped trims Let_def where_idx
      using table t by (simp add: where_words_def trim_word)
  next
    case False
    then have ok: "conds_ok conds" using conds by simp
    obtain w ws where cw: "cond_words conds = w # ws" using conds_ok_head [OF ok] by blast
    have "str_from (length t + 7) ?rest = (Ok (w @ spaced ws) :: (string, string) res)"
      using ascii(2) False cw by (subst str_from_ascii) (simp_all add: where_words_def)
    moreover have "trim (w @ spaced ws) = trim (spaced (cond_words conds))"
      using conds_ok_words [OF ok] cw by (simp add: trim_blank_left)
    then have "parse_conditions id (trim (w @ spaced ws)) = Ok conds" using parse_conditions_printed [OF ok, of id] by simp
    ultimately show ?thesis
      unfolding parse_delete_def rest res_bind.simps stripped trims Let_def where_idx
      using False table t by (simp add: trim_word)
  qed
qed

lemma parse_drop_printed:
  fixes ie :: bool
  assumes t: "ident t"
  defines "sql \<equiv> ''DROP TABLE '' @ (if ie then ''IF EXISTS '' else []) @ t"
  shows "parse_drop sql (drop 11 (upper sql)) = Ok (DropTableStmt t ie)"
proof -
  let ?rest = "(if ie then ''IF EXISTS '' else []) @ t"
  have sql: "sql = ''DROP TABLE '' @ ?rest" by (simp add: sql_def)
  have ascii: "ascii sql" "ascii ?rest" using t by (simp_all add: sql is_ascii_def)
  have rest: "str_from 11 sql = (Ok ?rest :: (string, string) res)" using ascii(1) by (subst str_from_ascii) (simp_all add: sql)
  have words: "word_ok ''IF''" "word_ok ''EXISTS''" by (simp_all add: word_ok_def graphic_def)
  show ?thesis
  proof (cases ie)
    case True
    have "trim ?rest = ?rest" using True t words trim_words [of "''IF''" "[''EXISTS'', t]"] by simp
    moreover have "str_from 10 ?rest = (Ok t :: (string, string) res)" using ascii(2) True by (subst str_from_ascii) simp_all
    moreover have "prefix ''IF EXISTS '' (drop 11 (upper sql))" using True by (simp add: sql ascii_upper_def)
    ultimately show ?thesis using True t unfolding parse_drop_def rest res_bind.simps Let_def by (simp add: trim_word)
  next
    case False
    have "CHR '' '' \<notin> set (upper t)" using t by (simp add: upper_space del: set_map)
    then have "\<not> prefix ''IF EXISTS '' (upper t)" using set_mono_prefix by fastforce
    moreover have "drop 11 (upper sql) = upper t" using False by (simp add: sql)
    ultimately show ?thesis using False t unfolding parse_drop_def rest res_bind.simps Let_def by (simp add: trim_word)
  qed
qed

lemma split_at_comma_blank:
  "\<forall>s \<in> set (s # ss). CHR '','' \<notin> set s \<Longrightarrow> split_at CHR '','' (joined '', '' (s # ss)) = s # map ((#) CHR '' '') ss"
proof (induction ss arbitrary: s)
  case (Cons t ss)
  have "split_acc CHR '','' acc (s @ CHR '','' # r) = (acc @ s) # split_acc CHR '','' [] r" for acc r
    using Cons.prems by (induction s arbitrary: acc) auto
  moreover have "split_acc CHR '','' (CHR '' '' # acc) r = (case split_acc CHR '','' acc r of p # ps \<Rightarrow> (CHR '' '' # p) # ps | [] \<Rightarrow> [])" for acc r
    by (induction r arbitrary: acc) auto
  ultimately show ?case using Cons.IH [of t] Cons.prems by (simp add: split_at_def)
qed (simp add: split_at_none)


text \<open>A text between parentheses, behind words.\<close>

lemma trim_enclosed:
  assumes "ascii s" and "graphic a" and "graphic b"
  shows "trim (a # s @ [b]) = a # s @ [b]"
  using assms by (intro trim_fix) (simp_all add: graphic_ascii graphic_not_blank)

lemma joined_ascii: "\<forall>s \<in> set ss. ascii s \<Longrightarrow> ascii sep \<Longrightarrow> ascii (joined sep ss)"
  by (induction sep ss rule: joined.induct) auto

lemma trim_end_paren: "last s \<noteq> CHR '')'' \<Longrightarrow> s \<noteq> [] \<Longrightarrow> trim_end_matches CHR '')'' (s @ '')'') = s"
  by (cases s rule: rev_cases) (auto simp: trim_end_matches_def)

lemma last_joined: "ss \<noteq> [] \<Longrightarrow> \<forall>s \<in> set ss. s \<noteq> [] \<Longrightarrow> last (joined sep ss) = last (last ss)"
  by (induction sep ss rule: joined.induct) (auto simp: joined_Nil)

lemma hd_joined: "ss \<noteq> [] \<Longrightarrow> hd ss \<noteq> [] \<Longrightarrow> hd (joined sep ss) = hd (hd ss)"
  by (induction sep ss rule: joined.induct) auto

lemma parse_insert_printed:
  assumes t: "ident t" and vs: "vs \<noteq> []" "list_all literal_ok vs"
  defines "sql \<equiv> ''INSERT INTO '' @ t @ '' VALUES ('' @ joined '', '' (map sql_literal vs) @ '')''"
  shows "parse_insert sql (upper sql) = Ok (InsertStmt t vs)"
proof -
  let ?j = "joined '', '' (map sql_literal vs)"
  have lit: "ascii v" "CHR 0x27 \<notin> set v" "CHR '','' \<notin> set v" if "v \<in> set vs" for v
    using vs(2) that by (auto simp: literal_ok_def list_all_iff)
  have quote: "ascii (sql_literal v)" if "v \<in> set vs" for v using lit(1) [OF that] by (simp add: sql_literal_def is_ascii_def)
  then have ascii_j: "ascii ?j" by (intro joined_ascii) (auto simp: is_ascii_def)
  then have ascii: "ascii sql" using t by (simp add: sql_def is_ascii_def)
  have "sql = ''INSERT'' @ spaced [''INTO'', t, ''VALUES'', ''('' @ ?j @ '')'']" by (simp add: sql_def)
  then have "upper sql = upper ''INSERT'' @ spaced (map upper [''INTO'', t, ''VALUES'', ''('' @ ?j @ '')''])"
    by (metis map_append upper_spaced)
  moreover have "CHR '' '' \<notin> set (upper ''INSERT'')" by (rule upper_space) simp
  ultimately have "find_str '' VALUES '' (upper sql) = shift 6 (find_kw ''VALUES'' [] ([''INTO'', t] @ [''VALUES'', ''('' @ ?j @ '')'']))"
    using find_kw_text [of "upper ''INSERT''" "''VALUES''" "[]" "[''INTO'', t, ''VALUES'', ''('' @ ?j @ '')'']"]
    by (simp add: numeral_eq_Suc del: spaced.simps list.map)
  also have "\<dots> = shift 6 (shift (length (spaced [''INTO'', t])) (Some 0))"
  proof -
    have "\<not> spells t ''VALUES''" using t by (simp add: ident_def reserved_def spells_def)
    moreover have "\<not> spells ''INTO'' ''VALUES''" by (simp add: spells_def)
    ultimately have "no_kw ''VALUES'' [''INTO'', t]" using t by simp
    moreover have "find_kw ''VALUES'' [] [''VALUES'', ''('' @ ?j @ '')''] = Some 0" by (simp add: find_kw_def ascii_upper_def)
    ultimately show ?thesis by (subst find_kw_skip) simp_all
  qed
  finally have idx: "find_str '' VALUES '' (upper sql) = Some (12 + length t)" by simp
  have table: "str_slice 12 (12 + length t) sql = (Ok t :: (string, string) res)"
    using ascii by (subst str_slice_ascii) (simp_all add: sql_def)
  have lits: "str_from (12 + length t + 8) sql = (Ok (''('' @ ?j @ '')'') :: (string, string) res)"
    using ascii by (subst str_from_ascii) (simp_all add: sql_def numeral_eq_Suc)
  have trim: "trim (''('' @ ?j @ '')'') = ''('' @ ?j @ '')''"
    using trim_enclosed [OF ascii_j, of "CHR ''(''" "CHR '')''"] by (simp add: graphic_def)
  obtain v ws where v: "vs = v # ws" using vs(1) by (cases vs) auto
  have nonempty: "?j \<noteq> []" using v by (simp add: joined_Nil sql_literal_def)
  have "hd ?j = CHR 0x27" using v by (subst hd_joined) (simp_all add: sql_literal_def)
  then have "trim_start_matches CHR ''('' (''('' @ ?j @ '')'') = ?j @ '')''"
    using nonempty by (cases ?j) (simp_all add: trim_start_matches_def)
  moreover have "last ?j = CHR 0x27" using vs(1) by (subst last_joined) (auto simp: sql_literal_def last_map)
  ultimately have inner: "trim_end_matches CHR '')'' (trim_start_matches CHR ''('' (''('' @ ?j @ '')'')) = ?j"
    using nonempty by (simp add: trim_end_paren)
  have "split_at CHR '','' ?j = sql_literal v # map ((#) CHR '' '') (map sql_literal ws)"
    using v lit(3) split_at_comma_blank [of "sql_literal v" "map sql_literal ws"] by (auto simp: sql_literal_def)
  moreover have "trim_matches CHR 0x27 (trim (sql_literal u)) = u" if "u \<in> set vs" for u
  proof -
    have "trim (sql_literal u) = sql_literal u" using trim_enclosed [OF lit(1) [OF that], of "CHR 0x27" "CHR 0x27"] by (simp add: sql_literal_def graphic_def)
    then show ?thesis using trim_quoted [OF lit(2) [OF that]] by simp
  qed
  moreover have "trim (CHR '' '' # sql_literal u) = trim (sql_literal u)" if "u \<in> set vs" for u using quote [OF that] by (rule trim_blank_left)
  ultimately have parsed: "map (\<lambda>s. trim_matches CHR 0x27 (trim s)) (split_at CHR '','' ?j) = vs"
    using v by (auto intro!: map_idI)
  show ?thesis
    unfolding parse_insert_def idx ok_or.simps res_bind.simps table lits trim inner parsed using t by (simp add: trim_word)
qed

lemma split_whitespace_spaced: "\<forall>w \<in> set ws. word_ok w \<Longrightarrow> split_whitespace (spaced ws) = ws"
proof (cases ws)
  case (Cons w us)
  have "blank CHR '' ''" by (simp add: whitespace_def whitespace_chars_def)
  moreover assume "\<forall>w \<in> set ws. word_ok w"
  ultimately show ?thesis using Cons split_whitespace_words [of w us]
    by (simp add: split_whitespace_def utf8_chars_ascii is_ascii_def del: utf8_chars.simps)
qed (simp add: split_whitespace_def)

lemma parse_create_printed:
  fixes ine :: bool
  assumes t: "ident t" and cols: "cols \<noteq> []" "list_all (\<lambda>c. ident (cd_name c) \<and> ident (cd_type c)) cols"
  defines "sql \<equiv> ''CREATE TABLE '' @ (if ine then ''IF NOT EXISTS '' else []) @ t @ '' ('' @
       joined '', '' (map (\<lambda>c. cd_name c @ '' '' @ cd_type c) cols) @ '')''"
  shows "parse_create sql (drop 13 (upper sql)) = Ok (CreateTableStmt t cols ine)"
proof -
  let ?def = "\<lambda>c. cd_name c @ '' '' @ cd_type c"
  let ?j = "joined '', '' (map ?def cols)"
  let ?tp = "t @ '' ('' @ ?j @ '')''"
  let ?rest = "(if ine then ''IF NOT EXISTS '' else []) @ ?tp"
  have ids: "ident (cd_name c)" "ident (cd_type c)" if "c \<in> set cols" for c using cols(2) that by (auto simp: list_all_iff)
  have "ascii (?def c)" if "c \<in> set cols" for c using ids [OF that] by (simp add: is_ascii_def)
  then have ascii_j: "ascii ?j" by (intro joined_ascii) (auto simp: is_ascii_def)
  have sql: "sql = ''CREATE TABLE '' @ ?rest" by (simp add: sql_def)
  have ascii: "ascii ?rest" "ascii ?tp" "ascii sql" using ascii_j t by (simp_all add: sql is_ascii_def)
  have rest: "str_from 13 sql = (Ok ?rest :: (string, string) res)" using ascii(3) by (subst str_from_ascii) (simp_all add: sql)
  have stripped: "drop 13 (upper sql) = upper ?rest" by (simp add: sql)
  obtain a as where a: "t = a # as" "graphic a" using ident_word [OF t] by (cases t) (auto simp: word_ok_def)
  have paren_upper: "ascii_upper CHR '')'' = CHR '')''" by (simp add: ascii_upper_def)
  have "trim ?tp = ?tp" using trim_enclosed [of "as @ '' ('' @ ?j" a "CHR '')''"] ascii(2) a by (simp add: graphic_def)
  moreover have "trim (ascii_upper a # upper (as @ '' ('' @ ?j) @ '')'') = ascii_upper a # upper (as @ '' ('' @ ?j) @ '')''"
    using ascii(2) a by (intro trim_enclosed) (simp_all add: graphic_def [of "CHR '')''"])
  then have "trim (upper ?tp) = upper ?tp" using paren_upper a by simp
  moreover have "trim (''IF NOT EXISTS '' @ ?tp) = ''IF NOT EXISTS '' @ ?tp"
    using trim_enclosed [of "''F NOT EXISTS '' @ t @ '' ('' @ ?j" "CHR ''I''" "CHR '')''"] ascii(2) by (simp add: graphic_def is_ascii_def)
  moreover have "trim (upper (''IF NOT EXISTS '' @ ?tp)) = upper (''IF NOT EXISTS '' @ ?tp)"
    using trim_enclosed [of "upper (''F NOT EXISTS '' @ t @ '' ('' @ ?j)" "CHR ''I''" "CHR '')''"] ascii(2)
    by (simp add: graphic_def is_ascii_def ascii_upper_def)
  ultimately have trims: "trim ?tp = ?tp" "trim ?rest = ?rest" "trim (upper ?rest) = upper ?rest" by simp_all
  have "\<not> prefix (''IF'' @ CHR '' '' # ''NOT EXISTS '') (upper t @ spaced [''('' @ upper ?j @ '')''])"
  proof
    assume p: "prefix (''IF'' @ CHR '' '' # ''NOT EXISTS '') (upper t @ spaced [''('' @ upper ?j @ '')''])"
    have "CHR '' '' \<notin> set (upper t)" using t by (simp add: upper_space del: set_map)
    from prefix_word [OF p _ this] have "''IF'' = upper t" by simp
    then show False using t by (simp add: ident_def reserved_def)
  qed
  then have ine: "prefix ''IF NOT EXISTS '' (upper ?rest) = ine" by (cases ine) (simp_all add: ascii_upper_def)
  have tp: "str_from (if ine then 14 else 0) ?rest = (Ok ?tp :: (string, string) res)" using ascii(1) by (subst str_from_ascii) simp_all
  have plain: "CHR ''('' \<notin> set (t @ '' '')" using ident_plain [OF t] by auto
  have paren: "find_str ''('' ?tp = Some (length t + 1)" using find_first [OF plain, of "[]" "?j @ '')''"] by simp
  have nonempty: "?j \<noteq> []" using cols(1) by (subst joined_Nil) auto
  have last: "last ?j = last (cd_type (last cols))" using cols(1) ids(2) [of "last cols"]
    by (subst last_joined) (auto simp: last_map ident_def)
  have "word_ok (cd_type (last cols))" "CHR '')'' \<notin> set (cd_type (last cols))"
    using ids(2) [of "last cols"] cols(1) ident_plain [of "cd_type (last cols)"] by auto
  then have "last ?j \<noteq> CHR '')''" using last by (metis last_in_set word_ok_def)
  then have inner: "trim_end_matches CHR '')'' (?j @ '')'') = ?j" using nonempty by (rule trim_end_paren)
  obtain c cs where c: "cols = c # cs" using cols(1) by (cases cols) auto
  have "hd ?j = hd (cd_name c)" using c ids(1) [of c] by (subst hd_joined) (auto simp: ident_def hd_append)
  moreover have "graphic (hd (cd_name c))" using c ident_word [OF ids(1), of c] by (cases "cd_name c") (auto simp: word_ok_def)
  ultimately have trim_j: "trim (?j @ '')'') = ?j @ '')''"
    using nonempty ascii_j by (intro trim_fix) (simp_all add: graphic_not_blank is_ascii_def, simp add: whitespace_def whitespace_chars_def)
  have "CHR '','' \<notin> set (?def d)" if "d \<in> set cols" for d using ids [OF that] ident_plain [of "cd_name d"] ident_plain [of "cd_type d"] by auto
  then have split: "split_at CHR '','' ?j = ?def c # map ((#) CHR '' '') (map ?def cs)"
    using c split_at_comma_blank [of "?def c" "map ?def cs"] by auto
  have "split_whitespace (?def d) = [cd_name d, cd_type d]" "split_whitespace (CHR '' '' # ?def d) = [cd_name d, cd_type d]" if "d \<in> set cols" for d
    using ids [OF that] split_whitespace_words [of "cd_name d" "[cd_type d]"] split_whitespace_spaced [of "[cd_name d, cd_type d]"] by simp_all
  then have col: "parse_column_def (?def d) = Some d" "parse_column_def (CHR '' '' # ?def d) = Some d" if "d \<in> set cols" for d
    using that by (simp_all add: parse_column_def_def)
  have more: "List.map_filter parse_column_def (map ((#) CHR '' '') (map ?def ds)) = ds" if "set ds \<subseteq> set cols" for ds
    using that col(2) by (induction ds) (simp_all add: map_filter_simps)
  then have parsed: "List.map_filter parse_column_def (split_at CHR '','' ?j) = cols"
    using c col(1) [of c] more [of cs] unfolding split by (auto simp: map_filter_simps)
  show ?thesis
    unfolding parse_create_def rest res_bind.simps Let_def stripped trims ine tp paren option.case
    using t trim_j inner parsed by (simp add: trim_blank_right trim_word)
qed


subsection \<open>Every statement\<close>

lemma token_last: "token w \<Longrightarrow> w \<noteq> [] \<and> \<not> blank (last w) \<and> last w \<noteq> CHR '';''"
proof -
  have "\<not> blank CHR 0x27" by (simp add: whitespace_def whitespace_chars_def)
  moreover have "\<not> blank (last w) \<and> last w \<noteq> CHR '';''" if "clean w" "w \<noteq> []"
    using that last_in_set [of w] graphic_not_blank by (auto simp: clean_def list_all_iff)
  ultimately show "token w \<Longrightarrow> ?thesis" by (auto simp: token_def sql_literal_def)
qed

definition solid :: "string \<Rightarrow> bool" where
  "solid x \<longleftrightarrow> (\<forall>b s. tidy False False s \<longrightarrow> tidy False b (x @ s))"

lemma solid_token: "token w \<Longrightarrow> solid w"
  by (simp add: solid_def tidy_token)

lemma solid_blank: "solid x \<Longrightarrow> solid y \<Longrightarrow> solid (x @ CHR '' '' # y)"
  by (simp add: solid_def)

lemma solid_append: "solid x \<Longrightarrow> solid y \<Longrightarrow> solid (x @ y)"
  by (simp add: solid_def)

lemma solid_joined: "ss \<noteq> [] \<Longrightarrow> \<forall>s \<in> set ss. solid s \<Longrightarrow> solid (joined '', '' ss)"
  by (induction "'', ''" ss rule: joined.induct) (simp_all add: solid_def graphic_def)

lemma solid_tidy: "solid x \<Longrightarrow> tidy False False x"
  unfolding solid_def by (metis append_Nil2 tidy.simps(1))

definition readable :: "string \<Rightarrow> bool" where
  "readable s \<longleftrightarrow> ascii s \<and> s \<noteq> [] \<and> \<not> blank (hd s) \<and> \<not> blank (last s) \<and> last s \<noteq> CHR '';'' \<and> tidy False False s"

lemma readable_words:
  assumes "word_ok w" and "token w" and "\<forall>w \<in> set ws. word_ok w \<and> token w"
  shows "readable (w @ spaced ws)"
proof -
  have "last (w @ spaced ws) = last (last (w # ws))" using assms last_spaced [of ws] by (simp add: last_append)
  moreover have "token (last (w # ws))" using assms by (cases "ws = []") auto
  moreover have "\<not> blank (hd (w @ spaced ws))" using assms(1) hd_last_word [of w] by (simp add: word_ok_def hd_append)
  moreover have "tidy False False (w @ spaced ws)" using assms by (simp add: tidy_token tidy_spaced)
  ultimately show ?thesis using assms token_last by (simp add: readable_def word_ok_def [of w])
qed

lemma readable_paren:
  assumes "graphic a" and "ascii s" and "solid (a # s)"
  shows "readable ((a # s) @ '')'')"
proof -
  have "tidy False False '')''" and "\<not> blank CHR '')''" and "is_ascii CHR '')''"
    by (simp_all add: graphic_def whitespace_def whitespace_chars_def is_ascii_def)
  then show ?thesis using assms by (simp add: readable_def graphic_ascii graphic_not_blank solid_def flip: append_Cons)
qed

lemma keyword_words: "w \<in> set [''SELECT'', ''FROM'', ''DELETE'', ''DROP'', ''TABLE'', ''IF'', ''EXISTS'', ''NOT'', ''CREATE'', ''INSERT'', ''INTO'', ''VALUES'', ''WHERE''] \<Longrightarrow>
    word_ok w \<and> token w"
  by (auto simp: word_ok_def token_def clean_def graphic_def)

lemma solid_keywords: "solid ''INSERT''" "solid ''INTO''" "solid ''VALUES''" "solid ''CREATE''" "solid ''TABLE''" "solid ''IF''"
    "solid ''NOT''" "solid ''EXISTS''" "solid ''(''"
  by (rule solid_token, simp add: token_def clean_def graphic_def)+

lemma solid_ident: "ident w \<Longrightarrow> solid w"
  by (simp add: solid_token ident_token)

lemma stmt_readable:
  assumes "stmt_ok stmt"
  shows "readable (show_stmt stmt)"
proof (cases stmt)
  case (SelectStmt cols t a joins conds od)
  then have ok: "clauses_ok joins conds od" "cols \<noteq> []" "\<forall>c \<in> set cols. col_ok c" "ident t" "list_all ident (opt_words a)"
    using assms by (auto simp: clauses_ok_def col_ok_def)
  have "word_ok w \<and> token w" if "w \<in> set ([joined '','' cols, ''FROM'', t] @ opt_words a @ clause_words joins conds od)" for w
    using that ok columns_word [OF ok(2,3)] keyword_words [of "''FROM''"] words_of_clauses [OF ok(1), of w] clause_tokens [OF ok(1), of w]
      ident_token [of t] ident_token [of w] by (auto simp: list_all_iff)
  then show ?thesis using SelectStmt keyword_words [of "''SELECT''"] readable_words [of "''SELECT''"] by (simp del: spaced.simps spaced_append)
next
  case (InsertStmt t vs)
  then have ok: "ident t" "vs \<noteq> []" "list_all literal_ok vs" using assms by simp_all
  let ?j = "joined '', '' (map sql_literal vs)"
  have lit: "ascii v" "CHR 0x27 \<notin> set v" if "v \<in> set vs" for v
    using ok(3) that by (auto simp: literal_ok_def list_all_iff)
  have "solid (sql_literal v)" if "v \<in> set vs" for v using lit [OF that] by (intro solid_token) (auto simp: token_def)
  then have "solid ?j" using ok(2) by (intro solid_joined) auto
  then have "solid (''INSERT'' @ CHR '' '' # ''INTO'' @ CHR '' '' # t @ CHR '' '' # ''VALUES'' @ CHR '' '' # ''('' @ ?j)"
    using ok(1) by (intro solid_blank solid_append) (simp_all only: solid_keywords solid_ident)
  moreover have "ascii ?j" using lit(1) by (intro joined_ascii) (auto simp: is_ascii_def sql_literal_def)
  ultimately show ?thesis
    using InsertStmt ok(1) readable_paren [of "CHR ''I''" "''NSERT INTO '' @ t @ '' VALUES ('' @ ?j"] by (simp add: graphic_def is_ascii_def)
next
  case (CreateTableStmt t cols ine)
  then have ok: "ident t" "cols \<noteq> []" "list_all (\<lambda>c. ident (cd_name c) \<and> ident (cd_type c)) cols" using assms by simp_all
  let ?j = "joined '', '' (map (\<lambda>c. cd_name c @ '' '' @ cd_type c) cols)"
  have ids: "ident (cd_name c)" "ident (cd_type c)" if "c \<in> set cols" for c using ok(3) that by (auto simp: list_all_iff)
  have "solid (cd_name c @ CHR '' '' # cd_type c)" if "c \<in> set cols" for c
    using ids [OF that] by (intro solid_blank solid_ident)
  then have j: "solid ?j" using ok(2) by (intro solid_joined) auto
  have "solid (''CREATE'' @ CHR '' '' # ''TABLE'' @ CHR '' '' # t @ CHR '' '' # ''('' @ ?j)"
    using ok(1) j by (intro solid_blank solid_append) (simp_all only: solid_keywords solid_ident)
  moreover have "solid (''CREATE'' @ CHR '' '' # ''TABLE'' @ CHR '' '' # ''IF'' @ CHR '' '' # ''NOT'' @ CHR '' '' # ''EXISTS'' @ CHR '' '' # t @ CHR '' '' # ''('' @ ?j)"
    using ok(1) j by (intro solid_blank solid_append) (simp_all only: solid_keywords solid_ident)
  moreover have "ascii ?j" using ids by (intro joined_ascii) (auto simp: is_ascii_def)
  ultimately show ?thesis
    using CreateTableStmt ok(1)
      readable_paren [of "CHR ''C''" "''REATE TABLE '' @ (if ine then ''IF NOT EXISTS '' else []) @ t @ '' ('' @ ?j"]
    by (cases ine) (simp_all add: graphic_def is_ascii_def)
next
  case (DropTableStmt t ie)
  then have t: "word_ok t \<and> token t" using assms by (simp add: ident_token)
  have "\<forall>w \<in> set [''TABLE'', ''IF'', ''EXISTS'']. word_ok w \<and> token w" using keyword_words by simp
  then have "\<forall>w \<in> set (''TABLE'' # (if ie then [''IF'', ''EXISTS''] else []) @ [t]). word_ok w \<and> token w"
    using t by (cases ie) simp_all
  moreover have "word_ok ''DROP''" "token ''DROP''" using keyword_words by simp_all
  ultimately have "readable (''DROP'' @ spaced (''TABLE'' # (if ie then [''IF'', ''EXISTS''] else []) @ [t]))"
    by (intro readable_words)
  then show ?thesis using DropTableStmt by (cases ie) simp_all
next
  case (DeleteStmt t conds)
  then have ok: "clauses_ok [] conds None" "ident t" using assms by (auto simp: clauses_ok_def opt_words_def)
  have "word_ok w \<and> token w" if "w \<in> set ([''FROM'', t] @ where_words conds)" for w
    using that ok keyword_words [of "''FROM''"] words_of_clauses [OF ok(1), of w] clause_tokens [OF ok(1), of w] ident_token [of t]
    by (auto simp: clause_words_def order_words_def)
  then show ?thesis using DeleteStmt keyword_words [of "''DELETE''"] readable_words [of "''DELETE''"] by (simp del: spaced.simps spaced_append)
qed

lemma parse_printed:
  assumes "stmt_ok stmt" and "\<forall>s. ascii s \<longrightarrow> up s = map ascii_upper s"
  shows "parse_sql up (show_stmt stmt @ replicate n CHR '';'') = Ok stmt"
proof -
  let ?s = "show_stmt stmt"
  have r: "readable ?s" using assms(1) by (rule stmt_readable)
  then have norm: "normalize_sql (trim_end_matches CHR '';'' (trim (?s @ replicate n CHR '';''))) = ?s"
    unfolding readable_def by (elim conjE) (rule prepared)
  have up: "up ?s = upper ?s" using r assms(2) by (simp add: readable_def)
  show ?thesis
  proof (cases stmt)
    case (SelectStmt cols t a joins conds od)
    then have "parse_select ?s (upper ?s) = Ok stmt"
      using parse_select_printed [of cols t a joins conds od] assms(1) by (simp add: clauses_ok_def col_ok_def)
    moreover have "prefix ''SELECT '' (upper ?s)" using SelectStmt by (simp add: ascii_upper_def)
    ultimately show ?thesis by (simp only: parse_sql_def norm up Let_def if_True)
  next
    case (InsertStmt t vs)
    then have "parse_insert ?s (upper ?s) = Ok stmt" using parse_insert_printed [of t vs] assms(1) by simp
    moreover have "prefix ''INSERT INTO '' (upper ?s)" "\<not> prefix ''SELECT '' (upper ?s)" using InsertStmt by (simp_all add: ascii_upper_def)
    ultimately show ?thesis by (simp only: parse_sql_def norm up Let_def if_True if_False)
  next
    case (CreateTableStmt t cols ine)
    then have "parse_create ?s (drop 13 (upper ?s)) = Ok stmt" using parse_create_printed [of t cols ine] assms(1) by simp
    moreover have "prefix ''CREATE TABLE '' (upper ?s)" "\<not> prefix ''SELECT '' (upper ?s)" "\<not> prefix ''INSERT INTO '' (upper ?s)"
      using CreateTableStmt by (simp_all add: ascii_upper_def)
    ultimately show ?thesis by (simp only: parse_sql_def norm up Let_def if_True if_False)
  next
    case (DropTableStmt t ie)
    then have "parse_drop ?s (drop 11 (upper ?s)) = Ok stmt" using parse_drop_printed [of t ie] assms(1) by simp
    moreover have "prefix ''DROP TABLE '' (upper ?s)" "\<not> prefix ''SELECT '' (upper ?s)" "\<not> prefix ''INSERT INTO '' (upper ?s)"
        "\<not> prefix ''CREATE TABLE '' (upper ?s)"
      using DropTableStmt by (simp_all add: ascii_upper_def)
    ultimately show ?thesis by (simp only: parse_sql_def norm up Let_def if_True if_False)
  next
    case (DeleteStmt t conds)
    then have "parse_delete ?s (drop 12 (upper ?s)) = Ok stmt" using parse_delete_printed [of t conds] assms(1) by simp
    moreover have "prefix ''DELETE FROM '' (upper ?s)" "\<not> prefix ''SELECT '' (upper ?s)" "\<not> prefix ''INSERT INTO '' (upper ?s)"
        "\<not> prefix ''CREATE TABLE '' (upper ?s)" "\<not> prefix ''DROP TABLE '' (upper ?s)"
      using DeleteStmt by (simp_all add: ascii_upper_def)
    ultimately show ?thesis by (simp only: parse_sql_def norm up Let_def if_True if_False)
  qed
qed

text \<open>
  C10: whatever statement is printed, with or without semicolons behind it, the parser reads the same
  statement again: columns, aliases, joins, conditions with their connectives, \<open>ORDER BY\<close>, values, column
  definitions. Identifiers are no keywords, and values do not contain what ends a literal or looks like an operator.
\<close>

theorem parse_sql_printed:
  assumes "stmt_ok stmt" and "\<forall>s. ascii s \<longrightarrow> up s = map ascii_upper s"
  shows "parse_sql up (show_stmt stmt @ replicate n CHR '';'') = Ok stmt"
  by (rule parse_printed [OF assms])

theorem parse_sql_printed_witness:
  "parse_sql (map ascii_upper) ''SELECT a,b FROM t x JOIN u ON a = k WHERE a >= '5' OR b = 'q' ORDER BY b;;'' =
     Ok (SelectStmt [''a'', ''b''] ''t'' (Some ''x'') [\<lparr>jc_table = ''u'', jc_alias = None, jc_left_col = ''a'', jc_right_col = ''k''\<rparr>]
       [\<lparr>left_col = ''a'', cond_op = Gte, right_val = ''5'', next_logic = Some Or\<rparr>,
        \<lparr>left_col = ''b'', cond_op = Eq, right_val = ''q'', next_logic = None\<rparr>] (Some ''b''))"
proof -
  let ?s = "SelectStmt [''a'', ''b''] ''t'' (Some ''x'') [\<lparr>jc_table = ''u'', jc_alias = None, jc_left_col = ''a'', jc_right_col = ''k''\<rparr>]
    [\<lparr>left_col = ''a'', cond_op = Gte, right_val = ''5'', next_logic = Some Or\<rparr>,
     \<lparr>left_col = ''b'', cond_op = Eq, right_val = ''q'', next_logic = None\<rparr>] (Some ''b'')"
  have "stmt_ok ?s" by code_simp
  moreover have "show_stmt ?s @ replicate 2 CHR '';'' = ''SELECT a,b FROM t x JOIN u ON a = k WHERE a >= '5' OR b = 'q' ORDER BY b;;''"
    by code_simp
  ultimately show ?thesis using parse_sql_printed [of ?s "map ascii_upper" 2] by simp
qed

end
