(* ===== verification/Commands.thy ===== *)
theory Commands
  imports Db_Spec Sql_Spec
begin

text \<open>
  A command line: \<open>process_command\<close> (\<open>crates/wackdb_cli/src/commands/mod.rs\<close>) parses a statement and hands
  it to the command of its kind. What the command prints is its \<open>reply\<close>; the statistics that are printed
  with it are left out. \<open>meta\<close> stands for the commands that begin with a dot. The theorem takes the text of
  an \<open>INSERT\<close> down to the rows of its table and the records of its log.
\<close>

datatype reply =
    Notice notice
  | Rows string "sql_value list list"

definition process_command :: "(string \<Rightarrow> string) \<Rightarrow> (string \<Rightarrow> ('s db, cli_error, reply) act) \<Rightarrow> 's table_store \<Rightarrow> serde \<Rightarrow>
    string \<Rightarrow> nat \<Rightarrow> faults \<Rightarrow> bool \<Rightarrow> ('s db, cli_error, reply) act" where
  "process_command up meta S J cmd sort_chunk_size flt is_recovery =
     (if prefix ''.'' cmd then meta cmd
      else bnd (of_res (map_err Message (parse_sql up cmd))) (\<lambda>stmt. case stmt of
          CreateTableStmt _ _ _ \<Rightarrow> bnd (execute_ddl up J stmt) (\<lambda>n. ret (Notice n))
        | DropTableStmt _ _ \<Rightarrow> bnd (execute_ddl up J stmt) (\<lambda>n. ret (Notice n))
        | InsertStmt _ _ \<Rightarrow> bnd (execute_dml S J stmt is_recovery) (\<lambda>n. ret (Notice n))
        | DeleteStmt _ _ \<Rightarrow> bnd (execute_dml S J stmt is_recovery) (\<lambda>n. ret (Notice n))
        | SelectStmt _ _ _ _ _ _ \<Rightarrow> (\<lambda>d.
            bnd (on_pool (execute_query (st_pager S) (st_total S) stmt (db_catalog d) sort_chunk_size flt))
              (\<lambda>(plan, rows). ret (Rows plan rows)) d)))"

text \<open>No record of the log waits in memory.\<close>

definition committed :: "pool db \<Rightarrow> bool" where
  "committed d \<longleftrightarrow> (case log_mgr (db_pool d) of None \<Rightarrow> True | Some l \<Rightarrow> log_buffer l = [])"

abbreviation flushed :: "nat \<Rightarrow> pool db \<Rightarrow> pool db" where
  "flushed ps d \<equiv> d\<lparr>db_pool := st_flush (store ps) (db_pool d)\<rparr>"

lemma flushed_session:
  assumes "db_ready ps n J d"
  shows "lp.rs.hs.session ps n (pin_counts (db_pool d)) (length (frames (db_pool d)))
    (basic_total ps (disk (db_pool d))) (pool_view ps (db_pool d)) [] {} (db_pool (flushed ps d))"
  using lp.rs.session_log_flush [OF ready_session [OF assms]] by simp

lemma flushed_same:
  assumes "db_ready ps n J d"
  shows "db_ready ps n J (flushed ps d)" and "db_room k (flushed ps d) = db_room k d"
    and "table_holds ps (flushed ps d) table sch rows = table_holds ps d table sch rows"
proof -
  have cat: "on_disk J (db_catalog (flushed ps d))" using assms by (simp add: db_ready_def)
  note same = session_ready [OF flushed_session [OF assms] cat]
  show "db_ready ps n J (flushed ps d)" by (rule same(1))
  show "db_room k (flushed ps d) = db_room k d" unfolding db_room_def same(2,3) ..
  show "table_holds ps (flushed ps d) table sch rows = table_holds ps d table sch rows"
    unfolding table_holds_def same(4,5) by simp
qed

lemma flushed_kept: "db_ready ps n J d' \<Longrightarrow> kept_else ps table d d' \<Longrightarrow> kept_else ps table d (flushed ps d')"
  using flushed_same by (auto simp: kept_else_def)

lemma flushed_committed:
  assumes "db_ready ps n J d"
  shows "committed (flushed ps d)"
proof (cases "log_mgr (db_pool d)")
  case None
  then show ?thesis by (simp add: committed_def pool_store_def pool_flush_log_def flush_log_def)
next
  case (Some l)
  have l: "wal_inv l" "wal_healthy l"
    using lp.good_pool_log [of ps "db_pool d" l] assms Some by (auto simp: db_ready_def pool_ready_def bp.good_pool_def)
  obtain r l' where f: "lm_flush_up_to wal_ops (- 1) l = (r, l')" by (cases "lm_flush_up_to wal_ops (- 1) l")
  have "is_ok r" using wal.flush_law [OF l(1) f] l(2) by blast
  then have "r = Ok ()" by (cases r) simp_all
  then have "log_buffer l' = filter (\<lambda>(n, _). - 1 < n) (log_buffer l)" using wal.flush_law [OF l(1) f] by blast
  then have "log_buffer l' = []" by (simp add: filter_empty_conv not_less word_order.extremum)
  then show ?thesis using Some f by (simp add: committed_def pool_store_def pool_flush_log_def flush_log_def)
qed

text \<open>
  C3: the text of an \<open>INSERT\<close>, typed in with semicolons behind it, appends the row to the table or answers
  that the key is there; the other tables keep their rows, and when the command returns no log record is
  left in the memory buffer of the log. The database is in the state \<open>db_ready\<close>, where no system call
  fails.
\<close>

theorem insert_text_commits:
  assumes "geometry ps" and "ps < 65536" and "db_ready ps (Suc n) J d" and "db_room 3 d" and "files_room ps d table"
    and "table_holds ps d table sch rows"
    and "parse_values vals (columns sch) = Ok (Integer pk # vs)" and "length (columns sch) \<le> length vals"
    and "\<forall>v \<in> set vals. valid_utf8 (as_bytes v)"
    and "tuple_len sch (Integer pk # vs) + 36 \<le> ps" and "length table < 2 ^ 30"
    and "stmt_ok (InsertStmt table vals)" and "\<forall>s. ascii s \<longrightarrow> up s = map ascii_upper s"
    and "cmd = show_stmt (InsertStmt table vals) @ replicate k CHR '';''"
  shows "\<exists>d'. (if \<exists>vs'. Integer pk # vs' \<in> set rows
      then process_command up meta (store ps) J cmd chunk flt False d = Some (Ok (Notice (DuplicatePk pk)), d') \<and>
        db_ready ps (Suc n) J d' \<and> table_holds ps d' table sch rows
      else process_command up meta (store ps) J cmd chunk flt False d = Some (Ok (Notice Inserted), d') \<and>
        db_ready ps n J d' \<and> table_holds ps d' table sch (rows @ [Integer pk # vs])) \<and> kept_else ps table d d' \<and> committed d'"
proof -
  have "parse_sql up cmd = Ok (InsertStmt table vals)"
    unfolding assms(14) by (rule parse_printed [OF assms(12,13)])
  moreover have "\<not> prefix ''.'' cmd" by (simp add: assms(14))
  ultimately have run: "process_command up meta (store ps) J cmd chunk flt False d = Some (Ok (Notice x), flushed ps d')"
    if "execute_insert (store ps) J table vals False d = Some (Ok x, d')" for x d'
    using that by (simp add: process_command_def execute_dml_def bnd_def ret_def of_res_def total_def)
  show ?thesis
  proof (cases "\<exists>vs'. Integer pk # vs' \<in> set rows")
    case True
    obtain d' where d': "execute_insert (store ps) J table vals False d = Some (Ok (DuplicatePk pk), d')"
      "db_ready ps (Suc n) J d'" "table_holds ps d' table sch rows" "kept_else ps table d d'"
      using insert_holds_rows [OF assms(1-11), of False] True by auto
    with True show ?thesis using run [OF d'(1)] flushed_same [OF d'(2)] flushed_kept [OF d'(2,4)] flushed_committed [OF d'(2)]
      by (intro exI [of _ "flushed ps d'"]) simp
  next
    case False
    obtain d' where d': "execute_insert (store ps) J table vals False d = Some (Ok Inserted, d')"
      "db_ready ps n J d'" "table_holds ps d' table sch (rows @ [Integer pk # vs])" "kept_else ps table d d'"
      using insert_holds_rows [OF assms(1-11), of False] False by auto
    with False show ?thesis using run [OF d'(1)] flushed_same [OF d'(2)] flushed_kept [OF d'(2,4)] flushed_committed [OF d'(2)]
      by (intro exI [of _ "flushed ps d'"]) simp
  qed
qed

theorem insert_text_commits_witness:
  "\<exists>d'. process_command (map ascii_upper) (\<lambda>_. throw (Message [])) (store 56) json0 ''INSERT INTO t VALUES ('5');'' 9 [] False db_t =
       Some (Ok (Notice Inserted), d') \<and> table_holds 56 d' ''t'' sch0 [[Integer 5]] \<and> committed d'"
proof -
  have p: "parse_values [''5''] (columns sch0) = Ok [Integer 5]" by code_simp
  have u: "\<forall>v \<in> set [''5'']. valid_utf8 (as_bytes v)" by code_simp
  have t: "tuple_len sch0 [Integer 5] = 5" by code_simp
  have r: "db_ready 56 (Suc 9) json0 db_t" "db_room 3 db_t"
    using db_t_facts(1) [of "Suc 9"] db_t_facts(2) spare_le [of _ _ 4 3] by (simp_all add: db_room_def)
  have l: "length (columns sch0) \<le> length [''5'']" "length ''t'' < 2 ^ 30" "56 < (65536 :: nat)" by (simp_all add: sch0_def)
  have f: "tuple_len sch0 [Integer 5] + 36 \<le> 56" unfolding t by simp
  have ok: "stmt_ok (InsertStmt ''t'' [''5''])" by code_simp
  have cmd: "show_stmt (InsertStmt ''t'' [''5'']) @ replicate 1 CHR '';'' = ''INSERT INTO t VALUES ('5');''" by code_simp
  from insert_text_commits [OF geometry_56 l(3) r db_t_facts(3,4) p l(1) u f l(2) ok,
      of "map ascii_upper" _ 1 "\<lambda>_. throw (Message [])" 9 "[]", OF _ refl, unfolded cmd]
  show ?thesis by auto
qed

end
