(* ===== verification/Pool_Run.thy ===== *)
theory Pool_Run
  imports Buffer_Pool_Spec
begin

text \<open>
  Runs of the buffer pool: what its clients observe is a sequence of events, each a call that
  returned without an error. \<open>last_written\<close> is the content of the pages the clients expect after
  a run, \<open>appended\<close> the log records they were told the LSNs of. The theory proves that every run
  keeps the pool, the pages and the log as expected, for any evictions on the way, and the
  write-ahead rule about the whole history of the log.
\<close>

datatype pool_event =
    Fetched page_id
  | Updated page_id page
  | Unpinned page_id
  | Created page_id
  | Flushed page_id
  | FlushedAll
  | Logged u64 bytes

inductive pool_step :: "nat \<Rightarrow> pool \<Rightarrow> pool_event \<Rightarrow> pool \<Rightarrow> bool" for ps where
  fetched: "fetch_page (basic_disk_ops ps) wal_ops p s = (Ok f, s') \<Longrightarrow> pool_step ps s (Fetched p) s'"
| updated: "length pg = ps \<Longrightarrow> update_page (basic_disk_ops ps) wal_ops p pg s = (Ok (), s') \<Longrightarrow>
    pool_step ps s (Updated p pg) s'"
| unpinned: "unpin_page p dirty s = (Ok (), s') \<Longrightarrow> pool_step ps s (Unpinned p) s'"
| created: "new_page (basic_disk_ops ps) wal_ops fid s = (Ok (f, p), s') \<Longrightarrow> pool_step ps s (Created p) s'"
| flushed: "flush_page (basic_disk_ops ps) wal_ops p s = (Ok (), s') \<Longrightarrow> pool_step ps s (Flushed p) s'"
| flushed_all: "flush_all_pages (basic_disk_ops ps) wal_ops s = (Ok (), s') \<Longrightarrow> pool_step ps s FlushedAll s'"
| logged: "log_mgr s = Some w \<Longrightarrow> next_lsn w \<noteq> - 1 \<Longrightarrow> length x < 2 ^ 32 \<Longrightarrow>
    append_record x w = (Ok n, w') \<Longrightarrow> pool_step ps s (Logged n x) (s\<lparr>log_mgr := Some w'\<rparr>)"

inductive pool_run :: "nat \<Rightarrow> pool \<Rightarrow> pool_event list \<Rightarrow> pool \<Rightarrow> bool" for ps s where
  start: "pool_run ps s [] s"
| further: "pool_run ps s es s1 \<Longrightarrow> pool_step ps s1 e s2 \<Longrightarrow> pool_run ps s (es @ [e]) s2"

definition write_event :: "(page_id \<Rightarrow> page) \<Rightarrow> pool_event \<Rightarrow> page_id \<Rightarrow> page" where
  "write_event v e = (case e of Updated p pg \<Rightarrow> v(p := pg) | _ \<Rightarrow> v)"

definition last_written :: "(page_id \<Rightarrow> page) \<Rightarrow> pool_event list \<Rightarrow> page_id \<Rightarrow> page" where
  "last_written = foldl write_event"

definition log_event :: "pool_event \<Rightarrow> log_record list" where
  "log_event e = (case e of Logged n x \<Rightarrow> [(n, x)] | _ \<Rightarrow> [])"

definition appended :: "pool_event list \<Rightarrow> log_record list" where
  "appended es = concat (map log_event es)"

text \<open>All records the log of a state knows of, in the file or in memory.\<close>

definition known_records :: "pool \<Rightarrow> log_record set" where
  "known_records s = (case log_mgr s of None \<Rightarrow> {} | Some w \<Rightarrow> set (wal_records w) \<union> set (log_buffer w))"

text \<open>A state in which every page was unpinned as the client changed it, with a sound log counter.\<close>

definition orderly :: "nat \<Rightarrow> pool \<Rightarrow> bool" where
  "orderly ps s \<longleftrightarrow> pool_inv ps s \<and> (\<forall>p. synced (basic_view ps) s p) \<and> (\<forall>w. log_mgr s = Some w \<longrightarrow> wal_space 0 w)"

lemma orderly_pool0: "orderly 16 (pool0 flt)"
  using pool0_inv(1,7) by (auto simp: orderly_def pool0_def new_with_log_manager_def wal_space_def)

subsection \<open>Every step keeps an orderly state and the expected pages and records\<close>

lemma known_records_kept:
  "log_kept wal_records log_buffer (log_mgr s) (log_mgr s') \<Longrightarrow> log_grows wal_records (log_mgr s) (log_mgr s') \<Longrightarrow>
    known_records s' = known_records s"
  by (cases "log_mgr s"; cases "log_mgr s'") (auto simp: known_records_def log_kept_def log_grows_def)

lemma known_records_safe:
  "log_safe wal_records log_buffer dv True s s' \<Longrightarrow> known_records s' = known_records s"
  by (rule known_records_kept) (simp_all add: log_safe_def)

lemma space_flushed:
  assumes "pool_inv ps s" and "\<forall>w. log_mgr s = Some w \<longrightarrow> wal_space n w"
    and "log_step wal_ops (log_mgr s) (log_mgr s')"
  shows "\<forall>w. log_mgr s' = Some w \<longrightarrow> wal_space n w"
  using assms bp_invD(4) [OF assms(1)] wal_space_flush by (auto simp: wal_ops_def log_step_def)

lemma space_flush_frames:
  assumes "pool_inv ps s" and "\<forall>f \<in> set fs. f < length (frames s)" and "\<forall>w. log_mgr s = Some w \<longrightarrow> wal_space n w"
    and "flush_frames (basic_disk_ops ps) wal_ops fs s = (Ok (), s')"
  shows "\<forall>w. log_mgr s' = Some w \<longrightarrow> wal_space n w"
  using assms
proof (induction fs arbitrary: s)
  case (Cons f fs)
  obtain r s1 where 1: "flush_frame_to_disk (basic_disk_ops ps) wal_ops f s = (r, s1)"
    by (cases "flush_frame_to_disk (basic_disk_ops ps) wal_ops f s")
  have r: "r = Ok ()" and rest: "flush_frames (basic_disk_ops ps) wal_ops fs s1 = (Ok (), s')"
    using Cons.prems(4) 1 by (cases r; simp)+
  have f: "f < length (frames s)" using Cons.prems(2) by simp
  show ?case
    by (rule Cons.IH [OF bp.flush_frame_Ok(4) [OF Cons.prems(1) f 1 [unfolded r]] _
          space_flushed [OF Cons.prems(1,3) flush_frame_step [OF 1]] rest])
       (use Cons.prems(2) bp.flush_frame_keeps(2) [OF Cons.prems(1) f 1] in simp)
qed simp

lemma pool_set_log:
  assumes "pool_inv ps s" and "wal_inv w"
  shows "pool_inv ps (s\<lparr>log_mgr := Some w\<rparr>)" and "pool_view ps (s\<lparr>log_mgr := Some w\<rparr>) = pool_view ps s"
    and "synced (basic_view ps) (s\<lparr>log_mgr := Some w\<rparr>) = synced (basic_view ps) s"
    and "pins (s\<lparr>log_mgr := Some w\<rparr>) = pins s" and "held (s\<lparr>log_mgr := Some w\<rparr>) = held s"
    and "bp_tracked (s\<lparr>log_mgr := Some w\<rparr>) = bp_tracked s"
proof -
  show "pool_view ps (s\<lparr>log_mgr := Some w\<rparr>) = pool_view ps s"
    and sy: "synced (basic_view ps) (s\<lparr>log_mgr := Some w\<rparr>) = synced (basic_view ps) s"
    and "pins (s\<lparr>log_mgr := Some w\<rparr>) = pins s" and h: "held (s\<lparr>log_mgr := Some w\<rparr>) = held s"
    and "bp_tracked (s\<lparr>log_mgr := Some w\<rparr>) = bp_tracked s"
    by (simp_all add: fun_eq_iff bview_def synced_def pins_def held_iff bp_tracked_def cong: option.case_cong)
  show "pool_inv ps (s\<lparr>log_mgr := Some w\<rparr>)"
    using assms unfolding bp_inv_def sy h by simp
qed

lemma pool_step_known:
  assumes "pool_step ps s e s'" and o: "orderly ps s"
  shows "known_records s' = known_records s \<union> set (log_event e)"
  using assms
proof (induction rule: pool_step.induct)
  case (fetched p s f s')
  then show ?case
    using known_records_safe [of "basic_view ps" s s'] bp.fetch_page_log [of ps s p "Ok f" s']
    by (simp add: orderly_def log_event_def)
next
  case (updated pg p s s')
  let ?s = "snd (fetch_page (basic_disk_ops ps) wal_ops p s)"
  have u: "pool_inv ps s" "update_page (basic_disk_ops ps) wal_ops p pg s = (Ok (), s')"
    using updated by (simp_all add: orderly_def)
  obtain r s1 where 1: "fetch_page (basic_disk_ops ps) wal_ops p s = (r, s1)"
    by (cases "fetch_page (basic_disk_ops ps) wal_ops p s")
  with u(2) have "is_ok r" by (cases r) (simp_all add: update_page_def)
  then have "known_records ?s = known_records s"
    using known_records_safe [of "basic_view ps" s ?s] bp.fetch_page_log [OF u(1) 1] 1 by simp
  moreover have "log_mgr s' = log_mgr ?s" using update_page_Ok [OF u(1) _ u(2)] updated.hyps(1) by simp
  ultimately show ?case by (simp add: known_records_def log_event_def)
next
  case (unpinned p dirty s s')
  then have "log_mgr s' = log_mgr s" by (auto simp: unpin_page_def Let_def split: if_splits option.splits)
  then show ?case by (simp add: known_records_def log_event_def)
next
  case (created fid s f p s')
  then show ?case
    using known_records_safe [of "basic_view ps" s s'] bp.new_page_log [of ps s fid "Ok (f, p)" s']
    by (simp add: orderly_def log_event_def)
next
  case (flushed p s s')
  then show ?case
    using known_records_safe [of "basic_view ps" s s'] bp.flush_page_log [of ps s p "Ok ()" s']
    by (simp add: orderly_def log_event_def)
next
  case (flushed_all s s')
  then show ?case
    using known_records_safe [of "basic_view ps" s s'] bp.flush_all_log [of ps s "Ok ()" s']
    by (simp add: orderly_def log_event_def)
next
  case (logged s w x n w')
  then show ?case by (auto simp: known_records_def log_event_def append_record_def wal_records_def)
qed

lemma pool_step_keeps:
  assumes "pool_step ps s e s'" and "orderly ps s"
  shows "orderly ps s' \<and> pool_view ps s' = write_event (pool_view ps s) e"
  using assms
proof (induction rule: pool_step.induct)
  case (fetched p s f s')
  then have o: "pool_inv ps s" "\<forall>p. synced (basic_view ps) s p" "\<forall>w. log_mgr s = Some w \<longrightarrow> wal_space 0 w"
    by (simp_all add: orderly_def)
  show ?case
    using bp.fetch_page_Ok [OF o(1) fetched.hyps] o(2) space_flushed [OF o(1,3) fetch_log_step [OF fetched.hyps]]
    by (simp add: orderly_def write_event_def)
next
  case (updated pg p s s')
  then have o: "pool_inv ps s" "\<forall>p. synced (basic_view ps) s p" "\<forall>w. log_mgr s = Some w \<longrightarrow> wal_space 0 w"
    by (simp_all add: orderly_def)
  note u = update_page_Ok [OF o(1) updated.hyps]
  have "log_step wal_ops (log_mgr s) (log_mgr s')"
    using fetch_log_step [of "basic_disk_ops ps" wal_ops p s] u by (metis prod.collapse)
  from space_flushed [OF o(1,3) this] show ?case using u o(2) by (simp add: orderly_def write_event_def)
next
  case (unpinned p dirty s s')
  then have o: "pool_inv ps s" "\<forall>p. synced (basic_view ps) s p" "\<forall>w. log_mgr s = Some w \<longrightarrow> wal_space 0 w"
    by (simp_all add: orderly_def)
  have "pins s p \<noteq> 0"
    using bp.unpin_page_zero [OF o(1), of p dirty] unpinned.hyps by (auto split: if_splits)
  from bp.unpin_page_Ok [OF o(1) this, of dirty] o(2) obtain s1 where
    "unpin_page p dirty s = (Ok (), s1)" "pool_inv ps s1" "pool_view ps s1 = pool_view ps s"
    "synced (basic_view ps) s1 = (synced (basic_view ps) s)(p := True)" "log_mgr s1 = log_mgr s" by blast
  with o unpinned.hyps show ?case by (simp add: orderly_def write_event_def)
next
  case (created fid s f p s')
  then have o: "pool_inv ps s" "\<forall>p. synced (basic_view ps) s p" "\<forall>w. log_mgr s = Some w \<longrightarrow> wal_space 0 w"
    by (simp_all add: orderly_def)
  show ?case
    using bp.new_page_Ok(2,4,7) [OF o(1) created.hyps] o(2) space_flushed [OF o(1,3) new_page_log_step [OF created.hyps]]
    by (simp add: orderly_def write_event_def)
next
  case (flushed p s s')
  then have o: "pool_inv ps s" "\<forall>p. synced (basic_view ps) s p" "\<forall>w. log_mgr s = Some w \<longrightarrow> wal_space 0 w"
    by (simp_all add: orderly_def)
  obtain f where f: "page_table s p = Some f" "flush_frame_to_disk (basic_disk_ops ps) wal_ops f s = (Ok (), s')"
    using flushed.hyps by (auto simp: flush_page_def split: option.splits)
  have fl: "f < length (frames s)" using bp_invD(6) [OF o(1)] f(1) by blast
  show ?case
    using bp.flush_frame_Ok(1,4) [OF o(1) fl f(2)] bp.flush_frame_view(1) [OF o(1) fl f(2)] o(2)
      space_flushed [OF o(1,3) flush_frame_step [OF f(2)]]
    by (simp add: orderly_def write_event_def)
next
  case (flushed_all s s')
  then have o: "pool_inv ps s" "\<forall>p. synced (basic_view ps) s p" "\<forall>w. log_mgr s = Some w \<longrightarrow> wal_space 0 w"
    by (simp_all add: orderly_def)
  have b: "\<forall>f \<in> set [0..<length (descriptors s)]. f < length (frames s)" using bp_invD(1) [OF o(1)] by simp
  note a = flushed_all.hyps [unfolded flush_all_pages_def]
  show ?case
    using bp.flush_frames_Ok [OF o(1) b a] space_flush_frames [OF o(1) b o(3) a] o(2)
    by (simp add: orderly_def write_event_def)
next
  case (logged s w x n w')
  then have o: "pool_inv ps s" "\<forall>p. synced (basic_view ps) s p" "wal_inv w" "flushed_lsn w < next_lsn w"
    using bp_invD(4) by (auto simp: orderly_def wal_space_def)
  have w': "wal_inv w'" using append_record_cases(2) [OF o(3) logged.hyps(2) o(4) logged.hyps(3)] logged.hyps(4) by simp
  have "next_lsn w < next_lsn w + 1" by (rule word_less_plus_one [OF logged.hyps(2)])
  then have "wal_space 0 w'"
    using logged.hyps(4) o(4) unsigned_less [of "next_lsn w'"] by (auto simp: append_record_def wal_space_def)
  then show ?case using pool_set_log [OF o(1) w'] o(2) by (simp add: orderly_def write_event_def)
qed

lemma pool_run_keeps:
  assumes "pool_run ps s es s'" and "orderly ps s"
  shows "orderly ps s' \<and> pool_view ps s' = last_written (pool_view ps s) es \<and>
    known_records s' = known_records s \<union> set (appended es)"
  using assms
proof (induction rule: pool_run.induct)
  case start
  then show ?case by (simp add: last_written_def appended_def)
next
  case (further es s1 e s2)
  then show ?case
    using pool_step_keeps [OF further.hyps(2)] pool_step_known [OF further.hyps(2)]
    by (auto simp: last_written_def appended_def)
qed

subsection \<open>Read your writes\<close>

text \<open>
  C14: Read your writes: after any run of the clients, in which pages may be fetched and held,
  overwritten, unpinned, created and flushed in any order and evicted and read again as often as
  the frames require, a fetch of page \<open>q\<close> returns what was last written to \<open>q\<close>, or what the pool
  showed at the start if \<open>q\<close> was never written. The run starts in a state without unmarked
  changes, and every call in it returned without an error.
\<close>

theorem read_your_writes:
  assumes "orderly ps s" and "pool_run ps s es s1"
    and "fetch_page (basic_disk_ops ps) wal_ops q s1 = (Ok f, s2)"
  shows "fst (read_frame f s2) = Ok (last_written (pool_view ps s) es q) \<and> orderly ps s2"
proof -
  have r: "orderly ps s1" "pool_view ps s1 = last_written (pool_view ps s) es"
    using pool_run_keeps [OF assms(2,1)] by blast+
  have inv: "pool_inv ps s1" using r(1) by (simp add: orderly_def)
  note f = bp.fetch_page_Ok [OF inv assms(3)]
  have "f < length (frames s2)" using bp_invD(6) [OF f(1)] f(2) by blast
  moreover have "frames s2 ! f = pool_view ps s1 q"
    using fun_cong [OF f(3), of q] f(2) by (simp add: bview_def [of _ s2])
  moreover have "orderly ps s2" using pool_step_keeps [OF pool_step.fetched [OF assms(3)] r(1)] by blast
  ultimately show ?thesis by (simp add: read_frame_def r(2))
qed

lemma idle_update:
  assumes o: "orderly ps s" and h: "pool_healthy s" and tr: "bp_tracked s" and idle: "\<forall>q. \<not> held s q" "\<forall>q. pins s q = 0"
    and n: "0 < length (frames s)" and len: "length pg = ps"
  obtains s' where "update_page (basic_disk_ops ps) wal_ops p pg s = (Ok (), s')" "orderly ps s'" "pool_healthy s'"
    "bp_tracked s'" "\<forall>q. \<not> held s' q" "\<forall>q. pins s' q = 0" "length (frames s') = length (frames s)"
    "page_table s' p \<noteq> None"
proof -
  have inv: "pool_inv ps s" using o by (simp add: orderly_def)
  have room: "held s p \<or> card {q. held s q} < length (frames s)" and small: "pins s p \<noteq> - 1" using idle n by simp_all
  from update_page_progress [OF inv h tr room len small] obtain s' where
    s': "update_page (basic_disk_ops ps) wal_ops p pg s = (Ok (), s')" "pool_healthy s'" "bp_tracked s'"
      "length (frames s') = length (frames s)" "page_table s' p \<noteq> None" by blast
  have "orderly ps s'" using pool_step_keeps [OF pool_step.updated [OF len s'(1)] o] by blast
  moreover have "\<forall>q. \<not> held s' q" "\<forall>q. pins s' q = 0"
    using update_page_Ok [OF inv len s'(1)] idle by simp_all
  ultimately show thesis using that s' by blast
qed

text \<open>The witness has one frame: writing page 1 evicts page 0, and fetching page 0 evicts page 1.\<close>

theorem read_your_writes_witness:
  "\<exists>s1 f s2. pool_run 16 (pool0 []) [Updated \<lparr>file_id = 1, page_num = 0\<rparr> (1 # replicate 15 0),
      Updated \<lparr>file_id = 1, page_num = 1\<rparr> (2 # replicate 15 0)] s1 \<and> page_table s1 \<lparr>file_id = 1, page_num = 0\<rparr> = None \<and>
    fetch_page (basic_disk_ops 16) wal_ops \<lparr>file_id = 1, page_num = 0\<rparr> s1 = (Ok f, s2) \<and>
    fst (read_frame f s2) = Ok (1 # replicate 15 0)"
proof -
  let ?p = "\<lparr>file_id = 1, page_num = 0\<rparr>" and ?q = "\<lparr>file_id = 1, page_num = 1\<rparr>"
  let ?es = "[Updated ?p (1 # replicate 15 0), Updated ?q (2 # replicate 15 0)]"
  have len: "length (1 # replicate 15 0 :: page) = 16" "length (2 # replicate 15 0 :: page) = 16" by simp_all
  have idle: "\<forall>q. \<not> held (pool0 []) q" "\<forall>q. pins (pool0 []) q = 0" "0 < length (frames (pool0 []))"
    by (simp_all add: pool0_inv(5,6,8))
  obtain a where a: "update_page (basic_disk_ops 16) wal_ops ?p (1 # replicate 15 0) (pool0 []) = (Ok (), a)"
    "orderly 16 a" "pool_healthy a" "bp_tracked a" "\<forall>q. \<not> held a q" "\<forall>q. pins a q = 0"
    "length (frames a) = length (frames (pool0 []))"
    by (rule idle_update [OF orderly_pool0 pool0_inv(4,2) idle len(1)])
  have "0 < length (frames a)" using a(7) idle(3) by simp
  from idle_update [OF a(2-6) this len(2)] obtain b where
    b: "update_page (basic_disk_ops 16) wal_ops ?q (2 # replicate 15 0) a = (Ok (), b)" "orderly 16 b" "pool_healthy b"
      "bp_tracked b" "\<forall>q. \<not> held b q" "length (frames b) = length (frames a)" "page_table b ?q \<noteq> None" by metis
  have run: "pool_run 16 (pool0 []) ?es b"
    using pool_run.further [OF pool_run.further [OF pool_run.start pool_step.updated [OF len(1) a(1)]]
        pool_step.updated [OF len(2) b(1)]] by simp
  have inv: "pool_inv 16 b" using b(2) by (simp add: orderly_def)
  have one: "length (frames b) = 1" using a(7) b(6) by (simp add: pool0_inv(8))
  have gone: "page_table b ?p = None"
  proof (rule ccontr)
    assume "page_table b ?p \<noteq> None"
    then obtain f g where "page_table b ?p = Some f" "page_table b ?q = Some g" using b(7) by blast
    moreover from this have "f = 0" "g = 0" using bp_invD(6) [OF inv] one by fastforce+
    ultimately have "?p = ?q" using page_table_inj [OF inv] by metis
    then show False by simp
  qed
  have "card {q. held b q} < length (frames b)" using b(5) one by simp
  then obtain f c where f: "fetch_page (basic_disk_ops 16) wal_ops ?p b = (Ok f, c)"
    using all_pinned_held [OF inv] bp.fetch_page_progress [OF inv b(3,4), of ?p] by fastforce
  have "fst (read_frame f c) = Ok (last_written (pool_view 16 (pool0 [])) ?es ?p)"
    using read_your_writes [OF orderly_pool0 run f] by blast
  with run gone f show ?thesis by (fastforce simp: last_written_def write_event_def)
qed

subsection \<open>The write-ahead rule\<close>

text \<open>
  C12: Write-ahead logging, over the history of the log. Take any run in which no call failed, from
  any orderly state, and then one more call that may evict or flush pages, whatever its outcome.
  If it changes page \<open>q\<close> on disk, then every record that was in the log at the start or was appended
  during the run, with an LSN up to the LSN of page \<open>q\<close>, is in the log file, and a restart of the
  log reads its payload back.
\<close>

theorem wal_before_data:
  assumes "orderly ps s0" and "pool_run ps s0 es s"
    and "s' = snd (fetch_page (basic_disk_ops ps) wal_ops p s) \<or>
      s' = snd (new_page (basic_disk_ops ps) wal_ops fid s) \<or>
      s' = snd (flush_page (basic_disk_ops ps) wal_ops p s) \<or>
      s' = snd (flush_all_pages (basic_disk_ops ps) wal_ops s)"
    and "basic_view ps (disk s') q \<noteq> basic_view ps (disk s) q"
    and "(n, x) \<in> known_records s0 \<union> set (appended es)"
    and "n \<le> get_lsn (last_written (pool_view ps s0) es q)"
  shows "\<exists>w payloads. log_mgr s' = Some w \<and> (n, x) \<in> set (wal_records w) \<and>
    recover_log (wal_file w) = Ok payloads \<and> x \<in> set payloads"
proof -
  have r: "orderly ps s" "pool_view ps s = last_written (pool_view ps s0) es" "(n, x) \<in> known_records s"
    using pool_run_keeps [OF assms(2,1)] assms(5) by blast+
  have inv: "pool_inv ps s" using r(1) by (simp add: orderly_def)
  have "\<exists>good. log_safe wal_records log_buffer (basic_view ps) good s s'"
    using assms(3) bp.fetch_page_log [OF inv, of p] bp.new_page_log [OF inv, of fid] bp.flush_page_log [OF inv, of p]
      bp.flush_all_log [OF inv] by (metis prod.collapse)
  then obtain good where safe: "log_safe wal_records log_buffer (basic_view ps) good s s'" by blast
  then have stored: "log_stored wal_records log_buffer (get_lsn (pool_view ps s q)) (log_mgr s) (log_mgr s')"
    using assms(4) by (simp add: log_safe_def)
  obtain v where v: "log_mgr s = Some v" using r(3) by (cases "log_mgr s") (simp_all add: known_records_def)
  then obtain w where w: "log_mgr s' = Some w" using safe by (auto simp: log_safe_def log_grows_def)
  have "(n, x) \<in> set (wal_records w)"
    using stored r(3) assms(6) by (auto simp: log_stored_def known_records_def v w r(2))
  moreover from this have "x \<in> set (map snd (wal_records w))" by force
  ultimately show ?thesis using w recover_log_eq [of "wal_file w"] by (auto simp: wal_records_def)
qed

text \<open>
  The witness appends a record, gives the page the LSN of that record and flushes the page: the
  record pending at the start and the new one are both recovered.
\<close>

theorem wal_before_data_witness:
  "\<exists>s s' w payloads. pool_run 16 (pool0 []) [Logged 2 [5], Updated \<lparr>file_id = 1, page_num = 0\<rparr> (2 # replicate 15 0)] s \<and>
    flush_page (basic_disk_ops 16) wal_ops \<lparr>file_id = 1, page_num = 0\<rparr> s = (Ok (), s') \<and>
    basic_view 16 (disk s') \<lparr>file_id = 1, page_num = 0\<rparr> = 2 # replicate 15 0 \<and>
    log_mgr s' = Some w \<and> recover_log (wal_file w) = Ok payloads \<and> [9] \<in> set payloads \<and> [5] \<in> set payloads"
proof -
  let ?p = "\<lparr>file_id = 1, page_num = 0\<rparr>" and ?pg = "2 # replicate 15 0 :: page"
  let ?es = "[Logged 2 [5], Updated ?p ?pg]"
  let ?w = "\<lparr>wal_file = [], wal_faults = [], flushed_lsn = 0, next_lsn = 3, log_buffer = [(1, [9]), (2, [5])]\<rparr>"
  let ?t = "(pool0 [])\<lparr>log_mgr := Some ?w\<rparr>"
  note unf = pool0_def new_with_log_manager_def new_descriptor_def
  have step: "pool_step 16 (pool0 []) (Logged 2 [5]) ?t"
    by (rule pool_step.logged [where w = "the (log_mgr (pool0 []))"]) (simp_all add: unf append_record_def)
  have t: "orderly 16 ?t" using pool_step_keeps [OF step orderly_pool0] by blast
  have w: "wal_inv ?w" by (auto simp: wal_inv_def intro: exI [of _ "[]"])
  have h: "pool_healthy ?t" using pool0_inv(4) by (simp add: bp_healthy_def wal_healthy_def)
  note keep = pool_set_log [OF pool0_inv(1) w]
  have idle: "\<forall>q. \<not> held ?t q" "\<forall>q. pins ?t q = 0" "0 < length (frames ?t)" "bp_tracked ?t" "length ?pg = 16"
    by (simp_all add: keep pool0_inv(2,5,6,8))
  obtain s where s: "update_page (basic_disk_ops 16) wal_ops ?p ?pg ?t = (Ok (), s)" "orderly 16 s" "pool_healthy s"
    "page_table s ?p \<noteq> None"
    by (rule idle_update [OF t h idle(4,1,2,3,5)])
  have run: "pool_run 16 (pool0 []) ?es s"
    using pool_run.further [OF pool_run.further [OF pool_run.start step] pool_step.updated [OF idle(5) s(1)]] by simp
  have inv: "pool_inv 16 s" and sy: "synced (basic_view 16) s ?p" and inv_t: "pool_inv 16 ?t"
    using s(2) t by (simp_all add: orderly_def)
  have view: "pool_view 16 s ?p = ?pg" using pool_run_keeps [OF run orderly_pool0] by (simp add: last_written_def write_event_def)
  have "\<forall>f < length (frames ?t). \<not> is_dirty (descriptors ?t ! f)" by (simp add: unf)
  from bp.fetch_clean_disk [OF inv_t this, of ?p] have before: "basic_view 16 (disk s) ?p = replicate 16 0"
    using update_page_Ok [OF inv_t idle(5) s(1)] pool0_inv(3) [of "[]" ?p]
    by (simp add: unf bview_def) (metis prod.collapse)
  obtain f where f: "page_table s ?p = Some f" using s(4) by blast
  have fl: "f < length (frames s)" using bp_invD(6) [OF inv] f by blast
  obtain r s' where fr: "flush_frame_to_disk (basic_disk_ops 16) wal_ops f s = (r, s')"
    by (cases "flush_frame_to_disk (basic_disk_ops 16) wal_ops f s")
  have r: "r = Ok ()" using bp.flush_frame_healthy [OF inv fl fr s(3)] by blast
  have fp: "flush_page (basic_disk_ops 16) wal_ops ?p s = (Ok (), s')" using f fr r by (simp add: flush_page_def)
  have after: "basic_view 16 (disk s') ?p = ?pg"
    using bp.flush_frame_Ok(3) [OF inv fl fr [unfolded r] f sy] view f by (simp add: bview_def)
  have "?pg \<noteq> replicate 16 0" by (simp add: numeral_eq_Suc)
  then have neq: "basic_view 16 (disk s') ?p \<noteq> basic_view 16 (disk s) ?p" unfolding after before .
  have lsn: "get_lsn (last_written (pool_view 16 (pool0 [])) ?es ?p) = 2"
    by (simp add: last_written_def write_event_def) code_simp
  have recs: "(1, [9]) \<in> known_records (pool0 []) \<union> set (appended ?es)" "(2, [5]) \<in> known_records (pool0 []) \<union> set (appended ?es)"
    by (simp_all add: known_records_def unf appended_def log_event_def)
  have s': "s' = snd (flush_page (basic_disk_ops 16) wal_ops ?p s)" by (simp add: fp)
  note rule = wal_before_data [OF orderly_pool0 run _ neq, unfolded lsn, of ?p 0]
  from rule [OF _ recs(1)] rule [OF _ recs(2)] s' run fp after show ?thesis by fastforce
qed

text \<open>
  Why no call may have failed: when the log flush of \<open>flush_page\<close> fails, its records leave the
  memory buffer all the same, and a second \<open>flush_page\<close> finds nothing to flush and writes the page,
  although the log file still is what the failed flush left.
\<close>

lemma retry_after_failed_log_flush:
  assumes inv: "pool_inv ps s" and f: "page_table s p = Some f" "is_dirty (descriptors s ! f)"
    and l: "log_mgr s = Some w" and fail: "flush_up_to (get_lsn (frames s ! f)) w = (Err e, w1)"
    and wr: "write_page ps p (frames s ! f) (disk s) = (Ok (), d)"
  shows "\<exists>s1 s2. flush_page (basic_disk_ops ps) wal_ops p s = (Err e, s1) \<and>
    flush_page (basic_disk_ops ps) wal_ops p s1 = (Ok (), s2) \<and>
    basic_view ps (disk s2) p = pool_view ps s p \<and> log_mgr s2 = Some w1 \<and>
    log_buffer w1 = filter (\<lambda>(n, _). get_lsn (frames s ! f) < n) (log_buffer w)"
proof -
  let ?lsn = "get_lsn (frames s ! f)" and ?s1 = "s\<lparr>log_mgr := Some w1\<rparr>"
  have fl: "f < length (frames s)" "length (descriptors s) = length (frames s)" "fd_page (descriptors s ! f) = Some p"
    using bp_invD(1,6) [OF inv] f(1) by auto
  have w: "wal_inv w" using bp_invD(4) [OF inv] l by blast
  note a = flush_up_to_any(2) [OF fail w refl]
  then have "filter (\<lambda>(n, _). n \<le> ?lsn) (log_buffer w1) = []" "filter (\<lambda>(n, _). ?lsn < n) (log_buffer w1) = log_buffer w1"
    by (auto simp: filter_empty_conv intro!: filter_True)
  with a have again: "flush_up_to ?lsn w1 = (Ok (), w1)" by (simp add: flush_up_to_def drain_up_to_eq)
  have 1: "flush_page (basic_disk_ops ps) wal_ops p s = (Err e, ?s1)"
    using f l fl fail by (simp add: flush_page_def flush_frame_to_disk_def flush_log_def wal_ops_def)
  have 2: "flush_page (basic_disk_ops ps) wal_ops p ?s1 =
      (Ok (), upd_desc f (\<lambda>desc. desc\<lparr>is_dirty := False\<rparr>) (?s1\<lparr>disk := d\<rparr>))"
    using f fl again wr
    by (simp add: flush_page_def flush_frame_to_disk_def flush_log_def wal_ops_def basic_disk_ops_def)
  have "basic_view ps d p = pool_view ps s p"
    using write_page_cases(6) [OF wr bp_invD(3) [OF inv] bp_invD(5) [OF inv fl(1)]] f(1) by (simp add: bview_def)
  with 1 2 a show ?thesis by simp
qed

end
