(* ===== verification/Spec2Isabelle.thy ===== *)
theory Spec2Isabelle
  imports Commands Pool_Run
begin

text \<open>
  A model of WackDB, a relational database engine in Rust (\<open>src/crates\<close>), with the theorems that
  make it correct.

  \<^bold>\<open>The program.\<close> A statement is parsed (\<open>wackdb_sql\<close>) and handed to a command
  (\<open>wackdb_cli/src/commands\<close>). The commands find a table in the catalog (\<open>wackdb_catalog\<close>), which
  gives it a heap file of slotted pages (\<open>wackdb_page\<close>) and an index file, a B+ tree on the first
  column (\<open>wackdb_btree\<close>). Pages are reached through a buffer pool (\<open>wackdb_buffer\<close>) that keeps some
  of them in frames, evicts frames by the LRU policy, reads and writes pages through a disk manager
  (\<open>wackdb_storage\<close>) and flushes the write-ahead log (\<open>wackdb_wal\<close>) up to the LSN of a page before it
  writes the page. The rule holds as long as no call fails: a failed flush loses its records, and the
  next one lets the page pass without them (\<open>Pool_Run\<close>). The rule is about the LSN in the page header,
  which \<open>DELETE\<close> sets and \<open>INSERT\<close> leaves as it is. Rows are stored in a binary format (\<open>wackdb_tuple\<close>). A
  \<open>SELECT\<close> becomes a pipeline of operators (\<open>wackdb_query\<close>) over a scan of the heap or of the index.

  \<^bold>\<open>The theories\<close>, in the order of their dependencies:

  \<^item> \<open>Prelude\<close>: results (\<open>Ok\<close>, \<open>Err\<close>, \<open>Panic\<close>), actions on a state that may not return, little-endian
    byte buffers, slices, the binary search of the standard library.
  \<^item> \<open>Page\<close>: \<open>SlottedPage\<close> on the raw bytes (\<open>page.rs\<close>, \<open>header.rs\<close>, \<open>slot.rs\<close>) and the readers of
    \<open>wackdb_query/src/lib.rs\<close>. Page invariant, insertion, deletion.
  \<^item> \<open>Tuple\<close>: values, schemas and the row format (\<open>tuple.rs\<close>, \<open>value.rs\<close>, \<open>schema.rs\<close>). Round trip,
    typing of what arbitrary bytes decode to, errors.
  \<^item> \<open>Storage\<close>: identifiers, the trait \<open>DiskManager\<close> (locale \<open>disk_manager\<close>) and
    \<open>BasicDiskManager\<close> over a map of files in which every system call may fail.
  \<^item> \<open>Lru\<close>: the trait \<open>ReplacementPolicy\<close> (locale \<open>replacement_policy\<close>) and \<open>LRUReplacer\<close>, with the
    event history as the reference.
  \<^item> \<open>Log_Manager\<close>, \<open>Wal\<close>: the trait \<open>LogManager\<close> (locale \<open>log_manager\<close>) and \<open>DiskLogManager\<close>;
    crash recovery of the log file.
  \<^item> \<open>Buffer_Pool\<close>, \<open>Buffer_Pool_Laws\<close>, \<open>Buffer_Pool_Drop\<close>, \<open>Buffer_Pool_Spec\<close>: \<open>BufferPoolManager\<close>
    over any disk and log manager (locale \<open>buffer_pool\<close>), and its interpretation over
    \<open>BasicDiskManager\<close> and \<open>DiskLogManager\<close>: what clients see of the pages (\<open>bview\<close>), durability,
    progress, errors.
  \<^item> \<open>Pool_Run\<close>: runs of the clients of the pool as a step relation on observable events: what was
    last written is read back through any evictions, and the write-ahead rule over the history of the log.
  \<^item> \<open>Pager\<close>: what the clients of the pool rely on (locale \<open>page_pool\<close>).
  \<^item> \<open>BTree_Node\<close>, \<open>BTree\<close>: \<open>node.rs\<close>, \<open>tree.rs\<close>. \<open>BTree_Rep\<close>, \<open>BTree_Laws\<close>, \<open>BTree_Range\<close>,
    \<open>BTree_Insert\<close>, \<open>BTree_Grow\<close>, \<open>BTree_Map\<close>, \<open>BTree_Delete\<close>: the abstract search tree behind the
    pages, the representation relation, and total correctness of every operation of the trait \<open>Index\<close>.
  \<^item> \<open>Index_Pool\<close>, \<open>Index_Spec\<close>: every \<open>buffer_pool\<close> is a \<open>page_pool\<close>; an index over the whole stack is
    a finite map.
  \<^item> \<open>Where_Clause\<close>: \<open>executor/predicate.rs\<close> and the reference meaning of a clause.
  \<^item> \<open>Executor\<close>, \<open>Joins\<close>, \<open>External_Sort\<close>, \<open>Sort_Laws\<close>: the trait \<open>Executor\<close> (locale \<open>executor\<close>) and
    its operators \<open>Select\<close>, \<open>Project\<close>, \<open>NestedLoopJoin\<close>, \<open>HashJoin\<close>, \<open>ExternalMergeSort\<close>.
  \<^item> \<open>Scans\<close>: \<open>SeqScan\<close>, \<open>IndexScan\<close> and \<open>Optimizer\<close> over any page pool.
  \<^item> \<open>Catalog\<close>: the catalog and its file, with failing system calls.
  \<^item> \<open>Text\<close>, \<open>Sql\<close>, \<open>Sql_Parser\<close>: strings as UTF-8 bytes, the statements, and the parser
    (\<open>wackdb_sql/src/parser.rs\<close>), whose slices may panic. \<open>Sql_Words\<close>, \<open>Sql_Conditions\<close>, \<open>Sql_Print\<close>,
    \<open>Sql_Round_Trip\<close>, \<open>Sql_Spec\<close>: a printer for statements, and the parser as its inverse.
  \<^item> \<open>Query_Plan\<close>, \<open>Query_Laws\<close>, \<open>Query_Spec\<close>: \<open>commands/query.rs\<close>, and what a
    \<open>SELECT\<close> over a table with a fitting index returns (locale \<open>table_pool\<close>).
  \<^item> \<open>Dml\<close>: \<open>commands/dml.rs\<close> and \<open>commands/ddl.rs\<close>. \<open>Table_Inv\<close>, \<open>Dml_Laws\<close>, \<open>Delete_Laws\<close>: the
    invariant of a table, and insertion and deletion of rows over any store of pages with a log
    (locales \<open>heap_store\<close>, \<open>row_store\<close>).
  \<^item> \<open>Table_Pool\<close>, \<open>Db_Spec\<close>: the pool with its log is such a store (locale \<open>logged_pool\<close>, interpreted
    on the whole stack); \<open>INSERT\<close>, \<open>DELETE\<close>, \<open>SELECT\<close> and \<open>CREATE TABLE\<close> as operations on lists of rows.
  \<^item> \<open>Commands\<close>: \<open>commands/mod.rs\<close>, from the text of a statement to the rows of its table.

  \<^bold>\<open>Abstractions.\<close> From the bottom up: a file system of byte lists is a map from pages to contents
  (\<open>basic_view\<close>), the log is the list of durable and the list of pending records (\<open>wal_records\<close>,
  \<open>log_buffer\<close>), the pool is a map from pages to contents with pin counts (\<open>bview\<close>), an index is a
  finite map from keys to places (\<open>index_holds\<close>), a table is a list of rows (\<open>table_holds\<close>), a query
  returns a list of rows (\<open>query_on\<close>). Each layer is proved against the contract of the layer below,
  stated as a locale, and every locale is interpreted on the model of the code that provides it.

  \<^bold>\<open>Bounds.\<close> Machine integers wrap at their width. Theorems that need room say so: pin counts and page
  numbers below \<open>2 ^ 32\<close>, LSNs below \<open>2 ^ 64\<close> (\<open>log_room\<close>), pages of fewer than 65536 bytes that hold
  at least a few keys per node, files that can grow (\<open>files_room\<close>), and frames that are free to pin
  (\<open>index_room\<close>, \<open>db_room\<close>). There is no fuel: loops that read pages are \<open>partial_function (option)\<close>,
  whose value \<open>None\<close> is "does not return", and the theorems about them are of total correctness: the
  loop returns \<open>Some\<close> result. Witnesses run the model on concrete states, with a pool, a log file and
  a disk of small pages.

  \<^bold>\<open>Not modelled.\<close>

  \<^item> Concurrency: one client at a time; latches, the retry after losing the race for a new root of an
    index, poisoned mutexes and the background checkpointer thread of \<open>main.rs\<close> are left out.
  \<^item> The text of what the commands print, the terminal interface (\<open>ui.rs\<close>, \<open>state.rs\<close>), the
    commands of \<open>commands/meta.rs\<close>, the web server (\<open>wackdb_web\<close>), the benchmarks and tests.
  \<^item> The startup of \<open>main.rs\<close>: index rebuild and replay of the log.
  \<^item> \<open>get_hit_rate\<close> (a float) of the pool and the JSON rendering of rows; the JSON library of the
    catalog and \<open>str::to_uppercase\<close> are parameters.
  \<^item> \<open>wackdb_cli/src/parser.rs\<close>, an older lexer and parser that no module of the program includes.
\<close>

end
